(* ===== verification/Prelude.thy ===== *)
theory Prelude
  imports Main "HOL-Library.Word" "HOL-Library.Signed_Division"
begin

text \<open>
  Shared vocabulary of the development: the names the C++ sources use for machine types
  (\<^verbatim>\<open>src/utils/misc.h\<close>), in-place writes to byte arrays, C integer conversion and
  division, and the generic list lemmas the component theories rely on.  Two collections
  of facts are used throughout: \<open>heap_simps\<close> holds the equations that evaluate store
  operations, \<open>contract_simps\<close> the equations that describe an operation by the abstract
  value it represents.
\<close>

named_theorems heap_simps
named_theorems contract_simps

type_synonym byte = "8 word"
type_synonym fd = nat

section \<open>Byte arrays\<close>

definition bytes_of_string :: "string \<Rightarrow> byte list" where
  "bytes_of_string s = map of_char s"

text \<open>\<open>memcpy (dst + off, src, length src)\<close> on an array held as a list.\<close>

definition memcpy_at :: "'a list \<Rightarrow> nat \<Rightarrow> 'a list \<Rightarrow> 'a list" where
  "memcpy_at dst off src = take off dst @ src @ drop (off + length src) dst"

lemma length_memcpy_at [simp]:
  "off + length src \<le> length dst \<Longrightarrow> length (memcpy_at dst off src) = length dst"
  by (simp add: memcpy_at_def)

lemma take_memcpy_at:
  "off + length src \<le> length dst \<Longrightarrow> take (off + length src) (memcpy_at dst off src) = take off dst @ src"
  by (simp add: memcpy_at_def)

lemma memcpy_at_nil [simp]: "memcpy_at dst off [] = dst"
  by (simp add: memcpy_at_def)

section \<open>C integers\<close>

text \<open>The value an \<open>int\<close> parameter receives from a \<open>size_t\<close> argument.\<close>

definition int_of_size :: "nat \<Rightarrow> int" where
  "int_of_size n = sint (word_of_nat n :: 32 word)"

text \<open>The value a \<open>size_t\<close> receives from an \<open>int\<close>.\<close>

definition size_of_int :: "int \<Rightarrow> nat" where
  "size_of_int i = unat (word_of_int i :: 64 word)"

lemma int_of_size_small:
  assumes "n < 2 ^ 31"
  shows "int_of_size n = int n"
proof -
  have u: "uint (word_of_nat n :: 32 word) = int n"
    using assms by (simp add: uint_nat unat_of_nat take_bit_nat_eq_self)
  have "int n < 2 ^ 31"
    using assms by (metis of_nat_less_iff of_nat_numeral of_nat_power)
  then show ?thesis
    by (simp add: int_of_size_def sint_uint u signed_take_bit_int_eq_self)
qed

lemma size_of_int_nat: "n < 2 ^ 64 \<Longrightarrow> size_of_int (int n) = n"
  by (simp add: size_of_int_def unat_of_nat take_bit_nat_eq_self)

lemma sdiv_nonneg: "0 \<le> a \<Longrightarrow> 0 < b \<Longrightarrow> a sdiv b = a div (b :: int)"
  by (cases "a = 0") (simp_all add: signed_divide_int_def)

lemma smod_nonneg: "0 \<le> a \<Longrightarrow> 0 < b \<Longrightarrow> a smod b = a mod (b :: int)"
  by (cases "a = 0") (simp_all add: signed_modulo_int_def)

section \<open>Lists\<close>

lemma concat_map_length_const:
  "\<forall>x \<in> set xs. length (f x) = n \<Longrightarrow> length (concat (map f xs)) = n * length xs"
  by (induction xs) auto

lemma concat_map_snoc:
  assumes "xs \<noteq> []"
  shows "concat (map f xs) = concat (map f (butlast xs)) @ f (last xs)"
proof -
  have "xs = butlast xs @ [last xs]" using assms by simp
  then have "concat (map f xs) = concat (map f (butlast xs @ [last xs]))" by simp
  then show ?thesis by simp
qed

end
