(* ===== verification/Mempool.thy ===== *)
theory Mempool
  imports Prelude
begin

text \<open>
  The fixed-size object pool of \<^verbatim>\<open>src/utils/mempool.h\<close> and \<^verbatim>\<open>src/utils/mempool.cc\<close>.
  Addresses are integers.  \<open>mmap\<close> and \<open>malloc\<close> are parameters.  A write outside the
  free-stack array is the value \<open>None\<close>.
\<close>

unbundle bit_operations_syntax

section \<open>The pool\<close>

definition align_size :: "int \<Rightarrow> int \<Rightarrow> int" where
  "align_size x msk = (x + msk) AND (NOT msk)"

definition kChunkMask :: int where "kChunkMask = 0x3FFF"

definition kBlockMask :: int where "kBlockMask = 0x000F"

record mempool =
  blk_ptr :: int
  blk_size :: nat
  free_stack :: "int list"
  free_stack_size :: nat
  obj_size :: nat

definition MemoryPoolBase :: "(nat \<Rightarrow> int) \<Rightarrow> nat \<Rightarrow> mempool" where
  "MemoryPoolBase mmap sz =
    (let n = nat (align_size (int sz) kChunkMask); p = mmap n
     in \<lparr>blk_ptr = p, blk_size = (if p = 0 \<or> p < 0 then 0 else n), free_stack = [], free_stack_size = 0, obj_size = 0\<rparr>)"

definition initialize :: "mempool \<Rightarrow> nat \<Rightarrow> mempool" where
  "initialize p sz =
    (let n = nat (align_size (int sz) kBlockMask); p' = p\<lparr>obj_size := n\<rparr>
     in if blk_ptr p = 0 then p'
        else let k = blk_size p div n
             in p'\<lparr>free_stack_size := k, free_stack := map (\<lambda>i. blk_ptr p + int (i * n)) [0..<k]\<rparr>)"

definition is_inside_pool :: "mempool \<Rightarrow> int \<Rightarrow> bool" where
  "is_inside_pool p ptr = (if ptr < blk_ptr p \<or> ptr \<ge> blk_ptr p + int (blk_size p) then False else True)"

definition base_alloc_object :: "mempool \<Rightarrow> int option \<times> mempool" where
  "base_alloc_object p =
    (if free_stack_size p > 0
     then (Some (free_stack p ! (free_stack_size p - 1)), p\<lparr>free_stack_size := free_stack_size p - 1\<rparr>)
     else (None, p))"

definition base_free_object :: "mempool \<Rightarrow> int \<Rightarrow> mempool option" where
  "base_free_object p ptr =
    (if free_stack_size p < length (free_stack p)
     then Some (p\<lparr>free_stack := (free_stack p)[free_stack_size p := ptr], free_stack_size := free_stack_size p + 1\<rparr>)
     else None)"

text \<open>\<open>MemoryPool<LockPolicy>\<close>: the pool first, the heap when it is exhausted.\<close>

definition alloc_object :: "int \<Rightarrow> mempool \<Rightarrow> int \<times> mempool" where
  "alloc_object malloc p = (case base_alloc_object p of (None, p') \<Rightarrow> (malloc, p') | (Some ptr, p') \<Rightarrow> (ptr, p'))"

definition free_object :: "mempool \<Rightarrow> int \<Rightarrow> mempool option" where
  "free_object p ptr = (if is_inside_pool p ptr then base_free_object p ptr else Some p)"

section \<open>Alignment\<close>

lemma align_size_mask: "align_size x (mask k) = (x + mask k) div 2 ^ k * 2 ^ k"
proof -
  have "(x + mask k) AND NOT (mask k) = push_bit k (drop_bit k (x + mask k))"
    by (rule bit_eqI) (auto simp: bit_simps)
  then show ?thesis by (simp add: align_size_def push_bit_eq_mult drop_bit_eq_div)
qed

lemma kBlockMask_mask: "kBlockMask = mask 4"
  by (simp add: kBlockMask_def mask_eq_exp_minus_1)

lemma kChunkMask_mask: "kChunkMask = mask 14"
  by (simp add: kChunkMask_def mask_eq_exp_minus_1)

lemma align_size_bounds:
  assumes "0 < k"
  shows "x \<le> align_size x (mask k)" "align_size x (mask k) < x + 2 ^ k" "2 ^ k dvd align_size x (mask k)"
proof -
  have m: "mask k = (2 ^ k - 1 :: int)" by (simp add: mask_eq_exp_minus_1)
  have e: "align_size x (mask k) = (x + mask k) - (x + mask k) mod 2 ^ k"
    by (simp add: align_size_mask minus_mod_eq_div_mult)
  have r: "0 \<le> (x + mask k) mod 2 ^ k" "(x + mask k) mod 2 ^ k < 2 ^ k" by simp_all
  show "x \<le> align_size x (mask k)" "align_size x (mask k) < x + 2 ^ k"
    using r m e by linarith+
  show "2 ^ k dvd align_size x (mask k)" by (simp add: align_size_mask)
qed

section \<open>Invariant\<close>

definition slots :: "mempool \<Rightarrow> int set" where
  "slots p = (\<lambda>i. blk_ptr p + int (i * obj_size p)) ` {0..<length (free_stack p)}"

definition pool_ok :: "mempool \<Rightarrow> int set \<Rightarrow> bool" where
  "pool_ok p live \<longleftrightarrow> 0 < obj_size p \<and> length (free_stack p) * obj_size p \<le> blk_size p \<and>
     free_stack_size p \<le> length (free_stack p) \<and> distinct (take (free_stack_size p) (free_stack p)) \<and>
     set (take (free_stack_size p) (free_stack p)) \<inter> live = {} \<and>
     set (take (free_stack_size p) (free_stack p)) \<union> live = slots p"

lemma slots_card: "0 < obj_size p \<Longrightarrow> card (slots p) = length (free_stack p)"
  unfolding slots_def by (subst card_image) (auto simp: inj_on_def)

lemma slots_inside: "pool_ok p live \<Longrightarrow> ptr \<in> slots p \<Longrightarrow> is_inside_pool p ptr"
proof -
  assume ok: "pool_ok p live" and "ptr \<in> slots p"
  then obtain i where i: "i < length (free_stack p)" "ptr = blk_ptr p + int (i * obj_size p)"
    by (auto simp: slots_def)
  have "i * obj_size p < length (free_stack p) * obj_size p" using i ok by (simp add: pool_ok_def)
  moreover have "length (free_stack p) * obj_size p \<le> blk_size p" using ok by (simp add: pool_ok_def)
  ultimately have "i * obj_size p < blk_size p" by linarith
  then have "int (i * obj_size p) < int (blk_size p)" by (simp only: of_nat_less_iff)
  then show "is_inside_pool p ptr" by (simp add: is_inside_pool_def i(2) del: of_nat_mult)
qed

lemma slots_apart:
  assumes "a \<in> slots p" and "b \<in> slots p" and "a < b"
  shows "a + int (obj_size p) \<le> b"
proof -
  obtain i j where ij: "a = blk_ptr p + int (i * obj_size p)" "b = blk_ptr p + int (j * obj_size p)"
    using assms(1,2) by (auto simp: slots_def)
  then have "i * obj_size p < j * obj_size p" using assms(3) by (simp only: add_less_cancel_left of_nat_less_iff)
  then have "Suc i \<le> j" by (simp add: Suc_le_eq)
  then have "Suc i * obj_size p \<le> j * obj_size p" by (rule mult_le_mono1)
  then have "int (Suc i * obj_size p) \<le> int (j * obj_size p)" by (simp only: of_nat_le_iff)
  then show ?thesis using ij by (simp add: algebra_simps)
qed

lemma initialize_ok:
  assumes "blk_ptr p \<noteq> 0" and "0 < sz"
  shows "pool_ok (initialize p sz) {}"
proof -
  let ?n = "nat (align_size (int sz) kBlockMask)" and ?k = "\<lambda>n. blk_size p div n"
  have pos: "0 < ?n" using align_size_bounds(1) [of 4 "int sz"] assms(2) by (simp add: kBlockMask_mask)
  then have eqs: "obj_size (initialize p sz) = ?n" "free_stack_size (initialize p sz) = ?k ?n"
      "free_stack (initialize p sz) = map (\<lambda>i. blk_ptr p + int (i * ?n)) [0..<?k ?n]"
      "blk_ptr (initialize p sz) = blk_ptr p" "blk_size (initialize p sz) = blk_size p"
    using assms(1) by (simp_all add: initialize_def Let_def)
  show ?thesis unfolding pool_ok_def slots_def eqs using pos
    by (auto simp: distinct_map inj_on_def div_times_less_eq_dividend simp del: of_nat_mult)
qed

lemma take_pred_snoc: "0 < n \<Longrightarrow> n \<le> length xs \<Longrightarrow> take n xs = take (n - 1) xs @ [xs ! (n - 1)]"
  by (cases n) (simp_all add: take_Suc_conv_app_nth)

lemma alloc_ok:
  assumes ok: "pool_ok p live" and some: "base_alloc_object p = (Some ptr, p')"
  shows "ptr \<in> slots p" "ptr \<notin> live" "pool_ok p' (insert ptr live)"
proof -
  let ?n = "free_stack_size p" and ?s = "free_stack p"
  have n: "0 < ?n" "?n \<le> length ?s" and ptr: "ptr = ?s ! (?n - 1)" and p': "p' = p\<lparr>free_stack_size := ?n - 1\<rparr>"
    using ok some by (auto simp: base_alloc_object_def pool_ok_def split: if_splits)
  have tk: "take ?n ?s = take (?n - 1) ?s @ [ptr]" using take_pred_snoc [OF n] ptr by simp
  have sl: "slots p' = slots p" by (simp add: p' slots_def)
  have d: "distinct (take (?n - 1) ?s @ [ptr])" "set (take (?n - 1) ?s @ [ptr]) \<inter> live = {}"
      "set (take (?n - 1) ?s @ [ptr]) \<union> live = slots p"
    using ok unfolding pool_ok_def tk by blast+
  then show "ptr \<in> slots p" "ptr \<notin> live" by auto
  show "pool_ok p' (insert ptr live)"
    using ok d n unfolding pool_ok_def sl by (auto simp: p')
qed

lemma free_ok:
  assumes ok: "pool_ok p live" and ptr: "ptr \<in> live"
  shows "\<exists>p'. base_free_object p ptr = Some p' \<and> pool_ok p' (live - {ptr})"
proof -
  let ?n = "free_stack_size p" and ?s = "free_stack p"
  have all: "set (take ?n ?s) \<inter> live = {}" "set (take ?n ?s) \<union> live = slots p" "distinct (take ?n ?s)"
      "?n \<le> length ?s" "0 < obj_size p"
    using ok by (simp_all add: pool_ok_def)
  have "finite (slots p)" by (simp add: slots_def)
  moreover have "set (take ?n ?s) \<subset> slots p" using all(1,2) ptr by blast
  ultimately have "card (set (take ?n ?s)) < card (slots p)" by (rule psubset_card_mono)
  then have lt: "?n < length ?s" using all slots_card [of p] by (simp add: distinct_card)
  let ?p' = "p\<lparr>free_stack := ?s[?n := ptr], free_stack_size := ?n + 1\<rparr>"
  have tk: "take (Suc ?n) (?s[?n := ptr]) = take ?n ?s @ [ptr]" using lt by (simp add: take_Suc_conv_app_nth)
  have sl: "slots ?p' = slots p" by (simp add: slots_def)
  have "pool_ok ?p' (live - {ptr})"
    using ok all lt ptr unfolding pool_ok_def sl by (auto simp: tk simp flip: Suc_eq_plus1)
  then show ?thesis using lt by (simp add: base_free_object_def)
qed

section \<open>Runs of the pool\<close>

text \<open>The pool and the pool objects in use, as allocations and releases alternate in any order.  Only
  an object in use is released.\<close>

inductive pool_run :: "mempool \<Rightarrow> mempool \<times> int set \<Rightarrow> bool" for p0 :: mempool where
  init: "pool_run p0 (p0, {})"
| alloc: "pool_run p0 (p, live) \<Longrightarrow> base_alloc_object p = (Some ptr, p') \<Longrightarrow> pool_run p0 (p', insert ptr live)"
| free: "pool_run p0 (p, live) \<Longrightarrow> ptr \<in> live \<Longrightarrow> base_free_object p ptr = Some p' \<Longrightarrow> pool_run p0 (p', live - {ptr})"

lemma pool_run_ok:
  "pool_run p0 q \<Longrightarrow> pool_ok p0 {} \<Longrightarrow> pool_ok (fst q) (snd q)"
proof (induction rule: pool_run.induct)
  case (alloc p live ptr p')
  then show ?case using alloc_ok(3) by simp
next
  case (free p live ptr p')
  then show ?case using free_ok [of p live ptr] by simp
qed simp

text \<open>C20: a pool prepared for objects of \<open>sz\<close> bytes never hands out an object that is in use, whatever
  the order of allocations and releases: a new object lies inside the block and at least \<open>sz\<close> bytes apart
  from every object in use, and the free stack has room for every object that is released.\<close>

theorem pool_objects_disjoint:
  assumes "blk_ptr p \<noteq> 0" and "0 < sz" and "pool_run (initialize p sz) (q, live)"
  shows "(\<forall>ptr q'. base_alloc_object q = (Some ptr, q') \<longrightarrow> is_inside_pool q ptr \<and>
      (\<forall>x \<in> live. ptr + int sz \<le> x \<or> x + int sz \<le> ptr)) \<and>
    (\<forall>x \<in> live. free_object q x \<noteq> None)"
proof -
  have ok: "pool_ok q live" using pool_run_ok [OF assms(3) initialize_ok [OF assms(1,2)]] by simp
  have "obj_size r = obj_size (initialize p sz)" if "pool_run (initialize p sz) (r, l)" for r l
    using that by (induction "(r, l)" arbitrary: r l rule: pool_run.induct)
      (auto simp: base_alloc_object_def base_free_object_def split: if_splits)
  then have "obj_size q = nat (align_size (int sz) (mask 4))"
    using assms(1,3) by (simp add: initialize_def Let_def kBlockMask_mask)
  then have sz: "int sz \<le> int (obj_size q)" using align_size_bounds(1) [of 4 "int sz"] by simp
  have live: "live \<subseteq> slots q" using ok by (auto simp: pool_ok_def)
  have "ptr + int sz \<le> x \<or> x + int sz \<le> ptr" if a: "base_alloc_object q = (Some ptr, q')" and x: "x \<in> live" for ptr q' x
  proof -
    have "x \<noteq> ptr" "x \<in> slots q" "ptr \<in> slots q" using alloc_ok(1,2) [OF ok a] x live by auto
    then show ?thesis using slots_apart [of x q ptr] slots_apart [of ptr q x] sz by fastforce
  qed
  moreover have "is_inside_pool q ptr" if "base_alloc_object q = (Some ptr, q')" for ptr q'
    using slots_inside [OF ok alloc_ok(1) [OF ok that]] .
  moreover have "free_object q x \<noteq> None" if "x \<in> live" for x
    using free_ok [OF ok that] by (auto simp: free_object_def)
  ultimately show ?thesis by blast
qed

definition sample_pool :: mempool where
  "sample_pool = MemoryPoolBase (\<lambda>_. 4096) 100"

theorem pool_objects_disjoint_witness:
  "free_object (snd (base_alloc_object (initialize sample_pool 24)))
     (the (fst (base_alloc_object (initialize sample_pool 24)))) \<noteq> None"
proof -
  let ?p = "initialize sample_pool 24"
  obtain ptr q where a: "base_alloc_object ?p = (Some ptr, q)"
  proof -
    have "0 < free_stack_size ?p"
      by (simp add: initialize_def sample_pool_def MemoryPoolBase_def Let_def kBlockMask_def kChunkMask_def align_size_def)
    then show thesis using that by (simp add: base_alloc_object_def)
  qed
  have nz: "blk_ptr sample_pool \<noteq> 0" by (simp add: sample_pool_def MemoryPoolBase_def Let_def)
  have "pool_run ?p (q, insert ptr {})" using a by (intro pool_run.alloc [OF pool_run.init])
  from pool_objects_disjoint [OF nz _ this] a show ?thesis by simp
qed

end
