(* ===== verification/Buffer.thy ===== *)
theory Buffer
  imports Prelude
begin

text \<open>
  The paged copy-on-write byte buffer of \<^verbatim>\<open>src/core/buffer.h\<close> and
  \<^verbatim>\<open>src/core/buffer.cc\<close>.  The shared \<open>CowInfo\<close> objects live in an explicit store
  (\<open>buf_heap\<close>), so that two buffers can refer to the same pages; a page is its address
  with its \<open>kPageSize\<close> bytes.  \<open>malloc\<close> does not initialise memory: the bytes a fresh
  page happens to hold are the store's \<open>unwritten\<close>.  A buffer represents the byte list
  \<open>contents\<close>; the lemmas describe every operation on that list, the copy-on-write lemmas
  say which other buffers an operation can affect.  The results of \<open>readv\<close> and
  \<open>writev\<close> are parameters.
\<close>

section \<open>State\<close>

definition kPageSize :: nat where
  "kPageSize = 8192"

type_synonym page = "nat \<times> byte list"

record cow_info =
  extra_page :: "page option"
  pages :: "page list"

record buf_heap =
  cows :: "nat \<Rightarrow> cow_info"
  use_count :: "nat \<Rightarrow> nat"
  next_cow :: nat
  next_page :: nat
  unwritten :: "nat \<Rightarrow> byte list"

record buffer =
  cow_ref :: nat
  borrowed :: bool
  left_offset :: nat
  right_offset :: nat
  buf_size :: nat

definition CowInfo :: cow_info where
  "CowInfo = \<lparr>extra_page = None, pages = []\<rparr>"

definition alloc_page :: "buf_heap \<Rightarrow> page \<times> buf_heap" where
  "alloc_page h = ((next_page h, unwritten h (next_page h)), h\<lparr>next_page := Suc (next_page h)\<rparr>)"

definition set_pages :: "buf_heap \<Rightarrow> nat \<Rightarrow> page list \<Rightarrow> buf_heap" where
  "set_pages h c ps = h\<lparr>cows := (cows h)(c := (cows h c)\<lparr>pages := ps\<rparr>)\<rparr>"

definition set_extra :: "buf_heap \<Rightarrow> nat \<Rightarrow> page option \<Rightarrow> buf_heap" where
  "set_extra h c e = h\<lparr>cows := (cows h)(c := (cows h c)\<lparr>extra_page := e\<rparr>)\<rparr>"

text \<open>Creation of a \<open>CowInfo\<close> behind a fresh \<open>shared_ptr\<close>, and the copy and destruction
  of a \<open>shared_ptr\<close>; the last owner runs \<open>~CowInfo\<close>, which frees every page.\<close>

definition new_cow_info :: "buf_heap \<Rightarrow> nat \<times> buf_heap" where
  "new_cow_info h = (next_cow h, h\<lparr>cows := (cows h)(next_cow h := CowInfo),
     use_count := (use_count h)(next_cow h := 1), next_cow := Suc (next_cow h)\<rparr>)"

definition retain :: "buf_heap \<Rightarrow> nat \<Rightarrow> buf_heap" where
  "retain h c = h\<lparr>use_count := (use_count h)(c := Suc (use_count h c))\<rparr>"

definition release :: "buf_heap \<Rightarrow> nat \<Rightarrow> buf_heap" where
  "release h c = (let n = use_count h c - 1;
      h' = h\<lparr>use_count := (use_count h)(c := n)\<rparr>
    in if n = 0 then h'\<lparr>cows := (cows h')(c := CowInfo)\<rparr> else h')"

section \<open>Construction, copy, destruction\<close>

definition Buffer_new :: "buf_heap \<Rightarrow> buffer \<times> buf_heap" where
  "Buffer_new h = (let (c, h1) = new_cow_info h; (p, h2) = alloc_page h1
    in (\<lparr>cow_ref = c, borrowed = False, left_offset = 0, right_offset = kPageSize, buf_size = 0\<rparr>,
        set_pages h2 c (pages (cows h2 c) @ [p])))"

definition Buffer_copy :: "buf_heap \<Rightarrow> buffer \<Rightarrow> buffer \<times> buf_heap" where
  "Buffer_copy h rhs = (rhs\<lparr>borrowed := True\<rparr>, retain h (cow_ref rhs))"

definition Buffer_assign :: "buf_heap \<Rightarrow> buffer \<Rightarrow> buffer \<Rightarrow> buffer \<times> buf_heap" where
  "Buffer_assign h this rhs =
    (\<lparr>cow_ref = cow_ref rhs, borrowed = True, left_offset = left_offset rhs,
      right_offset = right_offset rhs, buf_size = buf_size rhs\<rparr>,
     release (retain h (cow_ref rhs)) (cow_ref this))"

definition Buffer_destroy :: "buf_heap \<Rightarrow> buffer \<Rightarrow> buf_heap" where
  "Buffer_destroy h b = release h (cow_ref b)"

section \<open>Copy on write\<close>

fun copy_pages :: "buf_heap \<Rightarrow> page list \<Rightarrow> page list \<times> buf_heap" where
  "copy_pages h [] = ([], h)"
| "copy_pages h (p # ps) =
    (let (q, h1) = alloc_page h; (qs, h2) = copy_pages h1 ps
     in ((fst q, memcpy_at (snd q) 0 (snd p)) # qs, h2))"

definition copy_for_write :: "buf_heap \<Rightarrow> buffer \<Rightarrow> buffer \<times> buf_heap" where
  "copy_for_write h b =
    (let old = cows h (cow_ref b);
         (c, h1) = new_cow_info h;
         (ps, h2) = copy_pages h1 (pages old);
         h3 = set_pages h2 c ps
     in (b\<lparr>cow_ref := c, borrowed := False\<rparr>, release h3 (cow_ref b)))"

definition need_copy_for_write :: "buf_heap \<Rightarrow> buffer \<Rightarrow> bool" where
  "need_copy_for_write h b \<longleftrightarrow> borrowed b \<and> use_count h (cow_ref b) > 1"

definition prepare_write :: "buf_heap \<Rightarrow> buffer \<Rightarrow> buffer \<times> buf_heap" where
  "prepare_write h b = (if need_copy_for_write h b then copy_for_write h b else (b, h))"

definition buf_pages :: "buf_heap \<Rightarrow> buffer \<Rightarrow> page list" where
  "buf_pages h b = pages (cows h (cow_ref b))"

section \<open>Appending\<close>

definition set_last_data :: "page list \<Rightarrow> byte list \<Rightarrow> page list" where
  "set_last_data ps d = butlast ps @ [(fst (last ps), d)]"

function append_loop :: "buf_heap \<Rightarrow> page list \<Rightarrow> byte list \<Rightarrow> page list \<times> nat \<times> buf_heap" where
  "append_loop h ps src =
    (let (p, h1) = alloc_page h;
         ps' = ps @ [(fst p, memcpy_at (snd p) 0 (take kPageSize src))]
     in if length src < kPageSize then (ps', kPageSize - length src, h1)
        else append_loop h1 ps' (drop kPageSize src))"
  by pat_completeness auto
termination
  by (relation "measure (\<lambda>(h, ps, src). length src)") (auto simp: kPageSize_def)

declare append_loop.simps [simp del]

text \<open>Each writing method first runs \<open>copy_for_write\<close> when needed; the definitions with suffix
  \<open>_owned\<close> are the rest of the method.\<close>

definition append_owned :: "buf_heap \<Rightarrow> buffer \<Rightarrow> byte list \<Rightarrow> buffer \<times> buf_heap" where
  "append_owned h b src =
    (let ps = buf_pages h b; r = right_offset b;
         dest = snd (last ps); off = kPageSize - r;
         b' = b\<lparr>buf_size := buf_size b + length src\<rparr>
     in if length src < r
        then (b'\<lparr>right_offset := r - length src\<rparr>,
              set_pages h (cow_ref b) (set_last_data ps (memcpy_at dest off src)))
        else let (ps', r', h') = append_loop h (set_last_data ps (memcpy_at dest off (take r src)))
                                   (drop r src)
             in (b'\<lparr>right_offset := r'\<rparr>, set_pages h' (cow_ref b) ps'))"

definition append_data :: "buf_heap \<Rightarrow> buffer \<Rightarrow> byte list \<Rightarrow> bool \<times> buffer \<times> buf_heap" where
  "append_data h0 b0 src = (let (b, h) = prepare_write h0 b0; (b', h') = append_owned h b src in (True, b', h'))"

definition get_page_segment :: "buf_heap \<Rightarrow> buffer \<Rightarrow> nat \<Rightarrow> nat \<times> nat" where
  "get_page_segment h b addr =
    (let ps = buf_pages h b;
         (off, len) = (if addr = fst (hd ps) then (left_offset b, kPageSize - left_offset b)
                       else (0, kPageSize))
     in (off, if addr = fst (last ps) then len - right_offset b else len))"

fun append_segments :: "buf_heap \<Rightarrow> buffer \<Rightarrow> buffer \<Rightarrow> page list \<Rightarrow> bool \<times> buffer \<times> buf_heap" where
  "append_segments h b src [] = (True, b, h)"
| "append_segments h b src (p # ps) =
    (let (off, len) = get_page_segment h src (fst p);
         (ok, b', h') = append_data h b (take len (drop off (snd p)));
         (ok', b'', h'') = append_segments h' b' src ps
     in (ok \<and> ok', b'', h''))"

text \<open>\<open>None\<close>: the destination would extend the very page list that is iterated over.\<close>

definition append_buffer :: "buf_heap \<Rightarrow> buffer \<Rightarrow> buffer \<Rightarrow> (bool \<times> buffer \<times> buf_heap) option" where
  "append_buffer h b src =
    (if cow_ref b = cow_ref src \<and> \<not> need_copy_for_write h b then None
     else Some (append_segments h b src (buf_pages h src)))"

section \<open>Copying out and erasing\<close>

text \<open>The loop of \<open>copy_front\<close>; \<open>None\<close>: the iterator passes the end of the page list.\<close>

fun copy_front_loop :: "nat \<Rightarrow> page list \<Rightarrow> nat \<Rightarrow> byte list option" where
  "copy_front_loop off [] sz = None"
| "copy_front_loop off (p # ps) sz =
    (let ncopy = min sz (kPageSize - off); chunk = take ncopy (drop off (snd p))
     in if sz - ncopy > 0 then map_option ((@) chunk) (copy_front_loop 0 ps (sz - ncopy))
        else Some chunk)"

definition copy_front :: "buf_heap \<Rightarrow> buffer \<Rightarrow> nat \<Rightarrow> (bool \<times> byte list) option" where
  "copy_front h b sz =
    (if buf_size b < sz then Some (False, [])
     else map_option (Pair True) (copy_front_loop (left_offset b) (buf_pages h b) sz))"

fun copy_front_buffer_loop ::
  "nat \<Rightarrow> page list \<Rightarrow> nat \<Rightarrow> buf_heap \<Rightarrow> buffer \<Rightarrow> (buffer \<times> buf_heap) option" where
  "copy_front_buffer_loop off [] sz h dst = None"
| "copy_front_buffer_loop off (p # ps) sz h dst =
    (let ncopy = min sz (kPageSize - off);
         (_, dst', h') = append_data h dst (take ncopy (drop off (snd p)))
     in if sz - ncopy > 0 then copy_front_buffer_loop 0 ps (sz - ncopy) h' dst'
        else Some (dst', h'))"

definition copy_front_buffer ::
  "buf_heap \<Rightarrow> buffer \<Rightarrow> buffer \<Rightarrow> nat \<Rightarrow> (bool \<times> buffer \<times> buf_heap) option" where
  "copy_front_buffer h b dst sz =
    (if buf_size b < sz then Some (False, dst, h)
     else if cow_ref dst = cow_ref b \<and> \<not> need_copy_for_write h dst then None
     else map_option (Pair True) (copy_front_buffer_loop (left_offset b) (buf_pages h b) sz h dst))"

text \<open>\<open>div\<close> of \<^verbatim>\<open><cstdlib>\<close> takes its operands as \<open>int\<close>.\<close>

definition page_div :: "nat \<Rightarrow> int \<times> int" where
  "page_div n = (int_of_size n sdiv int kPageSize, int_of_size n smod int kPageSize)"

fun free_front_pages :: "nat \<Rightarrow> page list \<Rightarrow> page list" where
  "free_front_pages 0 ps = ps"
| "free_front_pages (Suc n) ps = free_front_pages n (if length ps > 1 then tl ps else ps)"

definition pop :: "buf_heap \<Rightarrow> buffer \<Rightarrow> nat \<Rightarrow> bool \<times> buffer \<times> buf_heap" where
  "pop h0 b0 pop_size =
    (let (b, h) = prepare_write h0 b0
     in if buf_size b < pop_size then (False, b, h)
        else let (npage, rem) = page_div (pop_size + left_offset b);
                 h' = set_pages h (cow_ref b) (free_front_pages (nat npage) (buf_pages h b));
                 b' = b\<lparr>left_offset := size_of_int rem, buf_size := buf_size b - pop_size\<rparr>
             in (True, if buf_size b' = 0 then b'\<lparr>left_offset := 0, right_offset := kPageSize\<rparr> else b', h'))"

definition pop_page :: "buf_heap \<Rightarrow> buffer \<Rightarrow> nat \<times> buffer \<times> buf_heap" where
  "pop_page h b = (let sz = kPageSize - left_offset b; (_, b', h') = pop h b sz in (sz, b', h'))"

definition clear :: "buf_heap \<Rightarrow> buffer \<Rightarrow> buffer \<times> buf_heap" where
  "clear h b = (let (_, b', h') = pop h b (buf_size b) in (b', h'))"

section \<open>Reading from and writing to a descriptor\<close>

text \<open>\<open>readv\<close> maps the total length of the two vectors to the bytes it delivers, or to
  \<open>None\<close> when it returns \<open>-1\<close>.\<close>

definition ensure_extra :: "buf_heap \<Rightarrow> nat \<Rightarrow> page \<times> buf_heap" where
  "ensure_extra h c = (case extra_page (cows h c) of
       None \<Rightarrow> let (p, h') = alloc_page h in (p, set_extra h' c (Some p))
     | Some p \<Rightarrow> (p, h))"

definition read_owned :: "buf_heap \<Rightarrow> buffer \<Rightarrow> page \<Rightarrow> byte list \<Rightarrow> buffer \<times> buf_heap" where
  "read_owned h b e bs =
    (let ps = buf_pages h b; r = right_offset b; nread = length bs; c = cow_ref b;
         ps1 = set_last_data ps (memcpy_at (snd (last ps)) (kPageSize - r) (take r bs));
         e1 = (fst e, memcpy_at (snd e) 0 (drop r bs));
         b' = b\<lparr>buf_size := buf_size b + nread\<rparr>
     in if r \<le> nread
        then let (p, h') = alloc_page (set_pages h c (ps1 @ [e1]))
             in (b'\<lparr>right_offset := kPageSize + r - nread\<rparr>, set_extra h' c (Some p))
        else (b'\<lparr>right_offset := r - nread\<rparr>, set_pages h c ps1))"

definition read_from_fd ::
  "buf_heap \<Rightarrow> buffer \<Rightarrow> (nat \<Rightarrow> byte list option) \<Rightarrow> int \<times> buffer \<times> buf_heap" where
  "read_from_fd h0 b0 readv =
    (let (b, h1) = prepare_write h0 b0;
         (e, h) = ensure_extra h1 (cow_ref b)
     in case readv (right_offset b + kPageSize) of
          None \<Rightarrow> (-1, b, h)
        | Some bs \<Rightarrow> let (b', h') = read_owned h b e bs in (int (length bs), b', h'))"

definition iovecs :: "page list \<Rightarrow> nat \<Rightarrow> nat \<Rightarrow> byte list list" where
  "iovecs ps l r =
    (let nvec = min 2 (length ps);
         base = (\<lambda>i. if i = 0 then l else 0);
         len = (\<lambda>i. kPageSize - (if i = 0 then l else 0) - (if i = nvec - 1 then r else 0))
     in map (\<lambda>i. take (len i) (drop (base i) (snd (ps ! i)))) [0..<nvec])"

text \<open>\<open>writev\<close> maps the gathered bytes to its return value.\<close>

definition write_to_fd ::
  "buf_heap \<Rightarrow> buffer \<Rightarrow> (byte list \<Rightarrow> int) \<Rightarrow> int \<times> buffer \<times> buf_heap" where
  "write_to_fd h0 b0 writev =
    (let (b, h) = prepare_write h0 b0
     in if buf_size b = 0 then (0, b, h)
        else let nwrite = writev (concat (iovecs (buf_pages h b) (left_offset b) (right_offset b)))
             in if nwrite > 0 then let (_, b', h') = pop h b (nat nwrite) in (nwrite, b', h')
                else (nwrite, b, h))"

section \<open>Abstraction and invariant\<close>

definition page_bytes :: "page list \<Rightarrow> byte list" where
  "page_bytes ps = concat (map snd ps)"

definition layout :: "page list \<Rightarrow> nat \<Rightarrow> nat \<Rightarrow> nat \<Rightarrow> bool" where
  "layout ps l r n \<longleftrightarrow> ps \<noteq> [] \<and> (\<forall>p \<in> set ps. length (snd p) = kPageSize) \<and>
     l < kPageSize \<and> r \<le> kPageSize \<and> l + n + r = kPageSize * length ps"

definition addrs_ok :: "nat \<Rightarrow> page list \<Rightarrow> bool" where
  "addrs_ok np ps \<longleftrightarrow> distinct (map fst ps) \<and> (\<forall>p \<in> set ps. fst p < np)"

definition extra_ok :: "nat \<Rightarrow> cow_info \<Rightarrow> bool" where
  "extra_ok np ci \<longleftrightarrow> (case extra_page ci of None \<Rightarrow> True
     | Some e \<Rightarrow> length (snd e) = kPageSize \<and> fst e < np \<and> fst e \<notin> fst ` set (pages ci))"

definition contents :: "buf_heap \<Rightarrow> buffer \<Rightarrow> byte list" where
  "contents h b = take (buf_size b) (drop (left_offset b) (page_bytes (buf_pages h b)))"

definition heap_ok :: "buf_heap \<Rightarrow> bool" where
  "heap_ok h \<longleftrightarrow> (\<forall>p. length (unwritten h p) = kPageSize)"

definition buf_ok :: "buf_heap \<Rightarrow> buffer \<Rightarrow> bool" where
  "buf_ok h b \<longleftrightarrow> use_count h (cow_ref b) > 0 \<and> cow_ref b < next_cow h \<and>
     layout (buf_pages h b) (left_offset b) (right_offset b) (buf_size b) \<and>
     addrs_ok (next_page h) (buf_pages h b) \<and> extra_ok (next_page h) (cows h (cow_ref b))"

text \<open>An operation on \<open>b\<close> may change only buffers that share its pages while \<open>b\<close> does not
  copy before writing.\<close>

definition separate :: "buf_heap \<Rightarrow> buffer \<Rightarrow> buffer \<Rightarrow> bool" where
  "separate h b b2 \<longleftrightarrow> cow_ref b2 \<noteq> cow_ref b \<or> need_copy_for_write h b"

definition preserved :: "buf_heap \<Rightarrow> buf_heap \<Rightarrow> buffer \<Rightarrow> bool" where
  "preserved h h' b2 \<longleftrightarrow> buf_ok h' b2 \<and> buf_pages h' b2 = buf_pages h b2"

lemma kPageSize_pos [simp]: "0 < kPageSize" "kPageSize \<noteq> 0"
  by (simp_all add: kPageSize_def)

lemma contents_cong: "buf_pages h' b = buf_pages h b \<Longrightarrow> contents h' b = contents h b"
  by (simp add: contents_def)

lemma preserved_contents: "preserved h h' b \<Longrightarrow> buf_ok h' b \<and> contents h' b = contents h b"
  using contents_cong [of h' b h] by (simp add: preserved_def)

section \<open>Page lists\<close>

lemma page_bytes_append [simp]: "page_bytes (ps @ qs) = page_bytes ps @ page_bytes qs"
  by (simp add: page_bytes_def)

lemma page_bytes_Cons [simp]: "page_bytes (p # ps) = snd p @ page_bytes ps"
  by (simp add: page_bytes_def)

lemma page_bytes_Nil [simp]: "page_bytes [] = []"
  by (simp add: page_bytes_def)

lemma layout_length: "layout ps l r n \<Longrightarrow> length (page_bytes ps) = l + n + r"
  by (simp add: layout_def page_bytes_def concat_map_length_const)

lemma layout_size: "layout ps l r n \<Longrightarrow> length (take n (drop l (page_bytes ps))) = n"
  by (simp add: layout_length)

lemma contents_length: "buf_ok h b \<Longrightarrow> length (contents h b) = buf_size b"
  unfolding buf_ok_def contents_def by (blast intro: layout_size)

lemma set_last_data_fst: "ps \<noteq> [] \<Longrightarrow> map fst (set_last_data ps d) = map fst ps"
  by (induction ps) (auto simp: set_last_data_def)

lemma set_last_data_length [simp]: "ps \<noteq> [] \<Longrightarrow> length (set_last_data ps d) = length ps"
  by (simp add: set_last_data_def)

lemma set_last_data_nonempty [simp]: "set_last_data ps d \<noteq> []"
  by (simp add: set_last_data_def)

lemma addrs_ok_set_last: "ps \<noteq> [] \<Longrightarrow> addrs_ok np (set_last_data ps d) = addrs_ok np ps"
proof -
  assume "ps \<noteq> []"
  then have "map fst (set_last_data ps d) = map fst ps" by (rule set_last_data_fst)
  moreover have "\<And>qs. addrs_ok np qs \<longleftrightarrow> distinct (map fst qs) \<and> (\<forall>a \<in> set (map fst qs). a < np)"
    by (auto simp: addrs_ok_def)
  ultimately show ?thesis by metis
qed

lemma addrs_ok_mono: "addrs_ok np ps \<Longrightarrow> np \<le> np' \<Longrightarrow> addrs_ok np' ps"
  by (auto simp: addrs_ok_def)

lemma addrs_ok_snoc: "addrs_ok np ps \<Longrightarrow> addrs_ok (Suc np) (ps @ [(np, d)])"
  by (auto simp: addrs_ok_def)

lemma extra_ok_mono: "extra_ok np ci \<Longrightarrow> np \<le> np' \<Longrightarrow> extra_ok np' ci"
  by (cases "extra_page ci") (simp_all add: extra_ok_def)

lemma page_bytes_set_last:
  assumes "layout ps l r n" and "length src \<le> r"
  shows "page_bytes (set_last_data ps (memcpy_at (snd (last ps)) (kPageSize - r) src))
    = memcpy_at (page_bytes ps) (l + n) src"
proof -
  let ?B = "page_bytes (butlast ps)" and ?d = "snd (last ps)"
  have ne: "ps \<noteq> []" and r: "r \<le> kPageSize" and tot: "l + n + r = kPageSize * length ps"
    using assms by (simp_all add: layout_def)
  have B: "length ?B = kPageSize * (length ps - 1)"
    using assms ne by (auto simp: layout_def page_bytes_def dest!: in_set_butlastD
        intro!: concat_map_length_const [THEN trans])
  have "length ps = Suc (length ps - 1)" using ne by (cases ps) auto
  then have "kPageSize * length ps = length ?B + kPageSize" by (metis B mult_Suc_right add.commute)
  with tot r have off: "l + n = length ?B + (kPageSize - r)" by simp
  have "page_bytes ps = ?B @ ?d"
    using concat_map_snoc [OF ne, of snd] by (simp add: page_bytes_def)
  then show ?thesis
    by (simp add: set_last_data_def memcpy_at_def off)
qed

lemma take_drop_memcpy_at:
  assumes "l + n + length src \<le> length xs"
  shows "take (n + length src) (drop l (memcpy_at xs (l + n) src)) = take n (drop l xs) @ src"
proof -
  have "drop l (memcpy_at xs (l + n) src) = drop l (take (l + n) xs) @ src @ drop (l + n + length src) xs"
    using assms by (simp add: memcpy_at_def)
  moreover have "drop l (take (l + n) xs) = take n (drop l xs)" by (simp add: drop_take)
  moreover have "length (take n (drop l xs)) = n" using assms by simp
  ultimately show ?thesis by simp
qed

lemma layout_set_last:
  assumes lay: "layout ps l r n" and src: "length src \<le> r"
  defines "qs \<equiv> set_last_data ps (memcpy_at (snd (last ps)) (kPageSize - r) src)"
  shows "layout qs l (r - length src) (n + length src)"
    and "take (n + length src) (drop l (page_bytes qs)) = take n (drop l (page_bytes ps)) @ src"
proof -
  have ne: "ps \<noteq> []" and len: "\<forall>p \<in> set ps. length (snd p) = kPageSize" and r: "r \<le> kPageSize"
    using lay by (simp_all add: layout_def)
  have "length (snd (last ps)) = kPageSize" using ne len by simp
  with r src have "length (memcpy_at (snd (last ps)) (kPageSize - r) src) = kPageSize" by simp
  then have "\<forall>p \<in> set qs. length (snd p) = kPageSize"
    using len by (auto simp: qs_def set_last_data_def dest: in_set_butlastD)
  then show "layout qs l (r - length src) (n + length src)"
    using lay src ne by (auto simp: layout_def qs_def)
  show "take (n + length src) (drop l (page_bytes qs)) = take n (drop l (page_bytes ps)) @ src"
    unfolding qs_def page_bytes_set_last [OF lay src]
    using layout_length [OF lay] src by (intro take_drop_memcpy_at) simp
qed

lemma layout_push_page:
  assumes lay: "layout ps l 0 n" and "length d = kPageSize" and "m \<le> kPageSize" and "take m d = src"
  shows "layout (ps @ [(a, d)]) l (kPageSize - m) (n + m)"
    and "take (n + m) (drop l (page_bytes (ps @ [(a, d)]))) = take n (drop l (page_bytes ps)) @ src"
proof -
  show "layout (ps @ [(a, d)]) l (kPageSize - m) (n + m)"
    using assms by (auto simp: layout_def)
  show "take (n + m) (drop l (page_bytes (ps @ [(a, d)]))) = take n (drop l (page_bytes ps)) @ src"
    using layout_length [OF lay] assms by simp
qed

definition same_store :: "buf_heap \<Rightarrow> buf_heap \<Rightarrow> bool" where
  "same_store h h' \<longleftrightarrow> cows h' = cows h \<and> use_count h' = use_count h \<and>
     next_cow h' = next_cow h \<and> next_page h \<le> next_page h' \<and> unwritten h' = unwritten h"

lemma append_loop_spec:
  assumes "heap_ok h" and "layout ps l 0 n" and "addrs_ok (next_page h) ps"
    and "append_loop h ps src = (ps', r', h')"
  shows "layout ps' l r' (n + length src) \<and>
    take (n + length src) (drop l (page_bytes ps')) = take n (drop l (page_bytes ps)) @ src \<and>
    addrs_ok (next_page h') ps' \<and> same_store h h' \<and>
    (\<exists>qs. ps' = ps @ qs \<and> (\<forall>q \<in> set qs. next_page h \<le> fst q))"
  using assms
proof (induction h ps src arbitrary: n rule: append_loop.induct)
  case (1 h ps src)
  let ?np = "next_page h" and ?h1 = "h\<lparr>next_page := Suc (next_page h)\<rparr>"
  let ?chunk = "take kPageSize src"
  let ?d = "memcpy_at (unwritten h ?np) 0 ?chunk"
  let ?ps = "ps @ [(?np, ?d)]"
  have d: "length ?d = kPageSize" "take (length ?chunk) ?d = ?chunk"
    using "1.prems"(1) by (simp_all add: heap_ok_def memcpy_at_def min_def)
  have eq: "append_loop h ps src = (if length src < kPageSize then (?ps, kPageSize - length src, ?h1)
      else append_loop ?h1 ?ps (drop kPageSize src))"
    by (simp add: append_loop.simps [of h] alloc_page_def)
  note push = layout_push_page [OF "1.prems"(2) d(1) _ d(2), of ?np]
  have addrs: "addrs_ok (next_page ?h1) ?ps" using "1.prems"(3) by (simp add: addrs_ok_snoc)
  show ?case
  proof (cases "length src < kPageSize")
    case True
    with eq "1.prems"(4) have res: "ps' = ?ps" "r' = kPageSize - length src" "h' = ?h1" by auto
    from True have "?chunk = src" by simp
    with push True res addrs show ?thesis by (auto simp: same_store_def)
  next
    case False
    then have c: "length ?chunk = kPageSize" by simp
    from push c have lay: "layout ?ps l 0 (n + kPageSize)" and
      tk: "take (n + kPageSize) (drop l (page_bytes ?ps)) = take n (drop l (page_bytes ps)) @ ?chunk"
      by auto
    from False eq "1.prems"(4) have rec: "append_loop ?h1 ?ps (drop kPageSize src) = (ps', r', h')" by simp
    have hok: "heap_ok ?h1" using "1.prems"(1) by (simp add: heap_ok_def)
    have IH: "layout ps' l r' (n + kPageSize + length (drop kPageSize src)) \<and>
      take (n + kPageSize + length (drop kPageSize src)) (drop l (page_bytes ps'))
        = take (n + kPageSize) (drop l (page_bytes ?ps)) @ drop kPageSize src \<and>
      addrs_ok (next_page h') ps' \<and> same_store ?h1 h' \<and>
      (\<exists>qs. ps' = ?ps @ qs \<and> (\<forall>q \<in> set qs. next_page ?h1 \<le> fst q))"
      by (rule "1.IH" [of "alloc_page h" "(?np, unwritten h ?np)" ?h1 ?ps "n + kPageSize"])
        (use False hok lay addrs rec in \<open>simp_all add: alloc_page_def\<close>)
    have n: "n + kPageSize + length (drop kPageSize src) = n + length src" using False by simp
    have "take (n + length src) (drop l (page_bytes ps')) = take n (drop l (page_bytes ps)) @ src"
      using IH unfolding n tk by (metis append_assoc append_take_drop_id)
    moreover obtain qs where "ps' = ps @ (?np, ?d) # qs" "\<forall>q \<in> set qs. Suc ?np \<le> fst q"
      using IH by auto
    then have "\<exists>qs. ps' = ps @ qs \<and> (\<forall>q \<in> set qs. ?np \<le> fst q)"
      by (intro exI [of _ "(?np, ?d) # qs"]) auto
    moreover have "same_store h h'" using IH by (simp add: same_store_def)
    ultimately show ?thesis using IH unfolding n by blast
  qed
qed

section \<open>The store\<close>

lemma buf_pages_set_pages [heap_simps]:
  "buf_pages (set_pages h c ps) b = (if cow_ref b = c then ps else buf_pages h b)"
  by (simp add: buf_pages_def set_pages_def)

lemma set_pages_fields [heap_simps]:
  "use_count (set_pages h c ps) = use_count h" "next_cow (set_pages h c ps) = next_cow h"
  "next_page (set_pages h c ps) = next_page h" "unwritten (set_pages h c ps) = unwritten h"
  "cows (set_pages h c ps) d = (if d = c then (cows h c)\<lparr>pages := ps\<rparr> else cows h d)"
  by (simp_all add: set_pages_def)

lemma set_extra_fields [heap_simps]:
  "use_count (set_extra h c e) = use_count h" "next_cow (set_extra h c e) = next_cow h"
  "next_page (set_extra h c e) = next_page h" "unwritten (set_extra h c e) = unwritten h"
  "cows (set_extra h c e) d = (if d = c then (cows h c)\<lparr>extra_page := e\<rparr> else cows h d)"
  by (simp_all add: set_extra_def)

lemma buf_pages_set_extra [heap_simps]: "buf_pages (set_extra h c e) b = buf_pages h b"
  by (simp add: buf_pages_def set_extra_def)

lemma heap_ok_store [heap_simps]:
  "heap_ok (set_pages h c ps) = heap_ok h" "heap_ok (set_extra h c e) = heap_ok h"
  "heap_ok (h\<lparr>next_page := np\<rparr>) = heap_ok h"
  by (simp_all add: heap_ok_def set_pages_def set_extra_def)

text \<open>A change confined to the \<open>CowInfo\<close> object \<open>c\<close>.\<close>

definition only_cow :: "nat \<Rightarrow> buf_heap \<Rightarrow> buf_heap \<Rightarrow> bool" where
  "only_cow c h h' \<longleftrightarrow> (\<forall>d. d \<noteq> c \<longrightarrow> cows h' d = cows h d) \<and> use_count h' = use_count h \<and>
     next_cow h' = next_cow h \<and> next_page h \<le> next_page h' \<and> unwritten h' = unwritten h"

lemma only_cow_preserved: "only_cow c h h' \<Longrightarrow> cow_ref b2 \<noteq> c \<Longrightarrow> buf_ok h b2 \<Longrightarrow> preserved h h' b2"
  by (auto simp: only_cow_def preserved_def buf_ok_def buf_pages_def intro: addrs_ok_mono extra_ok_mono)

lemma only_cow_heap_ok: "only_cow c h h' \<Longrightarrow> heap_ok h' = heap_ok h"
  by (simp add: only_cow_def heap_ok_def)

lemma preserved_trans: "preserved h h' b \<Longrightarrow> preserved h' h'' b \<Longrightarrow> preserved h h'' b"
  by (simp add: preserved_def)

lemma preserved_refl: "buf_ok h b \<Longrightarrow> preserved h h b"
  by (simp add: preserved_def)

lemma copy_pages_spec:
  assumes "heap_ok h" and "\<forall>p \<in> set ps. length (snd p) = kPageSize" and "copy_pages h ps = (qs, h')"
  shows "map snd qs = map snd ps \<and> addrs_ok (next_page h') qs \<and>
    (\<forall>q \<in> set qs. next_page h \<le> fst q) \<and> h' = h\<lparr>next_page := next_page h + length ps\<rparr>"
  using assms
proof (induction h ps arbitrary: qs h' rule: copy_pages.induct)
  case (1 h)
  then show ?case by (auto simp: addrs_ok_def)
next
  case (2 h p ps)
  let ?h1 = "h\<lparr>next_page := Suc (next_page h)\<rparr>"
  obtain rs where rs: "copy_pages ?h1 ps = (rs, h')"
    and qs: "qs = (next_page h, memcpy_at (unwritten h (next_page h)) 0 (snd p)) # rs"
    using "2.prems"(3) by (auto simp: alloc_page_def split: prod.splits)
  have "map snd rs = map snd ps \<and> addrs_ok (next_page h') rs \<and>
    (\<forall>q \<in> set rs. next_page ?h1 \<le> fst q) \<and> h' = ?h1\<lparr>next_page := next_page ?h1 + length ps\<rparr>"
    by (rule "2.IH" [of "alloc_page h" "(next_page h, unwritten h (next_page h))" ?h1 rs h'])
      (use "2.prems" rs in \<open>simp_all add: alloc_page_def heap_simps\<close>)
  moreover have "memcpy_at (unwritten h (next_page h)) 0 (snd p) = snd p"
    using "2.prems"(1,2) by (simp add: memcpy_at_def heap_ok_def)
  ultimately show ?case by (auto simp: qs addrs_ok_def)
qed

lemma release_shared:
  "use_count h c > 1 \<Longrightarrow> release h c = h\<lparr>use_count := (use_count h)(c := use_count h c - 1)\<rparr>"
  by (simp add: release_def Let_def)

lemma buf_okD:
  assumes "buf_ok h b"
  shows "layout (buf_pages h b) (left_offset b) (right_offset b) (buf_size b)"
    "addrs_ok (next_page h) (buf_pages h b)" "extra_ok (next_page h) (cows h (cow_ref b))"
    "buf_pages h b \<noteq> []" "left_offset b < kPageSize" "right_offset b \<le> kPageSize"
  using assms by (auto simp: buf_ok_def layout_def)

lemma copy_for_write_eqs:
  assumes hok: "heap_ok h" and bok: "buf_ok h b" and cnt: "use_count h (cow_ref b) > 1"
    and cw: "copy_for_write h b = (b1, h1)"
  shows "\<exists>qs. map snd qs = map snd (buf_pages h b) \<and> addrs_ok (next_page h1) qs \<and>
    b1 = b\<lparr>cow_ref := next_cow h, borrowed := False\<rparr> \<and> next_page h \<le> next_page h1 \<and>
    cows h1 = (cows h)(next_cow h := CowInfo\<lparr>pages := qs\<rparr>) \<and> next_cow h1 = Suc (next_cow h) \<and>
    use_count h1 = (use_count h)(next_cow h := 1, cow_ref b := use_count h (cow_ref b) - 1) \<and>
    unwritten h1 = unwritten h"
proof -
  let ?ps = "buf_pages h b" and ?c = "next_cow h" and ?h1 = "snd (new_cow_info h)"
  obtain qs h2 where cp: "copy_pages ?h1 ?ps = (qs, h2)" by (cases "copy_pages ?h1 ?ps")
  have c: "cow_ref b < ?c" and "\<forall>p \<in> set ?ps. length (snd p) = kPageSize"
    using bok by (simp_all add: buf_ok_def layout_def)
  moreover have "heap_ok ?h1" using hok by (simp add: new_cow_info_def heap_ok_def)
  ultimately have qs: "map snd qs = map snd ?ps" "addrs_ok (next_page h2) qs"
      "h2 = ?h1\<lparr>next_page := next_page h + length ?ps\<rparr>"
    using copy_pages_spec [OF _ _ cp] by (auto simp: new_cow_info_def)
  have "b1 = b\<lparr>cow_ref := ?c, borrowed := False\<rparr>" "h1 = release (set_pages h2 ?c qs) (cow_ref b)"
    using cw cp by (simp_all add: copy_for_write_def new_cow_info_def buf_pages_def)
  moreover have "release (set_pages h2 ?c qs) (cow_ref b)
      = (set_pages h2 ?c qs)\<lparr>use_count := (use_count h2)(cow_ref b := use_count h (cow_ref b) - 1)\<rparr>"
    using cnt c by (subst release_shared) (simp_all add: heap_simps qs(3) new_cow_info_def)
  ultimately show ?thesis using qs c
    by (intro exI [of _ qs]) (simp add: set_pages_def new_cow_info_def)
qed

lemma copy_for_write_spec:
  assumes hok: "heap_ok h" and bok: "buf_ok h b" and cnt: "use_count h (cow_ref b) > 1"
    and cw: "copy_for_write h b = (b1, h1)"
  shows "heap_ok h1 \<and> buf_ok h1 b1 \<and> contents h1 b1 = contents h b \<and>
    b1 = b\<lparr>cow_ref := next_cow h, borrowed := False\<rparr> \<and> (\<forall>b2. buf_ok h b2 \<longrightarrow> preserved h h1 b2)"
proof -
  obtain qs where snd: "map snd qs = map snd (buf_pages h b)" and ad: "addrs_ok (next_page h1) qs"
    and b1: "b1 = b\<lparr>cow_ref := next_cow h, borrowed := False\<rparr>" and np: "next_page h \<le> next_page h1"
    and st: "cows h1 = (cows h)(next_cow h := CowInfo\<lparr>pages := qs\<rparr>)" "next_cow h1 = Suc (next_cow h)"
      "use_count h1 = (use_count h)(next_cow h := 1, cow_ref b := use_count h (cow_ref b) - 1)"
      "unwritten h1 = unwritten h"
    using copy_for_write_eqs [OF assms] by blast
  have c: "cow_ref b < next_cow h" using bok by (simp add: buf_ok_def)
  have pg: "buf_pages h1 b1 = qs" by (simp add: st b1 buf_pages_def)
  have len: "length qs = length (buf_pages h b)" using snd by (metis length_map)
  have "\<forall>q \<in> set qs. length (snd q) = kPageSize"
    using buf_okD(1) [OF bok] snd by (metis (no_types, lifting) image_iff layout_def list.set_map)
  then have "layout qs (left_offset b) (right_offset b) (buf_size b)"
    using buf_okD(1) [OF bok] len by (auto simp: layout_def)
  then have "buf_ok h1 b1"
    unfolding buf_ok_def pg using ad c by (simp add: b1 st extra_ok_def CowInfo_def)
  moreover have "contents h1 b1 = contents h b"
    unfolding contents_def pg page_bytes_def snd by (simp add: b1)
  moreover have "preserved h h1 b2" if "buf_ok h b2" for b2
    using that cnt np by (auto simp: preserved_def buf_ok_def st buf_pages_def intro: addrs_ok_mono extra_ok_mono)
  ultimately show ?thesis using hok b1 by (simp add: heap_ok_def st)
qed

lemma copy_for_write_store:
  assumes "heap_ok h" and "buf_ok h b" and "use_count h (cow_ref b) > 1" and "copy_for_write h b = (b1, h1)"
  shows "cow_ref b1 = next_cow h" "next_cow h1 = Suc (next_cow h)"
    "use_count h1 = (use_count h)(next_cow h := 1, cow_ref b := use_count h (cow_ref b) - 1)"
  using copy_for_write_eqs [OF assms] by auto

lemma prepare_write_spec:
  assumes "heap_ok h" and "buf_ok h b" and "prepare_write h b = (b1, h1)"
  shows "heap_ok h1 \<and> buf_ok h1 b1 \<and> contents h1 b1 = contents h b \<and>
    left_offset b1 = left_offset b \<and> right_offset b1 = right_offset b \<and> buf_size b1 = buf_size b \<and>
    (\<forall>b2. buf_ok h b2 \<and> separate h b b2 \<longrightarrow> preserved h h1 b2 \<and> cow_ref b2 \<noteq> cow_ref b1)"
proof (cases "need_copy_for_write h b")
  case True
  then have cw: "copy_for_write h b = (b1, h1)" and cnt: "use_count h (cow_ref b) > 1"
    using assms(3) by (simp_all add: prepare_write_def need_copy_for_write_def)
  note sp = copy_for_write_spec [OF assms(1,2) cnt cw]
  have "buf_ok h b2 \<Longrightarrow> cow_ref b2 \<noteq> next_cow h" for b2 by (auto simp: buf_ok_def)
  with sp show ?thesis by auto
next
  case False
  with assms show ?thesis by (auto simp: prepare_write_def separate_def preserved_refl)
qed

section \<open>What an operation does to its buffer and to the others\<close>

text \<open>\<open>use_count\<close> is the number of live buffers that refer to a \<open>CowInfo\<close>.\<close>

definition refs_ok :: "buf_heap \<Rightarrow> buffer list \<Rightarrow> bool" where
  "refs_ok h bs \<longleftrightarrow> (\<forall>b \<in> set bs. cow_ref b < next_cow h) \<and>
     (\<forall>c. use_count h c = count_list (map cow_ref bs) c)"

definition keeps_refs :: "buf_heap \<Rightarrow> buffer \<Rightarrow> buf_heap \<Rightarrow> buffer \<Rightarrow> bool" where
  "keeps_refs h b h' b' \<longleftrightarrow>
     (\<forall>bs i. i < length bs \<and> bs ! i = b \<and> refs_ok h bs \<longrightarrow> refs_ok h' (bs[i := b']))"

lemma keeps_refs_trans: "keeps_refs h b h1 b1 \<Longrightarrow> keeps_refs h1 b1 h2 b2 \<Longrightarrow> keeps_refs h b h2 b2"
  unfolding keeps_refs_def by (metis length_list_update list_update_overwrite nth_list_update_eq)

lemma count_list_update:
  "i < length xs \<Longrightarrow> count_list (xs[i := y]) c + (if xs ! i = c then 1 else 0)
     = count_list xs c + (if y = c then 1 else 0)"
proof (induction xs arbitrary: i)
  case (Cons x xs)
  show ?case
  proof (cases i)
    case 0
    then show ?thesis by simp
  next
    case (Suc j)
    then show ?thesis using Cons.IH [of j] Cons.prems by (simp split: if_splits)
  qed
qed simp

lemma keeps_refs_same:
  assumes "use_count h' = use_count h" and "next_cow h \<le> next_cow h'" and "cow_ref b' = cow_ref b"
  shows "keeps_refs h b h' b'"
proof -
  have "map cow_ref (bs[i := b']) = map cow_ref bs" if "i < length bs" "bs ! i = b" for bs i
    using that assms(3) by (metis list_update_id map_update nth_map)
  moreover have "\<forall>d \<in> set (bs[i := b']). cow_ref d < next_cow h'"
    if "i < length bs" "bs ! i = b" "\<forall>d \<in> set bs. cow_ref d < next_cow h" for bs i
    using that assms(2,3) by (metis (no_types, lifting) in_set_conv_nth insert_iff order_less_le_trans
        set_update_subset_insert subsetD)
  ultimately show ?thesis unfolding keeps_refs_def refs_ok_def assms(1) by metis
qed

lemma prepare_write_keeps_refs:
  assumes ok: "heap_ok h" "buf_ok h b" and pw: "prepare_write h b = (b1, h1)"
  shows "keeps_refs h b h1 b1"
proof (cases "need_copy_for_write h b")
  case False
  then show ?thesis using pw by (intro keeps_refs_same) (simp_all add: prepare_write_def)
next
  case True
  then have cw: "copy_for_write h b = (b1, h1)" and cnt: "use_count h (cow_ref b) > 1"
    using pw by (simp_all add: prepare_write_def need_copy_for_write_def)
  note eqs = copy_for_write_store [OF ok cnt cw]
  show ?thesis
    unfolding keeps_refs_def
  proof (intro allI impI)
    fix bs i
    assume a: "i < length bs \<and> bs ! i = b \<and> refs_ok h bs"
    then have lt: "\<forall>d \<in> set bs. cow_ref d < next_cow h" and cl: "\<And>c. use_count h c = count_list (map cow_ref bs) c"
      and ib: "i < length bs" "bs ! i = b"
      by (auto simp: refs_ok_def)
    have "count_list (map cow_ref bs) (next_cow h) = 0"
      using lt by (auto simp: count_list_0_iff)
    then have "use_count h1 c = count_list (map cow_ref (bs[i := b1])) c" for c
      using count_list_update [of i "map cow_ref bs" "cow_ref b1" c] ib cl [of c] cnt cl [of "cow_ref b"] eqs
      by (auto simp: map_update split: if_splits)
    moreover have "\<forall>d \<in> set (bs[i := b1]). cow_ref d < next_cow h1"
      using lt eqs by (auto dest!: set_update_subset_insert [THEN subsetD])
    ultimately show "refs_ok h1 (bs[i := b1])" by (simp add: refs_ok_def)
  qed
qed

definition op_spec :: "buf_heap \<Rightarrow> buffer \<Rightarrow> buf_heap \<Rightarrow> buffer \<Rightarrow> byte list \<Rightarrow> bool" where
  "op_spec h b h' b' xs \<longleftrightarrow> heap_ok h' \<and> buf_ok h' b' \<and> contents h' b' = xs \<and> keeps_refs h b h' b' \<and>
    (\<forall>b2. buf_ok h b2 \<and> separate h b b2 \<longrightarrow> preserved h h' b2 \<and> cow_ref b2 \<noteq> cow_ref b')"

lemma op_specI:
  assumes ok: "heap_ok h" "buf_ok h b" and pw: "prepare_write h b = (b1, h1)"
    and oc: "only_cow (cow_ref b1) h1 h'" and c: "cow_ref b' = cow_ref b1"
    and lay: "layout (buf_pages h' b') (left_offset b') (right_offset b') (buf_size b')"
    and ad: "addrs_ok (next_page h') (buf_pages h' b')" "extra_ok (next_page h') (cows h' (cow_ref b'))"
    and xs: "contents h' b' = xs"
  shows "op_spec h b h' b' xs"
proof -
  note sp = prepare_write_spec [OF ok pw]
  have "buf_ok h' b'"
    using sp oc lay ad by (simp add: buf_ok_def only_cow_def c)
  moreover have "heap_ok h'" using sp only_cow_heap_ok [OF oc] by blast
  moreover have "preserved h h' b2 \<and> cow_ref b2 \<noteq> cow_ref b'" if "buf_ok h b2" "separate h b b2" for b2
  proof -
    have p: "preserved h h1 b2" "cow_ref b2 \<noteq> cow_ref b1" using sp that by auto
    then have "preserved h1 h' b2" using only_cow_preserved [OF oc] by (auto simp: preserved_def)
    with p c show ?thesis by (auto intro: preserved_trans)
  qed
  moreover have "keeps_refs h b h' b'"
    using prepare_write_keeps_refs [OF ok pw] keeps_refs_same [of h' h1 b' b1] oc c
    by (auto simp: only_cow_def intro: keeps_refs_trans)
  ultimately show ?thesis using xs by (auto simp: op_spec_def)
qed

lemma op_spec_trans:
  assumes "op_spec h b h1 b1 xs" and "op_spec h1 b1 h2 b2 ys"
  shows "op_spec h b h2 b2 ys"
proof -
  have "preserved h h2 b3 \<and> cow_ref b3 \<noteq> cow_ref b2" if "buf_ok h b3" "separate h b b3" for b3
  proof -
    have "preserved h h1 b3" "cow_ref b3 \<noteq> cow_ref b1" using assms(1) that by (auto simp: op_spec_def)
    then have "buf_ok h1 b3" "separate h1 b1 b3" by (auto simp: preserved_def separate_def)
    with assms(2) have "preserved h1 h2 b3" "cow_ref b3 \<noteq> cow_ref b2" by (auto simp: op_spec_def)
    with \<open>preserved h h1 b3\<close> show ?thesis by (auto intro: preserved_trans)
  qed
  with assms show ?thesis by (auto simp: op_spec_def intro: keeps_refs_trans)
qed

lemma op_specD:
  assumes "op_spec h b h' b' xs"
  shows "heap_ok h'" "buf_ok h' b'" "contents h' b' = xs"
    "buf_ok h b2 \<Longrightarrow> separate h b b2 \<Longrightarrow> preserved h h' b2 \<and> cow_ref b2 \<noteq> cow_ref b'"
  using assms by (auto simp: op_spec_def)

lemma op_spec_size: "op_spec h b h' b' xs \<Longrightarrow> buf_size b' = length xs"
  using contents_length by (auto simp: op_spec_def)

lemma only_cow_set_pages: "same_store h h' \<Longrightarrow> only_cow c h (set_pages h' c ps)"
  by (simp add: only_cow_def same_store_def heap_simps)

lemma same_store_refl: "same_store h h"
  by (simp add: same_store_def)

lemma extra_ok_pages:
  assumes "extra_ok np ci" and "np \<le> np'" and "fst ` set ps \<subseteq> fst ` set (pages ci) \<union> {np..}"
  shows "extra_ok np' (ci\<lparr>pages := ps\<rparr>)"
  using assms by (force simp: extra_ok_def split: option.splits)

lemma set_last_data_addrs: "ps \<noteq> [] \<Longrightarrow> fst ` set (set_last_data ps d) = fst ` set ps"
  using set_last_data_fst [of ps d] by (metis list.set_map)

text \<open>The part of an operation after the copy: it touches only the buffer's own \<open>CowInfo\<close>.\<close>

definition own_step :: "buf_heap \<Rightarrow> buffer \<Rightarrow> buf_heap \<Rightarrow> buffer \<Rightarrow> byte list \<Rightarrow> bool" where
  "own_step h b h' b' xs \<longleftrightarrow> only_cow (cow_ref b) h h' \<and> cow_ref b' = cow_ref b \<and>
    layout (buf_pages h' b') (left_offset b') (right_offset b') (buf_size b') \<and>
    addrs_ok (next_page h') (buf_pages h' b') \<and> extra_ok (next_page h') (cows h' (cow_ref b')) \<and>
    contents h' b' = xs"

lemma own_step_op_spec:
  assumes "heap_ok h0" and "buf_ok h0 b0" and "prepare_write h0 b0 = (b, h)" and "own_step h b h' b' xs"
  shows "op_spec h0 b0 h' b' xs"
  using assms(4) by (intro op_specI [OF assms(1-3)]) (auto simp: own_step_def)

lemma own_step_refl: "buf_ok h b \<Longrightarrow> own_step h b h b (contents h b)"
  using buf_okD [of h b] by (simp add: own_step_def only_cow_def)

lemma append_owned_fits:
  assumes bok: "buf_ok h b" and fits: "length src < right_offset b" and ap: "append_owned h b src = (b', h')"
  shows "own_step h b h' b' (contents h b @ src)"
proof -
  let ?qs = "set_last_data (buf_pages h b) (memcpy_at (snd (last (buf_pages h b))) (kPageSize - right_offset b) src)"
  note lay = buf_okD(1) [OF bok] and ne = buf_okD(4) [OF bok]
  have eqs: "b' = b\<lparr>buf_size := buf_size b + length src, right_offset := right_offset b - length src\<rparr>"
      "h' = set_pages h (cow_ref b) ?qs"
    using ap fits by (simp_all add: append_owned_def Let_def)
  have pg: "buf_pages h' b' = ?qs" by (simp add: eqs heap_simps)
  note ls = layout_set_last [OF lay less_imp_le [OF fits]]
  have "extra_ok (next_page h') (cows h' (cow_ref b'))"
    using buf_okD(3) [OF bok] set_last_data_addrs [OF ne]
    by (simp add: eqs heap_simps buf_pages_def extra_ok_pages)
  then show ?thesis
    unfolding own_step_def contents_def pg using ls ne buf_okD(2) [OF bok]
    by (simp add: eqs only_cow_set_pages same_store_refl heap_simps addrs_ok_set_last)
qed

lemma append_owned_spills:
  assumes hok: "heap_ok h" and bok: "buf_ok h b" and more: "right_offset b \<le> length src"
    and ap: "append_owned h b src = (b', h')"
  shows "own_step h b h' b' (contents h b @ src)"
proof -
  let ?r = "right_offset b" and ?ps = "buf_pages h b"
  let ?qs = "set_last_data ?ps (memcpy_at (snd (last ?ps)) (kPageSize - ?r) (take ?r src))"
  note lay = buf_okD(1) [OF bok] and ne = buf_okD(4) [OF bok]
  obtain ps' r' h2 where al: "append_loop h ?qs (drop ?r src) = (ps', r', h2)"
    by (cases "append_loop h ?qs (drop ?r src)")
  have eqs: "b' = b\<lparr>buf_size := buf_size b + length src, right_offset := r'\<rparr>" "h' = set_pages h2 (cow_ref b) ps'"
    using ap al more by (simp_all add: append_owned_def Let_def split: prod.splits)
  have tk: "length (take ?r src) = ?r" using more by simp
  have ls: "layout ?qs (left_offset b) 0 (buf_size b + ?r)"
      "take (buf_size b + ?r) (drop (left_offset b) (page_bytes ?qs)) = contents h b @ take ?r src"
    using layout_set_last [OF lay, of "take ?r src"] unfolding tk contents_def by simp_all
  have "addrs_ok (next_page h) ?qs" using buf_okD(2) [OF bok] ne by (simp add: addrs_ok_set_last)
  from append_loop_spec [OF hok ls(1) this al]
  have al': "layout ps' (left_offset b) r' (buf_size b + length src)"
      "take (buf_size b + length src) (drop (left_offset b) (page_bytes ps')) = contents h b @ src"
      "addrs_ok (next_page h2) ps'" "same_store h h2"
    and tail: "\<exists>rs. ps' = ?qs @ rs \<and> (\<forall>q \<in> set rs. next_page h \<le> fst q)"
    using more ls(2) by simp_all
  obtain rs where "ps' = ?qs @ rs" "\<forall>q \<in> set rs. next_page h \<le> fst q" using tail by blast
  then have "fst ` set ps' = fst ` set ?ps \<union> fst ` set rs" "fst ` set rs \<subseteq> {next_page h..}"
    by (auto simp only: set_append image_Un set_last_data_addrs [OF ne] atLeast_iff image_iff)
  then have "fst ` set ps' \<subseteq> fst ` set (pages (cows h (cow_ref b))) \<union> {next_page h..}"
    by (auto simp only: buf_pages_def)
  then have "extra_ok (next_page h') (cows h' (cow_ref b'))"
    using buf_okD(3) [OF bok] al'(4) by (auto simp: eqs heap_simps same_store_def intro!: extra_ok_pages)
  then show ?thesis
    using al' by (simp add: own_step_def eqs heap_simps contents_def [of "set_pages _ _ _"] only_cow_set_pages)
qed

lemma append_data_spec:
  assumes ok: "heap_ok h0" "buf_ok h0 b0" and ap: "append_data h0 b0 src = (r, b', h')"
  shows "r \<and> op_spec h0 b0 h' b' (contents h0 b0 @ src)"
proof -
  obtain b h where pw: "prepare_write h0 b0 = (b, h)" by (cases "prepare_write h0 b0")
  have sp: "heap_ok h" "buf_ok h b" "contents h b = contents h0 b0" using prepare_write_spec [OF ok pw] by blast+
  have r: "r" "append_owned h b src = (b', h')" using ap pw by (auto simp: append_data_def split: prod.splits)
  have "own_step h b h' b' (contents h b @ src)"
    using append_owned_fits [OF sp(2) _ r(2)] append_owned_spills [OF sp(1,2) _ r(2)]
    by (cases "length src < right_offset b") auto
  with r(1) sp(3) show ?thesis by (simp add: own_step_op_spec [OF ok pw])
qed

subsection \<open>Erasing\<close>

lemma free_front_pages_drop: "n < length ps \<Longrightarrow> free_front_pages n ps = drop n ps"
  by (induction n ps rule: free_front_pages.induct) (auto simp: drop_Suc)

lemma free_front_pages_last: "ps \<noteq> [] \<Longrightarrow> length ps \<le> Suc n \<Longrightarrow> free_front_pages n ps = [last ps]"
proof (induction n ps rule: free_front_pages.induct)
  case (1 ps)
  then show ?case by (cases ps) auto
next
  case (2 n ps)
  then show ?case by (cases ps; cases "tl ps") auto
qed

lemma page_div_small:
  assumes "n < 2 ^ 31"
  shows "page_div n = (int (n div kPageSize), int (n mod kPageSize))"
proof -
  have "int n sdiv int kPageSize = int n div int kPageSize" "int n smod int kPageSize = int n mod int kPageSize"
    by (simp_all add: sdiv_nonneg smod_nonneg)
  then show ?thesis
    using assms by (simp add: page_div_def int_of_size_small zdiv_int zmod_int)
qed

lemma page_bytes_drop:
  "\<forall>p \<in> set ps. length (snd p) = kPageSize \<Longrightarrow> page_bytes (drop k ps) = drop (k * kPageSize) (page_bytes ps)"
proof (induction ps arbitrary: k)
  case Nil
  then show ?case by simp
next
  case (Cons p ps)
  then show ?case by (cases k) auto
qed

lemma layout_pop_some:
  assumes lay: "layout ps l r n" and k: "k < n"
  defines "q \<equiv> (k + l) div kPageSize" and "m \<equiv> (k + l) mod kPageSize"
  shows "layout (free_front_pages q ps) m r (n - k) \<and> q < length ps \<and>
    take (n - k) (drop m (page_bytes (free_front_pages q ps))) = drop k (take n (drop l (page_bytes ps)))"
proof -
  have lens: "\<forall>p \<in> set ps. length (snd p) = kPageSize" and tot: "l + n + r = kPageSize * length ps"
    using lay by (simp_all add: layout_def)
  have "k + l < kPageSize * length ps" using k tot by simp
  then have q: "q < length ps" by (simp add: q_def less_mult_imp_div_less mult.commute)
  have dm: "q * kPageSize + m = k + l" by (simp add: q_def m_def)
  have m: "m < kPageSize" by (simp add: m_def)
  have fp: "free_front_pages q ps = drop q ps" using q by (rule free_front_pages_drop)
  have "m + (n - k) + r = kPageSize * (length ps - q)"
    using dm tot k by (simp add: diff_mult_distrib2 mult.commute)
  then have "layout (drop q ps) m r (n - k)"
    using lay q m lens by (auto simp: layout_def dest: in_set_dropD)
  moreover have "take (n - k) (drop m (page_bytes (drop q ps))) = drop k (take n (drop l (page_bytes ps)))"
    unfolding page_bytes_drop [OF lens] by (simp add: drop_take dm add.commute [of m])
  ultimately show ?thesis using q fp by simp
qed

lemma layout_pop_all:
  assumes lay: "layout ps l r n"
  shows "layout (free_front_pages ((n + l) div kPageSize) ps) 0 kPageSize 0"
proof -
  have tot: "l + n + r = kPageSize * length ps" and r: "r \<le> kPageSize" and ne: "ps \<noteq> []"
    and lens: "\<forall>p \<in> set ps. length (snd p) = kPageSize"
    using lay by (simp_all add: layout_def)
  have "kPageSize * (length ps - 1) \<le> n + l"
    using tot r by (simp add: diff_mult_distrib2)
  then have "length ps - 1 \<le> (n + l) div kPageSize"
    by (metis div_le_mono kPageSize_pos(2) nonzero_mult_div_cancel_left)
  then have "free_front_pages ((n + l) div kPageSize) ps = [last ps]"
    by (intro free_front_pages_last ne) simp
  then show ?thesis using lens ne by (simp add: layout_def)
qed

lemma free_front_pages_subset: "set (free_front_pages k ps) \<subseteq> set ps"
proof (induction k ps rule: free_front_pages.induct)
  case (2 n ps)
  have "set (tl ps) \<subseteq> set ps" by (cases ps) auto
  with 2 show ?case by (cases "length ps > 1") (simp_all add: subset_trans)
qed simp

lemma free_front_pages_addrs: "addrs_ok np ps \<Longrightarrow> addrs_ok np (free_front_pages k ps)"
proof (induction k ps rule: free_front_pages.induct)
  case (2 n ps)
  have "addrs_ok np (tl ps)" using "2.prems" by (cases ps) (auto simp: addrs_ok_def)
  with 2 show ?case by simp
qed simp

text \<open>The limit under which the conversions of \<open>pop\<close> to \<open>int\<close> are exact.\<close>

definition in_int_range :: "buffer \<Rightarrow> bool" where
  "in_int_range b \<longleftrightarrow> left_offset b + buf_size b < 2 ^ 31"

lemma pop_spec:
  assumes ok: "heap_ok h0" "buf_ok h0 b0" and rng: "in_int_range b0" and k: "k \<le> buf_size b0"
    and pop: "pop h0 b0 k = (r, b', h')"
  shows "r \<and> op_spec h0 b0 h' b' (drop k (contents h0 b0))"
proof -
  obtain b h where pw: "prepare_write h0 b0 = (b, h)" by (cases "prepare_write h0 b0")
  note sp = prepare_write_spec [OF ok pw]
  have bok: "buf_ok h b" using sp by blast
  note lay = buf_okD(1) [OF bok]
  let ?n = "k + left_offset b" and ?ps = "buf_pages h b"
  let ?qs = "free_front_pages (?n div kPageSize) ?ps"
  have n31: "?n < 2 ^ 31" and kb: "k \<le> buf_size b" using rng k sp by (simp_all add: in_int_range_def)
  have rem: "size_of_int (int (?n mod kPageSize)) = ?n mod kPageSize"
    by (intro size_of_int_nat) (simp add: kPageSize_def less_trans [OF mod_less_divisor])
  have eqs: "r" "h' = set_pages h (cow_ref b) ?qs"
      "b' = (if buf_size b = k then b\<lparr>left_offset := 0, buf_size := 0, right_offset := kPageSize\<rparr>
             else b\<lparr>left_offset := ?n mod kPageSize, buf_size := buf_size b - k\<rparr>)"
    using pop pw kb rem by (auto simp: pop_def page_div_small [OF n31] Let_def split: if_splits)
  have c: "cow_ref b' = cow_ref b" by (simp add: eqs(3))
  have pg: "buf_pages h' b' = ?qs" by (simp add: eqs(2) c heap_simps)
  have cont: "take (buf_size b) (drop (left_offset b) (page_bytes ?ps)) = contents h0 b0"
    using sp by (metis contents_def)
  have new: "layout ?qs (left_offset b') (right_offset b') (buf_size b') \<and>
      take (buf_size b') (drop (left_offset b') (page_bytes ?qs)) = drop k (contents h0 b0)"
  proof (cases "buf_size b = k")
    case True
    moreover have "length (contents h0 b0) = buf_size b"
      using contents_length [OF ok(2)] sp by simp
    ultimately show ?thesis using layout_pop_all [OF lay] by (simp add: eqs(3))
  next
    case False
    then have "k < buf_size b" using kb by simp
    from layout_pop_some [OF lay this] False show ?thesis by (simp add: eqs(3) cont)
  qed
  have "op_spec h0 b0 h' b' (drop k (contents h0 b0))"
  proof (rule op_specI [OF ok pw _ c])
    show "only_cow (cow_ref b) h h'" by (simp add: eqs(2) only_cow_set_pages same_store_refl)
    show "addrs_ok (next_page h') (buf_pages h' b')"
      unfolding pg using buf_okD(2) [OF bok] by (simp add: eqs(2) heap_simps free_front_pages_addrs)
    show "extra_ok (next_page h') (cows h' (cow_ref b'))"
      using buf_okD(3) [OF bok] free_front_pages_subset
      by (auto simp: eqs(2) c heap_simps buf_pages_def intro!: extra_ok_pages)
  qed (use new in \<open>simp_all add: pg contents_def\<close>)
  with eqs(1) show ?thesis by simp
qed

lemma pop_range:
  assumes ok: "heap_ok h0" "buf_ok h0 b0" and rng: "in_int_range b0" and pop: "pop h0 b0 k = (r, b', h')"
  shows "in_int_range b'"
proof -
  obtain b h where pw: "prepare_write h0 b0 = (b, h)" by (cases "prepare_write h0 b0")
  note sp = prepare_write_spec [OF ok pw]
  have rb: "left_offset b + buf_size b < 2 ^ 31" using rng sp by (simp add: in_int_range_def)
  show ?thesis
  proof (cases "k \<le> buf_size b")
    case True
    let ?n = "k + left_offset b"
    have n31: "?n < 2 ^ 31" using True rb by simp
    have rem: "size_of_int (int (?n mod kPageSize)) = ?n mod kPageSize"
      by (intro size_of_int_nat) (simp add: kPageSize_def less_trans [OF mod_less_divisor])
    have "?n mod kPageSize \<le> ?n" by simp
    then have "?n mod kPageSize + (buf_size b - k) < 2 ^ 31" using True rb by linarith
    then show ?thesis
      using pop pw True rem by (auto simp: pop_def page_div_small [OF n31] Let_def in_int_range_def split: if_splits)
  next
    case False
    then show ?thesis using pop pw rb by (auto simp: pop_def in_int_range_def)
  qed
qed

lemma pop_too_much:
  assumes "heap_ok h" and "buf_ok h b" and "buf_size b < k" and "pop h b k = (r, b', h')"
  shows "\<not> r \<and> op_spec h b h' b' (contents h b)"
proof -
  obtain b1 h1 where pw: "prepare_write h b = (b1, h1)" by (cases "prepare_write h b")
  note sp = prepare_write_spec [OF assms(1,2) pw]
  have "op_spec h b h1 b1 (contents h b)"
    using own_step_op_spec [OF assms(1,2) pw own_step_refl] sp by simp
  with assms pw sp show ?thesis by (simp add: pop_def)
qed

subsection \<open>Copying out\<close>

lemma copy_front_loop_spec:
  assumes "\<forall>p \<in> set ps. length (snd p) = kPageSize" and "off < kPageSize"
    and "off + sz \<le> kPageSize * length ps" and "ps \<noteq> []"
  shows "copy_front_loop off ps sz = Some (take sz (drop off (page_bytes ps)))"
  using assms
proof (induction off ps sz rule: copy_front_loop.induct)
  case (1 off sz)
  then show ?case by simp
next
  case (2 off p ps sz)
  have p: "length (snd p) = kPageSize" using "2.prems" by simp
  show ?case
  proof (cases "sz \<le> kPageSize - off")
    case True
    then show ?thesis using p by simp
  next
    case False
    then have m: "min sz (kPageSize - off) = kPageSize - off" by simp
    have ne: "ps \<noteq> []" using "2.prems" False by auto
    have "copy_front_loop 0 ps (sz - min sz (kPageSize - off))
        = Some (take (sz - min sz (kPageSize - off)) (drop 0 (page_bytes ps)))"
      by (rule "2.IH" [OF refl refl]) (use "2.prems" False ne m in auto)
    with False p m "2.prems"(2) show ?thesis by simp
  qed
qed

lemma copy_front_spec:
  assumes "buf_ok h b" and "sz \<le> buf_size b"
  shows "copy_front h b sz = Some (True, take sz (contents h b))"
proof -
  have "copy_front_loop (left_offset b) (buf_pages h b) sz
      = Some (take sz (drop (left_offset b) (page_bytes (buf_pages h b))))"
    using buf_okD [OF assms(1)] assms(2) by (intro copy_front_loop_spec) (auto simp: layout_def)
  then show ?thesis using assms(2) by (simp add: copy_front_def contents_def min_def)
qed

lemma copy_front_buffer_loop_spec:
  assumes "\<forall>p \<in> set ps. length (snd p) = kPageSize" and "off < kPageSize"
    and "off + sz \<le> kPageSize * length ps" and "ps \<noteq> []" and "heap_ok h" and "buf_ok h dst"
  shows "\<exists>dst' h'. copy_front_buffer_loop off ps sz h dst = Some (dst', h') \<and>
    op_spec h dst h' dst' (contents h dst @ take sz (drop off (page_bytes ps)))"
  using assms
proof (induction off ps sz h dst rule: copy_front_buffer_loop.induct)
  case (1 off sz h dst)
  then show ?case by simp
next
  case (2 off p ps sz h dst)
  let ?n = "min sz (kPageSize - off)" and ?chunk = "take (min sz (kPageSize - off)) (drop off (snd p))"
  have p: "length (snd p) = kPageSize" using "2.prems" by simp
  obtain ok d1 h1 where ap: "append_data h dst ?chunk = (ok, d1, h1)" by (cases "append_data h dst ?chunk")
  have sp: "op_spec h dst h1 d1 (contents h dst @ ?chunk)" using append_data_spec [OF _ _ ap] "2.prems" by blast
  show ?case
  proof (cases "sz \<le> kPageSize - off")
    case True
    have "copy_front_buffer_loop off (p # ps) sz h dst = Some (d1, h1)" using True ap by simp
    moreover have "take sz (drop off (page_bytes (p # ps))) = ?chunk" using True p by (simp add: min_def)
    ultimately show ?thesis using sp by auto
  next
    case False
    then have m: "?n = kPageSize - off" by simp
    have ne: "ps \<noteq> []" using "2.prems" False by auto
    have "\<exists>d' h'. copy_front_buffer_loop 0 ps (sz - ?n) h1 d1 = Some (d', h') \<and>
      op_spec h1 d1 h' d' (contents h1 d1 @ take (sz - ?n) (drop 0 (page_bytes ps)))"
      by (rule "2.IH" [OF refl ap [symmetric] refl])
        (use "2.prems" False ne m op_specD [OF sp] in auto)
    then obtain d' h' where rec: "copy_front_buffer_loop 0 ps (sz - ?n) h1 d1 = Some (d', h')"
        "op_spec h1 d1 h' d' (contents h1 d1 @ take (sz - ?n) (page_bytes ps))"
      by auto
    have "copy_front_buffer_loop off (p # ps) sz h dst = Some (d', h')" using False ap rec(1) m by simp
    moreover have "contents h1 d1 @ take (sz - ?n) (page_bytes ps)
        = contents h dst @ take sz (drop off (page_bytes (p # ps)))"
      using op_specD(3) [OF sp] p False m "2.prems"(2) by simp
    ultimately show ?thesis using op_spec_trans [OF sp rec(2)] by auto
  qed
qed

lemma copy_front_buffer_spec:
  assumes ok: "heap_ok h" "buf_ok h b" "buf_ok h dst" and sep: "separate h dst b" and sz: "sz \<le> buf_size b"
  shows "\<exists>dst' h'. copy_front_buffer h b dst sz = Some (True, dst', h') \<and>
    op_spec h dst h' dst' (contents h dst @ take sz (contents h b))"
proof -
  have "\<exists>dst' h'. copy_front_buffer_loop (left_offset b) (buf_pages h b) sz h dst = Some (dst', h') \<and>
    op_spec h dst h' dst' (contents h dst @ take sz (drop (left_offset b) (page_bytes (buf_pages h b))))"
    using buf_okD [OF ok(2)] sz ok by (intro copy_front_buffer_loop_spec) (auto simp: layout_def)
  moreover have "\<not> (cow_ref dst = cow_ref b \<and> \<not> need_copy_for_write h dst)"
    using sep by (auto simp: separate_def)
  ultimately show ?thesis using sz by (auto simp: copy_front_buffer_def contents_def min_def)
qed

subsection \<open>Segments and whole-buffer append\<close>

definition segment :: "buf_heap \<Rightarrow> buffer \<Rightarrow> page \<Rightarrow> byte list" where
  "segment h b p = (let (off, len) = get_page_segment h b (fst p) in take len (drop off (snd p)))"

lemma segment_cong: "buf_pages h' b = buf_pages h b \<Longrightarrow> segment h' b p = segment h b p"
  by (simp add: segment_def get_page_segment_def)

lemma distinct_fst_hd_last:
  assumes "distinct (map fst ps)" and "p \<in> set ps"
  shows "fst p = fst (hd ps) \<longleftrightarrow> p = hd ps" "fst p = fst (last ps) \<longleftrightarrow> p = last ps"
proof -
  have "inj_on fst (set ps)" using assms(1) by (simp add: distinct_map)
  moreover have "hd ps \<in> set ps" "last ps \<in> set ps" using assms(2) by (auto intro: hd_in_set last_in_set)
  ultimately show "fst p = fst (hd ps) \<longleftrightarrow> p = hd ps" "fst p = fst (last ps) \<longleftrightarrow> p = last ps"
    using assms(2) by (auto dest: inj_onD)
qed

lemma concat_middle_segments:
  assumes "distinct (map fst (p # ps))" and "\<forall>q \<in> set ps. length (snd q) = kPageSize" and "ps \<noteq> []"
    and "r \<le> kPageSize"
  shows "concat (map (\<lambda>q. take (if fst q = fst (last ps) then kPageSize - r else kPageSize) (snd q)) ps)
    = take (kPageSize * length ps - r) (page_bytes ps)"
  using assms
proof (induction ps arbitrary: p)
  case Nil
  then show ?case by simp
next
  case (Cons a ps)
  show ?case
  proof (cases "ps = []")
    case True
    then show ?thesis by simp
  next
    case False
    have "fst a \<noteq> fst (last ps)" using Cons.prems(1) False by (auto simp: image_iff)
    moreover have "kPageSize * length (a # ps) - r - kPageSize = kPageSize * length ps - r" by simp
    moreover have "concat (map (\<lambda>q. take (if fst q = fst (last ps) then kPageSize - r else kPageSize) (snd q)) ps)
        = take (kPageSize * length ps - r) (page_bytes ps)"
      by (rule Cons.IH [of a]) (use Cons.prems False in auto)
    moreover have "kPageSize \<le> kPageSize * length (a # ps) - r"
      using False Cons.prems(4) by (cases ps) auto
    ultimately show ?thesis using Cons.prems(2) False by simp
  qed
qed

lemma segments_contents:
  assumes "buf_ok h b"
  shows "concat (map (segment h b) (buf_pages h b)) = contents h b"
proof -
  let ?l = "left_offset b" and ?r = "right_offset b"
  obtain p ps where ps: "buf_pages h b = p # ps" using buf_okD(4) [OF assms] by (cases "buf_pages h b") auto
  have lens: "\<forall>q \<in> set (p # ps). length (snd q) = kPageSize" and l: "?l < kPageSize" and r: "?r \<le> kPageSize"
    and tot: "?l + buf_size b + ?r = kPageSize * Suc (length ps)"
    using buf_okD(1) [OF assms] by (simp_all add: layout_def ps)
  have lens': "\<forall>q \<in> set ps. length (snd q) = kPageSize" using lens by simp
  have di: "distinct (map fst (p # ps))" using buf_okD(2) [OF assms] by (simp add: addrs_ok_def ps)
  show ?thesis
  proof (cases "ps = []")
    case True
    then have "buf_size b = kPageSize - (?l + ?r)" using tot by simp
    with True show ?thesis by (simp add: segment_def get_page_segment_def contents_def ps)
  next
    case False
    have hd: "segment h b p = drop ?l (snd p)"
      using di False lens by (auto simp: segment_def get_page_segment_def ps image_iff)
    have "map (segment h b) ps
        = map (\<lambda>q. take (if fst q = fst (last ps) then kPageSize - ?r else kPageSize) (snd q)) ps"
      using di False by (auto simp: segment_def get_page_segment_def ps image_iff)
    then have "concat (map (segment h b) ps) = take (kPageSize * length ps - ?r) (page_bytes ps)"
      by (simp only: concat_middle_segments [OF di lens' False r])
    moreover have "take (buf_size b) (drop ?l (page_bytes (p # ps)))
        = drop ?l (snd p) @ take (buf_size b - (kPageSize - ?l)) (page_bytes ps)"
    proof -
      have "kPageSize \<le> kPageSize * length ps" using False by (cases ps) auto
      then have "kPageSize - ?l \<le> buf_size b" using tot r unfolding mult_Suc_right by linarith
      then show ?thesis using lens l by simp
    qed
    moreover have "buf_size b - (kPageSize - ?l) = kPageSize * length ps - ?r"
      using tot l r by simp
    ultimately show ?thesis using hd by (simp add: contents_def ps)
  qed
qed

lemma append_segments_spec:
  assumes "heap_ok h" and "buf_ok h b" and "buf_ok h src" and "separate h b src"
    and "append_segments h b src ps = (ok, b', h')"
  shows "ok \<and> op_spec h b h' b' (contents h b @ concat (map (segment h src) ps)) \<or> ps = []"
  using assms
proof (induction h b src ps arbitrary: ok b' h' rule: append_segments.induct)
  case (1 h b src)
  then show ?case by simp
next
  case (2 h b src p ps)
  obtain o1 b1 h1 where ap: "append_data h b (segment h src p) = (o1, b1, h1)"
    by (cases "append_data h b (segment h src p)")
  obtain o2 b2 h2 where rec: "append_segments h1 b1 src ps = (o2, b2, h2)"
    by (cases "append_segments h1 b1 src ps")
  have eqs: "ok = (o1 \<and> o2)" "b' = b2" "h' = h2"
    using "2.prems"(5) ap rec by (auto simp: segment_def split: prod.splits)
  have sp: "o1" "op_spec h b h1 b1 (contents h b @ segment h src p)"
    using append_data_spec [OF "2.prems"(1,2) ap] by blast+
  have src: "preserved h h1 src" "cow_ref src \<noteq> cow_ref b1" using op_specD(4) [OF sp(2)] "2.prems" by blast+
  have seg: "segment h1 src = segment h src" using src(1) by (intro ext segment_cong) (simp add: preserved_def)
  show ?case
  proof (cases "ps = []")
    case True
    with rec sp eqs show ?thesis by simp
  next
    case False
    obtain off len where ol: "get_page_segment h src (fst p) = (off, len)" by (cases "get_page_segment h src (fst p)")
    have ap': "append_data h b (take len (drop off (snd p))) = (o1, b1, h1)"
      using ap ol by (simp add: segment_def)
    have "o2 \<and> op_spec h1 b1 h2 b2 (contents h1 b1 @ concat (map (segment h1 src) ps)) \<or> ps = []"
      by (rule "2.IH" [OF refl ol [symmetric] refl ap' [symmetric] refl _ _ _ _ rec])
        (use src op_specD [OF sp(2)] in \<open>auto simp: separate_def preserved_def\<close>)
    then have r2: "o2" "op_spec h1 b1 h2 b2 (contents h1 b1 @ concat (map (segment h src) ps))"
      using False seg by auto
    have "op_spec h b h2 b2 (contents h b @ concat (map (segment h src) (p # ps)))"
      using op_spec_trans [OF sp(2) r2(2)] op_specD(3) [OF sp(2)] by simp
    with r2(1) sp(1) eqs show ?thesis by simp
  qed
qed

lemma append_buffer_spec:
  assumes "heap_ok h" and "buf_ok h b" and "buf_ok h src" and "separate h b src"
  shows "\<exists>b' h'. append_buffer h b src = Some (True, b', h') \<and>
    op_spec h b h' b' (contents h b @ contents h src)"
proof -
  obtain ok b' h' where ap: "append_segments h b src (buf_pages h src) = (ok, b', h')"
    by (cases "append_segments h b src (buf_pages h src)")
  have "append_buffer h b src = Some (ok, b', h')"
    using assms(4) ap by (auto simp: append_buffer_def separate_def)
  then show ?thesis
    using append_segments_spec [OF assms ap] buf_okD(4) [OF assms(3)]
    by (auto simp: segments_contents [OF assms(3)])
qed

subsection \<open>Reading from a descriptor\<close>

lemma ensure_extra_spec:
  assumes ok: "heap_ok h1" "buf_ok h1 b" and e: "ensure_extra h1 (cow_ref b) = (e, h)"
  shows "heap_ok h \<and> buf_ok h b \<and> buf_pages h b = buf_pages h1 b \<and>
    length (snd e) = kPageSize \<and> fst e < next_page h \<and> fst e \<notin> fst ` set (buf_pages h b) \<and>
    only_cow (cow_ref b) h1 h"
proof (cases "extra_page (cows h1 (cow_ref b))")
  case (Some p)
  then show ?thesis using e ok by (auto simp: ensure_extra_def buf_ok_def extra_ok_def buf_pages_def only_cow_def)
next
  case None
  then have "e = (next_page h1, unwritten h1 (next_page h1))"
      "h = set_extra (h1\<lparr>next_page := Suc (next_page h1)\<rparr>) (cow_ref b) (Some e)"
    using e by (auto simp: ensure_extra_def alloc_page_def)
  then show ?thesis using ok
    by (auto simp: buf_ok_def heap_ok_def heap_simps buf_pages_def only_cow_def extra_ok_def addrs_ok_def
        set_extra_def)
qed

lemma read_owned_fits:
  assumes bok: "buf_ok h b" and less: "length bs < right_offset b" and rd: "read_owned h b e bs = (b', h')"
  shows "own_step h b h' b' (contents h b @ bs)"
proof -
  have "append_owned h b bs = (b', h')"
    using rd less by (simp add: read_owned_def append_owned_def Let_def)
  with bok less show ?thesis by (rule append_owned_fits)
qed

lemma read_owned_spills:
  assumes hok: "heap_ok h" and bok: "buf_ok h b" and more: "right_offset b \<le> length bs"
    and len: "length bs \<le> right_offset b + kPageSize" and rd: "read_owned h b e bs = (b', h')"
    and e: "length (snd e) = kPageSize" "fst e < next_page h" "fst e \<notin> fst ` set (buf_pages h b)"
  shows "own_step h b h' b' (contents h b @ bs)"
proof -
  let ?r = "right_offset b" and ?ps = "buf_pages h b" and ?np = "next_page h"
  let ?qs = "set_last_data ?ps (memcpy_at (snd (last ?ps)) (kPageSize - ?r) (take ?r bs))"
  let ?e1 = "(fst e, memcpy_at (snd e) 0 (drop ?r bs))"
  note lay = buf_okD(1) [OF bok] and ne = buf_okD(4) [OF bok]
  have eqs: "b' = b\<lparr>buf_size := buf_size b + length bs, right_offset := kPageSize + ?r - length bs\<rparr>"
      "h' = set_extra ((set_pages h (cow_ref b) (?qs @ [?e1]))\<lparr>next_page := Suc ?np\<rparr>) (cow_ref b)
              (Some (?np, unwritten h ?np))"
    using rd more by (simp_all add: read_owned_def Let_def alloc_page_def heap_simps)
  have pg: "buf_pages h' b' = ?qs @ [?e1]" by (simp add: eqs heap_simps buf_pages_def set_pages_def)
  have tk: "length (take ?r bs) = ?r" and dl: "length (drop ?r bs) \<le> kPageSize" using more len by simp_all
  have ls: "layout ?qs (left_offset b) 0 (buf_size b + ?r)"
      "take (buf_size b + ?r) (drop (left_offset b) (page_bytes ?qs)) = contents h b @ take ?r bs"
    using layout_set_last [OF lay, of "take ?r bs"] unfolding tk contents_def by simp_all
  have d: "length (snd ?e1) = kPageSize" "take (length (drop ?r bs)) (snd ?e1) = drop ?r bs"
    using e(1) dl by (auto simp: memcpy_at_def)
  have n: "buf_size b + ?r + length (drop ?r bs) = buf_size b + length bs"
    "kPageSize - length (drop ?r bs) = kPageSize + ?r - length bs" using more len by simp_all
  note push = layout_push_page [OF ls(1) d(1) dl, of "drop ?r bs" "fst e", unfolded n ls(2)]
  have lay': "layout (buf_pages h' b') (left_offset b') (right_offset b') (buf_size b')"
    and cont: "contents h' b' = contents h b @ bs"
    unfolding pg contents_def [of h'] using push d(2) by (simp_all add: eqs(1))
  have ad: "addrs_ok ?np ?qs" "fst ` set ?qs = fst ` set ?ps"
    using buf_okD(2) [OF bok] ne by (simp_all add: addrs_ok_set_last set_last_data_addrs)
  have "addrs_ok (next_page h') (buf_pages h' b')"
    unfolding pg using ad e by (auto simp: eqs(2) heap_simps addrs_ok_def)
  moreover have "extra_ok (next_page h') (cows h' (cow_ref b'))"
  proof -
    have "?np \<notin> fst ` set ?qs" unfolding ad(2) using buf_okD(2) [OF bok] by (auto simp: addrs_ok_def)
    then show ?thesis using e(2) hok by (simp add: eqs extra_ok_def heap_ok_def set_extra_def set_pages_def)
  qed
  ultimately show ?thesis using lay' cont by (simp add: own_step_def eqs only_cow_def heap_simps)
qed

lemma own_step_cong:
  assumes "own_step h b h' b' xs" and "only_cow (cow_ref b) h1 h"
  shows "own_step h1 b h' b' xs"
  using assms by (auto simp: own_step_def only_cow_def)

lemma read_from_fd_spec:
  assumes ok: "heap_ok h0" "buf_ok h0 b0" and rd: "\<And>n bs. readv n = Some bs \<Longrightarrow> length bs \<le> n"
    and call: "read_from_fd h0 b0 readv = (nread, b', h')"
  shows "(case readv (right_offset b0 + kPageSize) of
      None \<Rightarrow> nread = -1 \<and> op_spec h0 b0 h' b' (contents h0 b0)
    | Some bs \<Rightarrow> nread = int (length bs) \<and> op_spec h0 b0 h' b' (contents h0 b0 @ bs))"
proof -
  obtain b h1 where pw: "prepare_write h0 b0 = (b, h1)" by (cases "prepare_write h0 b0")
  have sp: "heap_ok h1" "buf_ok h1 b" "contents h1 b = contents h0 b0" "right_offset b = right_offset b0"
    using prepare_write_spec [OF ok pw] by blast+
  obtain e h where eh: "ensure_extra h1 (cow_ref b) = (e, h)" by (cases "ensure_extra h1 (cow_ref b)")
  have ex: "heap_ok h" "buf_ok h b" "buf_pages h b = buf_pages h1 b" "length (snd e) = kPageSize"
      "fst e < next_page h" "fst e \<notin> fst ` set (buf_pages h b)" "only_cow (cow_ref b) h1 h"
    using ensure_extra_spec [OF sp(1,2) eh] by blast+
  have cont: "contents h b = contents h0 b0" using contents_cong [OF ex(3)] sp(3) by simp
  show ?thesis
  proof (cases "readv (right_offset b0 + kPageSize)")
    case None
    then have "nread = -1" "b' = b" "h' = h"
      using call pw eh by (auto simp: read_from_fd_def sp(4))
    then show ?thesis
      using None cont own_step_op_spec [OF ok pw] own_step_cong [OF own_step_refl [OF ex(2)] ex(7)] by simp
  next
    case (Some bs)
    then have r: "nread = int (length bs)" "read_owned h b e bs = (b', h')"
      using call pw eh by (auto simp: read_from_fd_def sp(4) split: prod.splits)
    have "own_step h b h' b' (contents h b @ bs)"
      using read_owned_fits [OF ex(2) _ r(2)] read_owned_spills [OF ex(1,2) _ _ r(2) ex(4-6)] rd [OF Some] sp(4)
      by (cases "length bs < right_offset b") auto
    then show ?thesis using Some r(1) cont own_step_op_spec [OF ok pw own_step_cong [OF _ ex(7)]] by simp
  qed
qed

subsection \<open>Writing to a descriptor\<close>

lemma iovecs_prefix:
  assumes lay: "layout ps l r n"
  shows "\<exists>rest. take n (drop l (page_bytes ps)) = concat (iovecs ps l r) @ rest"
proof -
  have tot: "l + n + r = kPageSize * length ps" and l: "l < kPageSize" and r: "r \<le> kPageSize"
    and lens: "\<forall>p \<in> set ps. length (snd p) = kPageSize"
    using lay by (simp_all add: layout_def)
  consider p where "ps = [p]" | p q qs where "ps = p # q # qs"
    using lay by (cases ps rule: remdups_adj.cases) (auto simp: layout_def)
  then show ?thesis
  proof cases
    case 1
    then have "n = kPageSize - l - r" using tot by simp
    with 1 show ?thesis by (simp add: iovecs_def)
  next
    case 2
    let ?m = "kPageSize - l + (kPageSize - r)"
    have "?m \<le> n" using tot l r 2 by simp
    then have "take n (drop l (page_bytes ps))
        = take ?m (drop l (page_bytes ps)) @ take (n - ?m) (drop ?m (drop l (page_bytes ps)))"
      by (metis le_add_diff_inverse take_add)
    moreover have "concat (iovecs ps l r) = take ?m (drop l (page_bytes ps))"
      using 2 lens l by (simp add: iovecs_def upt_rec)
    ultimately show ?thesis by auto
  qed
qed

lemma iovecs_nonempty:
  assumes lay: "layout ps l r n" and n: "0 < n"
  shows "concat (iovecs ps l r) \<noteq> []"
proof -
  have "l + n + r = kPageSize * length ps" "l < kPageSize" "\<forall>p \<in> set ps. length (snd p) = kPageSize"
    using lay by (simp_all add: layout_def)
  with lay n show ?thesis
    by (cases ps rule: remdups_adj.cases) (auto simp: layout_def iovecs_def upt_rec)
qed

lemma write_to_fd_spec:
  assumes ok: "heap_ok h0" "buf_ok h0 b0" and rng: "in_int_range b0"
    and wr: "\<And>bs. writev bs \<le> int (length bs)" and call: "write_to_fd h0 b0 writev = (n, b', h')"
  shows "n \<le> int (buf_size b0) \<and> op_spec h0 b0 h' b' (drop (nat n) (contents h0 b0)) \<and>
    (contents h0 b0 \<noteq> [] \<longrightarrow> (\<exists>sent rest. contents h0 b0 = sent @ rest \<and> sent \<noteq> [] \<and> n = writev sent))"
proof -
  obtain b h where pw: "prepare_write h0 b0 = (b, h)" by (cases "prepare_write h0 b0")
  have sp: "heap_ok h" "buf_ok h b" "contents h b = contents h0 b0" "buf_size b = buf_size b0"
      "left_offset b = left_offset b0" using prepare_write_spec [OF ok pw] by blast+
  have same: "op_spec h0 b0 h b (contents h0 b0)"
    using own_step_op_spec [OF ok pw own_step_refl [OF sp(2)]] sp(3) by simp
  have len: "length (contents h0 b0) = buf_size b0" using ok(2) by (rule contents_length)
  show ?thesis
  proof (cases "buf_size b0 = 0")
    case True
    with call pw sp same len show ?thesis by (simp add: write_to_fd_def)
  next
    case False
    let ?vec = "concat (iovecs (buf_pages h b) (left_offset b) (right_offset b))"
    obtain rest where rest: "contents h0 b0 = ?vec @ rest"
      using iovecs_prefix [OF buf_okD(1) [OF sp(2)]] sp(3) by (auto simp: contents_def)
    have n: "n = writev ?vec" using call pw False sp(4) by (auto simp: write_to_fd_def Let_def split: if_splits prod.splits)
    have "length ?vec \<le> buf_size b0" using arg_cong [OF rest, of length] len by simp
    then have le: "n \<le> int (buf_size b0)" using wr [of ?vec] n by linarith
    have "op_spec h0 b0 h' b' (drop (nat n) (contents h0 b0))"
    proof (cases "n > 0")
      case True
      then obtain r where p: "pop h b (nat n) = (r, b', h')"
        using call pw False sp(4) n by (auto simp: write_to_fd_def Let_def split: prod.splits)
      have "op_spec h b h' b' (drop (nat n) (contents h b))"
        using pop_spec [OF sp(1,2) _ _ p] rng le sp(4,5) by (simp add: in_int_range_def)
      with op_spec_trans [OF same] sp(3) show ?thesis by metis
    next
      case False
      then have "b' = b" "h' = h" using call pw \<open>buf_size b0 \<noteq> 0\<close> sp(4) n by (auto simp: write_to_fd_def Let_def)
      with same False show ?thesis by simp
    qed
    moreover have "?vec \<noteq> []" using iovecs_nonempty [OF buf_okD(1) [OF sp(2)]] False sp(4) by simp
    ultimately show ?thesis using le n rest by blast
  qed
qed

lemma write_to_fd_range:
  assumes ok: "heap_ok h0" "buf_ok h0 b0" and rng: "in_int_range b0" and call: "write_to_fd h0 b0 writev = (n, b', h')"
  shows "in_int_range b'"
proof -
  obtain b h where pw: "prepare_write h0 b0 = (b, h)" by (cases "prepare_write h0 b0")
  have sp: "heap_ok h" "buf_ok h b" "in_int_range b"
    using prepare_write_spec [OF ok pw] rng by (simp_all add: in_int_range_def)
  show ?thesis using call pw sp(3) pop_range [OF sp]
    by (auto simp: write_to_fd_def Let_def split: if_splits prod.splits)
qed

subsection \<open>Construction, copying and destruction\<close>

lemma Buffer_new_spec:
  assumes "heap_ok h" and "Buffer_new h = (b, h')"
  shows "heap_ok h' \<and> buf_ok h' b \<and> contents h' b = [] \<and> \<not> borrowed b \<and>
    (\<forall>b2. buf_ok h b2 \<longrightarrow> preserved h h' b2 \<and> cow_ref b2 \<noteq> cow_ref b)"
proof -
  let ?np = "next_page h" and ?c = "next_cow h"
  have eqs: "b = \<lparr>cow_ref = ?c, borrowed = False, left_offset = 0, right_offset = kPageSize, buf_size = 0\<rparr>"
      "h' = h\<lparr>use_count := (use_count h)(?c := 1), next_cow := Suc ?c, next_page := Suc ?np,
         cows := (cows h)(?c := CowInfo\<lparr>pages := [(?np, unwritten h ?np)]\<rparr>)\<rparr>"
    using assms(2) by (auto simp: Buffer_new_def new_cow_info_def alloc_page_def set_pages_def CowInfo_def)
  have "buf_ok h' b" using assms(1)
    by (simp add: eqs buf_ok_def buf_pages_def layout_def addrs_ok_def extra_ok_def heap_ok_def CowInfo_def)
  moreover have "preserved h h' b2 \<and> cow_ref b2 \<noteq> cow_ref b" if "buf_ok h b2" for b2
    using that by (auto simp: eqs preserved_def buf_ok_def buf_pages_def intro: addrs_ok_mono extra_ok_mono)
  ultimately show ?thesis using assms(1) by (simp add: eqs heap_ok_def contents_def)
qed

lemma Buffer_copy_spec:
  assumes "heap_ok h" and "buf_ok h b" and "Buffer_copy h b = (b', h')"
  shows "heap_ok h' \<and> buf_ok h' b' \<and> contents h' b' = contents h b \<and> need_copy_for_write h' b' \<and>
    (\<forall>b2. buf_ok h b2 \<longrightarrow> preserved h h' b2)"
proof -
  have eqs: "b' = b\<lparr>borrowed := True\<rparr>" "h' = retain h (cow_ref b)"
    using assms(3) by (simp_all add: Buffer_copy_def)
  show ?thesis using assms(1,2)
    by (auto simp: eqs retain_def heap_ok_def buf_ok_def buf_pages_def contents_def preserved_def
        need_copy_for_write_def)
qed

section \<open>Properties of the buffer\<close>

text \<open>A store with no buffers, and the buffer with contents \<open>s\<close> built in it by the constructor
  and one \<open>append\<close>: a concrete state that satisfies the invariants.\<close>

definition empty_heap :: buf_heap where
  "empty_heap = \<lparr>cows = (\<lambda>_. CowInfo), use_count = (\<lambda>_. 0), next_cow = 0, next_page = 0,
     unwritten = (\<lambda>_. replicate kPageSize 0)\<rparr>"

definition filled_buffer :: "byte list \<Rightarrow> buffer \<times> buf_heap" where
  "filled_buffer s = (let (b, h) = Buffer_new empty_heap; (_, b', h') = append_data h b s in (b', h'))"

lemma filled_buffer_ok:
  "heap_ok (snd (filled_buffer s))" "buf_ok (snd (filled_buffer s)) (fst (filled_buffer s))"
  "contents (snd (filled_buffer s)) (fst (filled_buffer s)) = s"
  "buf_size (fst (filled_buffer s)) = length s"
proof -
  obtain b h where nw: "Buffer_new empty_heap = (b, h)" by (cases "Buffer_new empty_heap")
  obtain r b' h' where ap: "append_data h b s = (r, b', h')" by (cases "append_data h b s")
  have "heap_ok empty_heap" by (simp add: heap_ok_def empty_heap_def)
  note new = Buffer_new_spec [OF this nw]
  from append_data_spec [OF _ _ ap] new
  have "op_spec h b h' b' s" by simp
  then show "heap_ok (snd (filled_buffer s))" "buf_ok (snd (filled_buffer s)) (fst (filled_buffer s))"
    "contents (snd (filled_buffer s)) (fst (filled_buffer s)) = s" "buf_size (fst (filled_buffer s)) = length s"
    using op_spec_size by (auto simp: filled_buffer_def nw ap dest: op_specD)
qed

lemma filled_buffer_range:
  "length s < 2 ^ 30 \<Longrightarrow> in_int_range (fst (filled_buffer s))"
  using filled_buffer_ok(4) [of s] buf_okD(5) [OF filled_buffer_ok(2) [of s]]
  by (simp add: in_int_range_def kPageSize_def)

text \<open>C11: \<open>Buffer::append\<close> always succeeds and makes the buffer hold its old bytes followed by the
  appended ones, whatever the page boundaries; every other buffer whose pages it does not share as a
  writer keeps its bytes, and the invariants of the store hold afterwards.\<close>

theorem append_appends:
  assumes "heap_ok h" and "buf_ok h b" and "append_data h b src = (r, b', h')"
  shows "r \<and> heap_ok h' \<and> buf_ok h' b' \<and> contents h' b' = contents h b @ src \<and>
    (\<forall>b2. buf_ok h b2 \<and> separate h b b2 \<longrightarrow> buf_ok h' b2 \<and> contents h' b2 = contents h b2)"
  using append_data_spec [OF assms] by (auto dest: op_specD preserved_contents)

theorem append_appends_witness:
  "\<exists>r b' h'. append_data (snd (filled_buffer [1, 2])) (fst (filled_buffer [1, 2])) [3] = (r, b', h') \<and>
    r = True \<and> contents h' b' = [1, 2, 3]"
proof -
  obtain r b' h' where ap: "append_data (snd (filled_buffer [1, 2])) (fst (filled_buffer [1, 2])) [3] = (r, b', h')"
    by (rule prod_cases3)
  from append_appends [OF filled_buffer_ok(1,2) ap] ap show ?thesis by (auto simp: filled_buffer_ok)
qed

text \<open>\<open>Buffer::pop\<close> removes exactly the first \<open>k\<close> bytes when there are that many, and
  otherwise returns false and leaves the bytes as they are; buffers it does not share pages with as a
  writer keep their bytes.\<close>

lemma pop_drops:
  assumes "heap_ok h" and "buf_ok h b" and "in_int_range b" and "pop h b k = (r, b', h')"
  shows "r = (k \<le> length (contents h b)) \<and> heap_ok h' \<and> buf_ok h' b' \<and>
    contents h' b' = (if r then drop k (contents h b) else contents h b) \<and>
    (\<forall>b2. buf_ok h b2 \<and> separate h b b2 \<longrightarrow> buf_ok h' b2 \<and> contents h' b2 = contents h b2)"
proof (cases "k \<le> buf_size b")
  case True
  from pop_spec [OF assms(1-3) True assms(4)] show ?thesis
    using True contents_length [OF assms(2)] by (auto dest: op_specD preserved_contents)
next
  case False
  from pop_too_much [OF assms(1,2) _ assms(4)] show ?thesis
    using False contents_length [OF assms(2)] by (auto dest: op_specD preserved_contents)
qed

text \<open>\<open>Buffer::copy_front\<close> copies out the first \<open>sz\<close> bytes when the buffer has them, never
  running past the last page, and reports failure without touching memory otherwise.\<close>

lemma copy_front_exact:
  assumes "buf_ok h b"
  shows "copy_front h b sz = (if sz \<le> length (contents h b)
    then Some (True, take sz (contents h b)) else Some (False, []))"
proof (cases "sz \<le> buf_size b")
  case True
  with copy_front_spec [OF assms True] contents_length [OF assms] show ?thesis by simp
next
  case False
  with contents_length [OF assms] show ?thesis by (simp add: copy_front_def)
qed

text \<open>C12: \<open>Buffer::read_from_fd\<close> appends exactly the bytes \<open>readv\<close> delivered, in order, over the
  free tail of the last page and the spare page, and changes no byte when \<open>readv\<close> fails.  \<open>readv\<close>
  delivers at most as many bytes as it is given room for.\<close>

theorem read_from_fd_appends:
  assumes "heap_ok h" and "buf_ok h b" and "\<And>n bs. readv n = Some bs \<Longrightarrow> length bs \<le> n"
    and "read_from_fd h b readv = (nread, b', h')"
  shows "heap_ok h' \<and> buf_ok h' b' \<and> (case readv (right_offset b + kPageSize) of
      None \<Rightarrow> nread = -1 \<and> contents h' b' = contents h b
    | Some bs \<Rightarrow> nread = int (length bs) \<and> contents h' b' = contents h b @ bs)"
  using read_from_fd_spec [OF assms] by (auto split: option.splits dest: op_specD)

theorem read_from_fd_appends_witness:
  "\<exists>b' h'. read_from_fd (snd (filled_buffer [1])) (fst (filled_buffer [1])) (\<lambda>n. Some (take n [7, 8])) = (2, b', h') \<and>
    contents h' b' = [1, 7, 8]"
proof -
  obtain n b' h' where rd: "read_from_fd (snd (filled_buffer [1])) (fst (filled_buffer [1]))
      (\<lambda>n. Some (take n [7, 8])) = (n, b', h')" by (rule prod_cases3)
  have "8192 \<le> right_offset (fst (filled_buffer [1])) + kPageSize" by (simp add: kPageSize_def)
  then have "take (right_offset (fst (filled_buffer [1])) + kPageSize) [7, 8 :: byte] = [7, 8]" by simp
  with read_from_fd_appends [OF filled_buffer_ok(1,2) _ rd] rd show ?thesis
    by (simp add: filled_buffer_ok)
qed

text \<open>\<open>Buffer::write_to_fd\<close> hands \<open>writev\<close> a non-empty prefix of the buffered bytes and then drops exactly
  the bytes \<open>writev\<close> accepted: nothing is lost, repeated or reordered, and nothing is dropped on an
  error.\<close>

lemma write_to_fd_drops_written:
  assumes "heap_ok h" and "buf_ok h b" and "in_int_range b" and "\<And>bs. writev bs \<le> int (length bs)"
    and "write_to_fd h b writev = (n, b', h')"
  shows "heap_ok h' \<and> buf_ok h' b' \<and> contents h' b' = drop (nat n) (contents h b) \<and>
    (contents h b = [] \<longrightarrow> n = 0) \<and>
    (contents h b \<noteq> [] \<longrightarrow> (\<exists>sent rest. contents h b = sent @ rest \<and> sent \<noteq> [] \<and> n = writev sent))"
proof -
  note sp = write_to_fd_spec [OF assms]
  have "n = 0" if "contents h b = []"
  proof -
    have "buf_size b = 0" using contents_length [OF assms(2)] that by simp
    moreover obtain b1 h1 where pw: "prepare_write h b = (b1, h1)" by (cases "prepare_write h b")
    ultimately show ?thesis using assms(5) prepare_write_spec [OF assms(1,2) pw]
      by (simp add: write_to_fd_def)
  qed
  with sp show ?thesis by (auto dest: op_specD)
qed

end
