(* ===== verification/Fcgi_Proto.thy ===== *)
theory Fcgi_Proto
  imports Buffer
begin

text \<open>
  The FastCGI protocol layer of \<^verbatim>\<open>src/modules/mod_fcgi/fcgi_proto.{h,cc}\<close>: record headers and their wire format, the
  request a \<open>FcgiEnvironment\<close> builds in its buffer, the extraction of records from the reply, and the parser of the reply's
  header lines.  The automaton of \<^verbatim>\<open>fcgi_content_parser.rl\<close> is an argument: a function from its state and a
  piece of input to the number of bytes consumed, the callbacks it makes and its next state; \<open>Fcgi_Content\<close> has the automaton itself.  \<open>None\<close> is a read outside
  an array.
\<close>

unbundle bit_operations_syntax

section \<open>Records\<close>

record fcgi_record =
  rec_version :: byte
  rec_type :: byte
  rec_request_id :: "16 word"
  rec_content_length :: "16 word"
  rec_padding_length :: byte
  rec_reserved :: byte

definition kFcgiBeginRequest :: byte where "kFcgiBeginRequest = 1"
definition kFcgiAbortRequest :: byte where "kFcgiAbortRequest = 2"
definition kFcgiEndRequest :: byte where "kFcgiEndRequest = 3"
definition kFcgiParams :: byte where "kFcgiParams = 4"
definition kFcgiStdin :: byte where "kFcgiStdin = 5"
definition kFcgiStdout :: byte where "kFcgiStdout = 6"
definition kFcgiStderr :: byte where "kFcgiStderr = 7"

definition kRecordSize :: nat where "kRecordSize = 8"

text \<open>The bytes \<open>append_to_buffer\<close> puts into its array: the object's memory with the two 16-bit fields in network order.\<close>

definition record_bytes :: "fcgi_record \<Rightarrow> byte list" where
  "record_bytes r =
    [rec_version r, rec_type r,
     ucast (drop_bit 8 (rec_request_id r)) AND 0xFF, ucast (rec_request_id r) AND 0xFF,
     ucast (drop_bit 8 (rec_content_length r)) AND 0xFF, ucast (rec_content_length r) AND 0xFF,
     rec_padding_length r, rec_reserved r]"

definition append_to_buffer :: "fcgi_record \<Rightarrow> buffer \<times> buf_heap \<Rightarrow> buffer \<times> buf_heap" where
  "append_to_buffer r bh = snd (append_data (snd bh) (fst bh) (record_bytes r))"

text \<open>\<open>append_to_buffer_content_data\<close> reads \<open>rec_content_length\<close> bytes of the array \<open>ptr\<close>.\<close>

definition append_to_buffer_content_data :: "fcgi_record \<Rightarrow> byte list \<Rightarrow> buffer \<times> buf_heap \<Rightarrow> (buffer \<times> buf_heap) option" where
  "append_to_buffer_content_data r ptr bh =
    (if rec_content_length r = 0 then Some bh
     else if length ptr < unat (rec_content_length r) then None
     else let bh1 = snd (append_data (snd bh) (fst bh) (take (unat (rec_content_length r)) ptr))
          in Some (if rec_padding_length r \<noteq> 0 then snd (append_data (snd bh1) (fst bh1) (replicate (unat (rec_padding_length r)) 0)) else bh1))"

definition Record :: "byte \<Rightarrow> fcgi_record" where
  "Record record_type = \<lparr>rec_version = 1, rec_type = record_type, rec_request_id = 1, rec_content_length = 0, rec_padding_length = 0, rec_reserved = 0\<rparr>"

text \<open>The constructor from eight received bytes.\<close>

definition Record_of_bytes :: "byte list \<Rightarrow> fcgi_record" where
  "Record_of_bytes data =
    \<lparr>rec_version = data ! 0, rec_type = data ! 1,
     rec_request_id = push_bit 8 (ucast (data ! 2)) OR ucast (data ! 3),
     rec_content_length = push_bit 8 (ucast (data ! 4)) OR ucast (data ! 5),
     rec_padding_length = data ! 6, rec_reserved = data ! 7\<rparr>"

definition rec_set_content_length :: "nat \<Rightarrow> fcgi_record \<Rightarrow> fcgi_record" where
  "rec_set_content_length n r =
    (let r1 = r\<lparr>rec_content_length := word_of_nat n\<rparr>
     in if unat (rec_content_length r1) mod 4 = 0 then r1\<lparr>rec_padding_length := 0\<rparr>
        else r1\<lparr>rec_padding_length := word_of_nat (4 - unat (rec_content_length r1) mod 4)\<rparr>)"

definition total_length :: "fcgi_record \<Rightarrow> nat" where
  "total_length r = unat (rec_content_length r) + unat (rec_padding_length r)"

section \<open>Requests\<close>

record fcgi_environment =
  env_sock :: int
  env_state :: int
  env_buffer :: buffer
  kv_buf :: "byte list"

definition FcgiEnvironment :: "int \<Rightarrow> buf_heap \<Rightarrow> fcgi_environment \<times> buf_heap" where
  "FcgiEnvironment sock h = (let (b, h') = Buffer_new h in (\<lparr>env_sock = sock, env_state = 0, env_buffer = b, kv_buf = []\<rparr>, h'))"

definition begin_request :: "fcgi_environment \<times> buf_heap \<Rightarrow> (bool \<times> fcgi_environment \<times> buf_heap) option" where
  "begin_request eh =
    (let (e, h) = eh
     in if env_state e \<noteq> 0 then Some (False, e, h)
        else let r = rec_set_content_length 8 (Record kFcgiBeginRequest); dat = [0, 1, 1, 0, 0, 0, 0, 0]
             in case append_to_buffer_content_data r dat (append_to_buffer r (env_buffer e, h)) of
                  None \<Rightarrow> None
                | Some (b, h') \<Rightarrow> Some (True, e\<lparr>env_buffer := b, env_state := env_state e + 1\<rparr>, h'))"

definition append_int :: "byte list \<Rightarrow> 32 word \<Rightarrow> byte list" where
  "append_int buf v =
    buf @ [ucast (drop_bit 24 v AND 0xFF), ucast (drop_bit 16 v AND 0xFF), ucast (drop_bit 8 v AND 0xFF), ucast (v AND 0xFF)]"

definition kEnvironmentSizeLimit :: nat where "kEnvironmentSizeLimit = 65535"

text \<open>The two branches by which \<open>set_environment\<close> writes a length.\<close>

definition push_length :: "byte list \<Rightarrow> nat \<Rightarrow> byte list" where
  "push_length buf n = (if n > 127 then append_int buf (word_of_nat n) else buf @ [word_of_nat n])"

definition set_environment :: "string \<Rightarrow> string \<Rightarrow> fcgi_environment \<Rightarrow> bool \<times> fcgi_environment" where
  "set_environment name val e =
    (if env_state e \<noteq> 1 then (False, e)
     else if length (kv_buf e) \<ge> kEnvironmentSizeLimit then (False, e)
     else let kv1 = push_length (kv_buf e) (length name);
              kv2 = push_length kv1 (length val)
          in (True, e\<lparr>kv_buf := kv2 @ bytes_of_string name @ bytes_of_string val\<rparr>))"

definition commit_environment :: "fcgi_environment \<times> buf_heap \<Rightarrow> (bool \<times> fcgi_environment \<times> buf_heap) option" where
  "commit_environment eh =
    (let (e, h) = eh
     in if env_state e \<noteq> 1 then Some (False, e, h)
        else if kv_buf e = [] then Some (False, e, h)
        else let r = rec_set_content_length (length (kv_buf e)) (Record kFcgiParams)
             in case append_to_buffer_content_data r (kv_buf e) (append_to_buffer r (env_buffer e, h)) of
                  None \<Rightarrow> None
                | Some (b, h') \<Rightarrow> Some (True, e\<lparr>env_buffer := b, kv_buf := []\<rparr>, h'))"

definition done_environment :: "fcgi_environment \<times> buf_heap \<Rightarrow> fcgi_environment \<times> buf_heap" where
  "done_environment eh =
    (let (e, h) = eh; (b, h') = append_to_buffer (rec_set_content_length 0 (Record kFcgiParams)) (env_buffer e, h)
     in (e\<lparr>env_buffer := b\<rparr>, h'))"

definition prepare_request :: "nat \<Rightarrow> fcgi_environment \<times> buf_heap \<Rightarrow> int \<times> fcgi_environment \<times> buf_heap" where
  "prepare_request n eh =
    (if env_state (fst eh) \<noteq> 1 then (-1, eh)
     else let (e, h) = done_environment eh;
              r = rec_set_content_length n (Record kFcgiStdin);
              (b, h') = append_to_buffer r (env_buffer e, h)
          in (int (total_length r), e\<lparr>env_buffer := b\<rparr>, h'))"

definition done_request :: "fcgi_environment \<Rightarrow> fcgi_environment" where
  "done_request e = e\<lparr>env_state := 0\<rparr>"

section \<open>Replies\<close>

text \<open>\<open>extract_record\<close> compares the size of the whole buffer, header included, with the length of the content.\<close>

definition extract_record :: "buffer \<times> buf_heap \<Rightarrow> (fcgi_record option \<times> buffer \<times> buf_heap) option" where
  "extract_record bh =
    (case copy_front (snd bh) (fst bh) kRecordSize of
       None \<Rightarrow> None
     | Some (False, _) \<Rightarrow> Some (None, bh)
     | Some (True, data) \<Rightarrow>
        let r = Record_of_bytes data
        in if buf_size (fst bh) < total_length r then Some (None, bh)
           else let (_, b, h) = pop (snd bh) (fst bh) kRecordSize in Some (Some r, b, h))"

definition bypass_content :: "nat \<Rightarrow> buffer \<times> buf_heap \<Rightarrow> buffer \<times> buf_heap" where
  "bypass_content n bh = snd (pop (snd bh) (fst bh) n)"

definition copy_content :: "buffer \<Rightarrow> nat \<Rightarrow> buffer \<times> buf_heap \<Rightarrow> (buffer \<times> buffer \<times> buf_heap) option" where
  "copy_content dst n bh =
    (case copy_front_buffer (snd bh) (fst bh) dst n of
       None \<Rightarrow> None
     | Some (_, dst', h) \<Rightarrow> Some (dst', bypass_content n (fst bh, h)))"

section \<open>Header lines of a reply\<close>

datatype content_event = PushName string | PushValue string | PushHeader | DoneParse

record 'p content_parser =
  cp_state :: 'p
  cp_done :: bool
  cp_streaming :: bool
  cp_status_text :: string
  cp_header_line :: "string \<times> string"
  cp_headers :: "(string \<times> string) list"

record 'p content_lib =
  cl_start :: 'p
  cl_exec :: "'p \<Rightarrow> byte list \<Rightarrow> (nat \<times> content_event list \<times> 'p) option"
  cl_error :: "'p \<Rightarrow> bool"

definition content_init :: "'p content_lib \<Rightarrow> 'p content_parser" where
  "content_init lib = \<lparr>cp_state = cl_start lib, cp_done = False, cp_streaming = False, cp_status_text = [],
     cp_header_line = ([], []), cp_headers = []\<rparr>"

definition push_name :: "string \<Rightarrow> 'p content_parser \<Rightarrow> 'p content_parser" where
  "push_name s p = p\<lparr>cp_header_line := (fst (cp_header_line p) @ s, snd (cp_header_line p))\<rparr>"

definition push_value :: "string \<Rightarrow> 'p content_parser \<Rightarrow> 'p content_parser" where
  "push_value s p = p\<lparr>cp_header_line := (fst (cp_header_line p), snd (cp_header_line p) @ s)\<rparr>"

definition push_header :: "'p content_parser \<Rightarrow> 'p content_parser" where
  "push_header p =
    (let (name, val) = cp_header_line p
     in if name = ''Status'' then p\<lparr>cp_status_text := val, cp_header_line := ([], [])\<rparr>
        else let p1 = p\<lparr>cp_headers := cp_headers p @ [(name, val)]\<rparr>;
                 p2 = (if name = ''Transfer-encoding'' \<and> val = ''chunked'' then p1\<lparr>cp_streaming := True\<rparr>
                       else if name = ''Content-length'' then p1\<lparr>cp_streaming := True\<rparr> else p1)
             in p2\<lparr>cp_header_line := ([], [])\<rparr>)"

definition done_parse :: "'p content_parser \<Rightarrow> 'p content_parser" where
  "done_parse p = p\<lparr>cp_done := True\<rparr>"

primrec run_event :: "content_event \<Rightarrow> 'p content_parser \<Rightarrow> 'p content_parser" where
  "run_event (PushName s) p = push_name s p"
| "run_event (PushValue s) p = push_value s p"
| "run_event PushHeader p = push_header p"
| "run_event DoneParse p = done_parse p"

definition content_parse :: "'p content_lib \<Rightarrow> byte list \<Rightarrow> 'p content_parser \<Rightarrow> (nat \<times> 'p content_parser) option" where
  "content_parse lib dat p =
    map_option (\<lambda>(n, evs, st). (n, (fold run_event evs p)\<lparr>cp_state := st\<rparr>)) (cl_exec lib (cp_state p) dat)"

definition content_has_error :: "'p content_lib \<Rightarrow> 'p content_parser \<Rightarrow> bool" where
  "content_has_error lib p = (if cp_done p then False else cl_error lib (cp_state p))"

section \<open>Wire format\<close>

lemma ucast_split: "(push_bit 8 (ucast (ucast (drop_bit 8 w) AND 0xFF :: byte)) OR ucast (ucast w AND 0xFF :: byte) :: 16 word) = w"
proof (rule bit_word_eqI)
  fix n assume "n < LENGTH(16)"
  have m: "(0xFF :: byte) = mask 8" by (simp add: mask_eq_exp_minus_1)
  show "bit (push_bit 8 (ucast (ucast (drop_bit 8 w) AND 0xFF :: byte)) OR ucast (ucast w AND 0xFF :: byte) :: 16 word) n = bit w n"
    unfolding m using \<open>n < LENGTH(16)\<close> by (cases "n < 8") (auto simp: bit_simps)
qed

lemma record_roundtrip [simp]: "Record_of_bytes (record_bytes r) = r"
  by (simp add: Record_of_bytes_def record_bytes_def ucast_split)

lemma length_record_bytes [simp]: "length (record_bytes r) = kRecordSize"
  by (simp add: record_bytes_def kRecordSize_def)

lemma rec_set_content_length_fields:
  assumes "r' = rec_set_content_length n r"
  shows "unat (rec_content_length r') = n mod 65536" and "unat (rec_padding_length r') < 4"
    and "(unat (rec_content_length r') + unat (rec_padding_length r')) mod 4 = 0"
    and "rec_version r' = rec_version r" and "rec_type r' = rec_type r" and "rec_request_id r' = rec_request_id r" and "rec_reserved r' = rec_reserved r"
proof -
  show c: "unat (rec_content_length r') = n mod 65536"
    by (simp add: assms rec_set_content_length_def Let_def unat_of_nat take_bit_nat_def)
  let ?p = "4 - n mod 65536 mod 4"
  have pad: "(m + (if m mod 4 = 0 then 0 else 4 - m mod 4)) mod 4 = 0" for m :: nat by presburger
  have w: "unat (word_of_nat m :: byte) = m" if "m \<le> 4" for m using that by (simp add: unat_of_nat take_bit_nat_def)
  have "rec_padding_length r' = (if n mod 65536 mod 4 = 0 then 0 else word_of_nat ?p)"
    using c by (auto simp: assms rec_set_content_length_def Let_def split: if_splits)
  then have p: "unat (rec_padding_length r') = (if n mod 65536 mod 4 = 0 then 0 else ?p)"
    using w [of ?p] by (cases "n mod 65536 mod 4 = 0") (simp_all only: diff_le_self if_True if_False simp_thms unat_0)
  show "unat (rec_padding_length r') < 4" by (simp add: p)
  show "(unat (rec_content_length r') + unat (rec_padding_length r')) mod 4 = 0"
    unfolding c p by (rule pad)
qed (simp_all add: assms rec_set_content_length_def Let_def)

text \<open>What a record and its content look like on the wire.\<close>

definition frame :: "fcgi_record \<Rightarrow> byte list \<Rightarrow> byte list" where
  "frame r dat = record_bytes r @ dat @ replicate (unat (rec_padding_length r)) 0"

lemma append_to_buffer_spec:
  assumes "heap_ok h" and "buf_ok h b" and "append_to_buffer r (b, h) = (b', h')"
  shows "op_spec h b h' b' (contents h b @ record_bytes r)"
proof -
  obtain ok where "append_data h b (record_bytes r) = (ok, b', h')"
    using assms(3) by (cases "append_data h b (record_bytes r)") (auto simp: append_to_buffer_def)
  from append_data_spec [OF assms(1,2) this] show ?thesis by blast
qed

lemma append_content_spec:
  assumes "heap_ok h" and "buf_ok h b" and "unat (rec_content_length r) \<le> length ptr" and False: "rec_content_length r \<noteq> 0"
  shows "\<exists>b' h'. append_to_buffer_content_data r ptr (b, h) = Some (b', h') \<and>
    op_spec h b h' b' (contents h b @ take (unat (rec_content_length r)) ptr @ replicate (unat (rec_padding_length r)) 0)"
proof -
  let ?d = "take (unat (rec_content_length r)) ptr" and ?z = "replicate (unat (rec_padding_length r)) (0 :: byte)"
  obtain k b1 h1 where a1: "append_data h b ?d = (k, b1, h1)" by (rule prod_cases3)
  have s1: "op_spec h b h1 b1 (contents h b @ ?d)" using append_data_spec [OF assms(1,2) a1] by blast
  obtain k' b2 h2 where a2: "append_data h1 b1 ?z = (k', b2, h2)" by (rule prod_cases3)
  have s2: "op_spec h1 b1 h2 b2 (contents h1 b1 @ ?z)" using append_data_spec [OF op_specD(1,2) [OF s1] a2] by blast
  have "op_spec h b h2 b2 (contents h b @ ?d @ ?z)" using op_spec_trans [OF s1 s2] op_specD(3) [OF s1] by simp
  then show ?thesis using False assms(3) s1 by (auto simp: append_to_buffer_content_data_def Let_def a1 a2)
qed

text \<open>A record whose length was set from its data is written as one frame; of the data the first \<open>n mod 65536\<close> bytes are sent.\<close>

lemma append_record_spec:
  assumes "heap_ok h" and "buf_ok h b" and r: "r = rec_set_content_length (length dat) (Record ty)"
  shows "\<exists>b' h'. append_to_buffer_content_data r dat (append_to_buffer r (b, h)) = Some (b', h') \<and>
    op_spec h b h' b' (contents h b @ frame r (take (length dat mod 65536) dat))"
proof -
  note f = rec_set_content_length_fields [OF r]
  obtain b1 h1 where a: "append_to_buffer r (b, h) = (b1, h1)" by (rule prod.exhaust)
  note s1 = append_to_buffer_spec [OF assms(1,2) a]
  show ?thesis
  proof (cases "rec_content_length r = 0")
    case True
    then have "length dat mod 65536 = 0" "rec_padding_length r = 0" using f(1,2,3) by (auto simp: unat_eq_zero)
    then show ?thesis using s1 a True by (simp add: append_to_buffer_content_data_def frame_def)
  next
    case False
    obtain b2 h2 where b2: "append_to_buffer_content_data r dat (b1, h1) = Some (b2, h2)"
        and s2: "op_spec h1 b1 h2 b2 (contents h1 b1 @ take (unat (rec_content_length r)) dat @ replicate (unat (rec_padding_length r)) 0)"
      using append_content_spec [OF op_specD(1,2) [OF s1] _ False, of dat] f(1) by auto
    from op_spec_trans [OF s1 s2] b2 a show ?thesis by (simp add: f(1) op_specD(3) [OF s1] frame_def)
  qed
qed

section \<open>The protocol's own view\<close>

text \<open>How a FastCGI application reads a record, a length and a list of name-value pairs, as the protocol specifies it: lengths of
  at least 128 take four bytes with the highest bit set.\<close>

definition parse_record :: "byte list \<Rightarrow> ((byte \<times> nat \<times> byte list) \<times> byte list) option" where
  "parse_record bs =
    (if length bs < 8 then None
     else let cl = unat (bs ! 4) * 256 + unat (bs ! 5); pl = unat (bs ! 6)
          in if length bs < 8 + cl + pl then None
             else Some ((bs ! 1, unat (bs ! 2) * 256 + unat (bs ! 3), take cl (drop 8 bs)), drop (8 + cl + pl) bs))"

primrec parse_records :: "nat \<Rightarrow> byte list \<Rightarrow> ((byte \<times> nat \<times> byte list) list \<times> byte list) option" where
  "parse_records 0 bs = Some ([], bs)"
| "parse_records (Suc k) bs =
    (case parse_record bs of
       None \<Rightarrow> None
     | Some (r, rest) \<Rightarrow> map_option (\<lambda>(rs, rest'). (r # rs, rest')) (parse_records k rest))"

fun decode_length :: "byte list \<Rightarrow> (nat \<times> byte list) option" where
  "decode_length [] = None"
| "decode_length (b # bs) =
    (if unat b < 128 then Some (unat b, bs)
     else case bs of
            b2 # b1 # b0 # rest \<Rightarrow> Some (((unat b - 128) * 256 + unat b2) * 65536 + unat b1 * 256 + unat b0, rest)
          | _ \<Rightarrow> None)"

lemma decode_length_shorter: "decode_length bs = Some (n, r) \<Longrightarrow> length r < length bs"
  by (cases bs) (auto split: if_splits list.splits)

function decode_pairs :: "byte list \<Rightarrow> (byte list \<times> byte list) list option" where
  "decode_pairs bs =
    (if bs = [] then Some []
     else case decode_length bs of
            None \<Rightarrow> None
          | Some (n, r1) \<Rightarrow>
             (case decode_length r1 of
                None \<Rightarrow> None
              | Some (v, r2) \<Rightarrow>
                 if length r2 < n + v then None
                 else map_option ((#) (take n r2, take v (drop n r2))) (decode_pairs (drop (n + v) r2))))"
  by pat_completeness auto
termination
  by (relation "measure length") (auto dest!: decode_length_shorter)

declare decode_pairs.simps [simp del]

definition pair_bytes :: "string \<times> string \<Rightarrow> byte list" where
  "pair_bytes p = push_length (push_length [] (length (fst p))) (length (snd p)) @ bytes_of_string (fst p) @ bytes_of_string (snd p)"

definition short_pair :: "string \<times> string \<Rightarrow> bool" where
  "short_pair p \<longleftrightarrow> length (fst p) \<le> 127 \<and> length (snd p) \<le> 127"

definition bytes_pair :: "string \<times> string \<Rightarrow> byte list \<times> byte list" where
  "bytes_pair p = (bytes_of_string (fst p), bytes_of_string (snd p))"

lemma length_bytes_of_string [simp]: "length (bytes_of_string s) = length s"
  by (simp add: bytes_of_string_def)

lemma push_length_append: "push_length buf n = buf @ push_length [] n"
  by (simp add: push_length_def append_int_def)

lemma unat_small_byte: "n \<le> 255 \<Longrightarrow> unat (word_of_nat n :: byte) = n"
  by (simp add: unat_of_nat take_bit_nat_def)

lemma decode_pairs_short:
  assumes "\<forall>p \<in> set ps. short_pair p"
  shows "decode_pairs (concat (map pair_bytes ps)) = Some (map bytes_pair ps)"
  using assms
proof (induction ps)
  case Nil
  then show ?case by (simp add: decode_pairs.simps)
next
  case (Cons p ps)
  let ?rest = "concat (map pair_bytes ps)"
  have l: "length (fst p) \<le> 127" "length (snd p) \<le> 127" using Cons.prems by (simp_all add: short_pair_def)
  then have e: "pair_bytes p = word_of_nat (length (fst p)) # word_of_nat (length (snd p)) # bytes_of_string (fst p) @ bytes_of_string (snd p)"
    by (simp add: pair_bytes_def push_length_def)
  have u: "unat (word_of_nat (length (fst p)) :: byte) = length (fst p)" "unat (word_of_nat (length (snd p)) :: byte) = length (snd p)"
    using l by (simp_all add: unat_small_byte del: unat_of_nat)
  have "decode_pairs ?rest = Some (map bytes_pair ps)" using Cons by simp
  then show ?case using l by (subst decode_pairs.simps) (simp add: e u bytes_pair_def)
qed

text \<open>A length from 128 to $2^{24} - 1$ is written without the mark: its first byte reads as the length 0.\<close>

lemma long_length_reads_zero:
  assumes "127 < n" and "n < 2 ^ 24"
  shows "\<exists>r. decode_length (push_length [] n @ rest) = Some (0, r @ rest) \<and> length r = 3"
proof -
  have "drop_bit 24 (word_of_nat n :: 32 word) = 0"
    using assms(2) by (intro word_unat_eq_iff [THEN iffD2])
      (simp add: unat_drop_bit_eq unat_of_nat take_bit_nat_def drop_bit_nat_def)
  then show ?thesis using assms(1) by (auto simp: push_length_def append_int_def)
qed

lemma append_int_bytes:
  "unat ((ucast (drop_bit 8 w) :: byte) AND 0xFF) * 256 + unat ((ucast w :: byte) AND 0xFF) = unat (w :: 16 word)"
proof -
  have ff: "(0xFF :: byte) = - 1" by simp
  have m: "(x AND 0xFF) = x" for x :: byte unfolding ff by simp
  have "unat (ucast (drop_bit 8 w) :: byte) = unat w div 256 mod 256" "unat (ucast w :: byte) = unat w mod 256"
    by (simp_all add: unsigned_ucast_eq unsigned_take_bit_eq unat_drop_bit_eq drop_bit_nat_def take_bit_nat_def)
  moreover have "unat w < 65536" using unsigned_less [of w] by simp
  ultimately show ?thesis by (simp add: m)
qed

lemma parse_record_frame:
  assumes "length dat = unat (rec_content_length r)"
  shows "parse_record (frame r dat @ rest) = Some ((rec_type r, unat (rec_request_id r), dat), rest)"
proof -
  let ?bs = "frame r dat @ rest"
  have b: "?bs ! 1 = rec_type r" "unat (?bs ! 2) * 256 + unat (?bs ! 3) = unat (rec_request_id r)"
      "unat (?bs ! 4) * 256 + unat (?bs ! 5) = unat (rec_content_length r)" "unat (?bs ! 6) = unat (rec_padding_length r)"
    by (simp_all add: frame_def record_bytes_def append_int_bytes)
  have d: "drop 8 ?bs = dat @ replicate (unat (rec_padding_length r)) 0 @ rest" "length ?bs = 8 + length dat + unat (rec_padding_length r) + length rest"
    by (simp_all add: frame_def record_bytes_def)
  then have d2: "drop (8 + length dat + unat (rec_padding_length r)) ?bs = rest"
    by (metis (no_types, lifting) append_assoc append_eq_conv_conj drop_drop length_append length_replicate add.commute)
  show ?thesis unfolding parse_record_def Let_def b assms [symmetric] using d d2 by simp
qed

section \<open>What an environment writes\<close>

definition env_step :: "fcgi_environment \<times> buf_heap \<Rightarrow> fcgi_environment \<times> buf_heap \<Rightarrow> byte list \<Rightarrow> bool" where
  "env_step eh eh' xs \<longleftrightarrow> op_spec (snd eh) (env_buffer (fst eh)) (snd eh') (env_buffer (fst eh'))
     (contents (snd eh) (env_buffer (fst eh)) @ xs)"

lemma env_step_trans: "env_step eh eh1 xs \<Longrightarrow> env_step eh1 eh2 ys \<Longrightarrow> env_step eh eh2 (xs @ ys)"
  unfolding env_step_def using op_spec_trans by (fastforce dest: op_specD(3))

lemma env_step_ok: "env_step eh (e', h') xs \<Longrightarrow> heap_ok h' \<and> buf_ok h' (env_buffer e')"
  by (simp add: env_step_def op_spec_def)

lemma begin_request_spec:
  assumes "heap_ok h" and "buf_ok h (env_buffer e)" and "env_state e = 0"
  shows "\<exists>e' h'. begin_request (e, h) = Some (True, e', h') \<and> env_state e' = 1 \<and> kv_buf e' = kv_buf e \<and>
    env_step (e, h) (e', h') (frame (rec_set_content_length 8 (Record kFcgiBeginRequest)) [0, 1, 1, 0, 0, 0, 0, 0])"
proof -
  let ?d = "[0, 1, 1, 0, 0, 0, 0, 0] :: byte list"
  have l: "8 = length ?d" by simp
  from append_record_spec [OF assms(1,2) refl, of ?d kFcgiBeginRequest] assms(3) show ?thesis
    unfolding l [symmetric] by (auto simp: begin_request_def env_step_def)
qed

lemma commit_environment_spec:
  assumes "heap_ok h" and "buf_ok h (env_buffer e)" and "env_state e = 1" and "kv_buf e \<noteq> []"
  shows "\<exists>e' h'. commit_environment (e, h) = Some (True, e', h') \<and> env_state e' = 1 \<and> kv_buf e' = [] \<and>
    env_step (e, h) (e', h') (frame (rec_set_content_length (length (kv_buf e)) (Record kFcgiParams)) (take (length (kv_buf e) mod 65536) (kv_buf e)))"
  using append_record_spec [OF assms(1,2) refl, of "kv_buf e" kFcgiParams] assms(3,4)
  by (auto simp: commit_environment_def env_step_def)

lemma prepare_request_spec:
  assumes "heap_ok h" and "buf_ok h (env_buffer e)" and "env_state e = 1"
  shows "\<exists>e' h'. prepare_request n (e, h) = (int (total_length (rec_set_content_length n (Record kFcgiStdin))), e', h') \<and>
    env_step (e, h) (e', h') (frame (rec_set_content_length 0 (Record kFcgiParams)) [] @ record_bytes (rec_set_content_length n (Record kFcgiStdin)))"
proof -
  let ?p = "rec_set_content_length 0 (Record kFcgiParams)" and ?s = "rec_set_content_length n (Record kFcgiStdin)"
  obtain b1 h1 where a1: "append_to_buffer ?p (env_buffer e, h) = (b1, h1)" by (rule prod.exhaust)
  note s1 = append_to_buffer_spec [OF assms(1,2) a1]
  obtain b2 h2 where a2: "append_to_buffer ?s (b1, h1) = (b2, h2)" by (rule prod.exhaust)
  note s2 = append_to_buffer_spec [OF op_specD(1,2) [OF s1] a2]
  have "frame ?p [] = record_bytes ?p" by (simp add: frame_def rec_set_content_length_def)
  then have "env_step (e, h) (e\<lparr>env_buffer := b2\<rparr>, h2) (frame ?p [] @ record_bytes ?s)"
    using op_spec_trans [OF s1 s2] op_specD(3) [OF s1] by (simp add: env_step_def)
  then show ?thesis using a1 a2 assms(3) by (simp add: prepare_request_def done_environment_def Let_def)
qed

text \<open>Operations out of order are refused without effect.\<close>

lemma environment_refused:
  "env_state e \<noteq> 0 \<Longrightarrow> begin_request (e, h) = Some (False, e, h)"
  "env_state e \<noteq> 1 \<Longrightarrow> set_environment n v e = (False, e)"
  "env_state e \<noteq> 1 \<Longrightarrow> commit_environment (e, h) = Some (False, e, h)"
  "env_state e \<noteq> 1 \<Longrightarrow> prepare_request k (e, h) = (-1, e, h)"
  by (simp_all add: begin_request_def set_environment_def commit_environment_def prepare_request_def)

definition set_environments :: "(string \<times> string) list \<Rightarrow> fcgi_environment \<Rightarrow> fcgi_environment" where
  "set_environments ps e = fold (\<lambda>(n, v) e. snd (set_environment n v e)) ps e"

lemma pair_bytes_two: "2 \<le> length (pair_bytes p)"
  by (simp add: pair_bytes_def push_length_def append_int_def)

lemma set_environments_kv:
  assumes "env_state e = 1" and "length (kv_buf e) + length (concat (map pair_bytes ps)) \<le> kEnvironmentSizeLimit"
  shows "set_environments ps e = e\<lparr>kv_buf := kv_buf e @ concat (map pair_bytes ps)\<rparr>"
  using assms
proof (induction ps arbitrary: e)
  case (Cons p ps)
  obtain n v where p: "p = (n, v)" by (rule prod.exhaust)
  have lt: "\<not> kEnvironmentSizeLimit \<le> length (kv_buf e)" using Cons.prems(2) pair_bytes_two [of p] by simp
  have "snd (set_environment n v e) = e\<lparr>kv_buf := kv_buf e @ pair_bytes p\<rparr>"
    using lt Cons.prems(1) push_length_append [of "kv_buf e"] push_length_append [of "kv_buf e @ push_length [] (length n)"]
      push_length_append [of "push_length [] (length n)"]
    by (simp add: set_environment_def p pair_bytes_def)
  with Cons.IH [of "e\<lparr>kv_buf := kv_buf e @ pair_bytes p\<rparr>"] Cons.prems show ?case
    by (simp add: set_environments_def p)
qed (simp add: set_environments_def)

section \<open>Extraction of records\<close>

lemma extract_record_eq:
  assumes "buf_ok h b" and "contents h b = record_bytes r @ rest"
  shows "extract_record (b, h) =
    Some (if kRecordSize + length rest < total_length r then (None, b, h) else (Some r, snd (pop h b kRecordSize)))"
proof -
  have len: "buf_size b = kRecordSize + length rest" using contents_length [OF assms(1)] assms(2) by simp
  have "copy_front h b kRecordSize = Some (True, record_bytes r)"
    using copy_front_spec [OF assms(1), of kRecordSize] len assms(2) by simp
  then show ?thesis using len by (auto simp: extract_record_def Let_def split: prod.splits)
qed

text \<open>A complete record is taken off the front: first its header, then its content and padding.\<close>

lemma extract_complete_record:
  assumes "heap_ok h" and "buf_ok h b" and "in_int_range b" and c: "contents h b = frame r dat @ rest" and d: "length dat = unat (rec_content_length r)"
  shows "\<exists>b1 h1. extract_record (b, h) = Some (Some r, b1, h1) \<and> op_spec h b h1 b1 (dat @ replicate (unat (rec_padding_length r)) 0 @ rest) \<and>
    (\<exists>b2 h2. bypass_content (total_length r) (b1, h1) = (b2, h2) \<and> op_spec h b h2 b2 rest)"
proof -
  obtain k b1 h1 where p1: "pop h b kRecordSize = (k, b1, h1)" by (rule prod_cases3)
  have sz: "kRecordSize \<le> buf_size b" using contents_length [OF assms(2)] c by (simp add: frame_def)
  have s1: "op_spec h b h1 b1 (dat @ replicate (unat (rec_padding_length r)) 0 @ rest)"
    using pop_spec [OF assms(1-3) sz p1] c by (simp add: frame_def)
  have e: "extract_record (b, h) = Some (Some r, b1, h1)"
    using extract_record_eq [OF assms(2), of r "dat @ replicate (unat (rec_padding_length r)) 0 @ rest"] c d p1
    by (simp add: frame_def total_length_def)
  obtain k2 b2 h2 where p2: "pop h1 b1 (total_length r) = (k2, b2, h2)" by (rule prod_cases3)
  have "op_spec h1 b1 h2 b2 (drop (total_length r) (contents h1 b1))"
    using pop_spec [OF op_specD(1,2) [OF s1] pop_range [OF assms(1-3) p1] _ p2] op_spec_size [OF s1] d by (simp add: total_length_def)
  then have "op_spec h b h2 b2 rest" using op_spec_trans [OF s1] op_specD(3) [OF s1] d by (simp add: total_length_def)
  then show ?thesis using e s1 p2 by (simp add: bypass_content_def)
qed

text \<open>A record of which up to eight bytes of content are missing is taken for complete: its header is removed, its
  content cannot be, and stays at the front where the next record header is expected.\<close>

lemma partial_record_extracted:
  assumes "heap_ok h" and "buf_ok h b" and "in_int_range b" and c: "contents h b = record_bytes r @ part"
    and l: "length part < total_length r" "total_length r \<le> length part + kRecordSize"
  shows "\<exists>b1 h1. extract_record (b, h) = Some (Some r, b1, h1) \<and>
    (\<exists>b2 h2. bypass_content (total_length r) (b1, h1) = (b2, h2) \<and> contents h2 b2 = part)"
proof -
  obtain k b1 h1 where p1: "pop h b kRecordSize = (k, b1, h1)" by (rule prod_cases3)
  have sz: "kRecordSize \<le> buf_size b" using contents_length [OF assms(2)] c by simp
  have s1: "op_spec h b h1 b1 part" using pop_spec [OF assms(1-3) sz p1] c by simp
  have e: "extract_record (b, h) = Some (Some r, b1, h1)" using extract_record_eq [OF assms(2) c] l p1 by simp
  obtain k2 b2 h2 where p2: "pop h1 b1 (total_length r) = (k2, b2, h2)" by (rule prod_cases3)
  have "op_spec h1 b1 h2 b2 part"
    using pop_too_much [OF op_specD(1,2) [OF s1] _ p2] op_spec_size [OF s1] l(1) op_specD(3) [OF s1] by simp
  then show ?thesis using e p2 by (auto simp: bypass_content_def dest: op_specD)
qed

end
