(* ===== verification/Linked_List.thy ===== *)
theory Linked_List
  imports Prelude
begin

text \<open>
  The intrusive doubly linked list with a sentinel of \<^verbatim>\<open>src/utils/list.h\<close>.  The nodes live in a
  store indexed by address; address \<open>0\<close> is the sentinel of the list.  The address of a new
  node is what the pool's \<open>alloc_object\<close> returned.  The list represents the sequence of its node
  addresses (\<open>rep\<close>); the lemmas give the effect of every operation on that sequence.
\<close>

section \<open>Nodes and operations\<close>

record 'a node =
  data :: 'a
  next_node :: nat
  prev_node :: nat

record 'a linked =
  nodes :: "nat \<Rightarrow> 'a node"
  list_size :: nat

definition sentinel :: nat where "sentinel = 0"

definition set_next :: "nat \<Rightarrow> nat \<Rightarrow> 'a linked \<Rightarrow> 'a linked" where
  "set_next a v s = s\<lparr>nodes := (nodes s)(a := (nodes s a)\<lparr>next_node := v\<rparr>)\<rparr>"

definition set_prev :: "nat \<Rightarrow> nat \<Rightarrow> 'a linked \<Rightarrow> 'a linked" where
  "set_prev a v s = s\<lparr>nodes := (nodes s)(a := (nodes s a)\<lparr>prev_node := v\<rparr>)\<rparr>"

definition new_node :: "nat \<Rightarrow> 'a \<Rightarrow> 'a linked \<Rightarrow> 'a linked" where
  "new_node a x s = s\<lparr>nodes := (nodes s)(a := (nodes s a)\<lparr>data := x\<rparr>)\<rparr>"

definition List_new :: "(nat \<Rightarrow> 'a node) \<Rightarrow> 'a linked" where
  "List_new mem = set_prev sentinel sentinel (set_next sentinel sentinel \<lparr>nodes = mem, list_size = 0\<rparr>)"

definition list_begin :: "'a linked \<Rightarrow> nat" where
  "list_begin s = next_node (nodes s sentinel)"

definition list_end :: "'a linked \<Rightarrow> nat" where
  "list_end s = sentinel"

definition iterator_eq :: "'a linked \<Rightarrow> nat \<Rightarrow> nat \<Rightarrow> bool" where
  "iterator_eq s a b \<longleftrightarrow> next_node (nodes s a) = next_node (nodes s b) \<and> prev_node (nodes s a) = prev_node (nodes s b)"

definition list_push_back :: "nat \<Rightarrow> 'a \<Rightarrow> 'a linked \<Rightarrow> nat \<times> 'a linked" where
  "list_push_back a x s0 =
    (let s1 = new_node a x s0;
         s2 = set_next a sentinel s1;
         s3 = set_prev a (prev_node (nodes s2 sentinel)) s2;
         s4 = set_next (prev_node (nodes s3 sentinel)) a s3;
         s5 = set_prev sentinel a s4
     in (a, s5\<lparr>list_size := list_size s5 + 1\<rparr>))"

definition list_push_front :: "nat \<Rightarrow> 'a \<Rightarrow> 'a linked \<Rightarrow> nat \<times> 'a linked" where
  "list_push_front a x s0 =
    (let s1 = new_node a x s0;
         s2 = set_next a (next_node (nodes s1 sentinel)) s1;
         s3 = set_prev a sentinel s2;
         s4 = set_prev (next_node (nodes s3 sentinel)) a s3;
         s5 = set_next sentinel a s4
     in (a, s5\<lparr>list_size := list_size s5 + 1\<rparr>))"

definition list_empty :: "'a linked \<Rightarrow> bool" where
  "list_empty s \<longleftrightarrow> list_size s = 0"

definition list_pop_front :: "'a linked \<Rightarrow> 'a linked" where
  "list_pop_front s =
    (if list_empty s then s
     else let n = next_node (nodes s sentinel);
              s1 = set_next sentinel (next_node (nodes s n)) s;
              s2 = set_prev (next_node (nodes s1 n)) sentinel s1
          in s2\<lparr>list_size := list_size s2 - 1\<rparr>)"

definition list_pop_back :: "'a linked \<Rightarrow> 'a linked" where
  "list_pop_back s =
    (if list_empty s then s
     else let n = prev_node (nodes s sentinel);
              s1 = set_prev sentinel (prev_node (nodes s n)) s;
              s2 = set_next (prev_node (nodes s1 n)) sentinel s1
          in s2\<lparr>list_size := list_size s2 - 1\<rparr>)"

definition list_erase :: "nat \<Rightarrow> 'a linked \<Rightarrow> 'a linked" where
  "list_erase a s =
    (let s1 = set_prev (next_node (nodes s a)) (prev_node (nodes s a)) s;
         s2 = set_next (prev_node (nodes s1 a)) (next_node (nodes s1 a)) s1
     in s2\<lparr>list_size := list_size s2 - 1\<rparr>)"

definition list_front :: "'a linked \<Rightarrow> 'a" where
  "list_front s = data (nodes s (next_node (nodes s sentinel)))"

definition list_back :: "'a linked \<Rightarrow> 'a" where
  "list_back s = data (nodes s (prev_node (nodes s sentinel)))"

text \<open>\<open>clear\<close> gives every node back to the pool and closes the sentinel; it leaves \<open>size_\<close> alone.\<close>

definition list_clear :: "'a linked \<Rightarrow> 'a linked" where
  "list_clear s = set_prev sentinel sentinel (set_next sentinel sentinel s)"

section \<open>Representation\<close>

fun links :: "(nat \<Rightarrow> 'a node) \<Rightarrow> nat list \<Rightarrow> bool" where
  "links N (a # b # as) \<longleftrightarrow> next_node (N a) = b \<and> prev_node (N b) = a \<and> links N (b # as)"
| "links N _ \<longleftrightarrow> True"

definition rep :: "'a linked \<Rightarrow> nat list \<Rightarrow> bool" where
  "rep s as \<longleftrightarrow> links (nodes s) (sentinel # as @ [sentinel]) \<and> distinct (sentinel # as) \<and> list_size s = length as"

definition list_data :: "'a linked \<Rightarrow> nat list \<Rightarrow> 'a list" where
  "list_data s as = map (\<lambda>a. data (nodes s a)) as"

lemma links_append: "links N (as @ b # bs) \<longleftrightarrow> links N (as @ [b]) \<and> links N (b # bs)"
  by (induction N as rule: links.induct) auto

lemma links_cong:
  assumes "\<And>a. a \<in> set (butlast as) \<Longrightarrow> next_node (M a) = next_node (N a)"
    and "\<And>a. a \<in> set (tl as) \<Longrightarrow> prev_node (M a) = prev_node (N a)"
  shows "links M as = links N as"
  using assms
proof (induction M as rule: links.induct)
  case (1 M a b as)
  then show ?case by (cases as) auto
qed simp_all

lemma set_tlD: "c \<in> set (tl as) \<Longrightarrow> c \<in> set as"
  by (cases as) auto

text \<open>Splicing: a node \<open>a\<close> enters or leaves between two neighbours \<open>p\<close> and \<open>q\<close> of the circular chain.\<close>

lemma links_splice:
  assumes l: "links N (L @ [p])" and r: "links N (q # R)"
    and n: "\<And>c. c \<noteq> p \<Longrightarrow> c \<notin> set M \<Longrightarrow> next_node (N' c) = next_node (N c)"
    and pv: "\<And>c. c \<noteq> q \<Longrightarrow> c \<notin> set M \<Longrightarrow> prev_node (N' c) = prev_node (N c)"
    and mid: "links N' (p # M @ [q])"
    and dl: "p \<notin> set L" "q \<notin> set (tl (L @ [p]))" "set M \<inter> set (L @ [p]) = {}"
    and dr: "q \<notin> set R" "p \<notin> set (butlast (q # R))" "set M \<inter> set (q # R) = {}"
  shows "links N' (L @ p # M @ q # R)"
proof -
  have "links N' (L @ [p])"
  proof (subst links_cong [of _ _ N])
    show "prev_node (N' c) = prev_node (N c)" if "c \<in> set (tl (L @ [p]))" for c
      using that dl(2,3) set_tlD [OF that] by (intro pv) auto
  qed (use l dl in \<open>auto intro!: n\<close>)
  moreover have "links N' (q # R)"
  proof (subst links_cong [of _ _ N])
    show "next_node (N' c) = next_node (N c)" if "c \<in> set (butlast (q # R))" for c
      using that dr(2,3) in_set_butlastD [OF that] by (intro n) auto
  qed (use r dr in \<open>auto intro!: pv\<close>)
  ultimately show ?thesis using mid
    by (metis append_Cons append_assoc append_Nil links_append)
qed

lemma rep_splice:
  fixes xs ys :: "nat list"
  defines "p \<equiv> last (sentinel # xs)" and "q \<equiv> hd (ys @ [sentinel])"
  assumes rep: "rep s (xs @ D @ ys)"
    and n: "\<And>c. c \<noteq> p \<Longrightarrow> c \<notin> set M \<Longrightarrow> next_node (nodes s' c) = next_node (nodes s c)"
    and pv: "\<And>c. c \<noteq> q \<Longrightarrow> c \<notin> set M \<Longrightarrow> prev_node (nodes s' c) = prev_node (nodes s c)"
    and mid: "links (nodes s') (p # M @ [q])"
    and fresh: "distinct M" "set M \<inter> set (sentinel # xs @ ys) = {}"
    and sz: "list_size s' = length (xs @ M @ ys)"
  shows "rep s' (xs @ M @ ys)"
proof -
  let ?L = "butlast (sentinel # xs)" and ?R = "tl (ys @ [sentinel])"
  have lp: "?L @ [p] = sentinel # xs" and rq: "q # ?R = ys @ [sentinel]"
    by (simp_all add: p_def q_def)
  have chain: "links (nodes s) ((sentinel # xs) @ D @ ys @ [sentinel])" and dist: "distinct (sentinel # xs @ D @ ys)"
    using rep by (simp_all add: rep_def)
  have "links (nodes s) ((?L @ p # D) @ q # ?R)"
    using chain lp rq by (metis append_Cons append_assoc append_Nil)
  then have l: "links (nodes s) (?L @ [p])" and r: "links (nodes s) (q # ?R)"
    by (metis append_Cons append_assoc links_append)+
  have dlp: "distinct (?L @ [p])" using dist unfolding lp by simp
  have "links (nodes s') (?L @ p # M @ q # ?R)"
  proof (rule links_splice [OF l r n pv mid])
    show "p \<notin> set ?L" using dlp by simp
    show "q \<notin> set (tl (?L @ [p]))" using dist unfolding lp q_def by (cases ys) auto
    show "set M \<inter> set (?L @ [p]) = {}" "set M \<inter> set (q # ?R) = {}" using fresh(2) unfolding lp rq by auto
    show "q \<notin> set ?R" using dist unfolding q_def by (cases ys) auto
    show "p \<notin> set (butlast (q # ?R))"
    proof (cases "xs = []")
      case False
      then have "last xs \<in> set xs" by simp
      moreover have "set xs \<inter> set ys = {}" using dist by auto
      ultimately have "last xs \<notin> set ys" by blast
      with False show ?thesis by (simp add: rq p_def)
    qed (use dist in \<open>simp add: rq p_def\<close>)
  qed
  then have "links (nodes s') (sentinel # (xs @ M @ ys) @ [sentinel])"
    using lp rq by (metis append_Cons append_assoc append_Nil)
  then show ?thesis using fresh dist sz by (auto simp: rep_def)
qed

lemma rep_neighbours:
  assumes "rep s (xs @ ys)"
  shows "next_node (nodes s (last (sentinel # xs))) = hd (ys @ [sentinel])"
    "prev_node (nodes s (hd (ys @ [sentinel]))) = last (sentinel # xs)"
proof -
  have "links (nodes s) ((butlast (sentinel # xs) @ [last (sentinel # xs)]) @ hd (ys @ [sentinel]) # tl (ys @ [sentinel]))"
    using assms unfolding rep_def append_butlast_last_id [OF list.distinct(2)] by simp
  then have "links (nodes s) (last (sentinel # xs) # hd (ys @ [sentinel]) # tl (ys @ [sentinel]))"
    by (metis append_Cons append_assoc append_Nil links_append)
  then show "next_node (nodes s (last (sentinel # xs))) = hd (ys @ [sentinel])"
    "prev_node (nodes s (hd (ys @ [sentinel]))) = last (sentinel # xs)"
    unfolding links.simps(1) by blast+
qed

lemmas node_ops = set_next_def set_prev_def new_node_def Let_def

section \<open>Effect of the operations\<close>

lemma rep_new: "rep (List_new mem) []"
  by (simp add: rep_def List_new_def node_ops)

lemma rep_push_back:
  assumes rep: "rep s as" and a: "a \<notin> set (sentinel # as)"
  shows "rep (snd (list_push_back a x s)) (as @ [a])"
    "list_data (snd (list_push_back a x s)) (as @ [a]) = list_data s as @ [x]"
proof -
  let ?p = "last (sentinel # as)" and ?s = "snd (list_push_back a x s)"
  have nb: "prev_node (nodes s sentinel) = ?p" "next_node (nodes s ?p) = sentinel"
    using rep_neighbours [of s as "[]"] rep by simp_all
  have "?p \<in> set (sentinel # as)" by (rule last_in_set) simp
  then have pa: "?p \<noteq> a" "a \<noteq> sentinel" using a by auto
  have "rep ?s (as @ [a] @ [])"
    by (rule rep_splice [where D = "[]" and s = s])
      (use rep a nb pa in \<open>auto simp: list_push_back_def node_ops rep_def\<close>)
  then show "rep ?s (as @ [a])" by simp
  show "list_data ?s (as @ [a]) = list_data s as @ [x]"
    using a by (auto simp: list_data_def list_push_back_def node_ops)
qed

lemma rep_push_front:
  assumes rep: "rep s as" and a: "a \<notin> set (sentinel # as)"
  shows "rep (snd (list_push_front a x s)) (a # as)"
    "list_data (snd (list_push_front a x s)) (a # as) = x # list_data s as"
proof -
  let ?q = "hd (as @ [sentinel])" and ?s = "snd (list_push_front a x s)"
  have nb: "next_node (nodes s sentinel) = ?q" "prev_node (nodes s ?q) = sentinel"
    using rep_neighbours [of s "[]" as] rep by simp_all
  have "?q \<in> set (as @ [sentinel])" by (rule hd_in_set) simp
  then have qa: "?q \<noteq> a" "a \<noteq> sentinel" using a by auto
  have "rep ?s ([] @ [a] @ as)"
    by (rule rep_splice [where D = "[]" and s = s])
      (use rep a nb qa in \<open>auto simp: list_push_front_def node_ops rep_def\<close>)
  then show "rep ?s (a # as)" by simp
  show "list_data ?s (a # as) = x # list_data s as"
    using a by (auto simp: list_data_def list_push_front_def node_ops)
qed

lemma rep_erase:
  assumes rep: "rep s (xs @ a # ys)"
  shows "rep (list_erase a s) (xs @ ys)" "list_data (list_erase a s) (xs @ ys) = list_data s (xs @ ys)"
proof -
  let ?p = "last (sentinel # xs)" and ?q = "hd (ys @ [sentinel])"
  have nb: "prev_node (nodes s a) = ?p" "next_node (nodes s a) = ?q"
    using rep_neighbours [of s xs "a # ys"] rep_neighbours [of s "xs @ [a]" ys] rep by simp_all
  have "?p \<in> set (sentinel # xs)" "?q \<in> set (ys @ [sentinel])" by (rule last_in_set, simp, rule hd_in_set, simp)
  then have ne: "?p \<noteq> a" "?q \<noteq> a" using rep by (auto simp: rep_def)
  have "rep (list_erase a s) (xs @ [] @ ys)"
    by (rule rep_splice [where D = "[a]" and s = s])
      (use rep nb ne in \<open>auto simp: list_erase_def node_ops rep_def\<close>)
  then show "rep (list_erase a s) (xs @ ys)" by simp
  show "list_data (list_erase a s) (xs @ ys) = list_data s (xs @ ys)"
    by (auto simp: list_data_def list_erase_def node_ops)
qed

lemma pop_front_erase: "rep s (a # as) \<Longrightarrow> list_pop_front s = list_erase a s"
  using rep_neighbours [of s "[]" "a # as"] rep_neighbours [of s "[a]" as]
  by (auto simp: rep_def list_pop_front_def list_empty_def list_erase_def node_ops intro!: linked.equality node.equality ext)

lemma pop_back_erase: "rep s (as @ [a]) \<Longrightarrow> list_pop_back s = list_erase a s"
  using rep_neighbours [of s as "[a]"] rep_neighbours [of s "as @ [a]" "[]"]
  by (auto simp: rep_def list_pop_back_def list_empty_def list_erase_def node_ops intro!: linked.equality node.equality ext)

lemma rep_front: "rep s (a # as) \<Longrightarrow> list_front s = data (nodes s a) \<and> list_begin s = a"
  using rep_neighbours [of s "[]" "a # as"] by (simp add: list_front_def list_begin_def)

lemma rep_back: "rep s (as @ [a]) \<Longrightarrow> list_back s = data (nodes s a)"
  using rep_neighbours [of s "as @ [a]" "[]"] by (simp add: list_back_def)

lemma rep_ring:
  assumes rep: "rep s as" and a: "a \<in> set (sentinel # as)"
  shows "prev_node (nodes s (next_node (nodes s a))) = a"
proof -
  obtain xs ys where split: "sentinel # as = xs @ a # ys" using a by (metis split_list)
  have "\<exists>xs ys. as = xs @ ys \<and> last (sentinel # xs) = a"
  proof (cases xs)
    case Nil
    with split have "as = [] @ as \<and> last (sentinel # []) = a" by simp
    then show ?thesis by blast
  next
    case (Cons c cs)
    with split have "as = (cs @ [a]) @ ys \<and> last (sentinel # cs @ [a]) = a" by simp
    then show ?thesis by blast
  qed
  then obtain us vs where uv: "as = us @ vs" "last (sentinel # us) = a" by blast
  show ?thesis using rep_neighbours [of s us vs] rep unfolding uv(1) uv(2) by simp
qed

lemma iterator_eq_iff:
  assumes "rep s as" and "a \<in> set (sentinel # as)" and "b \<in> set (sentinel # as)"
  shows "iterator_eq s a b \<longleftrightarrow> a = b"
  unfolding iterator_eq_def using rep_ring [OF assms(1,2)] rep_ring [OF assms(1,3)] by metis

lemma rep_erase_member:
  assumes "rep s as" and "b \<in> set as"
  shows "rep (list_erase b s) (remove1 b as) \<and> list_data (list_erase b s) (remove1 b as) = list_data s (remove1 b as)"
proof -
  obtain xs ys where as: "as = xs @ b # ys" using assms(2) by (metis split_list)
  moreover have "b \<notin> set xs" using assms(1) unfolding as rep_def by auto
  ultimately show ?thesis using rep_erase [of s xs b ys] assms(1) by (simp add: remove1_append)
qed

section \<open>Properties\<close>

text \<open>C18: the pointer manipulations of the intrusive list implement a sequence.  On a list that
  represents the nodes \<open>as\<close>, pushing at either end adds exactly the new element there, popping and erasing
  remove exactly the node concerned and keep the order and the data of the others, and two iterators of the
  list compare equal exactly when they denote the same position.\<close>

theorem linked_list_implements_sequence:
  assumes rep: "rep s as" and fresh: "a \<notin> set (sentinel # as)"
  shows "rep (snd (list_push_back a x s)) (as @ [a]) \<and>
      list_data (snd (list_push_back a x s)) (as @ [a]) = list_data s as @ [x] \<and>
    rep (snd (list_push_front a x s)) (a # as) \<and>
      list_data (snd (list_push_front a x s)) (a # as) = x # list_data s as \<and>
    (as \<noteq> [] \<longrightarrow> list_front s = hd (list_data s as) \<and> list_back s = last (list_data s as) \<and>
      rep (list_pop_front s) (tl as) \<and> list_data (list_pop_front s) (tl as) = tl (list_data s as) \<and>
      rep (list_pop_back s) (butlast as) \<and> list_data (list_pop_back s) (butlast as) = butlast (list_data s as)) \<and>
    (\<forall>b \<in> set as. rep (list_erase b s) (remove1 b as) \<and>
      list_data (list_erase b s) (remove1 b as) = list_data s (remove1 b as)) \<and>
    (\<forall>b \<in> set (sentinel # as). \<forall>c \<in> set (sentinel # as). iterator_eq s b c \<longleftrightarrow> b = c)"
proof -
  have "rep (list_pop_front s) (tl as) \<and> list_data (list_pop_front s) (tl as) = tl (list_data s as) \<and>
      list_front s = hd (list_data s as)" if ne: "as \<noteq> []"
  proof -
    obtain b bs where as: "as = b # bs" using ne by (cases as) auto
    show ?thesis using rep_erase [of s "[]" b bs] pop_front_erase [of s b bs] rep_front [of s b bs] rep
      unfolding as by (simp add: list_data_def)
  qed
  moreover have "rep (list_pop_back s) (butlast as) \<and> list_data (list_pop_back s) (butlast as) = butlast (list_data s as) \<and>
      list_back s = last (list_data s as)" if ne: "as \<noteq> []"
  proof -
    have as': "as = butlast as @ [last as]" using ne by simp
    then obtain b bs where as: "as = bs @ [b]" by blast
    show ?thesis using rep_erase [of s bs b "[]"] pop_back_erase [of s bs b] rep_back [of s bs b] rep
      unfolding as by (simp add: list_data_def)
  qed
  ultimately show ?thesis
    using rep_push_back [OF assms] rep_push_front [OF assms] rep_erase_member [OF rep] iterator_eq_iff [OF rep]
    by blast
qed

definition blank_nodes :: "nat \<Rightarrow> nat node" where
  "blank_nodes _ = \<lparr>data = 0, next_node = 0, prev_node = 0\<rparr>"

theorem linked_list_implements_sequence_witness:
  "rep (snd (list_push_back 7 (3 :: nat) (List_new blank_nodes))) [7] \<and>
   list_data (snd (list_push_back 7 (3 :: nat) (List_new blank_nodes))) [7] = [3]"
  using linked_list_implements_sequence [OF rep_new, of 7 3 blank_nodes]
  by (simp add: sentinel_def list_data_def)

text \<open>\<open>List::clear\<close> empties the chain but not the counter: afterwards \<open>begin\<close> equals \<open>end\<close>, while
  \<open>size\<close> still reports the old number of elements and \<open>empty\<close> is false for a list that had elements.\<close>

lemma list_clear_keeps_size:
  assumes "rep s as"
  shows "list_begin (list_clear s) = list_end (list_clear s) \<and> list_size (list_clear s) = length as \<and>
    (list_empty (list_clear s) \<longleftrightarrow> as = [])"
  using assms by (simp add: list_clear_def list_begin_def list_end_def list_empty_def node_ops rep_def)

end
