(* ===== verification/Fd_Map.thy ===== *)
theory Fd_Map
  imports Prelude
begin

text \<open>
  The descriptor table of \<^verbatim>\<open>src/utils/fdmap.h\<close>: an array of iterators into a list of values,
  indexed by file descriptor.  The \<open>std::list\<close> is a list of values tagged with a node
  identity, an iterator is a node identity or \<open>None\<close> for \<open>end()\<close>.  A failed \<open>assert\<close> is the value
  \<open>None\<close>.  The locale \<open>fd_map\<close> is what the clients of the table (the poller and the queue
  scheduler) rely on.
\<close>

section \<open>The table\<close>

record 'a fdmap =
  fm_items :: "(nat \<times> 'a) list"
  fm_fresh :: nat
  fm_table :: "nat option list"

definition FDMap_new :: "nat \<Rightarrow> 'a fdmap" where
  "FDMap_new max_size = \<lparr>fm_items = [], fm_fresh = 0, fm_table = replicate max_size None\<rparr>"

definition get_fdmap_max_size :: "nat option \<Rightarrow> nat" where
  "get_fdmap_max_size rlim_cur = (case rlim_cur of None \<Rightarrow> 32767 | Some n \<Rightarrow> n)"

definition fdmap_size :: "'a fdmap \<Rightarrow> nat" where
  "fdmap_size m = length (fm_items m)"

definition fdmap_find :: "'a fdmap \<Rightarrow> nat \<Rightarrow> nat option option" where
  "fdmap_find m idx = (if idx < length (fm_table m) then Some (fm_table m ! idx) else None)"

definition fdmap_erase :: "'a fdmap \<Rightarrow> nat \<Rightarrow> (bool \<times> 'a fdmap) option" where
  "fdmap_erase m idx =
    (if idx < length (fm_table m)
     then Some (case fm_table m ! idx of
         None \<Rightarrow> (False, m)
       | Some it \<Rightarrow> (True, m\<lparr>fm_items := filter (\<lambda>e. fst e \<noteq> it) (fm_items m), fm_table := (fm_table m)[idx := None]\<rparr>))
     else None)"

definition fdmap_insert :: "'a fdmap \<Rightarrow> nat \<Rightarrow> 'a \<Rightarrow> (bool \<times> 'a fdmap) option" where
  "fdmap_insert m idx v =
    (if idx < length (fm_table m)
     then Some (case fm_table m ! idx of
         None \<Rightarrow> (True, m\<lparr>fm_items := fm_items m @ [(fm_fresh m, v)], fm_fresh := Suc (fm_fresh m),
                           fm_table := (fm_table m)[idx := Some (fm_fresh m)]\<rparr>)
       | Some it \<Rightarrow> (False, m))
     else None)"

text \<open>The value behind the iterator \<open>find\<close> returns.\<close>

definition fdmap_get :: "'a fdmap \<Rightarrow> nat \<Rightarrow> 'a option" where
  "fdmap_get m idx = (case fdmap_find m idx of Some (Some it) \<Rightarrow> map_of (fm_items m) it | _ \<Rightarrow> None)"

definition fdmap_values :: "'a fdmap \<Rightarrow> 'a list" where
  "fdmap_values m = map snd (fm_items m)"

section \<open>Interface\<close>

locale fd_map =
  fixes ok :: "'m \<Rightarrow> bool"
    and capacity :: "'m \<Rightarrow> nat"
    and get :: "'m \<Rightarrow> nat \<Rightarrow> 'a option"
    and insert :: "'m \<Rightarrow> nat \<Rightarrow> 'a \<Rightarrow> (bool \<times> 'm) option"
    and erase :: "'m \<Rightarrow> nat \<Rightarrow> (bool \<times> 'm) option"
  assumes insert_in: "ok m \<Longrightarrow> idx < capacity m \<Longrightarrow>
      \<exists>m'. insert m idx v = Some (get m idx = None, m') \<and> ok m' \<and> capacity m' = capacity m \<and>
        get m' = (if get m idx = None then (get m)(idx := Some v) else get m)"
    and erase_in: "ok m \<Longrightarrow> idx < capacity m \<Longrightarrow>
      \<exists>m'. erase m idx = Some (get m idx \<noteq> None, m') \<and> ok m' \<and> capacity m' = capacity m \<and>
        get m' = (get m)(idx := None)"
begin

lemma insert_fresh:
  assumes "ok m" and "idx < capacity m" and "get m idx = None"
  obtains m' where "insert m idx v = Some (True, m')" "ok m'" "capacity m' = capacity m" "get m' = (get m)(idx := Some v)"
  using insert_in [OF assms(1,2)] assms(3) by auto

lemma erase_insert:
  assumes "ok m" and "idx < capacity m" and "get m idx = None" and "insert m idx v = Some (r, m')"
  shows "\<exists>m''. erase m' idx = Some (True, m'') \<and> ok m'' \<and> get m'' = get m"
proof -
  obtain m1 where m1: "insert m idx v = Some (True, m1)" "ok m1" "capacity m1 = capacity m" "get m1 = (get m)(idx := Some v)"
    using insert_fresh [OF assms(1-3)] .
  then have "m' = m1" using assms(4) by simp
  with erase_in [of m1 idx] m1 assms(2,3) show ?thesis by (auto simp: fun_upd_idem)
qed

end

section \<open>The table implements the interface\<close>

definition fdmap_ok :: "'a fdmap \<Rightarrow> bool" where
  "fdmap_ok m \<longleftrightarrow> distinct (map fst (fm_items m)) \<and> (\<forall>e \<in> set (fm_items m). fst e < fm_fresh m) \<and>
     (\<forall>i < length (fm_table m). \<forall>it. fm_table m ! i = Some it \<longrightarrow> it \<in> fst ` set (fm_items m)) \<and>
     (\<forall>i < length (fm_table m). \<forall>j < length (fm_table m). fm_table m ! i \<noteq> None \<longrightarrow> fm_table m ! i = fm_table m ! j \<longrightarrow> i = j)"

definition fdmap_capacity :: "'a fdmap \<Rightarrow> nat" where
  "fdmap_capacity m = length (fm_table m)"

lemma fdmap_okD:
  assumes "fdmap_ok m"
  shows "distinct (map fst (fm_items m))" "\<forall>e \<in> set (fm_items m). fst e < fm_fresh m"
    "i < length (fm_table m) \<Longrightarrow> fm_table m ! i = Some it \<Longrightarrow> it \<in> fst ` set (fm_items m)"
    "i < length (fm_table m) \<Longrightarrow> j < length (fm_table m) \<Longrightarrow> fm_table m ! i \<noteq> None \<Longrightarrow> fm_table m ! i = fm_table m ! j \<Longrightarrow> i = j"
  using assms unfolding fdmap_ok_def by blast+

lemma map_of_filter_key: "map_of (filter (\<lambda>e. fst e \<noteq> k) xs) = (map_of xs)(k := None)"
  by (induction xs) (auto simp: fun_eq_iff)

lemma map_of_snoc: "k \<notin> fst ` set xs \<Longrightarrow> map_of (xs @ [(k, v)]) = (map_of xs)(k := Some v)"
  by (induction xs) (auto simp: fun_eq_iff)

lemma fdmap_get_alt:
  "fdmap_get m j = (if j < fdmap_capacity m then case fm_table m ! j of None \<Rightarrow> None | Some it \<Rightarrow> map_of (fm_items m) it else None)"
  by (simp add: fdmap_get_def fdmap_find_def fdmap_capacity_def split: option.split)

lemma fdmap_get_none:
  assumes "fdmap_ok m" and "i < fdmap_capacity m"
  shows "fdmap_get m i = None \<longleftrightarrow> fm_table m ! i = None"
  using assms by (auto simp: fdmap_get_def fdmap_find_def fdmap_ok_def fdmap_capacity_def map_of_eq_None_iff split: option.splits)

lemma fdmap_insert_free:
  assumes ok: "fdmap_ok m" and i: "idx < fdmap_capacity m" and free: "fm_table m ! idx = None"
  shows "\<exists>m'. fdmap_insert m idx v = Some (True, m') \<and> fdmap_ok m' \<and> fdmap_capacity m' = fdmap_capacity m \<and>
    fdmap_get m' = (fdmap_get m)(idx := Some v) \<and> fdmap_values m' = fdmap_values m @ [v]"
proof -
  let ?m = "m\<lparr>fm_items := fm_items m @ [(fm_fresh m, v)], fm_fresh := Suc (fm_fresh m),
    fm_table := (fm_table m)[idx := Some (fm_fresh m)]\<rparr>"
  have new: "fm_fresh m \<notin> fst ` set (fm_items m)" using ok by (auto simp: fdmap_ok_def)
  have old: "fm_table m ! j \<noteq> Some (fm_fresh m)" if "j < length (fm_table m)" for j
    using that new ok by (auto simp: fdmap_ok_def)
  have inj: "\<forall>i < length (fm_table ?m). \<forall>j < length (fm_table ?m). fm_table ?m ! i \<noteq> None \<longrightarrow>
      fm_table ?m ! i = fm_table ?m ! j \<longrightarrow> i = j"
  proof (intro allI impI)
    fix i j assume "i < length (fm_table ?m)" "j < length (fm_table ?m)" "fm_table ?m ! i \<noteq> None" "fm_table ?m ! i = fm_table ?m ! j"
    then show "i = j" using fdmap_okD(4) [OF ok, of i j] old [of i] old [of j]
      by (cases "i = idx"; cases "j = idx") (use i in \<open>auto simp: nth_list_update fdmap_capacity_def\<close>)
  qed
  have "\<forall>i < length (fm_table ?m). \<forall>it. fm_table ?m ! i = Some it \<longrightarrow> it \<in> fst ` set (fm_items ?m)"
    using fdmap_okD(3) [OF ok] i by (auto simp: fdmap_capacity_def nth_list_update split: if_splits)
  moreover have "distinct (map fst (fm_items ?m))" "\<forall>e \<in> set (fm_items ?m). fst e < fm_fresh ?m"
    using fdmap_okD(1,2) [OF ok] new by auto
  ultimately have "fdmap_ok ?m" unfolding fdmap_ok_def using inj by blast
  moreover have "fdmap_get ?m j = ((fdmap_get m)(idx := Some v)) j" for j
    using i old [of j]
    by (auto simp: fdmap_get_alt fdmap_capacity_def nth_list_update map_of_snoc [OF new] simp del: map_of_append split: option.split)
  ultimately show ?thesis using i free
    by (auto simp: fdmap_insert_def fdmap_capacity_def fdmap_values_def fun_eq_iff)
qed

lemma fdmap_erase_used:
  assumes ok: "fdmap_ok m" and i: "idx < fdmap_capacity m" and used: "fm_table m ! idx = Some it"
  shows "\<exists>m'. fdmap_erase m idx = Some (True, m') \<and> fdmap_ok m' \<and> fdmap_capacity m' = fdmap_capacity m \<and>
    fdmap_get m' = (fdmap_get m)(idx := None)"
proof -
  let ?m = "m\<lparr>fm_items := filter (\<lambda>e. fst e \<noteq> it) (fm_items m), fm_table := (fm_table m)[idx := None]\<rparr>"
  have ne: "fm_table m ! j \<noteq> Some it" if "j < length (fm_table m)" "j \<noteq> idx" for j
    using that ok i used unfolding fdmap_ok_def fdmap_capacity_def by (metis option.distinct(1))
  have "distinct (map fst (fm_items ?m))" using ok by (simp add: fdmap_ok_def distinct_map_filter)
  moreover have "\<forall>j < length (fm_table ?m). \<forall>k. fm_table ?m ! j = Some k \<longrightarrow> k \<in> fst ` set (fm_items ?m)"
  proof (intro allI impI)
    fix j k assume j: "j < length (fm_table ?m)" and k: "fm_table ?m ! j = Some k"
    then have "j \<noteq> idx" "fm_table m ! j = Some k"
      using i by (auto simp: fdmap_capacity_def nth_list_update split: if_splits)
    with fdmap_okD(3) [OF ok, of j k] ne [of j] j show "k \<in> fst ` set (fm_items ?m)" by force
  qed
  moreover have "\<forall>i < length (fm_table ?m). \<forall>j < length (fm_table ?m). fm_table ?m ! i \<noteq> None \<longrightarrow>
      fm_table ?m ! i = fm_table ?m ! j \<longrightarrow> i = j"
  proof (intro allI impI)
    fix i j assume "i < length (fm_table ?m)" "j < length (fm_table ?m)" "fm_table ?m ! i \<noteq> None" "fm_table ?m ! i = fm_table ?m ! j"
    then show "i = j" using fdmap_okD(4) [OF ok, of i j]
      by (cases "i = idx"; cases "j = idx") (use i in \<open>auto simp: nth_list_update fdmap_capacity_def\<close>)
  qed
  moreover have "\<forall>e \<in> set (fm_items ?m). fst e < fm_fresh ?m" using fdmap_okD(2) [OF ok] by simp
  ultimately have "fdmap_ok ?m" unfolding fdmap_ok_def by blast
  moreover have "fdmap_get ?m j = ((fdmap_get m)(idx := None)) j" for j
    using i ne [of j] by (auto simp: fdmap_get_alt nth_list_update fdmap_capacity_def map_of_filter_key split: option.split)
  ultimately show ?thesis using i used
    by (auto simp: fdmap_erase_def fdmap_capacity_def fun_eq_iff)
qed

interpretation fdm: fd_map fdmap_ok fdmap_capacity fdmap_get fdmap_insert fdmap_erase
proof unfold_locales
  fix m :: "'a fdmap" and idx v
  assume ok: "fdmap_ok m" and i: "idx < fdmap_capacity m"
  show "\<exists>m'. fdmap_insert m idx v = Some (fdmap_get m idx = None, m') \<and> fdmap_ok m' \<and> fdmap_capacity m' = fdmap_capacity m \<and>
      fdmap_get m' = (if fdmap_get m idx = None then (fdmap_get m)(idx := Some v) else fdmap_get m)"
    using fdmap_insert_free [OF ok i, of v] fdmap_get_none [OF ok i] ok i
    by (cases "fm_table m ! idx") (auto simp: fdmap_insert_def fdmap_capacity_def)
  show "\<exists>m'. fdmap_erase m idx = Some (fdmap_get m idx \<noteq> None, m') \<and> fdmap_ok m' \<and> fdmap_capacity m' = fdmap_capacity m \<and>
      fdmap_get m' = (fdmap_get m)(idx := None)"
    using fdmap_erase_used [OF ok i] fdmap_get_none [OF ok i] ok i
    by (cases "fm_table m ! idx") (auto simp: fdmap_erase_def fdmap_capacity_def fun_upd_idem)
qed

lemma fdmap_new_ok: "fdmap_ok (FDMap_new n)" "fdmap_capacity (FDMap_new n) = n" "fdmap_get (FDMap_new n) = (\<lambda>_. None)"
  by (auto simp: fdmap_ok_def FDMap_new_def fdmap_capacity_def fdmap_get_def fdmap_find_def fun_eq_iff)

section \<open>Properties\<close>

text \<open>C19: the descriptor table behaves as a finite map from descriptors to values: \<open>insert\<close> succeeds
  exactly on a free descriptor and changes only that entry, \<open>erase\<close> succeeds exactly on a used one and
  removes only that entry, and both keep the table consistent.\<close>

theorem fdmap_is_map:
  assumes "fdmap_ok m" and "idx < fdmap_capacity m"
  shows "(\<exists>m'. fdmap_insert m idx v = Some (fdmap_get m idx = None, m') \<and> fdmap_ok m' \<and>
      fdmap_get m' = (if fdmap_get m idx = None then (fdmap_get m)(idx := Some v) else fdmap_get m)) \<and>
    (\<exists>m'. fdmap_erase m idx = Some (fdmap_get m idx \<noteq> None, m') \<and> fdmap_ok m' \<and>
      fdmap_get m' = (fdmap_get m)(idx := None))"
  using fdm.insert_in [OF assms] fdm.erase_in [OF assms] by blast

theorem fdmap_is_map_witness:
  "\<exists>m'. fdmap_insert (FDMap_new 4) 2 True = Some (True, m') \<and> fdmap_ok m' \<and>
    fdmap_get m' = (\<lambda>_. None)(2 := Some True)"
  using fdmap_is_map [OF fdmap_new_ok(1), of 2 4 True] by (simp add: fdmap_new_ok)

end
