(* ===== verification/Scheduler.thy ===== *)
theory Scheduler
  imports Linked_List Fd_Map
begin

text \<open>
  The queue scheduler of \<^verbatim>\<open>src/core/pipeline.{h,cc}\<close>, on the linked list and the descriptor table it
  is built from.  Connections are numbers, \<open>fdof\<close> is \<open>Connection::fd\<close>; the address of a new
  list node comes from the pool.  \<open>None\<close> is a failed assertion of the table, a pick that finds nothing
  to run returns no connection (the thread then waits on the condition).  The locale \<open>scheduler\<close> is the
  interface the stages use.  The last part is the step relation of threads that add, pick,
  wait and release.
\<close>

section \<open>Operations\<close>

record qsched =
  q_list :: "nat linked"
  q_nodes :: "nat fdmap"

definition QueueScheduler :: "(nat \<Rightarrow> nat node) \<Rightarrow> nat \<Rightarrow> qsched" where
  "QueueScheduler mem max_fd = \<lparr>q_list = List_new mem, q_nodes = FDMap_new max_fd\<rparr>"

text \<open>\<open>add_task\<close>: the flag says whether waiting threads are notified.\<close>

definition add_task :: "(nat \<Rightarrow> nat) \<Rightarrow> nat \<Rightarrow> nat \<Rightarrow> qsched \<Rightarrow> (bool \<times> qsched) option" where
  "add_task fdof addr conn q =
    (case fdmap_find (q_nodes q) (fdof conn) of
       None \<Rightarrow> None
     | Some (Some _) \<Rightarrow>
        (case fdmap_get (q_nodes q) (fdof conn) of
           None \<Rightarrow> None
         | Some it \<Rightarrow>
            let l1 = list_erase it (q_list q);
                l2 = snd (list_push_front addr conn l1)
            in case fdmap_erase (q_nodes q) (fdof conn) of
                 None \<Rightarrow> None
               | Some (_, n1) \<Rightarrow>
                  (case fdmap_insert n1 (fdof conn) (list_begin l2) of
                     None \<Rightarrow> None
                   | Some (_, n2) \<Rightarrow> Some (False, \<lparr>q_list = l2, q_nodes = n2\<rparr>)))
     | Some None \<Rightarrow>
        let need_notify = (list_size (q_list q) = 0);
            (it, l1) = list_push_back addr conn (q_list q)
        in case fdmap_insert (q_nodes q) (fdof conn) it of
             None \<Rightarrow> None
           | Some (_, n1) \<Rightarrow> Some (need_notify, \<lparr>q_list = l1, q_nodes = n1\<rparr>))"

text \<open>One attempt of \<open>pick_task_nolock_connection\<close>: no connection means the thread waits.\<close>

definition pick_nolock :: "(nat \<Rightarrow> nat) \<Rightarrow> qsched \<Rightarrow> (nat option \<times> qsched) option" where
  "pick_nolock fdof q =
    (if list_empty (q_list q) then Some (None, q)
     else let conn = list_front (q_list q); l1 = list_pop_front (q_list q)
          in case fdmap_erase (q_nodes q) (fdof conn) of
               None \<Rightarrow> None
             | Some (_, n1) \<Rightarrow> Some (Some conn, \<lparr>q_list = l1, q_nodes = n1\<rparr>))"

text \<open>The \<open>for\<close> loop of \<open>pick_task_lock_connection\<close>: the first node whose connection can be locked.  The
  number of iterations is bounded by the number of nodes.\<close>

fun scan_list :: "nat \<Rightarrow> (nat \<Rightarrow> bool) \<Rightarrow> nat linked \<Rightarrow> nat \<Rightarrow> nat option" where
  "scan_list 0 try_lock l it = None"
| "scan_list (Suc k) try_lock l it =
    (if iterator_eq l it (list_end l) then None
     else if try_lock (data (nodes l it)) then Some it
     else scan_list k try_lock l (next_node (nodes l it)))"

definition pick_lock :: "(nat \<Rightarrow> nat) \<Rightarrow> (nat \<Rightarrow> bool) \<Rightarrow> qsched \<Rightarrow> (nat option \<times> qsched) option" where
  "pick_lock fdof try_lock q =
    (if list_empty (q_list q) then Some (None, q)
     else case scan_list (Suc (list_size (q_list q))) try_lock (q_list q) (list_begin (q_list q)) of
            None \<Rightarrow> Some (None, q)
          | Some it \<Rightarrow>
             let conn = data (nodes (q_list q) it); l1 = list_erase it (q_list q)
             in case fdmap_erase (q_nodes q) (fdof conn) of
                  None \<Rightarrow> None
                | Some (_, n1) \<Rightarrow> Some (Some conn, \<lparr>q_list = l1, q_nodes = n1\<rparr>))"

definition pick_task :: "bool \<Rightarrow> (nat \<Rightarrow> nat) \<Rightarrow> (nat \<Rightarrow> bool) \<Rightarrow> qsched \<Rightarrow> (nat option \<times> qsched) option" where
  "pick_task suppress_connection_lock fdof try_lock q =
    (if suppress_connection_lock then pick_nolock fdof q else pick_lock fdof try_lock q)"

definition remove_task :: "(nat \<Rightarrow> nat) \<Rightarrow> nat \<Rightarrow> qsched \<Rightarrow> qsched option" where
  "remove_task fdof conn q =
    (case fdmap_find (q_nodes q) (fdof conn) of
       None \<Rightarrow> None
     | Some None \<Rightarrow> Some q
     | Some (Some _) \<Rightarrow>
        (case fdmap_get (q_nodes q) (fdof conn) of
           None \<Rightarrow> None
         | Some it \<Rightarrow>
            (case fdmap_erase (q_nodes q) (fdof conn) of
               None \<Rightarrow> None
             | Some (_, n1) \<Rightarrow> Some \<lparr>q_list = list_erase it (q_list q), q_nodes = n1\<rparr>)))"

section \<open>Abstraction\<close>

definition sched_ok :: "(nat \<Rightarrow> nat) \<Rightarrow> qsched \<Rightarrow> nat list \<Rightarrow> bool" where
  "sched_ok fdof q as \<longleftrightarrow> rep (q_list q) as \<and> fdmap_ok (q_nodes q) \<and>
     (\<forall>a \<in> set as. fdof (data (nodes (q_list q) a)) < fdmap_capacity (q_nodes q)) \<and>
     (\<forall>fd a. fdmap_get (q_nodes q) fd = Some a \<longleftrightarrow> a \<in> set as \<and> fdof (data (nodes (q_list q) a)) = fd)"

definition queue_of :: "qsched \<Rightarrow> nat list \<Rightarrow> nat list" where
  "queue_of q as = list_data (q_list q) as"

text \<open>The queue as a list of connections: at most one entry per descriptor.\<close>

definition queue_add :: "(nat \<Rightarrow> nat) \<Rightarrow> nat \<Rightarrow> nat list \<Rightarrow> nat list" where
  "queue_add fdof conn xs =
    (if fdof conn \<in> fdof ` set xs then conn # filter (\<lambda>c. fdof c \<noteq> fdof conn) xs else xs @ [conn])"

definition queue_remove :: "(nat \<Rightarrow> nat) \<Rightarrow> nat \<Rightarrow> nat list \<Rightarrow> nat list" where
  "queue_remove fdof conn xs = filter (\<lambda>c. fdof c \<noteq> fdof conn) xs"

lemma sched_okD:
  assumes "sched_ok fdof q as"
  shows "rep (q_list q) as" "fdmap_ok (q_nodes q)" "distinct as"
    "a \<in> set as \<Longrightarrow> fdof (data (nodes (q_list q) a)) < fdmap_capacity (q_nodes q)"
    "a \<in> set as \<Longrightarrow> fdmap_get (q_nodes q) (fdof (data (nodes (q_list q) a))) = Some a"
    "fdmap_get (q_nodes q) fd = Some a \<Longrightarrow> a \<in> set as \<and> fdof (data (nodes (q_list q) a)) = fd"
  using assms unfolding sched_ok_def rep_def by auto

lemma sched_ok_inj:
  assumes "sched_ok fdof q as" and "a \<in> set as" and "b \<in> set as"
    and "fdof (data (nodes (q_list q) a)) = fdof (data (nodes (q_list q) b))"
  shows "a = b"
  using sched_okD(5) [OF assms(1,2)] sched_okD(5) [OF assms(1,3)] assms(4) by (metis option.inject)

lemma find_get:
  assumes "fdmap_ok m" and "fd < fdmap_capacity m"
  shows "fdmap_find m fd = Some (fm_table m ! fd)" "fm_table m ! fd = None \<longleftrightarrow> fdmap_get m fd = None"
proof -
  show "fdmap_find m fd = Some (fm_table m ! fd)" using assms(2) by (simp add: fdmap_find_def fdmap_capacity_def)
  show "fm_table m ! fd = None \<longleftrightarrow> fdmap_get m fd = None" using fdmap_get_none [OF assms] by blast
qed

lemma remove1_filter: "distinct xs \<Longrightarrow> remove1 a xs = filter (\<lambda>b. b \<noteq> a) xs"
proof (induction xs)
  case (Cons x xs)
  have "filter (\<lambda>b. b \<noteq> x) xs = xs" using Cons.prems by (intro filter_True) auto
  then show ?case using Cons by (cases "x = a") simp_all
qed simp

text \<open>Unlinking the node of a connection from both structures.\<close>

lemma sched_unlink:
  assumes ok: "sched_ok fdof q as" and a: "a \<in> set as" and fd: "fdof (data (nodes (q_list q) a)) = fd"
  shows "\<exists>n1. fdmap_erase (q_nodes q) fd = Some (True, n1) \<and> fdmap_capacity n1 = fdmap_capacity (q_nodes q) \<and>
    sched_ok fdof \<lparr>q_list = list_erase a (q_list q), q_nodes = n1\<rparr> (remove1 a as) \<and>
    list_data (list_erase a (q_list q)) (remove1 a as) = filter (\<lambda>c. fdof c \<noteq> fd) (queue_of q as) \<and>
    fdmap_get n1 fd = None"
proof -
  let ?l = "q_list q"
  note rep = sched_okD(1) [OF ok] and dist = sched_okD(3) [OF ok]
  have lt: "fd < fdmap_capacity (q_nodes q)" and get: "fdmap_get (q_nodes q) fd = Some a"
    using sched_okD(4,5) [OF ok a] fd by simp_all
  obtain n1 where n1: "fdmap_erase (q_nodes q) fd = Some (True, n1)" "fdmap_ok n1"
      "fdmap_capacity n1 = fdmap_capacity (q_nodes q)" "fdmap_get n1 = (fdmap_get (q_nodes q))(fd := None)"
    using fdm.erase_in [OF sched_okD(2) [OF ok] lt] get by auto
  note er = rep_erase_member [OF rep a]
  have dat: "data (nodes (list_erase a ?l) b) = data (nodes ?l b)" if "b \<in> set (remove1 a as)" for b
    using that by (auto simp: list_erase_def node_ops)
  have other: "fdof (data (nodes ?l b)) \<noteq> fd" if "b \<in> set (remove1 a as)" for b
    using that sched_ok_inj [OF ok a, of b] fd dist by auto
  have iff: "fdmap_get n1 f = Some b \<longleftrightarrow> b \<in> set (remove1 a as) \<and> fdof (data (nodes ?l b)) = f" for f b
  proof (cases "f = fd")
    case True
    then show ?thesis using other by (auto simp: n1(4))
  next
    case False
    have "fdmap_get n1 f = fdmap_get (q_nodes q) f" using False by (simp add: n1(4))
    moreover have "fdmap_get (q_nodes q) f = Some b \<longleftrightarrow> b \<in> set as \<and> fdof (data (nodes ?l b)) = f"
      using ok by (simp add: sched_ok_def)
    ultimately show ?thesis using False fd dist by auto
  qed
  have "sched_ok fdof \<lparr>q_list = list_erase a ?l, q_nodes = n1\<rparr> (remove1 a as)"
    using er n1(2,3) iff dat sched_okD(4) [OF ok] dist by (auto simp: sched_ok_def)
  moreover have "list_data ?l (remove1 a as) = filter (\<lambda>c. fdof c \<noteq> fd) (queue_of q as)"
  proof -
    have "filter (\<lambda>b. fdof (data (nodes ?l b)) \<noteq> fd) as = filter (\<lambda>b. b \<noteq> a) as"
      using sched_ok_inj [OF ok _ a] fd by (intro filter_cong) auto
    then show ?thesis by (simp add: queue_of_def list_data_def filter_map o_def remove1_filter [OF dist])
  qed
  ultimately show ?thesis using n1 er by auto
qed

section \<open>Refinement\<close>

lemma sched_link_data:
  "data (nodes (snd (list_push_back a x l)) b) = (if b = a then x else data (nodes l b))"
  "data (nodes (snd (list_push_front a x l)) b) = (if b = a then x else data (nodes l b))"
  by (auto simp: list_push_back_def list_push_front_def node_ops)

text \<open>Linking a new node: the list already has it, the table gets it.\<close>

lemma sched_link:
  assumes ok: "sched_ok fdof \<lparr>q_list = l, q_nodes = m\<rparr> as" and fresh: "a \<notin> set as"
    and fd: "fdof x < fdmap_capacity m" and free: "fdmap_get m (fdof x) = None"
    and rep: "rep l' as'" "set as' = insert a (set as)"
    and dat: "\<And>b. data (nodes l' b) = (if b = a then x else data (nodes l b))"
  shows "\<exists>n. fdmap_insert m (fdof x) a = Some (True, n) \<and> sched_ok fdof \<lparr>q_list = l', q_nodes = n\<rparr> as'"
proof -
  have mok: "fdmap_ok m" using ok by (simp add: sched_ok_def)
  obtain n where n: "fdmap_insert m (fdof x) a = Some (True, n)" "fdmap_ok n" "fdmap_capacity n = fdmap_capacity m"
      "fdmap_get n = (fdmap_get m)(fdof x := Some a)"
    using fdm.insert_fresh [OF mok fd free] .
  have old: "fdmap_get m f = Some b \<longleftrightarrow> b \<in> set as \<and> fdof (data (nodes l b)) = f" for f b
    using ok by (simp add: sched_ok_def)
  have nofd: "fdof (data (nodes l b)) \<noteq> fdof x" if "b \<in> set as" for b using old [of "fdof x" b] free that by auto
  have "fdmap_get n f = Some b \<longleftrightarrow> b \<in> set as' \<and> fdof (data (nodes l' b)) = f" for f b
    using old [of f b] nofd [of b] fresh by (cases "b = a") (auto simp: n(4) rep(2) dat)
  then have "sched_ok fdof \<lparr>q_list = l', q_nodes = n\<rparr> as'"
    using ok fd fresh rep n(2,3) by (auto simp: sched_ok_def dat)
  with n(1) show ?thesis by blast
qed

lemma queue_mem_iff:
  assumes ok: "sched_ok fdof q as"
  shows "fdof conn \<in> fdof ` set (queue_of q as) \<longleftrightarrow> fdmap_get (q_nodes q) (fdof conn) \<noteq> None"
proof
  assume "fdof conn \<in> fdof ` set (queue_of q as)"
  then obtain a where "a \<in> set as" "fdof (data (nodes (q_list q) a)) = fdof conn"
    by (auto simp: queue_of_def list_data_def)
  then show "fdmap_get (q_nodes q) (fdof conn) \<noteq> None" using sched_okD(5) [OF ok] by force
next
  assume "fdmap_get (q_nodes q) (fdof conn) \<noteq> None"
  then obtain a where "a \<in> set as \<and> fdof (data (nodes (q_list q) a)) = fdof conn" using sched_okD(6) [OF ok] by blast
  then have "data (nodes (q_list q) a) \<in> set (queue_of q as)" "fdof conn = fdof (data (nodes (q_list q) a))"
    by (simp_all add: queue_of_def list_data_def)
  then show "fdof conn \<in> fdof ` set (queue_of q as)" by (simp only: imageI)
qed

lemma add_task_new:
  assumes ok: "sched_ok fdof q as" and fd: "fdof conn < fdmap_capacity (q_nodes q)"
    and addr: "addr \<notin> set (sentinel # as)" and new: "fdmap_get (q_nodes q) (fdof conn) = None"
  shows "\<exists>q' as'. add_task fdof addr conn q = Some (as = [], q') \<and> sched_ok fdof q' as' \<and> set as' \<subseteq> insert addr (set as) \<and>
    queue_of q' as' = queue_of q as @ [conn]"
proof -
  let ?l = "snd (list_push_back addr conn (q_list q))"
  note rp = rep_push_back [OF sched_okD(1) [OF ok] addr, of conn]
  have ok': "sched_ok fdof \<lparr>q_list = q_list q, q_nodes = q_nodes q\<rparr> as"
    using ok by (cases q) simp
  obtain n where n: "fdmap_insert (q_nodes q) (fdof conn) addr = Some (True, n)"
      "sched_ok fdof \<lparr>q_list = ?l, q_nodes = n\<rparr> (as @ [addr])"
    using sched_link [OF ok' _ fd new rp(1) _ sched_link_data(1)] addr by auto
  have "list_size (q_list q) = length as" using sched_okD(1) [OF ok] by (simp add: rep_def)
  moreover have "fst (list_push_back addr conn (q_list q)) = addr" by (simp add: list_push_back_def Let_def)
  moreover have "fdmap_find (q_nodes q) (fdof conn) = Some None" using find_get [OF sched_okD(2) [OF ok] fd] new by simp
  ultimately have "add_task fdof addr conn q = Some (as = [], \<lparr>q_list = ?l, q_nodes = n\<rparr>)"
    using n(1) by (simp add: add_task_def case_prod_beta)
  moreover have "queue_of \<lparr>q_list = ?l, q_nodes = n\<rparr> (as @ [addr]) = queue_of q as @ [conn]"
    using rp(2) by (simp add: queue_of_def)
  ultimately show ?thesis using n(2) by (intro exI [of _ "\<lparr>q_list = ?l, q_nodes = n\<rparr>"] exI [of _ "as @ [addr]"]) simp
qed

lemma add_task_again:
  assumes ok: "sched_ok fdof q as" and fd: "fdof conn < fdmap_capacity (q_nodes q)"
    and old: "fdmap_get (q_nodes q) (fdof conn) = Some a" and addr: "addr \<notin> set (sentinel # remove1 a as)"
  shows "\<exists>q' as'. add_task fdof addr conn q = Some (False, q') \<and> sched_ok fdof q' as' \<and> set as' \<subseteq> insert addr (set as) \<and>
    queue_of q' as' = conn # filter (\<lambda>c. fdof c \<noteq> fdof conn) (queue_of q as)"
proof -
  have a: "a \<in> set as" "fdof (data (nodes (q_list q) a)) = fdof conn" using sched_okD(6) [OF ok old] by simp_all
  obtain n1 where n1: "fdmap_erase (q_nodes q) (fdof conn) = Some (True, n1)" "fdmap_capacity n1 = fdmap_capacity (q_nodes q)"
      "sched_ok fdof \<lparr>q_list = list_erase a (q_list q), q_nodes = n1\<rparr> (remove1 a as)"
      "list_data (list_erase a (q_list q)) (remove1 a as) = filter (\<lambda>c. fdof c \<noteq> fdof conn) (queue_of q as)"
      "fdmap_get n1 (fdof conn) = None"
    using sched_unlink [OF ok a] by blast
  let ?l1 = "list_erase a (q_list q)"
  let ?l2 = "snd (list_push_front addr conn ?l1)"
  have r1: "rep ?l1 (remove1 a as)" using sched_okD(1) [OF n1(3)] by simp
  note rp = rep_push_front [OF r1 addr, of conn]
  have bg: "list_begin ?l2 = addr" using rep_front [OF rp(1)] by simp
  obtain n2 where n2: "fdmap_insert n1 (fdof conn) addr = Some (True, n2)"
      "sched_ok fdof \<lparr>q_list = ?l2, q_nodes = n2\<rparr> (addr # remove1 a as)"
    using sched_link [OF n1(3) _ _ n1(5) rp(1) _ sched_link_data(2)] fd n1(2) addr by auto
  obtain i where "fdmap_find (q_nodes q) (fdof conn) = Some (Some i)"
    using find_get [OF sched_okD(2) [OF ok] fd] old by auto
  then have "add_task fdof addr conn q = Some (False, \<lparr>q_list = ?l2, q_nodes = n2\<rparr>)"
    using old n1(1) n2(1) bg by (simp add: add_task_def Let_def)
  moreover have "queue_of \<lparr>q_list = ?l2, q_nodes = n2\<rparr> (addr # remove1 a as) = conn # filter (\<lambda>c. fdof c \<noteq> fdof conn) (queue_of q as)"
    using rp(2) n1(4) by (simp add: queue_of_def)
  moreover have "set (addr # remove1 a as) \<subseteq> insert addr (set as)" by (auto dest: notin_set_remove1)
  ultimately show ?thesis using n2(2)
    by (intro exI [of _ "\<lparr>q_list = ?l2, q_nodes = n2\<rparr>"] exI [of _ "addr # remove1 a as"]) blast
qed

lemma add_task_refines:
  assumes ok: "sched_ok fdof q as" and fd: "fdof conn < fdmap_capacity (q_nodes q)" and addr: "addr \<notin> set (sentinel # as)"
  shows "\<exists>q' as'. add_task fdof addr conn q = Some (queue_of q as = [], q') \<and> sched_ok fdof q' as' \<and>
    queue_of q' as' = queue_add fdof conn (queue_of q as)"
proof (cases "fdmap_get (q_nodes q) (fdof conn)")
  case None
  have "queue_of q as = [] \<longleftrightarrow> as = []" by (simp add: queue_of_def list_data_def)
  with add_task_new [OF ok fd addr None] None queue_mem_iff [OF ok, of conn] show ?thesis by (auto simp: queue_add_def)
next
  case (Some a)
  then have m: "fdof conn \<in> fdof ` set (queue_of q as)" using queue_mem_iff [OF ok] by simp
  then have "queue_of q as \<noteq> []" by auto
  moreover have "addr \<notin> set (sentinel # remove1 a as)" using addr by (auto dest: notin_set_remove1)
  moreover obtain q' as' where "add_task fdof addr conn q = Some (False, q')" "sched_ok fdof q' as'"
      "queue_of q' as' = conn # filter (\<lambda>c. fdof c \<noteq> fdof conn) (queue_of q as)"
    using add_task_again [OF ok fd Some calculation(2)] by blast
  ultimately show ?thesis unfolding queue_add_def if_P [OF m] by auto
qed

lemma remove_task_refines:
  assumes ok: "sched_ok fdof q as" and fd: "fdof conn < fdmap_capacity (q_nodes q)"
  shows "\<exists>q' as'. remove_task fdof conn q = Some q' \<and> sched_ok fdof q' as' \<and> queue_of q' as' = queue_remove fdof conn (queue_of q as)"
proof (cases "fdmap_get (q_nodes q) (fdof conn)")
  case None
  then have "remove_task fdof conn q = Some q"
    using find_get [OF sched_okD(2) [OF ok] fd] by (simp add: remove_task_def)
  moreover have "queue_remove fdof conn (queue_of q as) = queue_of q as"
    using queue_mem_iff [OF ok, of conn] None by (auto simp: queue_remove_def image_iff intro!: filter_True)
  ultimately show ?thesis using ok by auto
next
  case (Some a)
  then have a: "a \<in> set as" "fdof (data (nodes (q_list q) a)) = fdof conn" using sched_okD(6) [OF ok] by blast+
  obtain i where "fdmap_find (q_nodes q) (fdof conn) = Some (Some i)"
    using find_get [OF sched_okD(2) [OF ok] fd] Some by auto
  then show ?thesis using sched_unlink [OF ok a] Some by (auto simp: remove_task_def queue_of_def queue_remove_def)
qed

text \<open>Walking the list from node \<open>hd vs\<close>.\<close>

lemma scan_list_find:
  assumes rep: "rep l (us @ vs)" and k: "length vs < k"
  shows "scan_list k try_lock l (hd (vs @ [sentinel])) = find (\<lambda>a. try_lock (data (nodes l a))) vs"
  using assms
proof (induction vs arbitrary: us k)
  case Nil
  then obtain k' where "k = Suc k'" by (cases k) auto
  then show ?case by (simp add: iterator_eq_def list_end_def)
next
  case (Cons a vs)
  obtain k' where k: "k = Suc k'" "length vs < k'" using Cons.prems(2) by (cases k) auto
  have ne: "\<not> iterator_eq l a sentinel"
    using iterator_eq_iff [OF Cons.prems(1), of a sentinel] Cons.prems(1) by (auto simp: rep_def)
  have nx: "next_node (nodes l a) = hd (vs @ [sentinel])"
    using rep_neighbours(1) [of l "us @ [a]" vs] Cons.prems(1) by simp
  show ?case using Cons.IH [of "us @ [a]" k'] Cons.prems(1) k ne nx by (simp add: list_end_def)
qed

lemma pick_unlink:
  assumes ok: "sched_ok fdof q as" and a: "a \<in> set as"
  shows "\<exists>n1. fdmap_erase (q_nodes q) (fdof (data (nodes (q_list q) a))) = Some (True, n1) \<and>
    sched_ok fdof \<lparr>q_list = list_erase a (q_list q), q_nodes = n1\<rparr> (remove1 a as) \<and>
    queue_of \<lparr>q_list = list_erase a (q_list q), q_nodes = n1\<rparr> (remove1 a as) =
      queue_remove fdof (data (nodes (q_list q) a)) (queue_of q as)"
  using sched_unlink [OF ok a refl] by (auto simp: queue_of_def queue_remove_def)

lemma find_map: "find P (map f xs) = map_option f (find (P o f) xs)"
  by (induction xs) auto

lemma pick_lock_refines:
  assumes ok: "sched_ok fdof q as"
  shows "\<exists>q' as'. pick_lock fdof try_lock q = Some (find try_lock (queue_of q as), q') \<and> sched_ok fdof q' as' \<and>
    queue_of q' as' = (case find try_lock (queue_of q as) of None \<Rightarrow> queue_of q as | Some c \<Rightarrow> queue_remove fdof c (queue_of q as))"
proof -
  let ?l = "q_list q"
  note rep = sched_okD(1) [OF ok]
  have sz: "list_size ?l = length as" using rep by (simp add: rep_def)
  have bg: "list_begin ?l = hd (as @ [sentinel])" using rep_neighbours(1) [of ?l "[]" as] rep by (simp add: list_begin_def)
  have sc: "scan_list (Suc (list_size ?l)) try_lock ?l (list_begin ?l) = find (\<lambda>a. try_lock (data (nodes ?l a))) as"
    unfolding bg using scan_list_find [of ?l "[]" as "Suc (list_size ?l)"] rep sz by simp
  have fm: "find try_lock (queue_of q as) = map_option (\<lambda>a. data (nodes ?l a)) (find (\<lambda>a. try_lock (data (nodes ?l a))) as)"
    by (simp add: queue_of_def list_data_def find_map o_def)
  show ?thesis
  proof (cases "find (\<lambda>a. try_lock (data (nodes ?l a))) as")
    case None
    then have "pick_lock fdof try_lock q = Some (None, q)" using sc by (simp add: pick_lock_def)
    then show ?thesis using ok fm None by auto
  next
    case (Some a)
    then have a: "a \<in> set as" by (auto simp: find_Some_iff)
    then have "\<not> list_empty ?l" using sz by (auto simp: list_empty_def)
    with pick_unlink [OF ok a] show ?thesis using sc fm Some by (auto simp: pick_lock_def)
  qed
qed

lemma pick_nolock_refines:
  assumes ok: "sched_ok fdof q as"
  shows "\<exists>q' as'. pick_nolock fdof q = Some (find (\<lambda>_. True) (queue_of q as), q') \<and> sched_ok fdof q' as' \<and>
    queue_of q' as' = (case find (\<lambda>_. True) (queue_of q as) of None \<Rightarrow> queue_of q as | Some c \<Rightarrow> queue_remove fdof c (queue_of q as))"
proof -
  note rep = sched_okD(1) [OF ok]
  show ?thesis
  proof (cases as)
    case Nil
    then have "pick_nolock fdof q = Some (None, q)" using rep by (simp add: pick_nolock_def list_empty_def rep_def)
    then show ?thesis using ok Nil by (auto simp: queue_of_def list_data_def)
  next
    case (Cons a bs)
    have "\<not> list_empty (q_list q)" using rep Cons by (simp add: list_empty_def rep_def)
    moreover have "list_front (q_list q) = data (nodes (q_list q) a)" "list_pop_front (q_list q) = list_erase a (q_list q)"
      using rep_front [of "q_list q" a bs] pop_front_erase [of "q_list q" a bs] rep Cons by simp_all
    moreover have "find (\<lambda>_. True) (queue_of q as) = Some (data (nodes (q_list q) a))"
      by (simp add: Cons queue_of_def list_data_def)
    ultimately show ?thesis using pick_unlink [OF ok, of a] by (auto simp: pick_nolock_def Cons)
  qed
qed

section \<open>The scheduler interface\<close>

locale scheduler =
  fixes fdof :: "nat \<Rightarrow> nat"
    and ok :: "'q \<Rightarrow> bool"
    and queue :: "'q \<Rightarrow> nat list"
    and accepts :: "'q \<Rightarrow> nat \<Rightarrow> nat \<Rightarrow> bool"
    and add :: "nat \<Rightarrow> nat \<Rightarrow> 'q \<Rightarrow> (bool \<times> 'q) option"
    and pick :: "(nat \<Rightarrow> bool) \<Rightarrow> 'q \<Rightarrow> (nat option \<times> 'q) option"
    and remove :: "nat \<Rightarrow> 'q \<Rightarrow> 'q option"
  assumes queue_fds: "ok q \<Longrightarrow> distinct (map fdof (queue q))"
    and add_law: "ok q \<Longrightarrow> accepts q addr conn \<Longrightarrow>
      \<exists>q'. add addr conn q = Some (queue q = [], q') \<and> ok q' \<and> queue q' = queue_add fdof conn (queue q)"
    and pick_law: "ok q \<Longrightarrow> \<exists>q'. pick lk q = Some (find lk (queue q), q') \<and> ok q' \<and>
      queue q' = (case find lk (queue q) of None \<Rightarrow> queue q | Some c \<Rightarrow> queue_remove fdof c (queue q))"
    and remove_law: "ok q \<Longrightarrow> accepts q addr conn \<Longrightarrow>
      \<exists>q'. remove conn q = Some q' \<and> ok q' \<and> queue q' = queue_remove fdof conn (queue q)"
begin

text \<open>When no connection is locked, picking serves the queue in order until it is empty.\<close>

fun drain :: "nat \<Rightarrow> 'q \<Rightarrow> nat list option" where
  "drain 0 q = Some []"
| "drain (Suc k) q = (case pick (\<lambda>_. True) q of
     Some (Some c, q') \<Rightarrow> map_option (Cons c) (drain k q') | _ \<Rightarrow> None)"

lemma drain_in_order: "ok q \<Longrightarrow> drain (length (queue q)) q = Some (queue q)"
proof (induction "queue q" arbitrary: q)
  case Nil
  then show ?case by (metis drain.simps(1) list.size(3))
next
  case (Cons c cs)
  obtain q' where q': "pick (\<lambda>_. True) q = Some (Some c, q')" "ok q'" "queue q' = queue_remove fdof c (queue q)"
    using pick_law [OF Cons.prems, of "\<lambda>_. True"] Cons.hyps(2) by (metis find.simps(2) option.simps(5))
  have "fdof c \<notin> fdof ` set cs" using queue_fds [OF Cons.prems] Cons.hyps(2) [symmetric] by simp
  then have "filter (\<lambda>d. fdof d \<noteq> fdof c) cs = cs" by (intro filter_True ballI) (metis imageI)
  then have "queue q' = cs" using q'(3) Cons.hyps(2) [symmetric] by (simp add: queue_remove_def)
  with Cons.hyps(1) [of q'] q' show ?case by (simp add: Cons.hyps(2) [symmetric])
qed

lemma removed_not_picked:
  assumes "ok q" and "accepts q addr conn" and "remove conn q = Some q'" and "pick lk q' = Some (Some c, q'')"
  shows "fdof c \<noteq> fdof conn"
proof -
  have "ok q'" "queue q' = queue_remove fdof conn (queue q)" using remove_law [OF assms(1,2)] assms(3) by auto
  moreover have "find lk (queue q') = Some c" using pick_law [OF calculation(1), of lk] assms(4) by auto
  then have "c \<in> set (queue q')" by (auto simp: find_Some_iff)
  ultimately show ?thesis by (simp add: queue_remove_def)
qed

end

text \<open>The addresses of the nodes, read off the list itself.\<close>

fun walk :: "nat \<Rightarrow> 'a linked \<Rightarrow> nat \<Rightarrow> nat list" where
  "walk 0 l it = []"
| "walk (Suc k) l it = it # walk k l (next_node (nodes l it))"

definition addrs :: "'a linked \<Rightarrow> nat list" where
  "addrs l = walk (list_size l) l (list_begin l)"

lemma walk_rep: "rep l (us @ vs) \<Longrightarrow> walk (length vs) l (hd (vs @ [sentinel])) = vs"
proof (induction vs arbitrary: us)
  case (Cons a vs)
  then show ?case using Cons.IH [of "us @ [a]"] rep_neighbours(1) [of l "us @ [a]" vs] by simp
qed simp

lemma addrs_rep: "rep l as \<Longrightarrow> addrs l = as"
  using walk_rep [of l "[]" as] rep_neighbours(1) [of l "[]" as] by (simp add: addrs_def list_begin_def rep_def)

definition sched_inv :: "(nat \<Rightarrow> nat) \<Rightarrow> qsched \<Rightarrow> bool" where
  "sched_inv fdof q \<longleftrightarrow> sched_ok fdof q (addrs (q_list q))"

definition sched_queue :: "qsched \<Rightarrow> nat list" where
  "sched_queue q = queue_of q (addrs (q_list q))"

definition sched_accepts :: "(nat \<Rightarrow> nat) \<Rightarrow> qsched \<Rightarrow> nat \<Rightarrow> nat \<Rightarrow> bool" where
  "sched_accepts fdof q addr conn \<longleftrightarrow> fdof conn < fdmap_capacity (q_nodes q) \<and> addr \<notin> set (sentinel # addrs (q_list q))"

lemma sched_ok_inv: "sched_ok fdof q as \<Longrightarrow> sched_inv fdof q \<and> sched_queue q = queue_of q as"
  using addrs_rep [OF sched_okD(1)] by (simp add: sched_inv_def sched_queue_def)

lemma sched_queue_fds:
  assumes "sched_inv fdof q"
  shows "distinct (map fdof (sched_queue q))"
proof -
  have ok: "sched_ok fdof q (addrs (q_list q))" using assms by (simp add: sched_inv_def)
  show ?thesis using sched_okD(3) [OF ok] sched_ok_inj [OF ok]
    by (auto simp: sched_queue_def queue_of_def list_data_def distinct_map inj_on_def)
qed

interpretation qs: scheduler fdof "sched_inv fdof" sched_queue "sched_accepts fdof"
  "add_task fdof" "pick_lock fdof" "remove_task fdof" for fdof
proof unfold_locales
  fix q addr conn lk
  assume inv: "sched_inv fdof q"
  then have ok: "sched_ok fdof q (addrs (q_list q))" by (simp add: sched_inv_def)
  have sq: "sched_queue q = queue_of q (addrs (q_list q))" by (simp add: sched_queue_def)
  show "distinct (map fdof (sched_queue q))" using inv by (rule sched_queue_fds)
  show "\<exists>q'. pick_lock fdof lk q = Some (find lk (sched_queue q), q') \<and> sched_inv fdof q' \<and>
      sched_queue q' = (case find lk (sched_queue q) of None \<Rightarrow> sched_queue q | Some c \<Rightarrow> queue_remove fdof c (sched_queue q))"
    using pick_lock_refines [OF ok, of lk] sched_ok_inv unfolding sq by metis
  show "\<exists>q'. add_task fdof addr conn q = Some (sched_queue q = [], q') \<and> sched_inv fdof q' \<and>
      sched_queue q' = queue_add fdof conn (sched_queue q)" if "sched_accepts fdof q addr conn"
    using add_task_refines [OF ok, of conn addr] sched_ok_inv that unfolding sq sched_accepts_def by metis
  show "\<exists>q'. remove_task fdof conn q = Some q' \<and> sched_inv fdof q' \<and> sched_queue q' = queue_remove fdof conn (sched_queue q)"
    if "sched_accepts fdof q addr conn"
    using remove_task_refines [OF ok, of conn] sched_ok_inv that unfolding sq sched_accepts_def by metis
qed

section \<open>Threads sharing a scheduler\<close>

text \<open>Any number of threads share one queue.  \<open>held\<close> says which thread holds the lock of a connection,
  \<open>waiting\<close> which threads sleep on the condition.  Each step runs under the scheduler's mutex.\<close>

record sched_state =
  tasks :: "nat list"
  held :: "nat \<rightharpoonup> nat"
  waiting :: "nat set"

inductive sched_step :: "(nat \<Rightarrow> nat) \<Rightarrow> sched_state \<Rightarrow> sched_state \<Rightarrow> bool" for fdof where
  add: "sched_step fdof s (s\<lparr>tasks := queue_add fdof c (tasks s), waiting := (if tasks s = [] then {} else waiting s)\<rparr>)"
| pick: "t \<notin> waiting s \<Longrightarrow> find (\<lambda>c. held s c = None) (tasks s) = Some c \<Longrightarrow>
    sched_step fdof s (s\<lparr>tasks := queue_remove fdof c (tasks s), held := (held s)(c := Some t)\<rparr>)"
| wait: "t \<notin> waiting s \<Longrightarrow> find (\<lambda>c. held s c = None) (tasks s) = None \<Longrightarrow>
    sched_step fdof s (s\<lparr>waiting := insert t (waiting s)\<rparr>)"
| remove: "sched_step fdof s (s\<lparr>tasks := queue_remove fdof c (tasks s)\<rparr>)"
| lock: "held s c = None \<Longrightarrow> sched_step fdof s (s\<lparr>held := (held s)(c := Some t)\<rparr>)"
| unlock: "held s c = Some t \<Longrightarrow> sched_step fdof s (s\<lparr>held := (held s)(c := None)\<rparr>)"
| reschedule: "sched_step fdof s (s\<lparr>waiting := {}\<rparr>)"

inductive sched_reach :: "(nat \<Rightarrow> nat) \<Rightarrow> sched_state \<Rightarrow> bool" for fdof where
  start: "sched_reach fdof \<lparr>tasks = [], held = Map.empty, waiting = {}\<rparr>"
| step: "sched_reach fdof s \<Longrightarrow> sched_step fdof s s' \<Longrightarrow> sched_reach fdof s'"

inductive_cases sched_stepE: "sched_step fdof s s'"

lemma distinct_queue_remove: "distinct (map fdof xs) \<Longrightarrow> distinct (map fdof (queue_remove fdof c xs))"
  by (simp add: queue_remove_def distinct_map_filter)

lemma distinct_queue_add: "distinct (map fdof xs) \<Longrightarrow> distinct (map fdof (queue_add fdof c xs))"
  by (auto simp: queue_add_def distinct_map_filter)

lemma sched_reach_fds: "sched_reach fdof s \<Longrightarrow> distinct (map fdof (tasks s))"
proof (induction rule: sched_reach.induct)
  case (step s s')
  from step.hyps(2) step.IH show ?case
    by (cases rule: sched_step.cases) (simp_all add: distinct_queue_add distinct_queue_remove)
qed simp

section \<open>Properties\<close>

text \<open>C10: the list-and-table scheduler implements a queue with one entry per descriptor: adding a
  connection whose descriptor is queued moves it to the front, otherwise appends it and notifies exactly
  when the queue was empty; picking takes the first connection that can be locked, or waits; removing deletes
  the descriptor's entry.  Both data structures stay consistent throughout.\<close>

theorem queue_scheduler_refines_queue:
  assumes inv: "sched_inv fdof q" and acc: "sched_accepts fdof q addr conn"
  shows "(\<exists>q'. add_task fdof addr conn q = Some (sched_queue q = [], q') \<and> sched_inv fdof q' \<and>
      sched_queue q' = queue_add fdof conn (sched_queue q)) \<and>
    (\<exists>q'. pick_task suppress fdof lk q = Some (find (\<lambda>c. suppress \<or> lk c) (sched_queue q), q') \<and> sched_inv fdof q' \<and>
      sched_queue q' = (case find (\<lambda>c. suppress \<or> lk c) (sched_queue q) of
         None \<Rightarrow> sched_queue q | Some c \<Rightarrow> queue_remove fdof c (sched_queue q))) \<and>
    (\<exists>q'. remove_task fdof conn q = Some q' \<and> sched_inv fdof q' \<and> sched_queue q' = queue_remove fdof conn (sched_queue q))"
proof -
  have ok: "sched_ok fdof q (addrs (q_list q))" using inv by (simp add: sched_inv_def)
  have "\<exists>q'. pick_task suppress fdof lk q = Some (find (\<lambda>c. suppress \<or> lk c) (sched_queue q), q') \<and> sched_inv fdof q' \<and>
      sched_queue q' = (case find (\<lambda>c. suppress \<or> lk c) (sched_queue q) of
         None \<Rightarrow> sched_queue q | Some c \<Rightarrow> queue_remove fdof c (sched_queue q))"
  proof (cases suppress)
    case True
    obtain q' as' where "pick_nolock fdof q = Some (find (\<lambda>_. True) (sched_queue q), q')" "sched_ok fdof q' as'"
        "queue_of q' as' = (case find (\<lambda>_. True) (sched_queue q) of
           None \<Rightarrow> sched_queue q | Some c \<Rightarrow> queue_remove fdof c (sched_queue q))"
      using pick_nolock_refines [OF ok] unfolding sched_queue_def by blast
    with sched_ok_inv [of fdof q' as'] show ?thesis by (simp add: pick_task_def True)
  next
    case False
    then show ?thesis using qs.pick_law [OF inv, of lk] by (simp add: pick_task_def)
  qed
  with qs.add_law [OF inv acc] qs.remove_law [OF inv acc] show ?thesis by blast
qed

lemma sched_inv_new: "sched_inv fdof (QueueScheduler mem n)" "sched_queue (QueueScheduler mem n) = []"
proof -
  have "sched_ok fdof (QueueScheduler mem n) []"
    by (simp add: sched_ok_def QueueScheduler_def rep_new fdmap_new_ok)
  from sched_ok_inv [OF this] show "sched_inv fdof (QueueScheduler mem n)" "sched_queue (QueueScheduler mem n) = []"
    by (simp_all add: queue_of_def list_data_def)
qed

theorem queue_scheduler_refines_queue_witness:
  "\<exists>q'. add_task (\<lambda>c. c) 1 5 (QueueScheduler blank_nodes 10) = Some (True, q') \<and> sched_queue q' = [5]"
proof -
  have "sched_accepts (\<lambda>c. c) (QueueScheduler blank_nodes 10) 1 5"
    using addrs_rep [OF rep_new, of blank_nodes]
    by (simp add: sched_accepts_def QueueScheduler_def fdmap_new_ok sentinel_def)
  from queue_scheduler_refines_queue [OF sched_inv_new(1) this] show ?thesis
    by (auto simp: sched_inv_new(2) queue_add_def)
qed

text \<open>Picking a number of times while nothing is locked.\<close>

fun serve :: "(nat \<Rightarrow> nat) \<Rightarrow> nat \<Rightarrow> qsched \<Rightarrow> nat list option" where
  "serve fdof 0 q = Some []"
| "serve fdof (Suc k) q = (case pick_lock fdof (\<lambda>_. True) q of
     Some (Some c, q') \<Rightarrow> map_option (Cons c) (serve fdof k q') | _ \<Rightarrow> None)"

lemma serve_drain: "serve fdof k q = qs.drain fdof k q"
  by (induction k arbitrary: q) (auto split: option.splits)

text \<open>With no connection locked, repeated picking serves the queue in the order it has, every
  connection once, until it is empty.\<close>

lemma scheduler_serves_in_order:
  assumes "sched_inv fdof q"
  shows "serve fdof (length (sched_queue q)) q = Some (sched_queue q)"
  using qs.drain_in_order [OF assms] by (simp add: serve_drain)


end
