(* ===== verification/Poller.thy ===== *)
theory Poller
  imports Fd_Map
begin

text \<open>
  The poller base class of \<^verbatim>\<open>src/core/poller.{h,cc}\<close> and its Linux implementation
  \<^verbatim>\<open>src/core/poller_impl/epoll_poller.cc\<close>.  The registered descriptors are an \<open>FDMap\<close>; connections
  are any type.  \<open>epoll_ctl\<close> and \<open>epoll_wait\<close> are parameters, an error being its \<open>errno\<close>.
  Event masks are machine words.
\<close>

unbundle bit_operations_syntax

section \<open>Descriptor set\<close>

definition has_fd :: "'c fdmap \<Rightarrow> nat \<Rightarrow> bool" where
  "has_fd fds fd \<longleftrightarrow> fdmap_get fds fd \<noteq> None"

definition find_connection :: "'c fdmap \<Rightarrow> nat \<Rightarrow> 'c option" where
  "find_connection fds fd = fdmap_get fds fd"

definition add_fd_set :: "'c fdmap \<Rightarrow> nat \<Rightarrow> 'c \<Rightarrow> (bool \<times> 'c fdmap) option" where
  "add_fd_set fds fd conn = fdmap_insert fds fd conn"

definition remove_fd_set :: "'c fdmap \<Rightarrow> nat \<Rightarrow> (bool \<times> 'c fdmap) option" where
  "remove_fd_set fds fd = fdmap_erase fds fd"

text \<open>\<open>poll_ok\<close> is what the implementation's \<open>poll_add_fd\<close>, \<open>poll_change_fd\<close> or \<open>poll_remove_fd\<close> returns.
  A failed assertion of the table is \<open>None\<close>.\<close>

definition add_fd :: "bool \<Rightarrow> 'c fdmap \<Rightarrow> nat \<Rightarrow> 'c \<Rightarrow> (bool \<times> 'c fdmap) option" where
  "add_fd poll_ok fds fd conn =
    (case add_fd_set fds fd conn of
       None \<Rightarrow> None
     | Some (True, fds1) \<Rightarrow>
        if \<not> poll_ok then map_option (\<lambda>r. (False, snd r)) (remove_fd_set fds1 fd) else Some (True, fds1)
     | Some (False, fds1) \<Rightarrow> Some (False, fds1))"

definition change_fd :: "bool \<Rightarrow> 'c fdmap \<Rightarrow> nat \<Rightarrow> 'c \<Rightarrow> (bool \<times> 'c fdmap) option" where
  "change_fd poll_ok fds fd conn =
    (if fd < fdmap_capacity fds
     then if has_fd fds fd
          then if \<not> poll_ok then map_option (\<lambda>r. (False, snd r)) (remove_fd_set fds fd) else Some (True, fds)
          else Some (False, fds)
     else None)"

definition remove_fd :: "bool \<Rightarrow> 'c fdmap \<Rightarrow> nat \<Rightarrow> (bool \<times> 'c fdmap) option" where
  "remove_fd poll_ok fds fd =
    (if fd < fdmap_capacity fds
     then (case find_connection fds fd of
         None \<Rightarrow> Some (False, fds)
       | Some conn \<Rightarrow>
          (case remove_fd_set fds fd of
             None \<Rightarrow> None
           | Some (_, fds1) \<Rightarrow>
              if \<not> poll_ok then map_option (\<lambda>r. (False, snd r)) (add_fd_set fds1 fd conn) else Some (True, fds1)))
     else None)"

section \<open>Poller factory\<close>

definition register_poller :: "(string \<rightharpoonup> 'f) \<Rightarrow> string \<Rightarrow> 'f \<Rightarrow> (string \<rightharpoonup> 'f)" where
  "register_poller m name f = (if m name = None then m(name \<mapsto> f) else m)"

definition create_poller :: "(string \<rightharpoonup> (unit \<Rightarrow> 'p) option) \<Rightarrow> string \<Rightarrow> 'p option" where
  "create_poller m name = (case m name of Some (Some f) \<Rightarrow> Some (f ()) | _ \<Rightarrow> None)"

section \<open>Event masks\<close>

definition kPollerEventRead :: "16 word" where "kPollerEventRead = 1"
definition kPollerEventWrite :: "16 word" where "kPollerEventWrite = 2"
definition kPollerEventError :: "16 word" where "kPollerEventError = 4"
definition kPollerEventHup :: "16 word" where "kPollerEventHup = 8"

text \<open>The masks of \<^verbatim>\<open>sys/epoll.h\<close>.\<close>

definition EPOLLIN :: "32 word" where "EPOLLIN = 0x001"
definition EPOLLOUT :: "32 word" where "EPOLLOUT = 0x004"
definition EPOLLERR :: "32 word" where "EPOLLERR = 0x008"
definition EPOLLHUP :: "32 word" where "EPOLLHUP = 0x010"

definition build_epoll_event :: "16 word \<Rightarrow> 32 word" where
  "build_epoll_event evt =
    (let res0 = 0;
         res1 = (if evt AND kPollerEventRead \<noteq> 0 then res0 OR EPOLLIN else res0);
         res2 = (if evt AND kPollerEventWrite \<noteq> 0 then res1 OR EPOLLOUT else res1);
         res3 = (if evt AND kPollerEventError \<noteq> 0 then res2 OR EPOLLERR else res2)
     in if evt AND kPollerEventHup \<noteq> 0 then res3 OR EPOLLHUP else res3)"

definition build_poller_event :: "32 word \<Rightarrow> 16 word" where
  "build_poller_event events =
    (let e0 = 0;
         e1 = (if events AND EPOLLIN \<noteq> 0 then e0 OR kPollerEventRead else e0);
         e2 = (if events AND EPOLLOUT \<noteq> 0 then e1 OR kPollerEventWrite else e1);
         e3 = (if events AND EPOLLERR \<noteq> 0 then e2 OR kPollerEventError else e2)
     in if events AND EPOLLHUP \<noteq> 0 then e3 OR kPollerEventHup else e3)"

section \<open>epoll\<close>

datatype epoll_op = EPOLL_CTL_ADD | EPOLL_CTL_MOD | EPOLL_CTL_DEL

definition ENOENT :: int where "ENOENT = 2"
definition EINTR :: int where "EINTR = 4"
definition EEXIST :: int where "EEXIST = 17"

text \<open>\<open>epoll_ctl\<close> returns \<open>None\<close> for success and the error number otherwise.\<close>

type_synonym 'c epoll_ctl = "epoll_op \<Rightarrow> nat \<Rightarrow> (32 word \<times> 'c) option \<Rightarrow> int option"

definition poll_add_or_change :: "'c epoll_ctl \<Rightarrow> nat \<Rightarrow> 'c \<Rightarrow> 16 word \<Rightarrow> bool \<Rightarrow> bool" where
  "poll_add_or_change epoll_ctl fd conn evt change =
    (let flag = (if change then EPOLL_CTL_MOD else EPOLL_CTL_ADD)
     in case epoll_ctl flag fd (Some (build_epoll_event evt, conn)) of
          Some errno \<Rightarrow> if errno \<noteq> EEXIST then False else True
        | None \<Rightarrow> True)"

definition poll_add_fd :: "'c epoll_ctl \<Rightarrow> nat \<Rightarrow> 'c \<Rightarrow> 16 word \<Rightarrow> bool" where
  "poll_add_fd epoll_ctl fd conn evt = poll_add_or_change epoll_ctl fd conn evt False"

definition poll_change_fd :: "'c epoll_ctl \<Rightarrow> nat \<Rightarrow> 'c \<Rightarrow> 16 word \<Rightarrow> bool" where
  "poll_change_fd epoll_ctl fd conn evt = poll_add_or_change epoll_ctl fd conn evt True"

definition poll_remove_fd :: "'c epoll_ctl \<Rightarrow> nat \<Rightarrow> bool" where
  "poll_remove_fd epoll_ctl fd =
    (case epoll_ctl EPOLL_CTL_DEL fd None of
       Some errno \<Rightarrow> if errno \<noteq> ENOENT then False else True
     | None \<Rightarrow> True)"

text \<open>One round of \<open>handle_event\<close>'s endless loop.  \<open>waited\<close> is the result of \<open>epoll_wait\<close>; the handlers that
  are not installed are \<open>None\<close>.  \<open>None\<close> is the exception the loop ends with.\<close>

definition handle_event_round ::
  "('s \<Rightarrow> 's) option \<Rightarrow> ('c \<Rightarrow> 16 word \<Rightarrow> 's \<Rightarrow> 's) option \<Rightarrow> ('s \<Rightarrow> 's) option \<Rightarrow>
    int + (32 word \<times> 'c) list \<Rightarrow> 's \<Rightarrow> 's option" where
  "handle_event_round pre_handler handler post_handler waited s =
    (case waited of
       Inl errno \<Rightarrow> if errno = EINTR then Some s else None
     | Inr evts \<Rightarrow>
        let s1 = (case pre_handler of None \<Rightarrow> s | Some f \<Rightarrow> f s);
            s2 = (case handler of None \<Rightarrow> s1 | Some f \<Rightarrow> fold (\<lambda>(e, conn). f conn (build_poller_event e)) evts s1)
        in Some (case post_handler of None \<Rightarrow> s2 | Some f \<Rightarrow> f s2))"

section \<open>Properties\<close>

lemma mask_bits:
  "(evt AND kPollerEventRead \<noteq> 0) = bit evt 0" "(evt AND kPollerEventWrite \<noteq> 0) = bit evt 1"
  "(evt AND kPollerEventError \<noteq> 0) = bit evt 2" "(evt AND kPollerEventHup \<noteq> 0) = bit evt 3"
  "(ev AND EPOLLIN \<noteq> 0) = bit ev 0" "(ev AND EPOLLOUT \<noteq> 0) = bit ev 2"
  "(ev AND EPOLLERR \<noteq> 0) = bit ev 3" "(ev AND EPOLLHUP \<noteq> 0) = bit ev 4"
proof -
  have gen: "(x AND push_bit n 1 \<noteq> 0) = bit x n" if "n < LENGTH('a)" for x :: "'a::len word" and n
    using and_exp_eq_0_iff_not_bit [of x n] by (simp add: push_bit_eq_mult)
  show "(evt AND kPollerEventRead \<noteq> 0) = bit evt 0" "(evt AND kPollerEventWrite \<noteq> 0) = bit evt 1"
    "(evt AND kPollerEventError \<noteq> 0) = bit evt 2" "(evt AND kPollerEventHup \<noteq> 0) = bit evt 3"
    "(ev AND EPOLLIN \<noteq> 0) = bit ev 0" "(ev AND EPOLLOUT \<noteq> 0) = bit ev 2"
    "(ev AND EPOLLERR \<noteq> 0) = bit ev 3" "(ev AND EPOLLHUP \<noteq> 0) = bit ev 4"
    using gen [of 0 evt] gen [of 1 evt] gen [of 2 evt] gen [of 3 evt]
      gen [of 0 ev] gen [of 2 ev] gen [of 3 ev] gen [of 4 ev]
    by (simp_all add: kPollerEventRead_def kPollerEventWrite_def kPollerEventError_def kPollerEventHup_def
        EPOLLIN_def EPOLLOUT_def EPOLLERR_def EPOLLHUP_def)
qed

lemma build_epoll_event_bits:
  "bit (build_epoll_event evt) 0 = bit evt 0" "bit (build_epoll_event evt) 2 = bit evt 1"
  "bit (build_epoll_event evt) 3 = bit evt 2" "bit (build_epoll_event evt) 4 = bit evt 3"
  unfolding build_epoll_event_def Let_def mask_bits
  by (auto simp: EPOLLIN_def EPOLLOUT_def EPOLLERR_def EPOLLHUP_def bit_simps)

text \<open>Translating a poller event to an epoll mask and back gives the event, restricted to the four
  flags the poller knows.\<close>

lemma event_mask_roundtrip: "build_poller_event (build_epoll_event evt) = evt AND 15"
proof -
  have "build_poller_event (build_epoll_event evt) =
      (if bit evt 0 then 1 else 0) OR (if bit evt 1 then 2 else 0) OR (if bit evt 2 then 4 else 0) OR (if bit evt 3 then 8 else 0)"
    unfolding build_poller_event_def Let_def mask_bits build_epoll_event_bits
    by (simp add: kPollerEventRead_def kPollerEventWrite_def kPollerEventError_def kPollerEventHup_def)
  also have "\<dots> = take_bit 4 evt"
    by (rule bit_eqI) (auto simp: bit_simps numeral_eq_Suc less_Suc_eq)
  also have "\<dots> = evt AND 15" by (simp add: take_bit_eq_mask mask_eq_exp_minus_1)
  finally show ?thesis .
qed

text \<open>C14: the descriptor set stays in step with the kernel: adding, changing and removing report success
  exactly when the descriptor was in the right state and the kernel call succeeded, a failed \<open>add\<close>
  registers nothing, a failed \<open>remove\<close> leaves the registration in place, and a failed \<open>change\<close>
  drops the descriptor.\<close>

theorem poller_fd_set_atomic:
  assumes ok: "fdmap_ok fds" and fd: "fd < fdmap_capacity fds"
  shows "(\<exists>f. add_fd p fds fd conn = Some (p \<and> \<not> has_fd fds fd, f) \<and> fdmap_ok f \<and>
      fdmap_get f = (if p \<and> \<not> has_fd fds fd then (fdmap_get fds)(fd := Some conn) else fdmap_get fds)) \<and>
    (\<exists>f. change_fd p fds fd conn = Some (p \<and> has_fd fds fd, f) \<and> fdmap_ok f \<and>
      fdmap_get f = (if p then fdmap_get fds else (fdmap_get fds)(fd := None))) \<and>
    (\<exists>f. remove_fd p fds fd = Some (p \<and> has_fd fds fd, f) \<and> fdmap_ok f \<and>
      fdmap_get f = (if p then (fdmap_get fds)(fd := None) else fdmap_get fds))"
proof -
  obtain m1 where ins: "fdmap_insert fds fd conn = Some (fdmap_get fds fd = None, m1)" "fdmap_ok m1"
      "fdmap_capacity m1 = fdmap_capacity fds"
      "fdmap_get m1 = (if fdmap_get fds fd = None then (fdmap_get fds)(fd := Some conn) else fdmap_get fds)"
    using fdm.insert_in [OF ok fd] by blast
  obtain m2 where er: "fdmap_erase fds fd = Some (fdmap_get fds fd \<noteq> None, m2)" "fdmap_ok m2"
      "fdmap_capacity m2 = fdmap_capacity fds" "fdmap_get m2 = (fdmap_get fds)(fd := None)"
    using fdm.erase_in [OF ok fd] by blast
  obtain m3 where er1: "fdmap_erase m1 fd = Some (fdmap_get m1 fd \<noteq> None, m3)" "fdmap_ok m3"
      "fdmap_get m3 = (fdmap_get m1)(fd := None)"
    using fdm.erase_in [OF ins(2)] fd ins(3) by metis
  have re: "\<exists>m4. fdmap_insert m2 fd c = Some (True, m4) \<and> fdmap_ok m4 \<and> fdmap_get m4 = (fdmap_get fds)(fd := Some c)" for c
    using fdm.insert_in [OF er(2), of fd c] fd er(3,4) by auto
  have add: "\<exists>f. add_fd p fds fd conn = Some (p \<and> \<not> has_fd fds fd, f) \<and> fdmap_ok f \<and>
      fdmap_get f = (if p \<and> \<not> has_fd fds fd then (fdmap_get fds)(fd := Some conn) else fdmap_get fds)"
    using ins er1 by (cases "fdmap_get fds fd = None"; cases p)
      (auto simp: add_fd_def add_fd_set_def remove_fd_set_def has_fd_def fun_upd_idem)
  have chg: "\<exists>f. change_fd p fds fd conn = Some (p \<and> has_fd fds fd, f) \<and> fdmap_ok f \<and>
      fdmap_get f = (if p then fdmap_get fds else (fdmap_get fds)(fd := None))"
    using er ok fd by (cases "fdmap_get fds fd = None"; cases p)
      (auto simp: change_fd_def remove_fd_set_def has_fd_def fun_upd_idem)
  have "\<exists>f. remove_fd p fds fd = Some (p \<and> has_fd fds fd, f) \<and> fdmap_ok f \<and>
      fdmap_get f = (if p then (fdmap_get fds)(fd := None) else fdmap_get fds)"
  proof (cases "fdmap_get fds fd")
    case None
    then show ?thesis using ok fd by (auto simp: remove_fd_def find_connection_def has_fd_def fun_upd_idem)
  next
    case (Some c)
    then show ?thesis using er fd re [of c]
      by (cases p) (auto simp: remove_fd_def find_connection_def has_fd_def remove_fd_set_def add_fd_set_def fun_upd_idem)
  qed
  with add chg show ?thesis by blast
qed

theorem poller_fd_set_atomic_witness:
  "\<exists>f. add_fd True (FDMap_new 8) 3 ''conn'' = Some (True, f) \<and> fdmap_get f = [3 \<mapsto> ''conn'']"
  using poller_fd_set_atomic [OF fdmap_new_ok(1), of 3 8 True "''conn''"] by (auto simp: fdmap_new_ok has_fd_def)

end
