(* ===== verification/Timer.thy ===== *)
theory Timer
  imports Prelude
begin

text \<open>
  The timer of \<^verbatim>\<open>src/core/timer.{h,cc}\<close>: a \<open>std::map\<close> from \<open>(unit, context)\<close> to callbacks, held as
  an association list in key order.  A callback may change the rest of the program and the timer
  itself, so invoking one is a parameter that maps both.  \<open>process_callbacks\<close> walks the map with an iterator
  while callbacks run; using an iterator whose element was erased is the value \<open>None\<close>.
\<close>

section \<open>Keys\<close>

datatype timer_key = TimerKey (key_unit: int) (key_ctx: int)

text \<open>\<open>operator<\<close> of the keys.\<close>

definition key_less :: "timer_key \<Rightarrow> timer_key \<Rightarrow> bool" where
  "key_less a b \<longleftrightarrow> key_unit a < key_unit b \<or> (key_unit a = key_unit b \<and> key_ctx a < key_ctx b)"

instantiation timer_key :: linorder
begin

definition less_timer_key :: "timer_key \<Rightarrow> timer_key \<Rightarrow> bool" where
  "less_timer_key a b \<longleftrightarrow> key_less a b"

definition less_eq_timer_key :: "timer_key \<Rightarrow> timer_key \<Rightarrow> bool" where
  "less_eq_timer_key a b \<longleftrightarrow> a < b \<or> a = b"

instance
proof
  fix x y z :: timer_key
  show "x < y \<longleftrightarrow> x \<le> y \<and> \<not> y \<le> x"
    by (auto simp: less_eq_timer_key_def less_timer_key_def key_less_def)
  show "x \<le> x" by (simp add: less_eq_timer_key_def)
  show "x \<le> y \<Longrightarrow> y \<le> z \<Longrightarrow> x \<le> z" by (auto simp: less_eq_timer_key_def less_timer_key_def key_less_def)
  show "x \<le> y \<Longrightarrow> y \<le> x \<Longrightarrow> x = y" by (auto simp: less_eq_timer_key_def less_timer_key_def key_less_def)
  show "x \<le> y \<or> y \<le> x" by (cases x; cases y) (auto simp: less_eq_timer_key_def less_timer_key_def key_less_def)
qed

end

type_synonym 'c timer_tree = "(timer_key \<times> 'c) list"

section \<open>Operations\<close>

definition kUnitGran :: int where "kUnitGran = 2"

definition timer_unit_from_time :: "int \<Rightarrow> int" where
  "timer_unit_from_time t = t sdiv kUnitGran"

text \<open>\<open>std::map::insert\<close> keeps an existing entry.\<close>

fun map_insert :: "timer_key \<Rightarrow> 'c \<Rightarrow> 'c timer_tree \<Rightarrow> 'c timer_tree" where
  "map_insert k c [] = [(k, c)]"
| "map_insert k c ((k', c') # t) =
    (if k < k' then (k, c) # (k', c') # t else if k = k' then (k', c') # t else (k', c') # map_insert k c t)"

definition map_erase :: "timer_key \<Rightarrow> 'c timer_tree \<Rightarrow> 'c timer_tree" where
  "map_erase k t = filter (\<lambda>e. fst e \<noteq> k) t"

definition timer_set :: "int \<Rightarrow> int \<Rightarrow> 'c \<Rightarrow> 'c timer_tree \<Rightarrow> bool \<times> 'c timer_tree" where
  "timer_set u ctx c t =
    (let k = TimerKey u ctx in if map_of t k \<noteq> None then (False, t) else (True, map_insert k c t))"

definition timer_replace :: "int \<Rightarrow> int \<Rightarrow> 'c \<Rightarrow> 'c timer_tree \<Rightarrow> 'c timer_tree" where
  "timer_replace u ctx c t = map_insert (TimerKey u ctx) c t"

definition timer_remove :: "int \<Rightarrow> int \<Rightarrow> 'c timer_tree \<Rightarrow> bool \<times> 'c timer_tree" where
  "timer_remove u ctx t =
    (let k = TimerKey u ctx in if map_of t k = None then (False, t) else (True, map_erase k t))"

definition timer_query :: "int \<Rightarrow> int \<Rightarrow> 'c timer_tree \<Rightarrow> 'c option" where
  "timer_query u ctx t = map_of t (TimerKey u ctx)"

text \<open>\<open>++it\<close>: the first entry behind key \<open>k\<close>.\<close>

fun next_key :: "timer_key \<Rightarrow> 'c timer_tree \<Rightarrow> timer_key option" where
  "next_key k [] = None"
| "next_key k ((k', c) # t) = (if k < k' then Some k' else next_key k t)"

definition first_key :: "'c timer_tree \<Rightarrow> timer_key option" where
  "first_key t = (case t of [] \<Rightarrow> None | (k, c) # t' \<Rightarrow> Some k)"

type_synonym ('c, 's) invoke = "'c \<Rightarrow> int \<Rightarrow> 's \<times> 'c timer_tree \<Rightarrow> bool \<times> 's \<times> 'c timer_tree"

partial_function (option) process_loop ::
  "('c, 's) invoke \<Rightarrow> int \<Rightarrow> timer_key option \<Rightarrow> 's \<times> 'c timer_tree \<Rightarrow> timer_key list \<Rightarrow>
    (timer_key list \<times> 's \<times> 'c timer_tree) option" where
  "process_loop invoke cur it st garbage =
    (case it of
       None \<Rightarrow> Some (garbage, st)
     | Some k \<Rightarrow>
        if key_unit k > cur then Some (garbage, st)
        else (case map_of (snd st) k of
            None \<Rightarrow> None
          | Some c \<Rightarrow>
             let (del, st') = invoke c (key_ctx k) st
             in if map_of (snd st') k = None then None
                else process_loop invoke cur (next_key k (snd st')) st' (if del then garbage @ [k] else garbage)))"

fun erase_all :: "timer_key list \<Rightarrow> 'c timer_tree \<Rightarrow> 'c timer_tree option" where
  "erase_all [] t = Some t"
| "erase_all (k # ks) t = (if map_of t k = None then None else erase_all ks (map_erase k t))"

definition process_callbacks ::
  "('c, 's) invoke \<Rightarrow> int \<Rightarrow> 's \<times> 'c timer_tree \<Rightarrow> ('s \<times> 'c timer_tree) option" where
  "process_callbacks invoke now st =
    (case process_loop invoke (timer_unit_from_time now) (first_key (snd st)) st [] of
       None \<Rightarrow> None
     | Some (garbage, s, t) \<Rightarrow> (case erase_all garbage t of None \<Rightarrow> None | Some t' \<Rightarrow> Some (s, t')))"

section \<open>The tree is a map in key order\<close>

definition tree_ok :: "'c timer_tree \<Rightarrow> bool" where
  "tree_ok t \<longleftrightarrow> sorted_wrt (\<lambda>a b. fst a < fst b) t"

lemma tree_ok_Cons: "tree_ok ((k, c) # t) \<longleftrightarrow> tree_ok t \<and> (\<forall>e \<in> set t. k < fst e)"
  by (auto simp: tree_ok_def)

lemma map_insert_keys: "e \<in> set (map_insert k c t) \<Longrightarrow> e = (k, c) \<or> e \<in> set t"
  by (induction k c t rule: map_insert.induct) (auto split: if_splits)

lemma map_insert_ok: "tree_ok t \<Longrightarrow> tree_ok (map_insert k c t)"
proof (induction k c t rule: map_insert.induct)
  case (2 k c k' c' t)
  have t: "tree_ok t" "\<forall>e \<in> set t. k' < fst e" using "2.prems" by (simp_all add: tree_ok_Cons)
  consider "k < k'" | "k = k'" | "k' < k" by fastforce
  then show ?case
  proof cases
    case 1
    then show ?thesis using t by (auto simp: tree_ok_Cons dest: order.strict_trans)
  next
    case 3
    then have "tree_ok (map_insert k c t)" using "2.IH" t by auto
    moreover have "\<forall>e \<in> set (map_insert k c t). k' < fst e" using t 3 by (auto dest: map_insert_keys)
    ultimately show ?thesis using 3 less_not_sym [OF 3] by (auto simp: tree_ok_Cons)
  qed (use "2.prems" in simp)
qed (simp add: tree_ok_def)

lemma map_of_below: "\<forall>e \<in> set (t :: 'c timer_tree). k < fst e \<Longrightarrow> map_of t k = None"
  by (induction t) auto

lemma map_of_map_insert:
  "tree_ok t \<Longrightarrow> map_of (map_insert k c t) = (if map_of t k = None then (map_of t)(k := Some c) else map_of t)"
proof (induction k c t rule: map_insert.induct)
  case (2 k c k' c' t)
  have t: "tree_ok t" "\<forall>e \<in> set t. k' < fst e" using "2.prems" by (simp_all add: tree_ok_Cons)
  have "map_of t k = None" if "k < k'" using t(2) that
    by (intro map_of_below) (auto dest: order.strict_trans)
  then show ?case using "2.IH" t by (auto simp: fun_eq_iff)
qed auto

lemma map_erase_ok: "tree_ok t \<Longrightarrow> tree_ok (map_erase k t)"
  by (simp add: tree_ok_def map_erase_def sorted_wrt_filter)

lemma map_of_map_erase: "map_of (map_erase k t) = (map_of t)(k := None)"
  by (induction t) (auto simp: map_erase_def fun_eq_iff)

section \<open>Walking the due entries\<close>

text \<open>The reference: run the callbacks of a list of entries in order, collecting the keys whose callback
  asks for removal.\<close>

fun run_due :: "('c, 's) invoke \<Rightarrow> 'c timer_tree \<Rightarrow> 's \<Rightarrow> 'c timer_tree \<Rightarrow> timer_key list \<times> 's" where
  "run_due invoke t s [] = ([], s)"
| "run_due invoke t s ((k, c) # es) =
    (let (del, s1, _) = invoke c (key_ctx k) (s, t); (g, s2) = run_due invoke t s1 es
     in (if del then k # g else g, s2))"

definition untouched :: "('c, 's) invoke \<Rightarrow> bool" where
  "untouched invoke \<longleftrightarrow> (\<forall>c x st. snd (snd (invoke c x st)) = snd st)"

definition due :: "int \<Rightarrow> timer_key \<times> 'c \<Rightarrow> bool" where
  "due cur e \<longleftrightarrow> key_unit (fst e) \<le> cur"

lemma map_of_middle: "tree_ok (us @ (k, c) # vs) \<Longrightarrow> map_of (us @ (k, c) # vs) k = Some c"
  by (induction us) (auto simp: tree_ok_def)

lemma next_key_above: "\<forall>e \<in> set (vs :: 'c timer_tree). k < fst e \<Longrightarrow> next_key k vs = first_key vs"
  by (cases vs) (auto simp: first_key_def)

lemma next_key_middle: "tree_ok (us @ (k, c) # vs) \<Longrightarrow> next_key k (us @ (k, c) # vs) = first_key vs"
proof (induction us)
  case Nil
  then show ?case by (simp add: tree_ok_Cons next_key_above)
next
  case (Cons u us)
  then show ?case by (cases u) (auto simp: tree_ok_def)
qed

lemma process_loop_runs:
  "untouched invoke \<Longrightarrow> tree_ok (us @ vs) \<Longrightarrow>
    process_loop invoke cur (first_key vs) (s, us @ vs) g =
      (let (g', s') = run_due invoke (us @ vs) s (takeWhile (due cur) vs) in Some (g @ g', s', us @ vs))"
proof (induction vs arbitrary: us s g)
  case Nil
  then show ?case by (subst process_loop.simps) (simp add: first_key_def)
next
  case (Cons e vs)
  obtain k c where e: "e = (k, c)" by (cases e)
  let ?t = "us @ (k, c) # vs"
  note ok = Cons.prems(2) [unfolded e]
  show ?case
  proof (cases "due cur e")
    case False
    then show ?thesis by (subst process_loop.simps) (simp add: e first_key_def due_def)
  next
    case True
    obtain del s1 t1 where inv: "invoke c (key_ctx k) (s, ?t) = (del, s1, t1)" by (rule prod_cases3)
    have t1: "t1 = ?t" using Cons.prems(1) inv by (metis untouched_def snd_conv)
    have "process_loop invoke cur (first_key (e # vs)) (s, ?t) g =
        process_loop invoke cur (first_key vs) (s1, ?t) (if del then g @ [k] else g)"
      using True inv map_of_middle [OF ok] next_key_middle [OF ok]
      by (subst process_loop.simps) (simp add: e first_key_def due_def t1)
    also have "\<dots> = (let (g', s') = run_due invoke ?t s1 (takeWhile (due cur) vs) in
        Some ((if del then g @ [k] else g) @ g', s', ?t))"
      using Cons.IH [of "us @ [(k, c)]"] Cons.prems(1) ok by simp
    finally show ?thesis using True inv by (auto simp: e t1 Let_def split: prod.splits)
  qed
qed

lemma run_due_keys: "run_due invoke t s es = (g, s') \<Longrightarrow> set g \<subseteq> fst ` set es \<and> (distinct (map fst es) \<longrightarrow> distinct g)"
proof (induction es arbitrary: s g s')
  case (Cons e es)
  then show ?case by (cases e) (fastforce split: prod.splits if_splits)
qed simp

lemma tree_ok_distinct: "tree_ok t \<Longrightarrow> distinct (map fst t)"
  by (induction t) (auto simp: tree_ok_def)

lemma erase_all_filter:
  "distinct ks \<Longrightarrow> set ks \<subseteq> fst ` set t \<Longrightarrow> erase_all ks t = Some (filter (\<lambda>e. fst e \<notin> set ks) t)"
proof (induction ks arbitrary: t)
  case (Cons k ks)
  have "map_of t k \<noteq> None" using Cons.prems by (auto simp: map_of_eq_None_iff)
  moreover have "set ks \<subseteq> fst ` set (map_erase k t)" using Cons.prems by (fastforce simp: map_erase_def)
  ultimately show ?case using Cons by (auto simp: map_erase_def conj_commute)
qed simp

lemma takeWhile_due: "tree_ok t \<Longrightarrow> takeWhile (due cur) t = filter (due cur) t"
proof (induction t)
  case (Cons e t)
  then show ?case
    by (cases e) (auto simp: tree_ok_Cons due_def less_timer_key_def key_less_def intro!: filter_False [symmetric] split: if_splits)
qed simp

lemma process_callbacks_runs:
  assumes p: "untouched invoke" and ok: "tree_ok t"
    and r: "run_due invoke t s (filter (due (timer_unit_from_time now)) t) = (g, s')"
  shows "process_callbacks invoke now (s, t) = Some (s', filter (\<lambda>e. fst e \<notin> set g) t)"
proof -
  have "distinct (map fst (filter (due (timer_unit_from_time now)) t))"
    using tree_ok_distinct [OF ok] by (simp add: distinct_map_filter)
  then have "distinct g" "set g \<subseteq> fst ` set t" using run_due_keys [OF r] by auto
  note er = erase_all_filter [OF this]
  show ?thesis using process_loop_runs [OF p, of "[]" t] ok r er
    by (simp add: process_callbacks_def takeWhile_due)
qed

section \<open>Properties\<close>

text \<open>C21: \<open>set\<close> schedules a callback exactly when none is scheduled for the same time and context,
  \<open>remove\<close> deletes exactly that entry and reports whether there was one, \<open>query\<close> finds what was set, and
  the tree stays in key order.\<close>

theorem timer_is_ordered_map:
  assumes "tree_ok t"
  shows "(case timer_set u x c t of (r, t') \<Rightarrow> tree_ok t' \<and> r = (timer_query u x t = None) \<and>
      map_of t' = (if r then (map_of t)(TimerKey u x := Some c) else map_of t)) \<and>
    (case timer_remove u x t of (r, t') \<Rightarrow> tree_ok t' \<and> r = (timer_query u x t \<noteq> None) \<and>
      map_of t' = (map_of t)(TimerKey u x := None))"
  using assms map_insert_ok [OF assms] map_of_map_insert [OF assms] map_erase_ok [OF assms]
  by (auto simp: timer_set_def timer_remove_def timer_query_def map_of_map_erase Let_def fun_upd_idem)

theorem timer_is_ordered_map_witness:
  "timer_query 5 1 (snd (timer_set 5 1 ''idle'' [(TimerKey 3 9, ''a''), (TimerKey 8 0, ''b'')])) = Some ''idle''"
proof -
  have "tree_ok [(TimerKey 3 9, ''a''), (TimerKey 8 0, ''b'')]" by (simp add: tree_ok_def less_timer_key_def key_less_def)
  from timer_is_ordered_map [OF this, of 5 1 "''idle''"] show ?thesis
    by (simp add: timer_query_def split: prod.splits)
qed

text \<open>C13: \<open>process_callbacks\<close> ends, invokes the callbacks of exactly the entries whose time has come, once
  each and in key order, and afterwards removes exactly those whose callback returned true; for callbacks
  that leave the timer itself alone.\<close>

theorem process_callbacks_due:
  assumes "untouched invoke" and "tree_ok t"
    and "run_due invoke t s (filter (due (timer_unit_from_time now)) t) = (g, s')"
  shows "process_callbacks invoke now (s, t) = Some (s', filter (\<lambda>e. fst e \<notin> set g) t)"
  using assms by (rule process_callbacks_runs)

definition log_invoke :: "(string, string list) invoke" where
  "log_invoke c x st = (c = ''once'', fst st @ [c], snd st)"

theorem process_callbacks_due_witness:
  "process_callbacks log_invoke 10 ([], [(TimerKey 3 1, ''once''), (TimerKey 5 0, ''keep''), (TimerKey 6 0, ''later'')]) =
    Some ([''once'', ''keep''], [(TimerKey 5 0, ''keep''), (TimerKey 6 0, ''later'')])"
proof -
  let ?t = "[(TimerKey 3 1, ''once''), (TimerKey 5 0, ''keep''), (TimerKey 6 0, ''later'')]"
  have "untouched log_invoke" by (simp add: untouched_def log_invoke_def)
  moreover have "tree_ok ?t" by (simp add: tree_ok_def less_timer_key_def key_less_def)
  moreover have "run_due log_invoke ?t [] (filter (due (timer_unit_from_time 10)) ?t) = ([TimerKey 3 1], [''once'', ''keep''])"
    by (simp add: due_def timer_unit_from_time_def kUnitGran_def sdiv_nonneg log_invoke_def)
  ultimately show ?thesis using process_callbacks_due [of log_invoke ?t "[]" 10] by simp
qed

text \<open>\<open>replace\<close> does not replace: scheduling again under the same time and context leaves the
  callback that was there.\<close>

lemma timer_replace_keeps_old:
  assumes "tree_ok t" and "timer_query u x t = Some c"
  shows "timer_query u x (timer_replace u x d t) = Some c"
  using assms by (simp add: timer_query_def timer_replace_def map_of_map_insert)

text \<open>A callback that removes the timer entry it was invoked for invalidates the iterator
  \<open>process_callbacks\<close> holds: the walk then advances an erased iterator.\<close>

lemma self_removing_callback_breaks_walk:
  assumes "key_unit k \<le> timer_unit_from_time now"
    and "invoke c (key_ctx k) (s, (k, c) # t) = (del, s', t')" and "map_of t' k = None"
  shows "process_callbacks invoke now (s, (k, c) # t) = None"
  using assms by (simp add: process_callbacks_def first_key_def process_loop.simps)

definition self_removing :: "(unit, unit) invoke" where
  "self_removing c x st = (False, (), snd (timer_remove 1 x (snd st)))"

end
