(* ===== verification/Buffer_World.thy ===== *)
theory Buffer_World
  imports Buffer
begin

text \<open>
  Copy-on-write as value semantics.  A program state is the list of all live \<open>Buffer\<close>
  objects with the store they share; \<open>exec\<close> runs one method of \<^verbatim>\<open>src/core/buffer.cc\<close> on
  buffers of the list.  The specification \<open>spec_op\<close> works on plain byte strings, one per
  buffer, that never interfere.  \<open>exec\<close> refines \<open>spec_op\<close> as long as the buffer written
  to is a borrower or the only owner of its pages; the last section shows what happens when
  the original of a copy is written to.
\<close>

section \<open>Programs over buffers\<close>

type_synonym buf_world = "buffer list \<times> buf_heap"

datatype buf_op =
    New
  | Copy nat
  | Assign nat nat
  | Append nat "byte list"
  | Append_Buffer nat nat
  | Pop nat nat
  | Destroy nat

fun exec :: "buf_op \<Rightarrow> buf_world \<Rightarrow> buf_world option" where
  "exec New (bs, h) = (let (b, h') = Buffer_new h in Some (bs @ [b], h'))"
| "exec (Copy i) (bs, h) = (let (b, h') = Buffer_copy h (bs ! i) in Some (bs @ [b], h'))"
| "exec (Assign i j) (bs, h) = (let (b, h') = Buffer_assign h (bs ! i) (bs ! j) in Some (bs[i := b], h'))"
| "exec (Append i s) (bs, h) = (let (_, b, h') = append_data h (bs ! i) s in Some (bs[i := b], h'))"
| "exec (Append_Buffer i j) (bs, h) =
     (case append_buffer h (bs ! i) (bs ! j) of None \<Rightarrow> None | Some (_, b, h') \<Rightarrow> Some (bs[i := b], h'))"
| "exec (Pop i k) (bs, h) = (let (_, b, h') = pop h (bs ! i) k in Some (bs[i := b], h'))"
| "exec (Destroy i) (bs, h) = Some (take i bs @ drop (Suc i) bs, Buffer_destroy h (bs ! i))"

fun spec_op :: "buf_op \<Rightarrow> byte list list \<Rightarrow> byte list list" where
  "spec_op New xs = xs @ [[]]"
| "spec_op (Copy i) xs = xs @ [xs ! i]"
| "spec_op (Assign i j) xs = xs[i := xs ! j]"
| "spec_op (Append i s) xs = xs[i := xs ! i @ s]"
| "spec_op (Append_Buffer i j) xs = xs[i := xs ! i @ xs ! j]"
| "spec_op (Pop i k) xs = (if k \<le> length (xs ! i) then xs[i := drop k (xs ! i)] else xs)"
| "spec_op (Destroy i) xs = take i xs @ drop (Suc i) xs"

definition world_ok :: "buf_world \<Rightarrow> bool" where
  "world_ok w = (case w of (bs, h) \<Rightarrow> heap_ok h \<and> (\<forall>b \<in> set bs. buf_ok h b) \<and> refs_ok h bs)"

definition writer_ok :: "buf_world \<Rightarrow> nat \<Rightarrow> bool" where
  "writer_ok w i = (case w of (bs, h) \<Rightarrow>
     i < length bs \<and> (borrowed (bs ! i) \<or> use_count h (cow_ref (bs ! i)) = 1))"

fun allowed :: "buf_op \<Rightarrow> buf_world \<Rightarrow> bool" where
  "allowed New w = True"
| "allowed (Copy i) w = (i < length (fst w))"
| "allowed (Assign i j) w = (i < length (fst w) \<and> j < length (fst w))"
| "allowed (Append i s) w = writer_ok w i"
| "allowed (Append_Buffer i j) w = (writer_ok w i \<and> j < length (fst w) \<and> i \<noteq> j)"
| "allowed (Pop i k) w = (writer_ok w i \<and> in_int_range (fst w ! i))"
| "allowed (Destroy i) w = (i < length (fst w))"

fun exec_all :: "buf_op list \<Rightarrow> buf_world \<Rightarrow> buf_world option" where
  "exec_all [] w = Some w"
| "exec_all (x # xs) w = (case exec x w of None \<Rightarrow> None | Some w' \<Rightarrow> exec_all xs w')"

fun spec_all :: "buf_op list \<Rightarrow> byte list list \<Rightarrow> byte list list" where
  "spec_all [] xs = xs"
| "spec_all (p # ps) xs = spec_all ps (spec_op p xs)"

fun allowed_all :: "buf_op list \<Rightarrow> buf_world \<Rightarrow> bool" where
  "allowed_all [] w = True"
| "allowed_all (x # xs) w = (allowed x w \<and> (case exec x w of None \<Rightarrow> True | Some w' \<Rightarrow> allowed_all xs w'))"

definition buf_values :: "buf_world \<Rightarrow> byte list list" where
  "buf_values w = (case w of (bs, h) \<Rightarrow> map (contents h) bs)"

section \<open>Writing one buffer leaves the others alone\<close>

lemma count_list_two:
  "i < length xs \<Longrightarrow> j < length xs \<Longrightarrow> i \<noteq> j \<Longrightarrow> xs ! i = c \<Longrightarrow> xs ! j = c \<Longrightarrow> 2 \<le> count_list xs c"
proof (induction xs arbitrary: i j)
  case (Cons x xs)
  have one: "k < length xs \<Longrightarrow> xs ! k = c \<Longrightarrow> 0 < count_list xs c" for k
    using count_list_0_iff by (metis nth_mem gr0I)
  show ?case
  proof (cases i; cases j)
    fix i' j' assume "i = Suc i'" "j = Suc j'"
    with Cons.IH [of i' j'] Cons.prems show ?thesis by simp
  qed (use Cons.prems one in \<open>auto simp: Suc_le_eq\<close>)
qed simp

lemma writer_separate:
  assumes ok: "world_ok (bs, h)" and w: "writer_ok (bs, h) i" and j: "j < length bs" "j \<noteq> i"
  shows "separate h (bs ! i) (bs ! j)"
proof (cases "cow_ref (bs ! j) = cow_ref (bs ! i)")
  case True
  have "use_count h (cow_ref (bs ! i)) = count_list (map cow_ref bs) (cow_ref (bs ! i))"
    using ok by (simp add: world_ok_def refs_ok_def)
  also have "\<dots> \<ge> 2"
    using w j True by (intro count_list_two [of i _ j]) (auto simp: writer_ok_def)
  finally show ?thesis using w by (auto simp: separate_def need_copy_for_write_def writer_ok_def)
next
  case False
  then show ?thesis by (simp add: separate_def)
qed

lemma op_spec_world:
  assumes ok: "world_ok (bs, h)" and w: "writer_ok (bs, h) i" and sp: "op_spec h (bs ! i) h' b' xs"
  shows "world_ok (bs[i := b'], h') \<and> buf_values (bs[i := b'], h') = (buf_values (bs, h))[i := xs]"
proof -
  have i: "i < length bs" using w by (simp add: writer_ok_def)
  have other: "preserved h h' (bs ! j)" if "j < length bs" "j \<noteq> i" for j
    using op_specD(4) [OF sp] writer_separate [OF ok w that] ok that by (simp add: world_ok_def)
  have "refs_ok h' (bs[i := b'])"
    using sp ok i by (auto simp: op_spec_def keeps_refs_def world_ok_def)
  moreover have "\<forall>b \<in> set (bs[i := b']). buf_ok h' b"
    using other op_specD(2) [OF sp] i by (auto simp: set_conv_nth nth_list_update preserved_def)
  moreover have "map (contents h') (bs[i := b']) = (map (contents h) bs)[i := xs]"
    using other op_specD(3) [OF sp] i
    by - (rule nth_equalityI; auto simp: nth_list_update dest: preserved_contents)
  ultimately show ?thesis using op_specD(1) [OF sp] by (simp add: world_ok_def buf_values_def)
qed

text \<open>After a write the written buffer is the only owner of its pages, and the other writers stay writers.\<close>

lemma count_list_one:
  assumes "i < length xs" and "xs ! i = c" and "\<And>j. j < length xs \<Longrightarrow> j \<noteq> i \<Longrightarrow> xs ! j \<noteq> c"
  shows "count_list xs c = 1"
proof -
  have "count_list (xs[i := c]) c = 1 + count_list (take i xs @ drop (Suc i) xs) c"
    using assms(1) by (simp add: upd_conv_take_nth_drop)
  moreover have "c \<notin> set (take i xs @ drop (Suc i) xs)"
    using assms(1,3) by (auto simp: in_set_conv_nth)
  ultimately show ?thesis using assms(2) count_list_0_iff by (metis add.right_neutral list_update_id)
qed

lemma op_spec_writer:
  assumes ok: "world_ok (bs, h)" and w: "writer_ok (bs, h) i" and sp: "op_spec h (bs ! i) h' b' xs"
  shows "writer_ok (bs[i := b'], h') i"
proof -
  have i: "i < length bs" using w by (simp add: writer_ok_def)
  have ne: "cow_ref (bs ! j) \<noteq> cow_ref b'" if "j < length bs" "j \<noteq> i" for j
    using op_specD(4) [OF sp] writer_separate [OF ok w that] ok that by (simp add: world_ok_def)
  have "count_list (map cow_ref (bs[i := b'])) (cow_ref b') = 1"
    using i ne by (intro count_list_one [of i]) (auto simp: nth_list_update)
  moreover have "world_ok (bs[i := b'], h')" using op_spec_world [OF ok w sp] by simp
  ultimately show ?thesis using i by (simp add: writer_ok_def world_ok_def refs_ok_def)
qed

lemma op_spec_other_writer:
  assumes ok: "world_ok (bs, h)" and w: "writer_ok (bs, h) i" and sp: "op_spec h (bs ! i) h' b' xs"
    and j: "writer_ok (bs, h) j"
  shows "writer_ok (bs[i := b'], h') j"
proof (cases "j = i \<or> borrowed (bs ! j)")
  case True
  then show ?thesis using op_spec_writer [OF ok w sp] j by (auto simp: writer_ok_def nth_list_update)
next
  case False
  have ij: "i < length bs" "j < length bs" using w j by (simp_all add: writer_ok_def)
  have "cow_ref (bs ! j) \<noteq> cow_ref b'"
    using op_specD(4) [OF sp] writer_separate [OF ok w ij(2)] ok ij(2) False by (simp add: world_ok_def)
  moreover have "count_list (map cow_ref bs) (cow_ref (bs ! j)) = 1"
    using j ok False by (simp add: writer_ok_def world_ok_def refs_ok_def)
  moreover have "cow_ref (bs ! i) \<noteq> cow_ref (bs ! j)"
    using calculation(2) count_list_two [of i "map cow_ref bs" j] ij False by fastforce
  ultimately have "count_list (map cow_ref (bs[i := b'])) (cow_ref (bs ! j)) = 1"
    using count_list_update [of i "map cow_ref bs" "cow_ref b'" "cow_ref (bs ! j)"] ij
    by (simp add: map_update)
  moreover have "world_ok (bs[i := b'], h')" using op_spec_world [OF ok w sp] by simp
  ultimately show ?thesis using ij False by (auto simp: writer_ok_def world_ok_def refs_ok_def)
qed

section \<open>Copies and destruction\<close>

lemma preserved_all:
  assumes "world_ok (bs, h)" and "\<And>b. b \<in> set bs \<Longrightarrow> preserved h h' b"
  shows "(\<forall>b \<in> set bs. buf_ok h' b) \<and> map (contents h') bs = map (contents h) bs"
proof -
  have each: "buf_ok h' b \<and> contents h' b = contents h b" if "b \<in> set bs" for b
    using assms(2) [OF that] by (rule preserved_contents)
  then show ?thesis by simp
qed

lemma release_preserved:
  assumes "buf_ok h b" and "use_count h (cow_ref b) \<noteq> 1 \<or> cow_ref b \<noteq> c"
  shows "preserved h (release h c) b"
  using assms by (auto simp: preserved_def release_def Let_def buf_ok_def buf_pages_def)

lemma release_fields:
  "use_count (release h c) = (use_count h)(c := use_count h c - 1)" "next_cow (release h c) = next_cow h"
  "unwritten (release h c) = unwritten h"
  by (simp_all add: release_def Let_def)

lemma count_list_append_one: "count_list (xs @ [x]) c = count_list xs c + (if x = c then 1 else 0)"
  by (induction xs) auto

lemma world_copy:
  assumes ok: "world_ok (bs, h)" and i: "i < length bs" and cp: "Buffer_copy h (bs ! i) = (b, h')"
  shows "world_ok (bs @ [b], h') \<and> buf_values (bs @ [b], h') = buf_values (bs, h) @ [buf_values (bs, h) ! i]"
proof -
  have bi: "heap_ok h" "buf_ok h (bs ! i)" using ok i by (simp_all add: world_ok_def)
  note sp = Buffer_copy_spec [OF bi cp]
  have "b = (bs ! i)\<lparr>borrowed := True\<rparr>" "h' = retain h (cow_ref (bs ! i))"
    using cp by (simp_all add: Buffer_copy_def)
  then have "refs_ok h' (bs @ [b])"
    using ok i by (auto simp: refs_ok_def world_ok_def retain_def count_list_append_one)
  moreover have "(\<forall>b \<in> set bs. buf_ok h' b) \<and> map (contents h') bs = map (contents h) bs"
    using sp ok by (intro preserved_all [OF ok]) (auto simp: world_ok_def)
  ultimately show ?thesis using sp i by (simp add: world_ok_def buf_values_def)
qed

lemma world_new:
  assumes ok: "world_ok (bs, h)" and nw: "Buffer_new h = (b, h')"
  shows "world_ok (bs @ [b], h') \<and> buf_values (bs @ [b], h') = buf_values (bs, h) @ [[]]"
proof -
  have hok: "heap_ok h" and lt: "\<forall>b \<in> set bs. cow_ref b < next_cow h"
    and cl: "\<And>c. use_count h c = count_list (map cow_ref bs) c"
    using ok by (auto simp: world_ok_def refs_ok_def)
  note sp = Buffer_new_spec [OF hok nw]
  have eqs: "cow_ref b = next_cow h" "next_cow h' = Suc (next_cow h)" "use_count h' = (use_count h)(next_cow h := 1)"
    using nw by (auto simp: Buffer_new_def new_cow_info_def alloc_page_def heap_simps)
  have "count_list (map cow_ref bs) (next_cow h) = 0" using lt by (auto simp: count_list_0_iff)
  then have "refs_ok h' (bs @ [b])"
    using lt cl by (auto simp: refs_ok_def eqs count_list_append_one)
  moreover have "(\<forall>b \<in> set bs. buf_ok h' b) \<and> map (contents h') bs = map (contents h) bs"
    using sp ok by (intro preserved_all [OF ok]) (auto simp: world_ok_def)
  ultimately show ?thesis using sp by (simp add: world_ok_def buf_values_def)
qed

text \<open>Dropping the reference of the \<open>i\<close>-th buffer keeps every other live buffer intact.\<close>

lemma release_others:
  assumes h: "\<forall>c. use_count h c = count_list (map cow_ref bs) c" and i: "i < length bs"
    and j: "j < length bs" "j \<noteq> i" "buf_ok h (bs ! j)"
  shows "preserved h (release h (cow_ref (bs ! i))) (bs ! j)"
proof (rule release_preserved [OF j(3)])
  have "2 \<le> use_count h (cow_ref (bs ! i))" if "cow_ref (bs ! j) = cow_ref (bs ! i)"
    using h count_list_two [of i "map cow_ref bs" j] i j that by simp
  then show "use_count h (cow_ref (bs ! j)) \<noteq> 1 \<or> cow_ref (bs ! j) \<noteq> cow_ref (bs ! i)" by fastforce
qed

lemma world_assign:
  assumes ok: "world_ok (bs, h)" and ij: "i < length bs" "j < length bs"
    and as: "Buffer_assign h (bs ! i) (bs ! j) = (b, h')"
  shows "world_ok (bs[i := b], h') \<and> buf_values (bs[i := b], h') = (buf_values (bs, h))[i := buf_values (bs, h) ! j]"
proof -
  let ?cp = "(bs ! j)\<lparr>borrowed := True\<rparr>" and ?h1 = "retain h (cow_ref (bs ! j))"
  have b: "b = ?cp" and h': "h' = release ?h1 (cow_ref (bs ! i))"
    using as by (auto simp: Buffer_assign_def)
  have w1: "world_ok (bs @ [?cp], ?h1)" "buf_values (bs @ [?cp], ?h1) = buf_values (bs, h) @ [buf_values (bs, h) ! j]"
    using world_copy [OF ok ij(2)] by (auto simp: Buffer_copy_def)
  have cl: "\<forall>c. use_count ?h1 c = count_list (map cow_ref (bs @ [?cp])) c"
    using w1(1) by (simp add: world_ok_def refs_ok_def)
  have pr: "preserved ?h1 h' ((bs @ [?cp]) ! k)" if "k < length (bs @ [?cp])" "k \<noteq> i" for k
    using release_others [OF cl, of i k] that ij(1) w1(1) unfolding h'
    by (simp add: nth_append world_ok_def split: if_splits)
  have prs: "preserved ?h1 h' ((bs[i := b]) ! k)" if "k < length bs" for k
    using pr [of k] pr [of "length bs"] that ij b by (cases "k = i") (auto simp: nth_append)
  have vals: "contents ?h1 ((bs[i := b]) ! k) = (buf_values (bs, h))[i := buf_values (bs, h) ! j] ! k" if "k < length bs" for k
    using arg_cong [OF w1(2), of "\<lambda>v. v ! k"] arg_cong [OF w1(2), of "\<lambda>v. v ! length bs"] that ij b
    by (cases "k = i") (auto simp: buf_values_def nth_append)
  have "refs_ok h' (bs[i := b])"
  proof -
    have "use_count h' c = count_list (map cow_ref (bs[i := b])) c" for c
      using cl count_list_update [of i "map cow_ref bs" "cow_ref b" c] ij(1)
      by (auto simp: h' release_fields b map_update count_list_append_one split: if_splits)
    moreover have "\<forall>d \<in> set (bs[i := b]). cow_ref d < next_cow h'"
      using w1(1) by (auto simp: world_ok_def refs_ok_def h' release_fields b dest!: set_update_subset_insert [THEN subsetD])
    ultimately show ?thesis by (simp add: refs_ok_def)
  qed
  moreover have "\<forall>d \<in> set (bs[i := b]). buf_ok h' d" using prs by (auto simp: set_conv_nth preserved_def)
  moreover have "map (contents h') (bs[i := b]) = (buf_values (bs, h))[i := buf_values (bs, h) ! j]"
  proof (rule nth_equalityI)
    fix k assume "k < length (map (contents h') (bs[i := b]))"
    then show "map (contents h') (bs[i := b]) ! k = (buf_values (bs, h))[i := buf_values (bs, h) ! j] ! k"
      using preserved_contents [OF prs [of k]] vals [of k] by simp
  qed (simp add: buf_values_def)
  moreover have "heap_ok h'" using w1(1) by (simp add: h' world_ok_def heap_ok_def release_fields)
  ultimately show ?thesis by (simp add: world_ok_def buf_values_def)
qed

text \<open>Destroying buffer \<open>i\<close>; the live buffers after it are those at the remaining positions.\<close>

lemma nth_remove: "k < length xs - 1 \<Longrightarrow> i < length xs \<Longrightarrow>
    (take i xs @ drop (Suc i) xs) ! k = xs ! (if k < i then k else Suc k)"
  by (auto simp: nth_append min_def)

lemma count_list_remove:
  assumes "i < length xs"
  shows "count_list (take i xs @ drop (Suc i) xs) c = count_list xs c - (if xs ! i = c then 1 else 0)"
proof -
  have "count_list xs c = count_list (take i xs @ xs ! i # drop (Suc i) xs) c"
    using assms by (simp add: id_take_nth_drop [symmetric])
  then show ?thesis by simp
qed

lemma world_destroy:
  assumes ok: "world_ok (bs, h)" and i: "i < length bs"
  shows "world_ok (take i bs @ drop (Suc i) bs, Buffer_destroy h (bs ! i)) \<and>
    buf_values (take i bs @ drop (Suc i) bs, Buffer_destroy h (bs ! i)) =
      take i (buf_values (bs, h)) @ drop (Suc i) (buf_values (bs, h))"
proof -
  let ?h' = "release h (cow_ref (bs ! i))" and ?bs' = "take i bs @ drop (Suc i) bs"
  have cl: "\<forall>c. use_count h c = count_list (map cow_ref bs) c" and lt: "\<forall>b \<in> set bs. cow_ref b < next_cow h"
    using ok by (simp_all add: world_ok_def refs_ok_def)
  have pr: "preserved h ?h' b" if b: "b \<in> set ?bs'" for b
  proof -
    have "length ?bs' = length bs - 1" using i by simp
    then obtain k where k: "k < length bs - 1" "?bs' ! k = b"
      using b by (metis in_set_conv_nth)
    then have "bs ! (if k < i then k else Suc k) = b" using nth_remove [OF k(1) i] by simp
    then show ?thesis using release_others [OF cl i, of "if k < i then k else Suc k"] ok k i
      by (auto simp: world_ok_def)
  qed
  have each: "buf_ok ?h' b \<and> contents ?h' b = contents h b" if "b \<in> set ?bs'" for b
    using pr [OF that] by (rule preserved_contents)
  have "use_count ?h' c = count_list (map cow_ref ?bs') c" for c
    using count_list_remove [of i "map cow_ref bs" c] cl i
    by (simp add: release_fields take_map drop_map)
  moreover have "set ?bs' \<subseteq> set bs" by (auto dest: in_set_takeD in_set_dropD)
  ultimately have "refs_ok ?h' ?bs'" using lt by (auto simp: refs_ok_def release_fields)
  moreover have "heap_ok ?h'" using ok by (simp add: world_ok_def heap_ok_def release_fields)
  moreover have "map (contents ?h') ?bs' = map (contents h) ?bs'" using each by simp
  ultimately show ?thesis using each
    by (simp add: world_ok_def buf_values_def Buffer_destroy_def take_map drop_map)
qed

section \<open>Refinement\<close>

lemma buf_values_nth: "i < length bs \<Longrightarrow> buf_values (bs, h) ! i = contents h (bs ! i)"
  by (simp add: buf_values_def)

lemma writer_okD:
  assumes "world_ok (bs, h)" and "writer_ok (bs, h) i"
  shows "i < length bs" "heap_ok h" "buf_ok h (bs ! i)"
  using assms by (simp_all add: writer_ok_def world_ok_def)

lemma exec_append:
  assumes ok: "world_ok (bs, h)" and w: "writer_ok (bs, h) i"
  shows "\<exists>w'. exec (Append i s) (bs, h) = Some w' \<and> world_ok w' \<and>
    buf_values w' = spec_op (Append i s) (buf_values (bs, h))"
proof -
  note wk = writer_okD [OF ok w]
  obtain r b h' where ap: "append_data h (bs ! i) s = (r, b, h')" by (cases "append_data h (bs ! i) s")
  show ?thesis
    using op_spec_world [OF ok w conjunct2 [OF append_data_spec [OF wk(2,3) ap]]] wk(1) ap
    by (simp add: buf_values_nth)
qed

lemma exec_append_buffer:
  assumes ok: "world_ok (bs, h)" and w: "writer_ok (bs, h) i" and j: "j < length bs" "i \<noteq> j"
  shows "\<exists>w'. exec (Append_Buffer i j) (bs, h) = Some w' \<and> world_ok w' \<and>
    buf_values w' = spec_op (Append_Buffer i j) (buf_values (bs, h))"
proof -
  note wk = writer_okD [OF ok w]
  have "buf_ok h (bs ! j)" using ok j by (simp add: world_ok_def)
  from append_buffer_spec [OF wk(2,3) this writer_separate [OF ok w j(1)]] j(2)
  obtain b h' where ap: "append_buffer h (bs ! i) (bs ! j) = Some (True, b, h')"
    and sp: "op_spec h (bs ! i) h' b (contents h (bs ! i) @ contents h (bs ! j))" by auto
  show ?thesis using op_spec_world [OF ok w sp] wk(1) j(1) ap by (simp add: buf_values_nth)
qed

lemma exec_pop:
  assumes ok: "world_ok (bs, h)" and w: "writer_ok (bs, h) i" and r: "in_int_range (bs ! i)"
  shows "\<exists>w'. exec (Pop i k) (bs, h) = Some w' \<and> world_ok w' \<and>
    buf_values w' = spec_op (Pop i k) (buf_values (bs, h))"
proof -
  note wk = writer_okD [OF ok w]
  obtain f b h' where pp: "pop h (bs ! i) k = (f, b, h')" by (cases "pop h (bs ! i) k")
  show ?thesis
  proof (cases "k \<le> buf_size (bs ! i)")
    case True
    show ?thesis
      using op_spec_world [OF ok w conjunct2 [OF pop_spec [OF wk(2,3) r True pp]]] wk(1) pp True
      by (simp add: buf_values_nth contents_length [OF wk(3)])
  next
    case False
    then have lt: "buf_size (bs ! i) < k" by simp
    have same: "(buf_values (bs, h))[i := contents h (bs ! i)] = buf_values (bs, h)"
      using buf_values_nth [OF wk(1)] by (metis list_update_id)
    show ?thesis
      using op_spec_world [OF ok w conjunct2 [OF pop_too_much [OF wk(2,3) lt pp]]] wk(1) pp False
      by (simp add: buf_values_nth contents_length [OF wk(3)] same)
  qed
qed

lemma exec_step:
  assumes ok: "world_ok w" and al: "allowed p w"
  shows "\<exists>w'. exec p w = Some w' \<and> world_ok w' \<and> buf_values w' = spec_op p (buf_values w)"
proof -
  obtain bs h where w: "w = (bs, h)" by (cases w)
  note ok' = ok [unfolded w] and al' = al [unfolded w]
  show ?thesis unfolding w
  proof (cases p)
    case New
    then show "\<exists>w'. exec p (bs, h) = Some w' \<and> world_ok w' \<and> buf_values w' = spec_op p (buf_values (bs, h))"
      using world_new [OF ok'] by (cases "Buffer_new h") simp
  next
    case (Copy i)
    then show "\<exists>w'. exec p (bs, h) = Some w' \<and> world_ok w' \<and> buf_values w' = spec_op p (buf_values (bs, h))"
      using world_copy [OF ok'] al' by (cases "Buffer_copy h (bs ! i)") simp
  next
    case (Assign i j)
    then show "\<exists>w'. exec p (bs, h) = Some w' \<and> world_ok w' \<and> buf_values w' = spec_op p (buf_values (bs, h))"
      using world_assign [OF ok', of i j] al' by (cases "Buffer_assign h (bs ! i) (bs ! j)") simp
  next
    case (Destroy i)
    then show "\<exists>w'. exec p (bs, h) = Some w' \<and> world_ok w' \<and> buf_values w' = spec_op p (buf_values (bs, h))"
      using world_destroy [OF ok'] al' by simp
  qed (use exec_append [OF ok'] exec_append_buffer [OF ok'] exec_pop [OF ok'] al' in auto)
qed

lemma exec_all_refines:
  "world_ok w \<Longrightarrow> allowed_all ps w \<Longrightarrow>
    \<exists>w'. exec_all ps w = Some w' \<and> world_ok w' \<and> buf_values w' = spec_all ps (buf_values w)"
proof (induction ps arbitrary: w)
  case (Cons p ps)
  have "allowed p w" using Cons.prems(2) by simp
  from exec_step [OF Cons.prems(1) this]
  obtain w1 where w1: "exec p w = Some w1" "world_ok w1" "buf_values w1 = spec_op p (buf_values w)" by blast
  with Cons.IH [OF w1(2)] Cons.prems(2) show ?case by simp
qed simp

section \<open>Writing to the original of a copy\<close>

lemma copy_front_loop_short:
  "(\<forall>p \<in> set ps. length (snd p) = kPageSize) \<Longrightarrow> off \<le> kPageSize \<Longrightarrow> kPageSize * length ps - off < sz \<Longrightarrow>
    ps \<noteq> [] \<Longrightarrow> copy_front_loop off ps sz = None"
proof (induction ps arbitrary: off sz)
  case (Cons p ps)
  then show ?case by (cases "ps = []") (auto simp: Let_def)
qed simp

lemma free_front_pages_all:
  assumes "layout ps l r n"
  shows "free_front_pages ((n + l) div kPageSize) ps = [last ps]"
proof (rule free_front_pages_last)
  have "n + l = kPageSize * length ps - r" "r \<le> kPageSize" using assms by (auto simp: layout_def)
  then have "kPageSize * (length ps - 1) \<le> n + l" by (simp add: diff_mult_distrib2)
  then have "length ps - 1 \<le> (n + l) div kPageSize" by (simp add: less_eq_div_iff_mult_less_eq mult.commute)
  then show "length ps \<le> Suc ((n + l) div kPageSize)" by simp
qed (use assms in \<open>simp add: layout_def\<close>)

lemma pop_all_owner:
  assumes ok: "buf_ok h b" and own: "\<not> borrowed b" and rng: "in_int_range b"
    and pp: "pop h b (buf_size b) = (r, b', h')"
  shows "buf_pages h' b = [last (buf_pages h b)]"
proof -
  have "buf_size b + left_offset b < 2 ^ 31" using rng by (simp add: in_int_range_def)
  then have "h' = set_pages h (cow_ref b) (free_front_pages ((buf_size b + left_offset b) div kPageSize) (buf_pages h b))"
    using pp own
    by (simp add: pop_def prepare_write_def need_copy_for_write_def page_div_small Let_def)
  then show ?thesis using free_front_pages_all [OF buf_okD(1) [OF ok]] by (simp add: heap_simps)
qed

section \<open>Properties of buffer programs\<close>

text \<open>C1: copy-on-write is invisible.  Any sequence of constructions, copies, assignments, appends,
  pops and destructions in which each written buffer is a borrower or the sole owner of its pages runs to
  the end, keeps the store and its reference counts consistent, and leaves every live buffer with the
  bytes it would have if buffers were independent byte strings.\<close>

theorem buffers_refine_byte_strings:
  assumes "world_ok w" and "allowed_all ps w"
  shows "\<exists>w'. exec_all ps w = Some w' \<and> world_ok w' \<and> buf_values w' = spec_all ps (buf_values w)"
  using assms by (rule exec_all_refines)

definition sample_program :: "buf_op list" where
  "sample_program = [New, Append 0 [1, 2], Copy 0, Append 1 [3]]"

lemma writer_single: "world_ok ([b], h) \<Longrightarrow> writer_ok ([b], h) 0"
  by (simp add: world_ok_def writer_ok_def refs_ok_def)

lemma empty_world_ok: "world_ok ([], empty_heap)"
  by (simp add: world_ok_def heap_ok_def empty_heap_def refs_ok_def)

lemma sample_program_allowed: "allowed_all sample_program ([], empty_heap)"
proof -
  obtain b h where nw: "Buffer_new empty_heap = (b, h)" by (cases "Buffer_new empty_heap")
  have ok1: "world_ok ([b], h)" using exec_step [OF empty_world_ok, of New] nw by auto
  obtain r b2 h2 where ap: "append_data h b [1, 2] = (r, b2, h2)" by (rule prod_cases3)
  show ?thesis using writer_single [OF ok1]
    by (simp add: sample_program_def nw ap Buffer_copy_def writer_ok_def split: prod.splits)
qed

theorem buffers_refine_byte_strings_witness:
  "\<exists>w'. exec_all sample_program ([], empty_heap) = Some w' \<and> buf_values w' = [[1, 2], [1, 2, 3]]"
proof -
  have "spec_all sample_program (buf_values ([], empty_heap)) = [[1, 2], [1, 2, 3]]"
    by (simp add: sample_program_def buf_values_def)
  with buffers_refine_byte_strings [OF empty_world_ok sample_program_allowed] show ?thesis by metis
qed

lemma filled_buffer_owner: "\<not> borrowed (fst (filled_buffer s))"
proof -
  obtain b h where nw: "Buffer_new empty_heap = (b, h)" by (cases "Buffer_new empty_heap")
  then have "\<not> borrowed b" by (auto simp: Buffer_new_def split: prod.splits)
  then show ?thesis
    by (simp add: filled_buffer_def nw append_data_def prepare_write_def need_copy_for_write_def append_owned_def
        Let_def split: prod.splits)
qed

definition two_pages :: "byte list" where
  "two_pages = replicate (kPageSize + 1) 7"

text \<open>The exception.  \<open>need_copy_for_write\<close> only looks at borrowers, so when the buffer a copy was
  taken from is emptied, the pages are freed under the copy: a copy whose data spans two pages still
  reports its old size, but reading its bytes runs off the end of the page list.\<close>

lemma owner_pop_breaks_copy:
  assumes "buf_ok h b" and "\<not> borrowed b" and "in_int_range b" and "kPageSize - left_offset b < buf_size b"
    and "Buffer_copy h b = (c, h1)" and "pop h1 b (buf_size b) = (r, b', h2)"
  shows "buf_size c = buf_size b \<and> copy_front h1 c (buf_size c) = Some (True, contents h b) \<and>
    copy_front h2 c (buf_size c) = None"
proof -
  have c: "c = b\<lparr>borrowed := True\<rparr>" and h1: "h1 = retain h (cow_ref b)"
    using assms(5) by (simp_all add: Buffer_copy_def)
  have ok1: "buf_ok h1 b" "buf_ok h1 c" and eq: "contents h1 c = contents h b"
    using assms(1) by (simp_all add: c h1 retain_def buf_ok_def buf_pages_def contents_def)
  have pg: "buf_pages h2 c = [last (buf_pages h1 b)]"
    using pop_all_owner [OF ok1(1) assms(2,3,6)] by (simp add: c buf_pages_def)
  have len: "length (snd (last (buf_pages h1 b))) = kPageSize" and l: "left_offset b \<le> kPageSize"
    using buf_okD(1,4) [OF ok1(1)] by (simp_all add: layout_def)
  have "copy_front_loop (left_offset b) [last (buf_pages h1 b)] (buf_size b) = None"
    using assms(4) l by (intro copy_front_loop_short) (simp_all add: len)
  moreover have "copy_front h1 c (buf_size c) = Some (True, contents h b)"
    using copy_front_spec [OF ok1(2), of "buf_size c"] contents_length [OF ok1(2)] eq by simp
  ultimately show ?thesis by (simp add: copy_front_def pg [unfolded c] c del: copy_front_loop.simps)
qed

end
