(* ===== verification/Stream.thy ===== *)
theory Stream
  imports Buffer_World
begin

text \<open>
  Input and output streams: \<^verbatim>\<open>src/core/stream.{h,cc}\<close>, the \<open>Writeable\<close> interface of
  \<^verbatim>\<open>src/core/buffer.h\<close> and its implementation by \<^verbatim>\<open>src/core/filesender.{h,cc}\<close> (built with
  \<open>USE_LINUX_SENDFILE\<close>).  The socket is a parameter: what \<open>writev\<close> returns for the bytes it
  is given, and what \<open>sendfile64\<close> returns for a file, an offset and a length.  \<open>memory_usage_\<close> is a
  64 bit word, as the code subtracts from it.  A stream represents the bytes still to be sent
  (\<open>pending\<close>); the locale \<open>writeable\<close> is the contract of the interface.
\<close>

section \<open>Input stream\<close>

definition read_into_buffer ::
  "buf_heap \<Rightarrow> buffer \<Rightarrow> (nat \<Rightarrow> byte list option) \<Rightarrow> int \<times> buffer \<times> buf_heap" where
  "read_into_buffer h b readv = read_from_fd h b readv"

definition InputStream_close :: "buf_heap \<Rightarrow> buffer \<Rightarrow> buffer \<times> buf_heap" where
  "InputStream_close h b = clear h b"

section \<open>File sender\<close>

record file_sender =
  file_fd :: nat
  file_offset :: int
  file_length :: int

record socket =
  sock_writev :: "byte list \<Rightarrow> int"
  sock_sendfile :: "nat \<Rightarrow> int \<Rightarrow> nat \<Rightarrow> int"

definition FileSender :: "int \<Rightarrow> nat \<Rightarrow> int \<Rightarrow> int \<Rightarrow> file_sender" where
  "FileSender st_size fd off len =
    \<lparr>file_fd = fd, file_offset = off, file_length = (if len = -1 then st_size - off else len)\<rparr>"

text \<open>\<open>MIN (length_, kPageSize)\<close> compares as unsigned 64 bit integers.  \<open>sendfile64\<close> advances the offset by
  what it sent.\<close>

definition file_write_to_fd :: "socket \<Rightarrow> file_sender \<Rightarrow> int \<times> file_sender" where
  "file_write_to_fd sk f =
    (let n_should_send = min (size_of_int (file_length f)) kPageSize;
         nsend = sock_sendfile sk (file_fd f) (file_offset f) n_should_send
     in if nsend < 0 then (nsend, f)
        else (nsend, f\<lparr>file_offset := file_offset f + nsend, file_length := file_length f - nsend\<rparr>))"

section \<open>Writeables\<close>

datatype writeable = WBuffer buffer | WFile file_sender

fun writeable_size :: "writeable \<Rightarrow> nat" where
  "writeable_size (WBuffer b) = buf_size b"
| "writeable_size (WFile f) = size_of_int (file_length f)"

definition writeable_eof :: "writeable \<Rightarrow> bool" where
  "writeable_eof w \<longleftrightarrow> writeable_size w = 0"

fun writeable_memory_usage :: "writeable \<Rightarrow> nat" where
  "writeable_memory_usage (WBuffer b) = buf_size b"
| "writeable_memory_usage (WFile f) = 0"

fun writeable_write :: "socket \<Rightarrow> buf_heap \<Rightarrow> writeable \<Rightarrow> int \<times> writeable \<times> buf_heap" where
  "writeable_write sk h (WBuffer b) = (let (n, b', h') = write_to_fd h b (sock_writev sk) in (n, WBuffer b', h'))"
| "writeable_write sk h (WFile f) = (let (n, f') = file_write_to_fd sk f in (n, WFile f', h))"

fun writeable_append :: "buf_heap \<Rightarrow> writeable \<Rightarrow> byte list \<Rightarrow> bool \<times> writeable \<times> buf_heap" where
  "writeable_append h (WBuffer b) s = (let (r, b', h') = append_data h b s in (r, WBuffer b', h'))"
| "writeable_append h (WFile f) s = (False, WFile f, h)"

text \<open>\<open>delete\<close> of a writeable: the store after it and the descriptors it closes.\<close>

fun writeable_destroy :: "buf_heap \<Rightarrow> writeable \<Rightarrow> buf_heap \<times> nat list" where
  "writeable_destroy h (WBuffer b) = (Buffer_destroy h b, [])"
| "writeable_destroy h (WFile f) = (h, [file_fd f])"

section \<open>Output stream\<close>

record out_stream =
  writeables :: "writeable list"
  stream_memory :: "64 word"
  closed_fds :: "nat list"

definition OutputStream :: out_stream where
  "OutputStream = \<lparr>writeables = [], stream_memory = 0, closed_fds = []\<rparr>"

fun destroy_writeables :: "buf_heap \<Rightarrow> writeable list \<Rightarrow> buf_heap \<times> nat list" where
  "destroy_writeables h [] = (h, [])"
| "destroy_writeables h (w # ws) =
    (let (h1, c1) = writeable_destroy h w; (h2, c2) = destroy_writeables h1 ws in (h2, c1 @ c2))"

definition OutputStream_destroy :: "buf_heap \<Rightarrow> out_stream \<Rightarrow> out_stream \<times> buf_heap" where
  "OutputStream_destroy h s =
    (let (h', c) = destroy_writeables h (writeables s) in (s\<lparr>writeables := [], closed_fds := closed_fds s @ c\<rparr>, h'))"

definition write_into_output :: "socket \<Rightarrow> buf_heap \<Rightarrow> out_stream \<Rightarrow> int \<times> out_stream \<times> buf_heap" where
  "write_into_output sk h s =
    (case writeables s of
       [] \<Rightarrow> (0, s, h)
     | w # ws \<Rightarrow>
        let mem_use = word_of_nat (writeable_memory_usage w);
            (res, w', h') = writeable_write sk h w;
            s' = s\<lparr>stream_memory := stream_memory s - (mem_use - word_of_nat (writeable_memory_usage w'))\<rparr>
        in if writeable_eof w'
           then let (h'', c) = writeable_destroy h' w'
                in (res, s'\<lparr>writeables := ws, closed_fds := closed_fds s @ c\<rparr>, h'')
           else (res, s'\<lparr>writeables := w' # ws\<rparr>, h'))"

definition stream_append_data :: "buf_heap \<Rightarrow> out_stream \<Rightarrow> byte list \<Rightarrow> out_stream \<times> buf_heap" where
  "stream_append_data h0 s dat =
    (let (ws, h) = (if writeables s = [] then (let (b, h) = Buffer_new h0 in ([WBuffer b], h)) else (writeables s, h0));
         (ok, w', h1) = writeable_append h (last ws) dat;
         ws1 = butlast ws @ [w'];
         (ws2, h2) = (if ok then (ws1, h1)
                      else let (b, h3) = Buffer_new h1; (_, b', h4) = append_data h3 b dat
                           in (ws1 @ [WBuffer b'], h4))
     in (s\<lparr>writeables := ws2, stream_memory := stream_memory s + word_of_nat (length dat)\<rparr>, h2))"

definition append_file :: "int \<Rightarrow> out_stream \<Rightarrow> nat \<Rightarrow> int \<Rightarrow> int \<Rightarrow> nat \<times> out_stream" where
  "append_file st_size s fd off len =
    (let f = WFile (FileSender st_size fd off len) in (writeable_size f, s\<lparr>writeables := writeables s @ [f]\<rparr>))"

definition stream_append_buffer :: "buf_heap \<Rightarrow> out_stream \<Rightarrow> buffer \<Rightarrow> nat \<times> out_stream \<times> buf_heap" where
  "stream_append_buffer h s b =
    (let (c, h') = Buffer_copy h b in (buf_size c, s\<lparr>writeables := writeables s @ [WBuffer c]\<rparr>, h'))"

definition append_writeable :: "out_stream \<Rightarrow> writeable \<Rightarrow> nat \<times> out_stream" where
  "append_writeable s w = (writeable_size w, s\<lparr>writeables := writeables s @ [w]\<rparr>)"

definition is_done :: "out_stream \<Rightarrow> bool" where
  "is_done s \<longleftrightarrow> writeables s = []"

section \<open>The contract of a writeable\<close>

text \<open>\<open>pending\<close> is the byte string a writeable still has to send.  Writing drops what was sent and reports
  it; \<open>size\<close> is the number of bytes left, so \<open>eof\<close> holds exactly when nothing is left.\<close>

locale writeable =
  fixes ok :: "'s \<Rightarrow> 'w \<Rightarrow> bool"
    and pending :: "'s \<Rightarrow> 'w \<Rightarrow> byte list"
    and put :: "'s \<Rightarrow> 'w \<Rightarrow> int \<times> 'w \<times> 's"
    and wsize :: "'w \<Rightarrow> nat"
  assumes put_ok: "ok s w \<Longrightarrow> put s w = (n, w', s') \<Longrightarrow>
      ok s' w' \<and> n \<le> int (length (pending s w)) \<and> pending s' w' = drop (nat n) (pending s w)"
    and size_ok: "ok s w \<Longrightarrow> wsize w = length (pending s w)"
begin

lemma eof_iff: "ok s w \<Longrightarrow> wsize w = 0 \<longleftrightarrow> pending s w = []"
  using size_ok by simp

text \<open>Repeated writing sends the whole contents in order: what was reported adds up to what is gone.\<close>

fun put_times :: "nat \<Rightarrow> 's \<Rightarrow> 'w \<Rightarrow> nat \<times> 'w \<times> 's" where
  "put_times 0 s w = (0, w, s)"
| "put_times (Suc k) s w = (let (n, w', s') = put s w; (m, w'', s'') = put_times k s' w' in (nat n + m, w'', s''))"

lemma put_times_ok:
  "ok s w \<Longrightarrow> put_times k s w = (m, w', s') \<Longrightarrow>
    ok s' w' \<and> m \<le> length (pending s w) \<and> pending s' w' = drop m (pending s w)"
proof (induction k arbitrary: s w m w' s')
  case (Suc k)
  obtain n w1 s1 where w: "put s w = (n, w1, s1)" by (cases "put s w")
  obtain m1 where r: "put_times k s1 w1 = (m1, w', s')" and m: "m = nat n + m1"
    using Suc.prems(2) w by (auto split: prod.splits)
  note sp = put_ok [OF Suc.prems(1) w]
  from Suc.IH [OF conjunct1 [OF sp] r] sp m show ?case by (auto simp: add.commute)
qed simp

end

section \<open>Buffers and file senders are writeables\<close>

text \<open>The documented behaviour of the two system calls: \<open>writev\<close> accepts at most the bytes it is given,
  \<open>sendfile64\<close> sends at most the length asked for and at most what the file has behind the offset.\<close>

definition socket_ok :: "socket \<Rightarrow> (nat \<Rightarrow> byte list) \<Rightarrow> bool" where
  "socket_ok sk files \<longleftrightarrow> (\<forall>bs. sock_writev sk bs \<le> int (length bs)) \<and>
     (\<forall>fd off n. 0 \<le> off \<longrightarrow> sock_sendfile sk fd off n \<le> int (min n (length (files fd) - nat off)))"

type_synonym stream_env = "socket \<times> (nat \<Rightarrow> byte list) \<times> buf_heap"

definition file_ok :: "(nat \<Rightarrow> byte list) \<Rightarrow> file_sender \<Rightarrow> bool" where
  "file_ok files f \<longleftrightarrow> 0 \<le> file_offset f \<and> 0 \<le> file_length f \<and> file_length f < 2 ^ 63 \<and>
     file_offset f + file_length f \<le> int (length (files (file_fd f)))"

definition file_pending :: "(nat \<Rightarrow> byte list) \<Rightarrow> file_sender \<Rightarrow> byte list" where
  "file_pending files f = take (nat (file_length f)) (drop (nat (file_offset f)) (files (file_fd f)))"

fun w_ok :: "stream_env \<Rightarrow> writeable \<Rightarrow> bool" where
  "w_ok (sk, files, h) (WBuffer b) \<longleftrightarrow> socket_ok sk files \<and> heap_ok h \<and> buf_ok h b \<and> in_int_range b"
| "w_ok (sk, files, h) (WFile f) \<longleftrightarrow> socket_ok sk files \<and> file_ok files f"

fun w_pending :: "stream_env \<Rightarrow> writeable \<Rightarrow> byte list" where
  "w_pending (sk, files, h) (WBuffer b) = contents h b"
| "w_pending (sk, files, h) (WFile f) = file_pending files f"

fun w_put :: "stream_env \<Rightarrow> writeable \<Rightarrow> int \<times> writeable \<times> stream_env" where
  "w_put (sk, files, h) w = (let (n, w', h') = writeable_write sk h w in (n, w', (sk, files, h')))"

lemma file_length_size: "file_ok files f \<Longrightarrow> size_of_int (file_length f) = nat (file_length f)"
  using size_of_int_nat [of "nat (file_length f)"] by (auto simp: file_ok_def nat_less_iff)

lemma file_pending_length: "file_ok files f \<Longrightarrow> length (file_pending files f) = nat (file_length f)"
  by (auto simp: file_ok_def file_pending_def)

lemma file_write_spec:
  assumes sk: "socket_ok sk files" and ok: "file_ok files f" and wr: "file_write_to_fd sk f = (n, f')"
  shows "file_ok files f'" "n \<le> file_length f" "file_pending files f' = drop (nat n) (file_pending files f)"
    "file_fd f' = file_fd f"
proof -
  let ?m = "min (nat (file_length f)) kPageSize"
  have n: "n = sock_sendfile sk (file_fd f) (file_offset f) ?m"
    using wr file_length_size [OF ok] by (auto simp: file_write_to_fd_def Let_def split: if_splits)
  have f0: "0 \<le> file_offset f" "0 \<le> file_length f" using ok by (simp_all add: file_ok_def)
  have "n \<le> int (min ?m (length (files (file_fd f)) - nat (file_offset f)))"
    using sk f0(1) unfolding n socket_ok_def by blast
  then show le: "n \<le> file_length f" using f0 by simp
  have f': "f' = (if n < 0 then f else f\<lparr>file_offset := file_offset f + n, file_length := file_length f - n\<rparr>)"
    using wr file_length_size [OF ok] n by (auto simp: file_write_to_fd_def Let_def)
  show "file_ok files f'" using ok le by (auto simp: f' file_ok_def)
  show "file_fd f' = file_fd f" by (simp add: f')
  show "file_pending files f' = drop (nat n) (file_pending files f)"
    using f0 le by (auto simp: f' file_pending_def drop_take nat_diff_distrib nat_add_distrib add.commute)
qed

interpretation ww: writeable w_ok w_pending w_put writeable_size
proof unfold_locales
  fix e w n w' e'
  assume ok: "w_ok e w" and put: "w_put e w = (n, w', e')"
  obtain sk files h where e: "e = (sk, files, h)" by (cases e)
  show "w_ok e' w' \<and> n \<le> int (length (w_pending e w)) \<and> w_pending e' w' = drop (nat n) (w_pending e w)"
  proof (cases w)
    case (WBuffer b)
    obtain m b' h' where wr: "write_to_fd h b (sock_writev sk) = (m, b', h')"
      by (cases "write_to_fd h b (sock_writev sk)")
    have pre: "heap_ok h" "buf_ok h b" "in_int_range b" and sk: "socket_ok sk files" and
      wv: "\<And>bs. sock_writev sk bs \<le> int (length bs)"
      using ok by (simp_all add: e WBuffer socket_ok_def)
    have res: "n = m" "w' = WBuffer b'" "e' = (sk, files, h')" using put wr by (auto simp: e WBuffer)
    note sp = write_to_fd_spec [OF pre wv wr]
    show ?thesis using sp write_to_fd_range [OF pre wr] sk contents_length [OF pre(2)]
      by (auto simp: e WBuffer res dest: op_specD)
  next
    case (WFile f)
    obtain m f' where wr: "file_write_to_fd sk f = (m, f')" by (cases "file_write_to_fd sk f")
    have pre: "socket_ok sk files" "file_ok files f" using ok by (simp_all add: e WFile)
    have res: "n = m" "w' = WFile f'" "e' = (sk, files, h)" using put wr by (auto simp: e WFile)
    show ?thesis using file_write_spec [OF pre wr] pre(1) file_pending_length [OF pre(2)]
      by (auto simp: e WFile res)
  qed
next
  fix e w
  assume "w_ok e w"
  then show "writeable_size w = length (w_pending e w)"
    by (cases e; cases w) (auto simp: contents_length file_length_size file_pending_length)
qed

section \<open>Streams as byte strings\<close>

fun w_bufs :: "writeable \<Rightarrow> buffer list" where
  "w_bufs (WBuffer b) = [b]"
| "w_bufs (WFile f) = []"

definition stream_bufs :: "writeable list \<Rightarrow> buffer list" where
  "stream_bufs ws = concat (map w_bufs ws)"

definition stream_pending :: "stream_env \<Rightarrow> writeable list \<Rightarrow> byte list" where
  "stream_pending e ws = concat (map (w_pending e) ws)"

definition writers_ok :: "buf_heap \<Rightarrow> buffer list \<Rightarrow> bool" where
  "writers_ok h bs \<longleftrightarrow> (\<forall>b \<in> set bs. borrowed b \<or> use_count h (cow_ref b) = 1)"

text \<open>The state of a stream among the \<open>others\<close>, the live buffers that are not part of it.\<close>

definition stream_inv :: "stream_env \<Rightarrow> buffer list \<Rightarrow> writeable list \<Rightarrow> bool" where
  "stream_inv e others ws \<longleftrightarrow> (case e of (sk, files, h) \<Rightarrow>
     socket_ok sk files \<and> world_ok (others @ stream_bufs ws, h) \<and> writers_ok h (stream_bufs ws) \<and>
     (\<forall>b \<in> set (stream_bufs ws). in_int_range b) \<and> (\<forall>f. WFile f \<in> set ws \<longrightarrow> file_ok files f))"

lemma stream_bufs_simps [simp]:
  "stream_bufs [] = []" "stream_bufs (w # ws) = w_bufs w @ stream_bufs ws" "stream_bufs (ws @ vs) = stream_bufs ws @ stream_bufs vs"
  by (simp_all add: stream_bufs_def)

lemma stream_pending_simps [simp]:
  "stream_pending e [] = []" "stream_pending e (w # ws) = w_pending e w @ stream_pending e ws"
  "stream_pending e (ws @ vs) = stream_pending e ws @ stream_pending e vs"
  by (simp_all add: stream_pending_def)

lemma stream_bufs_mem: "WBuffer b \<in> set ws \<Longrightarrow> b \<in> set (stream_bufs ws)"
  by (force simp: stream_bufs_def)

lemma stream_pending_cong:
  assumes "\<And>b. b \<in> set (stream_bufs ws) \<Longrightarrow> contents h' b = contents h b"
  shows "stream_pending (sk, files, h') ws = stream_pending (sk, files, h) ws"
proof -
  have "w_pending (sk, files, h') w = w_pending (sk, files, h) w" if "w \<in> set ws" for w
    using that assms stream_bufs_mem by (cases w rule: writeable.exhaust) auto
  then show ?thesis by (simp add: stream_pending_def cong: map_cong)
qed

lemma stream_inv_w_ok: "stream_inv (sk, files, h) others ws \<Longrightarrow> w \<in> set ws \<Longrightarrow> w_ok (sk, files, h) w"
  using stream_bufs_mem by (cases w) (auto simp: stream_inv_def world_ok_def)

lemma writers_writer: "world_ok (bs, h) \<Longrightarrow> writers_ok h ds \<Longrightarrow> bs ! i \<in> set ds \<Longrightarrow> i < length bs \<Longrightarrow> writer_ok (bs, h) i"
  by (auto simp: writers_ok_def writer_ok_def)

text \<open>Replacing the buffer in the middle of the live buffers by the result of an operation on it.\<close>

lemma replace_middle:
  assumes ok: "world_ok (us @ b # vs, h)" and wr: "writers_ok h (b # vs @ ds)" and ds: "set ds \<subseteq> set us"
    and sp: "op_spec h b h' b' xs"
  shows "world_ok (us @ b' # vs, h')" "writers_ok h' (b' # vs @ ds)" "contents h' b' = xs"
    "\<And>c. c \<in> set us \<union> set vs \<Longrightarrow> contents h' c = contents h c"
proof -
  let ?bs = "us @ b # vs" and ?i = "length us"
  have nth: "?bs ! ?i = b" and upd: "?bs[?i := b'] = us @ b' # vs" by simp_all
  have w: "writer_ok (?bs, h) ?i" using wr ok by (intro writers_writer [of _ _ "b # vs @ ds"]) auto
  have sp': "op_spec h (?bs ! ?i) h' b' xs" using sp by simp
  note res = op_spec_world [OF ok w sp', unfolded upd]
  show "world_ok (us @ b' # vs, h')" using res by simp
  show "contents h' b' = xs" using sp by (rule op_specD)
  have vals: "map (contents h') us @ contents h' b' # map (contents h') vs = map (contents h) us @ xs # map (contents h) vs"
    using res by (simp add: buf_values_def list_update_append)
  then show "contents h' c = contents h c" if "c \<in> set us \<union> set vs" for c using that by auto
  have "borrowed c \<or> use_count h' (cow_ref c) = 1" if "c \<in> set (b' # vs @ ds)" for c
  proof -
    have "\<exists>j < length ?bs. (us @ b' # vs) ! j = c \<and> (j = ?i \<or> ?bs ! j \<in> set (vs @ ds) \<and> ?bs ! j = c)"
    proof (cases "c = b'")
      case True
      then show ?thesis by (intro exI [of _ ?i]) simp
    next
      case False
      then have "c \<in> set us \<and> c \<in> set (vs @ ds) \<or> c \<in> set vs" using that ds by auto
      then show ?thesis
      proof
        assume "c \<in> set us \<and> c \<in> set (vs @ ds)"
        then obtain j where "j < length us" "us ! j = c" "c \<in> set (vs @ ds)" by (auto simp: in_set_conv_nth)
        then show ?thesis by (intro exI [of _ j]) (simp add: nth_append)
      next
        assume "c \<in> set vs"
        then obtain j where "j < length vs" "vs ! j = c" by (auto simp: in_set_conv_nth)
        then show ?thesis using \<open>c \<in> set vs\<close> by (intro exI [of _ "length us + Suc j"]) (simp add: nth_append)
      qed
    qed
    then obtain j where j: "j < length ?bs" "(us @ b' # vs) ! j = c" "j = ?i \<or> ?bs ! j \<in> set (vs @ ds)" by blast
    have "writer_ok (?bs, h) j" using j wr ok w writers_writer [of ?bs h "b # vs @ ds" j] by auto
    then have "writer_ok (us @ b' # vs, h') j" using op_spec_other_writer [OF ok w sp'] upd by metis
    then show ?thesis using j by (simp add: writer_ok_def)
  qed
  then show "writers_ok h' (b' # vs @ ds)" by (simp add: writers_ok_def)
qed

lemma remove_middle:
  assumes ok: "world_ok (us @ b # vs, h)" and wr: "writers_ok h ds" and ds: "set ds \<subseteq> set (us @ vs)"
  shows "world_ok (us @ vs, Buffer_destroy h b)" "writers_ok (Buffer_destroy h b) ds"
    "\<And>c. c \<in> set us \<union> set vs \<Longrightarrow> contents (Buffer_destroy h b) c = contents h c"
proof -
  let ?bs = "us @ b # vs" and ?i = "length us"
  note res = world_destroy [OF ok, of ?i, simplified]
  show "world_ok (us @ vs, Buffer_destroy h b)" using res by simp
  have "map (contents (Buffer_destroy h b)) (us @ vs) = map (contents h) (us @ vs)"
    using res by (simp add: buf_values_def)
  then show "contents (Buffer_destroy h b) c = contents h c" if "c \<in> set us \<union> set vs" for c using that by auto
  have "borrowed c \<or> use_count (Buffer_destroy h b) (cow_ref c) = 1" if c: "c \<in> set ds" for c
  proof (cases "borrowed c")
    case False
    then have one: "use_count h (cow_ref c) = 1" using wr c by (auto simp: writers_ok_def)
    have "cow_ref c \<noteq> cow_ref b"
    proof
      assume eq: "cow_ref c = cow_ref b"
      have "cow_ref c \<in> set (map cow_ref (us @ vs))" using c ds by auto
      then have "0 < count_list (map cow_ref (us @ vs)) (cow_ref c)" using count_list_0_iff by (metis neq0_conv)
      then have "1 < count_list (map cow_ref ?bs) (cow_ref c)" using eq by simp
      then show False using one ok by (simp add: world_ok_def refs_ok_def)
    qed
    then show ?thesis using one by (simp add: Buffer_destroy_def release_fields)
  qed simp
  then show "writers_ok (Buffer_destroy h b) ds" by (simp add: writers_ok_def)
qed

lemma writers_ok_simps [simp]:
  "writers_ok h []" "writers_ok h (b # bs) \<longleftrightarrow> (borrowed b \<or> use_count h (cow_ref b) = 1) \<and> writers_ok h bs"
  "writers_ok h (bs @ ds) \<longleftrightarrow> writers_ok h bs \<and> writers_ok h ds"
  by (auto simp: writers_ok_def)

section \<open>Writing the stream out\<close>

lemma write_buffer_front:
  assumes inv: "stream_inv (sk, files, h) others (WBuffer b # ws)"
    and wr: "write_to_fd h b (sock_writev sk) = (n, b', h')"
  shows "stream_inv (sk, files, h') others (WBuffer b' # ws)"
    "stream_pending (sk, files, h') (WBuffer b' # ws) = drop (nat n) (stream_pending (sk, files, h) (WBuffer b # ws))"
    "\<And>c. c \<in> set others \<Longrightarrow> contents h' c = contents h c"
proof -
  have ok: "world_ok (others @ b # stream_bufs ws, h)" and w: "writers_ok h (b # stream_bufs ws @ [])" and
    rng: "in_int_range b" and sk: "socket_ok sk files"
    using inv by (simp_all add: stream_inv_def)
  have pre: "heap_ok h" "buf_ok h b" using ok by (simp_all add: world_ok_def)
  have wv: "\<And>bs. sock_writev sk bs \<le> int (length bs)" using sk by (simp add: socket_ok_def)
  note sp = write_to_fd_spec [OF pre rng wv wr]
  from sp have op: "op_spec h b h' b' (drop (nat n) (contents h b))" by blast
  note rm = replace_middle [OF ok w _ op, simplified]
  have le: "nat n \<le> length (contents h b)" using conjunct1 [OF sp] contents_length [OF pre(2)] by linarith
  show "stream_inv (sk, files, h') others (WBuffer b' # ws)"
    using inv rm(1,2) write_to_fd_range [OF pre rng wr] by (simp add: stream_inv_def)
  show "\<And>c. c \<in> set others \<Longrightarrow> contents h' c = contents h c" using rm(4) by simp
  have "stream_pending (sk, files, h') ws = stream_pending (sk, files, h) ws"
    using rm(4) by (intro stream_pending_cong) simp
  then show "stream_pending (sk, files, h') (WBuffer b' # ws) = drop (nat n) (stream_pending (sk, files, h) (WBuffer b # ws))"
    using rm(3) le by simp
qed

lemma write_file_front:
  assumes inv: "stream_inv (sk, files, h) others (WFile f # ws)" and wr: "file_write_to_fd sk f = (n, f')"
  shows "stream_inv (sk, files, h) others (WFile f' # ws)"
    "stream_pending (sk, files, h) (WFile f' # ws) = drop (nat n) (stream_pending (sk, files, h) (WFile f # ws))"
proof -
  have pre: "socket_ok sk files" "file_ok files f" using inv by (simp_all add: stream_inv_def)
  note sp = file_write_spec [OF pre wr]
  show "stream_inv (sk, files, h) others (WFile f' # ws)" using inv sp(1) by (auto simp: stream_inv_def)
  show "stream_pending (sk, files, h) (WFile f' # ws) = drop (nat n) (stream_pending (sk, files, h) (WFile f # ws))"
    using sp(2,3) file_pending_length [OF pre(2)] by simp
qed

lemma write_front:
  assumes inv: "stream_inv (sk, files, h) others (w # ws)" and wr: "writeable_write sk h w = (n, w', h')"
  shows "stream_inv (sk, files, h') others (w' # ws) \<and>
    stream_pending (sk, files, h') (w' # ws) = drop (nat n) (stream_pending (sk, files, h) (w # ws)) \<and>
    (\<forall>c \<in> set others. contents h' c = contents h c)"
proof (cases w)
  case (WBuffer b)
  obtain b' where "write_to_fd h b (sock_writev sk) = (n, b', h')" "w' = WBuffer b'"
    using wr by (auto simp: WBuffer split: prod.splits)
  with write_buffer_front [of sk files h others b ws] inv show ?thesis by (simp add: WBuffer)
next
  case (WFile f)
  obtain f' where "file_write_to_fd sk f = (n, f')" "w' = WFile f'" "h' = h"
    using wr by (auto simp: WFile split: prod.splits)
  with write_file_front [of sk files h others f ws] inv show ?thesis by (simp add: WFile)
qed

lemma destroy_front:
  assumes inv: "stream_inv (sk, files, h) others (w # ws)" and eof: "writeable_eof w"
    and d: "writeable_destroy h w = (h', c)"
  shows "stream_inv (sk, files, h') others ws \<and>
    stream_pending (sk, files, h') ws = stream_pending (sk, files, h) (w # ws) \<and>
    (\<forall>b \<in> set others. contents h' b = contents h b)"
proof -
  have w: "w_ok (sk, files, h) w" using inv by (rule stream_inv_w_ok) simp
  have nil: "w_pending (sk, files, h) w = []" using ww.eof_iff [OF w] eof by (simp add: writeable_eof_def)
  show ?thesis
  proof (cases w)
    case (WBuffer b)
    have ok: "world_ok (others @ b # stream_bufs ws, h)" and wo: "writers_ok h (stream_bufs ws)" and h': "h' = Buffer_destroy h b"
      using inv d by (simp_all add: stream_inv_def WBuffer)
    note rm = remove_middle [OF ok wo, simplified]
    have "stream_pending (sk, files, h') ws = stream_pending (sk, files, h) ws"
      using rm(3) unfolding h' by (intro stream_pending_cong) simp
    then show ?thesis using inv rm nil by (simp add: stream_inv_def WBuffer h')
  next
    case (WFile f)
    then show ?thesis using inv d nil by (simp add: stream_inv_def)
  qed
qed

lemma write_into_output_spec:
  assumes inv: "stream_inv (sk, files, h) others (writeables s)" and wr: "write_into_output sk h s = (n, s', h')"
  shows "stream_inv (sk, files, h') others (writeables s') \<and>
    stream_pending (sk, files, h') (writeables s') = drop (nat n) (stream_pending (sk, files, h) (writeables s)) \<and>
    (\<forall>c \<in> set others. contents h' c = contents h c)"
proof (cases "writeables s")
  case Nil
  then show ?thesis using inv wr by (simp add: write_into_output_def)
next
  case (Cons w ws)
  obtain m w' h1 where w: "writeable_write sk h w = (m, w', h1)" by (cases "writeable_write sk h w")
  obtain h2 c where d: "writeable_destroy h1 w' = (h2, c)" by (cases "writeable_destroy h1 w'")
  note fr = write_front [OF inv [unfolded Cons] w]
  show ?thesis
  proof (cases "writeable_eof w'")
    case True
    have "n = m" "writeables s' = ws" "h' = h2" using wr w d True by (auto simp: write_into_output_def Cons Let_def)
    with destroy_front [OF conjunct1 [OF fr] True d] fr show ?thesis by (simp add: Cons del: stream_pending_simps)
  next
    case False
    have "n = m" "writeables s' = w' # ws" "h' = h1" using wr w False by (auto simp: write_into_output_def Cons Let_def)
    with fr show ?thesis by (simp add: Cons del: stream_pending_simps)
  qed
qed

section \<open>Appending to the stream\<close>

lemma append_new_buffer:
  assumes inv: "stream_inv (sk, files, h) others ws" and nw: "Buffer_new h = (b, h')"
  shows "stream_inv (sk, files, h') others (ws @ [WBuffer b]) \<and>
    stream_pending (sk, files, h') (ws @ [WBuffer b]) = stream_pending (sk, files, h) ws"
proof -
  have ok: "world_ok (others @ stream_bufs ws, h)" using inv by (simp add: stream_inv_def)
  have hok: "heap_ok h" using ok by (simp add: world_ok_def)
  note wn = world_new [OF ok nw] and sp = Buffer_new_spec [OF hok nw]
  have fields: "use_count h' (cow_ref b) = 1" "in_int_range b" "\<And>c. c \<noteq> cow_ref b \<Longrightarrow> use_count h' c = use_count h c"
    using nw by (auto simp: Buffer_new_def new_cow_info_def alloc_page_def heap_simps in_int_range_def)
  have old: "cow_ref d \<noteq> cow_ref b \<and> contents h' d = contents h d" if "d \<in> set (stream_bufs ws)" for d
    using sp that ok preserved_contents by (auto simp: world_ok_def)
  have "writers_ok h' (stream_bufs ws)" using inv old fields(3) by (auto simp: stream_inv_def writers_ok_def)
  then have "stream_inv (sk, files, h') others (ws @ [WBuffer b])"
    using inv wn fields by (auto simp: stream_inv_def)
  moreover have "stream_pending (sk, files, h') ws = stream_pending (sk, files, h) ws"
    using old by (intro stream_pending_cong) blast
  ultimately show ?thesis using sp by simp
qed

lemma append_last_buffer:
  assumes inv: "stream_inv (sk, files, h) others (ws @ [WBuffer b])" and ap: "append_data h b dat = (r, b', h')"
    and rng: "in_int_range b'"
  shows "stream_inv (sk, files, h') others (ws @ [WBuffer b']) \<and>
    stream_pending (sk, files, h') (ws @ [WBuffer b']) = stream_pending (sk, files, h) (ws @ [WBuffer b]) @ dat"
proof -
  have ok: "world_ok ((others @ stream_bufs ws) @ b # [], h)" and w: "writers_ok h (b # [] @ stream_bufs ws)"
    using inv by (simp_all add: stream_inv_def)
  have pre: "heap_ok h" "buf_ok h b" using ok by (simp_all add: world_ok_def)
  note rm = replace_middle [OF ok w _ conjunct2 [OF append_data_spec [OF pre ap]], simplified]
  have "stream_pending (sk, files, h') ws = stream_pending (sk, files, h) ws"
    using rm(4) by (intro stream_pending_cong) simp
  then show ?thesis using inv rm(1-3) rng by (auto simp: stream_inv_def)
qed

lemma in_int_range_append:
  assumes "heap_ok h" and "buf_ok h b" and "append_data h b dat = (r, b', h')" and "left_offset b + buf_size b + length dat < 2 ^ 31"
  shows "in_int_range b'"
proof -
  obtain b1 h1 where pw: "prepare_write h b = (b1, h1)" by (cases "prepare_write h b")
  have "left_offset b1 = left_offset b \<and> buf_size b1 = buf_size b"
    using prepare_write_spec [OF assms(1,2) pw] by blast
  moreover have "left_offset b' = left_offset b1 \<and> buf_size b' = buf_size b1 + length dat"
    using assms(3) pw by (auto simp: append_data_def append_owned_def Let_def split: if_splits prod.splits)
  ultimately show ?thesis using assms(4) by (simp add: in_int_range_def)
qed

definition room :: "writeable list \<Rightarrow> byte list \<Rightarrow> bool" where
  "room ws dat \<longleftrightarrow> length dat < 2 ^ 31 \<and> (\<forall>b. ws \<noteq> [] \<longrightarrow> last ws = WBuffer b \<longrightarrow> left_offset b + buf_size b + length dat < 2 ^ 31)"

lemma append_fresh_buffer:
  assumes inv: "stream_inv (sk, files, h) others ws" and nw: "Buffer_new h = (b, h1)"
    and ap: "append_data h1 b dat = (r, b', h')" and rm: "length dat < 2 ^ 31"
  shows "r \<and> stream_inv (sk, files, h') others (ws @ [WBuffer b']) \<and>
    stream_pending (sk, files, h') (ws @ [WBuffer b']) = stream_pending (sk, files, h) ws @ dat"
proof -
  note n = append_new_buffer [OF inv nw]
  have pre: "heap_ok h1" "buf_ok h1 b" using n by (simp_all add: stream_inv_def world_ok_def)
  have "left_offset b = 0 \<and> buf_size b = 0" using nw by (auto simp: Buffer_new_def split: prod.splits)
  then have "in_int_range b'" using in_int_range_append [OF pre ap] rm by simp
  from append_last_buffer [OF conjunct1 [OF n] ap this] n append_data_spec [OF pre ap] show ?thesis by simp
qed

lemma stream_append_data_spec:
  assumes inv: "stream_inv (sk, files, h) others (writeables s)" and rm: "room (writeables s) dat"
    and ap: "stream_append_data h s dat = (s', h')"
  shows "stream_inv (sk, files, h') others (writeables s') \<and>
    stream_pending (sk, files, h') (writeables s') = stream_pending (sk, files, h) (writeables s) @ dat"
proof -
  consider "writeables s = []" | ws b where "writeables s = ws @ [WBuffer b]" | ws f where "writeables s = ws @ [WFile f]"
    by (metis append_butlast_last_id writeable.exhaust)
  then show ?thesis
  proof cases
    case 1
    obtain b h1 where nw: "Buffer_new h = (b, h1)" by (cases "Buffer_new h")
    obtain r b' h2 where a: "append_data h1 b dat = (r, b', h2)" by (rule prod_cases3)
    have "r" "stream_inv (sk, files, h2) others ([] @ [WBuffer b']) \<and>
        stream_pending (sk, files, h2) ([] @ [WBuffer b']) = stream_pending (sk, files, h) [] @ dat"
      using append_fresh_buffer [OF inv [unfolded 1] nw a] rm by (simp_all add: room_def)
    then show ?thesis using ap nw a by (auto simp: stream_append_data_def 1 Let_def)
  next
    case 2
    obtain r b' h2 where a: "append_data h b dat = (r, b', h2)" by (rule prod_cases3)
    have pre: "heap_ok h" "buf_ok h b" using inv by (simp_all add: 2 stream_inv_def world_ok_def)
    have "in_int_range b'" using in_int_range_append [OF pre a] rm by (simp add: 2 room_def)
    from append_last_buffer [OF inv [unfolded 2] a this] append_data_spec [OF pre a] show ?thesis
      using ap a by (auto simp: stream_append_data_def 2 Let_def simp del: stream_pending_simps)
  next
    case 3
    obtain b h1 where nw: "Buffer_new h = (b, h1)" by (cases "Buffer_new h")
    obtain r b' h2 where a: "append_data h1 b dat = (r, b', h2)" by (rule prod_cases3)
    from append_fresh_buffer [OF inv nw a] rm have
      "stream_inv (sk, files, h2) others (writeables s @ [WBuffer b']) \<and>
        stream_pending (sk, files, h2) (writeables s @ [WBuffer b']) = stream_pending (sk, files, h) (writeables s) @ dat"
      by (simp add: room_def)
    then show ?thesis using ap nw a by (auto simp: stream_append_data_def 3 Let_def simp del: stream_pending_simps)
  qed
qed

lemma stream_append_buffer_spec:
  assumes inv: "stream_inv (sk, files, h) others (writeables s)" and b: "b \<in> set others" and rng: "in_int_range b"
    and ap: "stream_append_buffer h s b = (n, s', h')"
  shows "n = length (contents h b) \<and> stream_inv (sk, files, h') others (writeables s') \<and>
    stream_pending (sk, files, h') (writeables s') = stream_pending (sk, files, h) (writeables s) @ contents h b"
proof -
  let ?ws = "writeables s" and ?c = "b\<lparr>borrowed := True\<rparr>"
  have ok: "world_ok (others @ stream_bufs ?ws, h)" using inv by (simp add: stream_inv_def)
  have eqs: "n = buf_size b" "writeables s' = ?ws @ [WBuffer ?c]" "h' = retain h (cow_ref b)"
    using ap by (auto simp: stream_append_buffer_def Buffer_copy_def)
  obtain i where i: "i < length others" "others ! i = b" using b by (auto simp: in_set_conv_nth)
  have cp: "Buffer_copy h ((others @ stream_bufs ?ws) ! i) = (?c, h')"
    using i by (simp add: Buffer_copy_def eqs nth_append)
  note wc = world_copy [OF ok _ cp]
  have conts: "contents h' d = contents h d" for d by (simp add: eqs contents_def retain_def buf_pages_def)
  have bok: "buf_ok h b" using ok b by (simp add: world_ok_def)
  have "borrowed d \<or> use_count h' (cow_ref d) = 1" if d: "d \<in> set (stream_bufs ?ws)" for d
  proof (cases "borrowed d")
    case False
    then have one: "use_count h (cow_ref d) = 1" using inv d by (auto simp: stream_inv_def writers_ok_def)
    obtain j where j: "j < length (stream_bufs ?ws)" "stream_bufs ?ws ! j = d" using d by (auto simp: in_set_conv_nth)
    have "cow_ref b \<noteq> cow_ref d"
    proof
      assume "cow_ref b = cow_ref d"
      then have "2 \<le> count_list (map cow_ref (others @ stream_bufs ?ws)) (cow_ref d)"
        using i j by (intro count_list_two [of i _ "length others + j"]) (auto simp: nth_append)
      then show False using one ok by (simp add: world_ok_def refs_ok_def)
    qed
    then show ?thesis using one by (simp add: eqs retain_def)
  qed simp
  then have "stream_inv (sk, files, h') others (writeables s')"
    using inv wc i rng by (auto simp: eqs(2) stream_inv_def writers_ok_def in_int_range_def)
  moreover have "stream_pending (sk, files, h') ?ws = stream_pending (sk, files, h) ?ws"
    using conts by (intro stream_pending_cong) blast
  ultimately show ?thesis using contents_length [OF bok] conts [of ?c]
    by (simp add: eqs(1,2)) (simp add: contents_def buf_pages_def)
qed

section \<open>Memory accounting\<close>

definition stream_mem :: "writeable list \<Rightarrow> 64 word" where
  "stream_mem ws = sum_list (map (\<lambda>w. word_of_nat (writeable_memory_usage w)) ws)"

lemma eof_memory: "writeable_eof w \<Longrightarrow> writeable_memory_usage w = 0"
  by (cases w) (simp_all add: writeable_eof_def)

text \<open>Writing keeps the difference between the counter and the memory really held.\<close>

lemma write_memory:
  assumes "write_into_output sk h s = (n, s', h')"
  shows "stream_memory s' - stream_mem (writeables s') = stream_memory s - stream_mem (writeables s)"
proof (cases "writeables s")
  case Nil
  then show ?thesis using assms by (simp add: write_into_output_def)
next
  case (Cons w ws)
  obtain m w' h1 where w: "writeable_write sk h w = (m, w', h1)" by (cases "writeable_write sk h w")
  show ?thesis using assms w eof_memory [of w']
    by (auto simp: write_into_output_def Cons stream_mem_def Let_def split: if_splits prod.splits)
qed

lemma append_size: "append_data h b dat = (r, b', h') \<Longrightarrow> buf_size b' = buf_size b + length dat"
  by (auto simp: append_data_def append_owned_def prepare_write_def copy_for_write_def Let_def split: if_splits prod.splits)

lemma append_true: "append_data h b dat = (r, b', h') \<Longrightarrow> r"
  by (auto simp: append_data_def split: prod.splits)

lemma append_memory:
  assumes "stream_append_data h s dat = (s', h')"
  shows "stream_memory s' - stream_mem (writeables s') = stream_memory s - stream_mem (writeables s)"
proof -
  obtain b h1 where nw: "Buffer_new h = (b, h1)" by (cases "Buffer_new h")
  obtain r b' h2 where a: "append_data h1 b dat = (r, b', h2)" by (rule prod_cases3)
  have z: "buf_size b = 0" using nw by (auto simp: Buffer_new_def split: prod.splits)
  consider "writeables s = []" | ws b where "writeables s = ws @ [WBuffer b]" | ws f where "writeables s = ws @ [WFile f]"
    by (metis append_butlast_last_id writeable.exhaust)
  then show ?thesis
  proof cases
    case (2 ws c)
    obtain r3 c' h3 where c: "append_data h c dat = (r3, c', h3)" by (rule prod_cases3)
    show ?thesis using assms append_size [OF c] append_true [OF c]
      by (auto simp: stream_append_data_def 2 c stream_mem_def Let_def)
  qed (use assms nw a z append_size [OF a] append_true [OF a] in \<open>auto simp: stream_append_data_def stream_mem_def Let_def\<close>)
qed

lemma append_file_memory:
  assumes "append_file st s fd off len = (n, s')"
  shows "stream_memory s' - stream_mem (writeables s') = stream_memory s - stream_mem (writeables s)"
  using assms by (auto simp: append_file_def stream_mem_def Let_def)

lemma append_buffer_memory:
  assumes "stream_append_buffer h s b = (n, s', h')"
  shows "stream_memory s' - stream_mem (writeables s') = stream_memory s - stream_mem (writeables s) - word_of_nat (buf_size b)"
  using assms by (auto simp: stream_append_buffer_def Buffer_copy_def stream_mem_def)

section \<open>Properties\<close>


definition greedy_socket :: socket where
  "greedy_socket = \<lparr>sock_writev = (\<lambda>bs. int (length bs)), sock_sendfile = (\<lambda>fd off n. 0)\<rparr>"

lemma greedy_socket_ok: "socket_ok greedy_socket files"
  by (simp add: socket_ok_def greedy_socket_def)

lemma filled_stream_inv:
  "stream_inv (greedy_socket, \<lambda>_. [], snd (filled_buffer [5])) [fst (filled_buffer [5])] []"
proof -
  have ok: "world_ok ([], empty_heap)" by (rule empty_world_ok)
  obtain b h where nw: "Buffer_new empty_heap = (b, h)" by (cases "Buffer_new empty_heap")
  have w1: "world_ok ([b], h)" using world_new [OF ok nw] by simp
  obtain r b' h' where ap: "append_data h b [5] = (r, b', h')" by (rule prod_cases3)
  have "world_ok ([b'], h')" using exec_append [OF w1 writer_single [OF w1], of "[5]"] ap by simp
  moreover have "filled_buffer [5] = (b', h')" by (simp add: filled_buffer_def nw ap)
  ultimately show ?thesis by (simp add: stream_inv_def greedy_socket_ok)
qed


text \<open>Appending to a stream adds exactly the appended bytes behind everything pending: bytes by
  \<open>append_data\<close>, whether the last element is a buffer, a file or absent, and the contents of another live
  buffer by \<open>append_buffer\<close>, as long as sizes fit an \<open>int\<close>.\<close>

lemma stream_append_at_end:
  assumes "stream_inv (sk, files, h) others (writeables s)"
  shows "(room (writeables s) dat \<longrightarrow> stream_append_data h s dat = (s1, h1) \<longrightarrow>
      stream_inv (sk, files, h1) others (writeables s1) \<and>
      stream_pending (sk, files, h1) (writeables s1) = stream_pending (sk, files, h) (writeables s) @ dat) \<and>
    (b \<in> set others \<longrightarrow> in_int_range b \<longrightarrow> stream_append_buffer h s b = (n, s2, h2) \<longrightarrow>
      n = length (contents h b) \<and> stream_inv (sk, files, h2) others (writeables s2) \<and>
      stream_pending (sk, files, h2) (writeables s2) = stream_pending (sk, files, h) (writeables s) @ contents h b)"
  using stream_append_data_spec [OF assms] stream_append_buffer_spec [OF assms] by blast

text \<open>The memory counter of an output stream is exact under \<open>append_data\<close>, \<open>append_file\<close> and
  writing: if it equals the bytes held in the stream's buffers (modulo \<open>2^64\<close>) it still does afterwards.\<close>

lemma stream_memory_exact:
  assumes "stream_memory s = stream_mem (writeables s)"
  shows "(write_into_output sk h s = (n, s1, h1) \<longrightarrow> stream_memory s1 = stream_mem (writeables s1)) \<and>
    (stream_append_data h s dat = (s2, h2) \<longrightarrow> stream_memory s2 = stream_mem (writeables s2)) \<and>
    (append_file st s fd off len = (k, s3) \<longrightarrow> stream_memory s3 = stream_mem (writeables s3))"
  using assms write_memory [of sk h s n s1 h1] append_memory [of h s dat s2 h2] append_file_memory [of st s fd off len k s3]
  by auto

text \<open>\<open>append_buffer\<close> does not count the bytes it adds, but writing them out is subtracted: once a
  stream that was given a buffer of \<open>n\<close> bytes is drained, its memory counter has wrapped around to
  \<open>2^64 - n\<close>.\<close>

lemma append_buffer_memory_wraps:
  assumes "stream_memory s = stream_mem (writeables s)" and "stream_append_buffer h s b = (n, s1, h1)"
    and "write_into_output sk h1 s1 = (k, s2, h2)" and "is_done s2"
  shows "stream_memory s2 = - word_of_nat (buf_size b)"
proof -
  have "stream_memory s2 - stream_mem (writeables s2) = - word_of_nat (buf_size b)"
    using write_memory [OF assms(3)] append_buffer_memory [OF assms(2)] assms(1) by simp
  then show ?thesis using assms(4) by (simp add: is_done_def stream_mem_def)
qed

end
