(* ===== verification/Stages.thy ===== *)
theory Stages
  imports Scheduler Poller Timer Stream "HOL-Library.Monad_Syntax"
begin

text \<open>
  Connections (\<^verbatim>\<open>src/core/pipeline.{h,cc}\<close>), the pipeline's disposal of them, and the stages of
  \<^verbatim>\<open>src/core/stages.{h,cc}\<close>.  A connection is a number; its object is in the table \<open>conns\<close>.  A
  poll stage owns pollers, each with its descriptor table, timer and list of expired connections.
  The queues of the scheduler stages are lists of connections (theory \<open>Scheduler\<close> relates
  them to the code).  Parameters: the clock \<open>now\<close>, whether the kernel accepts a registration, and the results
  of the reads and writes on the socket.  \<open>None\<close> is a failed assertion, a modulo by zero or an
  invalid iterator.
\<close>

unbundle bit_operations_syntax

section \<open>Connections\<close>

definition kFlagCorkEnabled :: "32 word" where "kFlagCorkEnabled = 0x01"
definition kFlagActive :: "32 word" where "kFlagActive = 0x02"
definition kFlagCloseAfterFinish :: "32 word" where "kFlagCloseAfterFinish = 0x04"
definition kFlagUrgent :: "32 word" where "kFlagUrgent = 0x08"

record connection =
  c_fd :: nat
  c_timeout :: int
  c_flags :: "32 word"
  c_last_active :: int
  c_locked :: bool
  c_continuation :: bool
  c_cork :: bool

definition is_cork_enabled :: "connection \<Rightarrow> bool" where
  "is_cork_enabled c \<longleftrightarrow> c_flags c AND kFlagCorkEnabled \<noteq> 0"

definition is_active :: "connection \<Rightarrow> bool" where
  "is_active c \<longleftrightarrow> c_flags c AND kFlagActive \<noteq> 0"

definition is_close_after_finish :: "connection \<Rightarrow> bool" where
  "is_close_after_finish c \<longleftrightarrow> c_flags c AND kFlagCloseAfterFinish \<noteq> 0"

definition is_urgent :: "connection \<Rightarrow> bool" where
  "is_urgent c \<longleftrightarrow> c_flags c AND kFlagUrgent \<noteq> 0"

definition set_flag :: "32 word \<Rightarrow> bool \<Rightarrow> connection \<Rightarrow> connection" where
  "set_flag m v c = (if v then c\<lparr>c_flags := c_flags c OR m\<rparr> else c\<lparr>c_flags := c_flags c AND NOT m\<rparr>)"

definition set_cork_enabled :: "bool \<Rightarrow> connection \<Rightarrow> connection" where
  "set_cork_enabled v c = set_flag kFlagCorkEnabled v c"

definition set_active :: "bool \<Rightarrow> connection \<Rightarrow> connection" where
  "set_active v c = set_flag kFlagActive v c"

definition set_close_after_finish :: "bool \<Rightarrow> connection \<Rightarrow> connection" where
  "set_close_after_finish v c = set_flag kFlagCloseAfterFinish v c"

definition set_urgent :: "bool \<Rightarrow> connection \<Rightarrow> connection" where
  "set_urgent v c = set_flag kFlagUrgent v c"

definition timer_sched_time :: "connection \<Rightarrow> int" where
  "timer_sched_time c = c_last_active c + timer_unit_from_time (c_timeout c)"

definition update_last_active :: "int \<Rightarrow> connection \<Rightarrow> bool \<times> connection" where
  "update_last_active now c =
    (let current_unit = timer_unit_from_time now
     in if c_last_active c = current_unit then (False, c) else (True, c\<lparr>c_last_active := current_unit\<rparr>))"

definition Connection :: "int \<Rightarrow> nat \<Rightarrow> connection" where
  "Connection now sock =
    (let c = \<lparr>c_fd = sock, c_timeout = 0, c_flags = 0, c_last_active = 0, c_locked = False, c_continuation = False, c_cork = False\<rparr>
     in (snd (update_last_active now c))\<lparr>c_flags := kFlagCorkEnabled OR kFlagActive\<rparr>)"

definition set_cork :: "connection \<Rightarrow> connection" where
  "set_cork c = (if \<not> is_cork_enabled c then c else c\<lparr>c_cork := True\<rparr>)"

definition clear_cork :: "connection \<Rightarrow> connection" where
  "clear_cork c = (if \<not> is_cork_enabled c then c else c\<lparr>c_cork := False\<rparr>)"

definition io_timeout :: "int \<Rightarrow> int \<times> int" where
  "io_timeout msec = (msec sdiv 1000, (msec smod 1000) * 1000)"

section \<open>World\<close>

record poll_state =
  p_fds :: "nat fdmap"
  p_timer :: "unit timer_tree"
  p_last_executed :: int
  p_expired :: "nat list"

record world =
  conns :: "nat \<Rightarrow> connection"
  in_pollers :: "poll_state list"
  in_current :: nat
  out_pollers :: "poll_state list"
  out_current :: nat
  parser_q :: "nat list"
  block_q :: "nat list"
  shut_fds :: "nat list"
  closed_socks :: "nat list"
  disposed :: "nat list"

text \<open>Which registrations and removals the kernel accepts.\<close>

record kernel =
  k_add :: "nat \<Rightarrow> bool"
  k_remove :: "nat \<Rightarrow> bool"

definition upd_conn :: "nat \<Rightarrow> (connection \<Rightarrow> connection) \<Rightarrow> world \<Rightarrow> world" where
  "upd_conn c f w = w\<lparr>conns := (conns w)(c := f (conns w c))\<rparr>"

definition w_fd :: "world \<Rightarrow> nat \<Rightarrow> nat" where
  "w_fd w c = c_fd (conns w c)"

definition try_lock :: "nat \<Rightarrow> world \<Rightarrow> bool \<times> world" where
  "try_lock c w = (if c_locked (conns w c) then (False, w) else (True, upd_conn c (c_locked_update (\<lambda>_. True)) w))"

definition unlock :: "nat \<Rightarrow> world \<Rightarrow> world" where
  "unlock c w = upd_conn c (c_locked_update (\<lambda>_. False)) w"

definition set_in_poller :: "nat \<Rightarrow> poll_state \<Rightarrow> world \<Rightarrow> world" where
  "set_in_poller i p w = w\<lparr>in_pollers := (in_pollers w)[i := p]\<rparr>"

definition set_out_poller :: "nat \<Rightarrow> poll_state \<Rightarrow> world \<Rightarrow> world" where
  "set_out_poller i p w = w\<lparr>out_pollers := (out_pollers w)[i := p]\<rparr>"

section \<open>PollStage\<close>

definition kDefaultTimeout :: int where "kDefaultTimeout = kUnitGran"

definition update_connection_timer :: "int \<Rightarrow> nat \<Rightarrow> connection \<Rightarrow> unit timer_tree \<Rightarrow> connection \<times> unit timer_tree" where
  "update_connection_timer now c conn t =
    (let oldfuture = timer_sched_time conn
     in case update_last_active now conn of
          (False, conn') \<Rightarrow> (conn', t)
        | (True, conn') \<Rightarrow>
           (conn', timer_replace (timer_sched_time conn') (int c) () (snd (timer_remove oldfuture (int c) t))))"

text \<open>The condition in \<open>trigger_timer_callback\<close>.\<close>

definition timer_due :: "int \<Rightarrow> int \<Rightarrow> poll_state \<Rightarrow> bool" where
  "timer_due now tmo p \<longleftrightarrow> p_last_executed p + timer_unit_from_time tmo \<le> timer_unit_from_time now"

section \<open>PollInStage\<close>

definition kMaxRecycleCount :: nat where "kMaxRecycleCount = 50"

definition in_events :: "16 word" where
  "in_events = kPollerEventRead OR kPollerEventHup OR kPollerEventError"

definition in_sched_add :: "kernel \<Rightarrow> nat \<Rightarrow> world \<Rightarrow> (bool \<times> world) option" where
  "in_sched_add k c w =
    (if in_pollers w = [] then None
     else let cur = (in_current w + 1) mod length (in_pollers w);
              p = in_pollers w ! cur;
              t = timer_replace (timer_sched_time (conns w c)) (int c) () (p_timer p)
          in do {
            (r, fds) \<leftarrow> add_fd (k_add k (w_fd w c)) (p_fds p) (w_fd w c) c;
            Some (r, set_in_poller cur (p\<lparr>p_timer := t, p_fds := fds\<rparr>) (w\<lparr>in_current := cur\<rparr>))
          })"

text \<open>The loop of \<open>sched_remove_nolock\<close> over the pollers: the first that has the descriptor gives it up.\<close>

fun remove_from_pollers ::
  "kernel \<Rightarrow> nat \<Rightarrow> connection \<Rightarrow> bool \<Rightarrow> poll_state list \<Rightarrow> (bool \<times> poll_state list) option" where
  "remove_from_pollers k c conn recycle [] = Some (False, [])"
| "remove_from_pollers k c conn recycle (p # ps) =
    do {
      (r, fds) \<leftarrow> remove_fd (k_remove k (c_fd conn)) (p_fds p) (c_fd conn);
      if r
      then Some (True, p\<lparr>p_fds := fds, p_timer := snd (timer_remove (timer_sched_time conn) (int c) (p_timer p)),
                         p_expired := (if recycle then p_expired p @ [c] else p_expired p)\<rparr> # ps)
      else do { (r', ps') \<leftarrow> remove_from_pollers k c conn recycle ps; Some (r', p\<lparr>p_fds := fds\<rparr> # ps') }
    }"

definition sched_remove_nolock :: "kernel \<Rightarrow> nat \<Rightarrow> bool \<Rightarrow> world \<Rightarrow> world option" where
  "sched_remove_nolock k c recycle w =
    do {
      (found, ps) \<leftarrow> remove_from_pollers k c (conns w c) recycle (in_pollers w);
      let w' = w\<lparr>in_pollers := ps\<rparr>;
      if found \<or> \<not> recycle then Some w'
      else if in_current w < length ps
      then let p = ps ! in_current w
           in Some (w'\<lparr>in_pollers := ps[in_current w := p\<lparr>p_expired := p_expired p @ [c]\<rparr>],
                       in_current := (in_current w + 1) mod length ps\<rparr>)
      else None
    }"

definition in_sched_remove :: "kernel \<Rightarrow> nat \<Rightarrow> world \<Rightarrow> world option" where
  "in_sched_remove k c w = sched_remove_nolock k c False w"

definition shutdown_conn :: "nat \<Rightarrow> world \<Rightarrow> world" where
  "shutdown_conn c w = w\<lparr>shut_fds := shut_fds w @ [w_fd w c]\<rparr>"

text \<open>\<open>cleanup_connection (Connection*)\<close>, which is also \<open>Connection::active_close\<close>.\<close>

definition active_close :: "kernel \<Rightarrow> nat \<Rightarrow> world \<Rightarrow> world option" where
  "active_close k c w =
    (if is_active (conns w c)
     then sched_remove_nolock k c True (shutdown_conn c (upd_conn c (set_active False) w))
     else Some w)"

text \<open>\<open>cleanup_connection (Poller&, Connection*)\<close>, on the poller with index \<open>i\<close>.\<close>

definition in_cleanup :: "kernel \<Rightarrow> nat \<Rightarrow> nat \<Rightarrow> world \<Rightarrow> world option" where
  "in_cleanup k i c w =
    (if is_active (conns w c)
     then let oldfuture = timer_sched_time (conns w c);
              w1 = shutdown_conn c (upd_conn c (set_active False) w);
              p = in_pollers w1 ! i
          in do {
            (_, fds) \<leftarrow> remove_fd (k_remove k (w_fd w c)) (p_fds p) (w_fd w c);
            Some (set_in_poller i (p\<lparr>p_fds := fds, p_timer := snd (timer_remove oldfuture (int c) (p_timer p)),
                                     p_expired := p_expired p @ [c]\<rparr>) w1)
          }
     else Some w)"

definition in_idle_callback :: "kernel \<Rightarrow> nat \<Rightarrow> nat \<Rightarrow> world \<Rightarrow> (bool \<times> world) option" where
  "in_idle_callback k i c w =
    (case try_lock c w of
       (False, w1) \<Rightarrow> Some (False, w1)
     | (True, w1) \<Rightarrow>
        let w2 = shutdown_conn c w1; p = in_pollers w2 ! i
        in do {
          (_, fds) \<leftarrow> remove_fd (k_remove k (w_fd w c)) (p_fds p) (w_fd w c);
          let w3 = set_in_poller i (p\<lparr>p_fds := fds, p_expired := p_expired p @ [c]\<rparr>) w2;
          Some (True, unlock c w3)
        })"

definition kMaxReadThreshold :: int where "kMaxReadThreshold = 256 * 1024"

text \<open>The reading loop: \<open>rd n\<close> is the result of the \<open>n\<close>-th read.  The result is \<open>nread\<close> after the loop.\<close>

function read_loop :: "(nat \<Rightarrow> int) \<Rightarrow> nat \<Rightarrow> int \<Rightarrow> int" where
  "read_loop rd n nread =
    (let rs = rd n
     in if rs \<le> 0 then rs
        else let nread' = nread + rs in if nread' < kMaxReadThreshold then read_loop rd (Suc n) nread' else nread')"
  by pat_completeness auto
termination by (relation "measure (\<lambda>(rd, n, nread). nat (kMaxReadThreshold - nread))") auto

declare read_loop.simps [simp del]

text \<open>\<open>again\<close>: \<open>errno\<close> is \<open>EAGAIN\<close> or \<open>EWOULDBLOCK\<close> after the last read.\<close>

definition read_connection :: "kernel \<Rightarrow> int \<Rightarrow> (nat \<Rightarrow> int) \<Rightarrow> bool \<Rightarrow> nat \<Rightarrow> nat \<Rightarrow> world \<Rightarrow> world option" where
  "read_connection k now rd again i c w =
    (case try_lock c w of
       (False, w1) \<Rightarrow> Some w1
     | (True, w1) \<Rightarrow>
        let p = in_pollers w1 ! i;
            (conn, t) = update_connection_timer now c (conns w1 c) (p_timer p);
            w2 = set_in_poller i (p\<lparr>p_timer := t\<rparr>) (upd_conn c (\<lambda>_. conn) w1);
            nread = read_loop rd 0 0
        in do {
          w3 \<leftarrow> (if nread < 0 \<and> again then Some (w2\<lparr>parser_q := queue_add (w_fd w2) c (parser_q w2)\<rparr>)
                  else in_cleanup k i c w2);
          Some (unlock c w3)
        })"

definition in_handle_connection ::
  "kernel \<Rightarrow> int \<Rightarrow> (nat \<Rightarrow> int) \<Rightarrow> bool \<Rightarrow> nat \<Rightarrow> nat \<Rightarrow> 16 word \<Rightarrow> world \<Rightarrow> world option" where
  "in_handle_connection k now rd again i c evt w =
    (if evt AND kPollerEventHup \<noteq> 0 \<or> evt AND kPollerEventError \<noteq> 0
     then (case try_lock c w of
         (True, w1) \<Rightarrow> do { w2 \<leftarrow> in_cleanup k i c w1; Some (unlock c w2) }
       | (False, w1) \<Rightarrow> Some w1)
     else if evt AND kPollerEventRead \<noteq> 0 then read_connection k now rd again i c w
     else Some w)"

section \<open>Disposal\<close>

text \<open>\<open>Pipeline::dispose_connection\<close>: every stage but the poll-in stage drops the connection.\<close>

definition dispose_connection :: "nat \<Rightarrow> world \<Rightarrow> bool \<times> world" where
  "dispose_connection c w =
    (case try_lock c w of
       (False, w1) \<Rightarrow> (False, w1)
     | (True, w1) \<Rightarrow>
        let w2 = w1\<lparr>parser_q := queue_remove (w_fd w1) c (parser_q w1), block_q := queue_remove (w_fd w1) c (block_q w1)\<rparr>;
            w3 = w2\<lparr>closed_socks := closed_socks w2 @ [w_fd w2 c]\<rparr>;
            w4 = unlock c w3
        in (True, w4\<lparr>disposed := disposed w4 @ [c]\<rparr>))"

text \<open>The loop of \<open>post_handle_connection\<close>: at most \<open>kMaxRecycleCount\<close> of the expired connections are
  disposed of, those that are locked stay.\<close>

fun recycle_loop :: "nat \<Rightarrow> nat list \<Rightarrow> world \<Rightarrow> nat list \<times> world" where
  "recycle_loop cnt [] w = ([], w)"
| "recycle_loop cnt (c # cs) w =
    (if cnt < kMaxRecycleCount
     then (case dispose_connection c w of
         (True, w1) \<Rightarrow> recycle_loop (Suc cnt) cs w1
       | (False, w1) \<Rightarrow> let (rest, w2) = recycle_loop cnt cs w1 in (c # rest, w2))
     else (c # cs, w))"

definition recycle :: "nat \<Rightarrow> world \<Rightarrow> world" where
  "recycle i w =
    (let (rest, w1) = recycle_loop 0 (p_expired (in_pollers w ! i)) w
     in set_in_poller i ((in_pollers w1 ! i)\<lparr>p_expired := rest\<rparr>) w1)"

definition enable_poll :: "kernel \<Rightarrow> nat \<Rightarrow> world \<Rightarrow> world option" where
  "enable_poll k c w = (if is_active (conns w c) then map_option snd (in_sched_add k c w) else Some w)"

definition disable_poll :: "kernel \<Rightarrow> nat \<Rightarrow> world \<Rightarrow> world option" where
  "disable_poll k c w = in_sched_remove k c w"

text \<open>The timer walk of a poller: the callbacks are all \<open>cleanup_idle_connection_callback\<close>.\<close>

definition in_invoke :: "kernel \<Rightarrow> nat \<Rightarrow> (unit, world option) invoke" where
  "in_invoke k i u x st =
    (case fst st of
       None \<Rightarrow> (False, None, snd st)
     | Some w \<Rightarrow>
        (case in_idle_callback k i (nat x) w of
           None \<Rightarrow> (False, None, snd st)
         | Some (r, w') \<Rightarrow> (r, Some w', snd st)))"

definition in_trigger_timer :: "kernel \<Rightarrow> bool \<Rightarrow> int \<Rightarrow> int \<Rightarrow> nat \<Rightarrow> world \<Rightarrow> world option" where
  "in_trigger_timer k mutex_free now tmo i w =
    (if mutex_free \<and> timer_due now tmo (in_pollers w ! i)
     then do {
       (wo, t) \<leftarrow> process_callbacks (in_invoke k i) now (Some w, p_timer (in_pollers w ! i));
       w1 \<leftarrow> wo;
       Some (set_in_poller i ((in_pollers w1 ! i)\<lparr>p_timer := t, p_last_executed := timer_unit_from_time now\<rparr>) w1)
     }
     else Some w)"

text \<open>\<open>post_handle_connection\<close> tries the stage's mutex twice.\<close>

definition in_post_handle :: "kernel \<Rightarrow> bool \<Rightarrow> bool \<Rightarrow> int \<Rightarrow> int \<Rightarrow> nat \<Rightarrow> world \<Rightarrow> world option" where
  "in_post_handle k timer_mutex recycle_mutex now tmo i w =
    do { w1 \<leftarrow> in_trigger_timer k timer_mutex now tmo i w; Some (if recycle_mutex then recycle i w1 else w1) }"

section \<open>Scheduler stages\<close>

text \<open>One round of \<open>Stage::main_loop\<close> on a picked connection: \<open>process_task\<close> returns a negative number to
  keep the lock.\<close>

definition stage_round :: "(nat \<Rightarrow> world \<Rightarrow> (int \<times> world) option) \<Rightarrow> nat \<Rightarrow> world \<Rightarrow> world option" where
  "stage_round process_task c w = do { (r, w1) \<leftarrow> process_task c w; Some (if r \<ge> 0 then unlock c w1 else w1) }"

section \<open>BlockOutStage\<close>

definition block_sched_add :: "kernel \<Rightarrow> nat \<Rightarrow> world \<Rightarrow> world option" where
  "block_sched_add k c w =
    do { w1 \<leftarrow> disable_poll k c (upd_conn c set_cork w); Some (w1\<lparr>block_q := queue_add (w_fd w1) c (block_q w1)\<rparr>) }"

text \<open>\<open>rs\<close> is what \<open>write_into_output\<close> returned, \<open>out_done\<close> whether the output stream is empty afterwards.\<close>

definition block_process_task :: "kernel \<Rightarrow> int \<Rightarrow> bool \<Rightarrow> nat \<Rightarrow> world \<Rightarrow> (int \<times> world) option" where
  "block_process_task k rs out_done c w =
    (let has_error = (rs < 0)
     in if \<not> out_done \<and> rs > 0 then Some (-1, w\<lparr>block_q := queue_add (w_fd w) c (block_q w)\<rparr>)
        else let w1 = upd_conn c clear_cork w
             in do {
               w2 \<leftarrow> (if is_close_after_finish (conns w1 c) \<or> has_error then active_close k c w1 else enable_poll k c w1);
               Some (0, w2)
             })"

section \<open>PollOutStage\<close>

definition out_sched_add :: "kernel \<Rightarrow> int \<Rightarrow> nat \<Rightarrow> world \<Rightarrow> (bool \<times> world) option" where
  "out_sched_add k now c w =
    (if out_pollers w = [] then None
     else let cur = (out_current w + 1) mod length (out_pollers w)
          in do {
            w1 \<leftarrow> disable_poll k c (w\<lparr>out_current := cur\<rparr>);
            let w2 = upd_conn c (\<lambda>x. snd (update_last_active now (set_cork x))) w1;
            let p = out_pollers w2 ! cur;
            (r, fds) \<leftarrow> add_fd (k_add k (w_fd w2 c)) (p_fds p) (w_fd w2 c) c;
            Some (r, set_out_poller cur (p\<lparr>p_fds := fds\<rparr>) w2)
          })"

definition out_cleanup :: "kernel \<Rightarrow> nat \<Rightarrow> nat \<Rightarrow> world \<Rightarrow> world option" where
  "out_cleanup k i c w =
    (let p = out_pollers w ! i
     in do {
       (_, fds) \<leftarrow> remove_fd (k_remove k (w_fd w c)) (p_fds p) (w_fd w c);
       let t = snd (timer_remove (timer_sched_time (conns w c)) (int c) (p_timer p));
       Some (unlock c (set_out_poller i (p\<lparr>p_fds := fds, p_timer := t\<rparr>) w))
     })"

definition out_idle_callback :: "kernel \<Rightarrow> nat \<Rightarrow> nat \<Rightarrow> world \<Rightarrow> (bool \<times> world) option" where
  "out_idle_callback k i c w =
    do {
      w1 \<leftarrow> active_close k c (upd_conn c clear_cork w);
      let p = out_pollers w1 ! i;
      (_, fds) \<leftarrow> remove_fd (k_remove k (w_fd w1 c)) (p_fds p) (w_fd w1 c);
      Some (True, unlock c (set_out_poller i (p\<lparr>p_fds := fds\<rparr>) w1))
    }"

definition kMaxWriteThreshold :: int where "kMaxWriteThreshold = 1024 * 1024"

function write_loop :: "(nat \<Rightarrow> int) \<Rightarrow> nat \<Rightarrow> int \<Rightarrow> int" where
  "write_loop wr n nwrite =
    (let rs = wr n
     in if rs \<le> 0 then rs
        else let nwrite' = nwrite + rs in if nwrite' < kMaxWriteThreshold then write_loop wr (Suc n) nwrite' else nwrite')"
  by pat_completeness auto
termination by (relation "measure (\<lambda>(wr, n, nwrite). nat (kMaxWriteThreshold - nwrite))") auto

declare write_loop.simps [simp del]

text \<open>\<open>resched\<close> is the virtual \<open>resched_continuation\<close> of the connection.\<close>

definition out_handle_connection ::
  "kernel \<Rightarrow> int \<Rightarrow> (nat \<Rightarrow> int) \<Rightarrow> bool \<Rightarrow> bool \<Rightarrow> (nat \<Rightarrow> world \<Rightarrow> world) \<Rightarrow> nat \<Rightarrow> nat \<Rightarrow> 16 word \<Rightarrow> world \<Rightarrow> world option" where
  "out_handle_connection k now wr again out_done resched i c evt w =
    (if evt AND kPollerEventHup \<noteq> 0 \<or> evt AND kPollerEventError \<noteq> 0
     then do { w1 \<leftarrow> active_close k c (upd_conn c clear_cork w); out_cleanup k i c w1 }
     else
       let p = out_pollers w ! i;
           (conn, t) = update_connection_timer now c (conns w c) (p_timer p);
           w1 = set_out_poller i (p\<lparr>p_timer := t\<rparr>) (upd_conn c (\<lambda>_. conn) w);
           nwrite = write_loop wr 0 0;
           has_error = (nwrite < 0 \<and> \<not> again)
       in if out_done \<or> has_error
          then let w2 = upd_conn c clear_cork w1
               in if c_continuation (conns w2 c)
                  then let q = out_pollers w2 ! i
                       in do {
                         (_, fds) \<leftarrow> remove_fd (k_remove k (w_fd w2 c)) (p_fds q) (w_fd w2 c);
                         let t' = snd (timer_remove (timer_sched_time (conns w2 c)) (int c) (p_timer q));
                         Some (resched c (set_out_poller i (q\<lparr>p_fds := fds, p_timer := t'\<rparr>) w2))
                       }
                  else do {
                    w3 \<leftarrow> (if is_close_after_finish (conns w2 c) \<or> has_error \<or> \<not> is_active (conns w2 c)
                            then active_close k c w2 else enable_poll k c w2);
                    out_cleanup k i c w3
                  }
          else Some w1)"

section \<open>Flags\<close>

lemma flag_masks:
  "kFlagCorkEnabled = push_bit 0 1" "kFlagActive = push_bit 1 1"
  "kFlagCloseAfterFinish = push_bit 2 1" "kFlagUrgent = push_bit 3 1"
  by (simp_all add: kFlagCorkEnabled_def kFlagActive_def kFlagCloseAfterFinish_def kFlagUrgent_def)

lemma test_bit_mask: "(x AND push_bit n 1 \<noteq> 0) = bit x n" for x :: "32 word"
  using and_exp_eq_0_iff_not_bit [of x n] by (simp add: push_bit_eq_mult)

lemma flag_bits:
  "is_cork_enabled c = bit (c_flags c) 0" "is_active c = bit (c_flags c) 1"
  "is_close_after_finish c = bit (c_flags c) 2" "is_urgent c = bit (c_flags c) 3"
  by (simp_all only: is_cork_enabled_def is_active_def is_close_after_finish_def is_urgent_def flag_masks test_bit_mask)

lemma set_flag_bit:
  "n < 32 \<Longrightarrow> bit (c_flags (set_flag (push_bit n 1) v c)) m = (if m = n then v else bit (c_flags c) m)"
  by (auto simp: set_flag_def bit_simps dest: bit_imp_le_length)

lemma is_active_set_active: "is_active (set_active v c) = v"
  unfolding set_active_def flag_bits flag_masks by (simp only: set_flag_bit) simp

section \<open>Locks\<close>

lemmas world_ops = upd_conn_def set_in_poller_def set_out_poller_def shutdown_conn_def w_fd_def

definition locks :: "world \<Rightarrow> nat \<Rightarrow> bool" where
  "locks w c = c_locked (conns w c)"

lemma set_flag_fields [simp]:
  "c_locked (set_flag m v c) = c_locked c" "c_fd (set_flag m v c) = c_fd c" "c_timeout (set_flag m v c) = c_timeout c"
  "c_last_active (set_flag m v c) = c_last_active c" "c_continuation (set_flag m v c) = c_continuation c"
  by (simp_all add: set_flag_def)

lemma try_lock_cases:
  "try_lock c w = (if locks w c then (False, w) else (True, upd_conn c (c_locked_update (\<lambda>_. True)) w))"
  by (simp add: try_lock_def locks_def)

lemma locks_unlock: "locks (unlock c w) = (locks w)(c := False)"
  by (auto simp: locks_def unlock_def upd_conn_def fun_eq_iff)

lemma locks_lock: "locks (upd_conn c (c_locked_update (\<lambda>_. True)) w) = (locks w)(c := True)"
  by (auto simp: locks_def upd_conn_def fun_eq_iff)

lemma in_cleanup_locks: "in_cleanup k i c w = Some w' \<Longrightarrow> locks w' = locks w"
  by (auto simp: in_cleanup_def world_ops locks_def fun_eq_iff set_active_def Let_def split: if_splits bind_splits)

lemma update_connection_locked: "c_locked (fst (update_connection_timer now c conn t)) = c_locked conn"
  by (auto simp: update_connection_timer_def update_last_active_def Let_def)

lemma read_connection_locks:
  assumes "read_connection k now rd again i c w = Some w'"
  shows "locks w' = locks w"
proof (cases "locks w c")
  case True
  then show ?thesis using assms by (simp add: read_connection_def try_lock_cases)
next
  case False
  let ?w1 = "upd_conn c (c_locked_update (\<lambda>_. True)) w"
  obtain conn t where u: "update_connection_timer now c (conns ?w1 c) (p_timer (in_pollers ?w1 ! i)) = (conn, t)"
    by (rule prod.exhaust)
  have cl: "c_locked conn" using update_connection_locked [of now c "conns ?w1 c" "p_timer (in_pollers ?w1 ! i)"] u
    by (simp add: upd_conn_def)
  let ?w2 = "set_in_poller i ((in_pollers ?w1 ! i)\<lparr>p_timer := t\<rparr>) (upd_conn c (\<lambda>_. conn) ?w1)"
  have l2: "locks ?w2 = (locks w)(c := True)" using cl by (auto simp: locks_def world_ops fun_eq_iff)
  define X where "X = (if read_loop rd 0 0 < 0 \<and> again then Some (?w2\<lparr>parser_q := queue_add (w_fd ?w2) c (parser_q ?w2)\<rparr>)
      else in_cleanup k i c ?w2)"
  have "read_connection k now rd again i c w = do { w3 \<leftarrow> X; Some (unlock c w3) }"
    using False u unfolding read_connection_def X_def try_lock_cases by (simp add: Let_def)
  then obtain w3 where x: "X = Some w3" "w' = unlock c w3" using assms by (auto split: bind_splits)
  moreover have "locks w3 = locks ?w2"
  proof (cases "read_loop rd 0 0 < 0 \<and> again")
    case True
    then show ?thesis using x(1) unfolding X_def by (auto simp: locks_def fun_eq_iff)
  next
    case False
    then show ?thesis using x(1) unfolding X_def by (intro in_cleanup_locks [of k i c]) (auto split: if_splits)
  qed
  ultimately have w3: "w' = unlock c w3" "locks w3 = locks ?w2" by simp_all
  show ?thesis using False l2 by (auto simp: w3 locks_unlock fun_eq_iff)
qed

lemma in_handle_locks:
  assumes "in_handle_connection k now rd again i c evt w = Some w'"
  shows "locks w' = locks w"
proof -
  have "locks w' = locks w"
    if "(case try_lock c w of (True, w1) \<Rightarrow> do { w2 \<leftarrow> in_cleanup k i c w1; Some (unlock c w2) } | (False, w1) \<Rightarrow> Some w1) = Some w'"
    using that by (auto simp: try_lock_cases locks_unlock locks_lock fun_eq_iff split: if_splits bind_splits dest!: in_cleanup_locks)
  then show ?thesis using assms read_connection_locks by (auto simp: in_handle_connection_def split: if_splits)
qed

section \<open>Expiry and disposal\<close>

lemma read_loop_positive: "(\<And>m. 0 < rd m) \<Longrightarrow> 0 \<le> nread \<Longrightarrow> 0 < read_loop rd n nread"
proof (induction rd n nread rule: read_loop.induct)
  case (1 rd n nread)
  have "0 < rd n" by (rule "1.prems")
  then show ?case using "1.IH" [OF refl _ refl] "1.prems" by (subst read_loop.simps) (auto simp: Let_def)
qed

lemma dispose_cases:
  "dispose_connection c w = (if locks w c then (False, w)
     else (True, w\<lparr>parser_q := queue_remove (w_fd w) c (parser_q w), block_q := queue_remove (w_fd w) c (block_q w),
                    closed_socks := closed_socks w @ [w_fd w c], disposed := disposed w @ [c]\<rparr>))"
proof -
  have "\<lparr>c_fd = c_fd x, c_timeout = c_timeout x, c_flags = c_flags x, c_last_active = c_last_active x, c_locked = False,
     c_continuation = c_continuation x, c_cork = c_cork x\<rparr> = x" if "\<not> c_locked x" for x :: connection
    using that by (cases x) simp
  moreover have "w_fd (upd_conn c (c_locked_update (\<lambda>_. True)) w) = w_fd w" by (auto simp: w_fd_def upd_conn_def)
  moreover have "(conns w c)\<lparr>c_locked := False\<rparr> = conns w c" if "\<not> locks w c"
    using that by (cases "conns w c") (simp add: locks_def)
  ultimately show ?thesis
    by (auto simp: dispose_connection_def try_lock_cases unlock_def upd_conn_def Let_def w_fd_def fun_upd_idem)
qed

lemma recycle_loop_spec:
  "recycle_loop cnt cs w = (rest, w') \<Longrightarrow> cnt \<le> kMaxRecycleCount \<Longrightarrow>
    \<exists>ds. disposed w' = disposed w @ ds \<and> closed_socks w' = closed_socks w @ map (w_fd w) ds \<and>
      cnt + length ds \<le> kMaxRecycleCount \<and> (\<forall>d \<in> set ds. \<not> locks w d) \<and>
      (\<forall>d. count_list cs d = count_list ds d + count_list rest d) \<and>
      (\<forall>d \<in> set rest. locks w d \<or> cnt + length ds = kMaxRecycleCount) \<and> conns w' = conns w"
proof (induction cnt cs w arbitrary: rest w' rule: recycle_loop.induct)
  case (1 cnt w)
  then show ?case by (auto intro: exI [of _ "[]"])
next
  case (2 cnt c cs w)
  show ?case
  proof (cases "cnt < kMaxRecycleCount")
    case False
    then show ?thesis using "2.prems" by (auto intro!: exI [of _ "[]"])
  next
    case lt: True
    show ?thesis
    proof (cases "locks w c")
      case True
      then obtain r1 where r: "recycle_loop cnt cs w = (r1, w')" "rest = c # r1"
        using "2.prems"(1) lt by (auto simp: dispose_cases split: prod.splits)
      have "dispose_connection c w = (False, w)" using True by (simp add: dispose_cases)
      from "2.IH"(2) [OF lt this [symmetric] refl r(1) "2.prems"(2)] obtain ds where
        "disposed w' = disposed w @ ds" "closed_socks w' = closed_socks w @ map (w_fd w) ds" "cnt + length ds \<le> kMaxRecycleCount"
        "\<forall>d \<in> set ds. \<not> locks w d" "\<forall>d. count_list cs d = count_list ds d + count_list r1 d"
        "\<forall>d \<in> set r1. locks w d \<or> cnt + length ds = kMaxRecycleCount" "conns w' = conns w" by auto
      then show ?thesis using True r(2) by (intro exI [of _ ds]) auto
    next
      case False
      define w1 where "w1 = snd (dispose_connection c w)"
      have d: "dispose_connection c w = (True, w1)" using False by (simp add: dispose_cases w1_def)
      have w1: "conns w1 = conns w" "disposed w1 = disposed w @ [c]" "closed_socks w1 = closed_socks w @ [w_fd w c]"
        using False by (simp_all add: dispose_cases w1_def)
      have same: "w_fd w1 = w_fd w" "locks w1 = locks w" using w1(1) by (auto simp: w_fd_def locks_def fun_eq_iff)
      have r: "recycle_loop (Suc cnt) cs w1 = (rest, w')" using "2.prems"(1) lt d by simp
      have "Suc cnt \<le> kMaxRecycleCount" using lt by simp
      from "2.IH"(1) [OF lt d [symmetric] refl r this, unfolded same w1] obtain ds where ds:
        "disposed w' = (disposed w @ [c]) @ ds" "closed_socks w' = (closed_socks w @ [w_fd w c]) @ map (w_fd w) ds"
        "Suc cnt + length ds \<le> kMaxRecycleCount" "\<forall>d \<in> set ds. \<not> locks w d"
        "\<forall>d. count_list cs d = count_list ds d + count_list rest d"
        "\<forall>d \<in> set rest. locks w d \<or> Suc cnt + length ds = kMaxRecycleCount" "conns w' = conns w"
        by blast
      then show ?thesis using False by (intro exI [of _ "c # ds"]) simp
    qed
  qed
qed

lemma remove_fd_used:
  assumes "fdmap_ok fds" and "fd < fdmap_capacity fds" and "fdmap_get fds fd = Some c"
  shows "\<exists>f. remove_fd True fds fd = Some (True, f) \<and> fdmap_ok f \<and> fdmap_capacity f = fdmap_capacity fds \<and>
    fdmap_get f = (fdmap_get fds)(fd := None)"
  using fdm.erase_in [OF assms(1,2)] assms(2,3)
  by (auto simp: remove_fd_def find_connection_def remove_fd_set_def)

lemma remove_fd_unused:
  assumes "fd < fdmap_capacity fds" and "fdmap_get fds fd = None"
  shows "remove_fd p fds fd = Some (False, fds)"
  using assms by (simp add: remove_fd_def find_connection_def)

section \<open>Properties\<close>

text \<open>The four flags of a connection are independent: each setter sets exactly the flag its getter
  reads and leaves the other three as they were, whatever else is in the flag word.\<close>

lemma connection_flags_independent:
  "is_cork_enabled (set_cork_enabled v c) = v \<and> is_active (set_cork_enabled v c) = is_active c \<and>
   is_active (set_active v c) = v \<and> is_close_after_finish (set_active v c) = is_close_after_finish c \<and>
   is_close_after_finish (set_close_after_finish v c) = v \<and> is_urgent (set_close_after_finish v c) = is_urgent c \<and>
   is_urgent (set_urgent v c) = v \<and> is_cork_enabled (set_urgent v c) = is_cork_enabled c \<and>
   is_cork_enabled (set_active v c) = is_cork_enabled c \<and> is_urgent (set_active v c) = is_urgent c \<and>
   is_active (set_close_after_finish v c) = is_active c \<and> is_active (set_urgent v c) = is_active c"
  unfolding set_cork_enabled_def set_active_def set_close_after_finish_def set_urgent_def flag_bits flag_masks
  by (simp only: set_flag_bit) simp

text \<open>C15: handling a poll event leaves every connection lock as it found it: a lock taken is released on
  every path (hang-up, error, data, end of file, parse), and a connection another thread holds is left alone.\<close>

theorem poll_in_event_keeps_locks:
  assumes "in_handle_connection k now rd again i c evt w = Some w'"
  shows "\<forall>d. c_locked (conns w' d) = c_locked (conns w d)"
  using in_handle_locks [OF assms] by (simp add: locks_def fun_eq_iff)

definition sample_world :: world where
  "sample_world = \<lparr>conns = Connection 0,
     in_pollers = [\<lparr>p_fds = \<lparr>fm_items = [(0, 3)], fm_fresh = 1, fm_table = [None, None, None, Some 0]\<rparr>,
                   p_timer = [], p_last_executed = 0, p_expired = []\<rparr>],
     in_current = 0, out_pollers = [], out_current = 0, parser_q = [], block_q = [], shut_fds = [], closed_socks = [],
     disposed = []\<rparr>"

definition sample_kernel :: kernel where
  "sample_kernel = \<lparr>k_add = (\<lambda>_. True), k_remove = (\<lambda>_. True)\<rparr>"

lemma sample_active: "is_active (conns sample_world 3)" "c_fd (conns sample_world 3) = 3" "\<not> locks sample_world 3"
  by (simp_all add: sample_world_def Connection_def update_last_active_def Let_def timer_unit_from_time_def kUnitGran_def
      is_active_def kFlagCorkEnabled_def kFlagActive_def locks_def)

lemma sample_fds:
  "fdmap_ok (p_fds (in_pollers sample_world ! 0))" "fdmap_capacity (p_fds (in_pollers sample_world ! 0)) = 4"
  "fdmap_get (p_fds (in_pollers sample_world ! 0)) 3 = Some 3"
  by (auto simp: sample_world_def fdmap_ok_def fdmap_capacity_def fdmap_get_def fdmap_find_def less_Suc_eq numeral_eq_Suc)

theorem poll_in_event_keeps_locks_witness:
  "\<exists>w'. in_handle_connection sample_kernel 0 (\<lambda>_. 0) False 0 3 kPollerEventHup sample_world = Some w' \<and>
    (\<forall>d. c_locked (conns w' d) = c_locked (conns sample_world d))"
proof -
  obtain f where f: "remove_fd True (p_fds (in_pollers sample_world ! 0)) 3 = Some (True, f)"
    using remove_fd_used [OF sample_fds(1) _ sample_fds(3)] sample_fds(2) by auto
  have "\<exists>w'. in_handle_connection sample_kernel 0 (\<lambda>_. 0) False 0 3 kPollerEventHup sample_world = Some w'"
    using f sample_active
    by (simp add: in_handle_connection_def kPollerEventHup_def try_lock_cases in_cleanup_def world_ops sample_kernel_def
        set_active_def is_active_def Let_def)
  with poll_in_event_keeps_locks show ?thesis by blast
qed



text \<open>C17: recycling works through the expired connections in order, disposes of at most
  \<open>kMaxRecycleCount\<close> of them and never of a locked one, closes exactly the descriptors of those, and keeps
  every other connection in the list, each as often as it was there.\<close>

theorem recycle_disposes_unlocked:
  assumes "recycle_loop 0 cs w = (rest, w')"
  shows "\<exists>ds. disposed w' = disposed w @ ds \<and> closed_socks w' = closed_socks w @ map (\<lambda>d. c_fd (conns w d)) ds \<and>
    length ds \<le> kMaxRecycleCount \<and> (\<forall>d \<in> set ds. \<not> c_locked (conns w d)) \<and>
    (\<forall>d. count_list cs d = count_list ds d + count_list rest d) \<and>
    (\<forall>d \<in> set rest. c_locked (conns w d) \<or> length ds = kMaxRecycleCount)"
  using recycle_loop_spec [OF assms] by (auto simp: locks_def w_fd_def [abs_def])

theorem recycle_disposes_unlocked_witness:
  "\<exists>rest w'. recycle_loop 0 [3] sample_world = (rest, w') \<and> disposed w' = [3] \<and> rest = []"
proof -
  obtain rest w' where r: "recycle_loop 0 [3] sample_world = (rest, w')" by (rule prod.exhaust)
  have "\<not> c_locked (conns sample_world 3)" "disposed sample_world = []"
    using sample_active by (simp_all add: locks_def sample_world_def)
  with recycle_disposes_unlocked [OF r] obtain ds where ds: "disposed w' = ds" "length ds \<le> kMaxRecycleCount"
    "\<forall>d. count_list [3] d = count_list ds d + count_list rest d" "\<forall>d \<in> set rest. c_locked (conns sample_world d) \<or> length ds = kMaxRecycleCount"
    by auto
  have "dispose_connection 3 sample_world = (True, snd (dispose_connection 3 sample_world))"
    using sample_active by (simp add: dispose_cases)
  then have "rest = [] \<and> disposed w' = [3]"
    using r sample_active by (simp add: kMaxRecycleCount_def dispose_cases split: prod.splits) (auto simp: sample_world_def)
  with r show ?thesis by blast
qed

text \<open>A client that keeps sending is dropped.  When every read returns data, the reading loop stops at
  the threshold with a positive count, which is then handled like an error: the connection is shut down and
  expired although nothing failed, and the data read never reaches the parser.\<close>

lemma fast_sender_dropped:
  assumes "\<And>n. 0 < rd n" and "\<not> c_locked (conns w c)" and "is_active (conns w c)"
    and "i < length (in_pollers w)" and "read_connection k now rd again i c w = Some w'"
  shows "c \<in> set (p_expired (in_pollers w' ! i)) \<and> \<not> is_active (conns w' c) \<and> parser_q w' = parser_q w"
proof -
  have pos: "0 < read_loop rd 0 0" using assms(1) by (rule read_loop_positive) simp
  let ?w1 = "upd_conn c (c_locked_update (\<lambda>_. True)) w"
  obtain conn t where u: "update_connection_timer now c (conns ?w1 c) (p_timer (in_pollers ?w1 ! i)) = (conn, t)"
    by (rule prod.exhaust)
  let ?w2 = "set_in_poller i ((in_pollers ?w1 ! i)\<lparr>p_timer := t\<rparr>) (upd_conn c (\<lambda>_. conn) ?w1)"
  have "c_flags conn = c_flags (conns w c)"
    using u by (auto simp: update_connection_timer_def update_last_active_def Let_def upd_conn_def split: if_splits)
  then have act: "is_active (conns ?w2 c)" using assms(3) by (simp add: is_active_def world_ops)
  have "read_connection k now rd again i c w = do { w3 \<leftarrow> in_cleanup k i c ?w2; Some (unlock c w3) }"
    using assms(2) u pos by (simp add: read_connection_def try_lock_cases locks_def Let_def)
  then obtain w3 where w3: "in_cleanup k i c ?w2 = Some w3" "w' = unlock c w3" using assms(5) by (auto split: bind_splits)
  have "c \<in> set (p_expired (in_pollers w3 ! i)) \<and> \<not> is_active (conns w3 c) \<and> parser_q w3 = parser_q w"
    using w3(1) act assms(4)
    by (auto simp: in_cleanup_def Let_def world_ops is_active_set_active split: if_splits bind_splits)
  then show ?thesis by (simp add: w3(2) unlock_def upd_conn_def is_active_def)
qed

text \<open>An idle connection can be expired twice.  The idle callback expires a connection without marking
  it inactive; when it is then closed by another stage (\<open>active_close\<close>), it is put on the expired list a
  second time, and the second disposal works on an object that is gone.\<close>

lemma idle_then_close_expires_twice:
  assumes ps: "in_pollers w = [p]" and cur: "in_current w = 0" and k: "k_remove k = (\<lambda>_. True)"
    and p: "fdmap_ok (p_fds p)" "c_fd (conns w c) < fdmap_capacity (p_fds p)" "fdmap_get (p_fds p) (c_fd (conns w c)) = Some c"
    and c: "\<not> c_locked (conns w c)" "is_active (conns w c)"
  shows "\<exists>w1 w2. in_idle_callback k 0 c w = Some (True, w1) \<and> active_close k c w1 = Some w2 \<and>
    p_expired (in_pollers w2 ! 0) = p_expired p @ [c, c]"
proof -
  obtain f where f: "remove_fd True (p_fds p) (c_fd (conns w c)) = Some (True, f)" "fdmap_capacity f = fdmap_capacity (p_fds p)"
      "fdmap_get f (c_fd (conns w c)) = None"
    using remove_fd_used [OF p] by auto
  have un: "remove_fd q f (c_fd (conns w c)) = Some (False, f)" for q
    using remove_fd_unused [of "c_fd (conns w c)" f] f(2,3) p(2) by simp
  show ?thesis using f(1) un ps cur k c
    by (simp add: in_idle_callback_def try_lock_cases locks_def active_close_def sched_remove_nolock_def world_ops unlock_def
        set_active_def is_active_def Let_def)
qed

end
