(* ===== verification/Fcgi_Completion.thy ===== *)
theory Fcgi_Completion
  imports Fcgi_Proto Stages
begin

text \<open>
  The completion stage of the FastCGI module, \<^verbatim>\<open>src/modules/mod_fcgi/fcgi_completion_stage.{h,cc}\<close>: it moves the request of a suspended
  connection to the application and reads the reply, driven by the events of its pollers.  A connection is a number; its
  continuation is in the table \<open>f_conts\<close> and contains the task buffer from which \<open>response_parser\<close> reads.  Parameters: which registrations the kernel accepts,
  the clock, the results of reads and writes, and the reply parser \<open>lib\<close>.  \<open>None\<close> is a null continuation, a modulo by zero, a failed
  assertion or a read behind the end of the pages.
\<close>

unbundle bit_operations_syntax

section \<open>State\<close>

datatype completion_status = kCompletionReadClient | kCompletionWriteFcgi | kCompletionReadFcgi | kCompletionHeadersDone
  | kCompletionContinue | kCompletionEOF | kCompletionError | kCompletionTimeout

record 'p fcgi_cont =
  sock_fd :: nat
  need_reconnect :: bool
  cont_status :: completion_status
  task_buffer :: buffer
  task_len :: int
  cont_parser :: "'p content_parser"
  output_buffer :: buffer
  cont_last_active :: int

definition kTaskBufferLimit :: nat where "kTaskBufferLimit = 64 * 1024"

definition INT_MAX :: int where "INT_MAX = 2147483647"

definition kIdleTimeout :: int where "kIdleTimeout = timer_unit_from_time 10"

definition FcgiCompletionContinuation :: "'p content_lib \<Rightarrow> buf_heap \<Rightarrow> 'p fcgi_cont \<times> buf_heap" where
  "FcgiCompletionContinuation lib h =
    (let (b, h1) = Buffer_new h; (o0, h2) = Buffer_new h1
     in (\<lparr>sock_fd = 0, need_reconnect = False, cont_status = kCompletionReadClient, task_buffer = b, task_len = 0,
          cont_parser = content_init lib, output_buffer = o0, cont_last_active = 0\<rparr>, h2))"

definition cont_update_last_active :: "int \<Rightarrow> 'p fcgi_cont \<Rightarrow> bool \<times> 'p fcgi_cont" where
  "cont_update_last_active now cont =
    (let current = timer_unit_from_time now
     in if cont_last_active cont = current then (False, cont) else (True, cont\<lparr>cont_last_active := current\<rparr>))"

text \<open>\<open>f_resched\<close> are the connections whose continuation was rescheduled, \<open>f_write_back\<close> those handed to the write back stage.\<close>

record 'p fcgi_state =
  f_conns :: "nat \<Rightarrow> connection"
  f_conts :: "nat \<Rightarrow> 'p fcgi_cont option"
  f_outs :: "nat \<Rightarrow> out_stream"
  f_heap :: buf_heap
  f_pollers :: "poll_state list"
  f_current :: nat
  f_resched :: "nat list"
  f_write_back :: "nat list"

record fcgi_kernel =
  fk_add :: "nat \<Rightarrow> 16 word \<Rightarrow> bool"
  fk_change :: "nat \<Rightarrow> 16 word \<Rightarrow> bool"
  fk_remove :: "nat \<Rightarrow> bool"

definition set_cont :: "nat \<Rightarrow> 'p fcgi_cont \<Rightarrow> 'p fcgi_state \<Rightarrow> 'p fcgi_state" where
  "set_cont c cont st = st\<lparr>f_conts := (f_conts st)(c \<mapsto> cont)\<rparr>"

definition f_poller :: "nat \<Rightarrow> 'p fcgi_state \<Rightarrow> poll_state" where
  "f_poller i st = f_pollers st ! i"

definition set_f_poller :: "nat \<Rightarrow> poll_state \<Rightarrow> 'p fcgi_state \<Rightarrow> 'p fcgi_state" where
  "set_f_poller i p st = st\<lparr>f_pollers := (f_pollers st)[i := p]\<rparr>"

definition f_fd :: "nat \<Rightarrow> 'p fcgi_state \<Rightarrow> nat" where
  "f_fd c st = c_fd (f_conns st c)"

definition resched_continuation :: "nat \<Rightarrow> 'p fcgi_state \<Rightarrow> 'p fcgi_state" where
  "resched_continuation c st = st\<lparr>f_resched := f_resched st @ [c]\<rparr>"

section \<open>Scheduling\<close>

definition hup_error :: "16 word" where "hup_error = kPollerEventHup OR kPollerEventError"

definition poller_add :: "fcgi_kernel \<Rightarrow> nat \<Rightarrow> nat \<Rightarrow> nat \<Rightarrow> 16 word \<Rightarrow> 'p fcgi_state \<Rightarrow> (bool \<times> 'p fcgi_state) option" where
  "poller_add k i fd c evt st =
    (let p = f_poller i st
     in map_option (\<lambda>(r, fds). (r, set_f_poller i (p\<lparr>p_fds := fds\<rparr>) st)) (add_fd (fk_add k fd evt) (p_fds p) fd c))"

definition poller_change :: "fcgi_kernel \<Rightarrow> nat \<Rightarrow> nat \<Rightarrow> nat \<Rightarrow> 16 word \<Rightarrow> 'p fcgi_state \<Rightarrow> (bool \<times> 'p fcgi_state) option" where
  "poller_change k i fd c evt st =
    (let p = f_poller i st
     in map_option (\<lambda>(r, fds). (r, set_f_poller i (p\<lparr>p_fds := fds\<rparr>) st)) (change_fd (fk_change k fd evt) (p_fds p) fd c))"

definition poller_remove :: "fcgi_kernel \<Rightarrow> nat \<Rightarrow> nat \<Rightarrow> 'p fcgi_state \<Rightarrow> (bool \<times> 'p fcgi_state) option" where
  "poller_remove k i fd st =
    (let p = f_poller i st
     in map_option (\<lambda>(r, fds). (r, set_f_poller i (p\<lparr>p_fds := fds\<rparr>) st)) (remove_fd (fk_remove k fd) (p_fds p) fd))"

definition fcgi_sched_add :: "fcgi_kernel \<Rightarrow> int \<Rightarrow> nat \<Rightarrow> 'p fcgi_state \<Rightarrow> (bool \<times> 'p fcgi_state) option" where
  "fcgi_sched_add k now c st =
    (case f_conts st c of
       None \<Rightarrow> None
     | Some cont0 \<Rightarrow>
        if f_pollers st = [] then None
        else let cur = (f_current st + 1) mod length (f_pollers st);
                 cont = snd (cont_update_last_active now cont0);
                 p = f_poller cur st;
                 st1 = set_f_poller cur (p\<lparr>p_timer := timer_replace (cont_last_active cont + kIdleTimeout) (int c) () (p_timer p)\<rparr>)
                         (set_cont c cont (st\<lparr>f_current := cur\<rparr>))
             in case cont_status cont of
                  kCompletionReadClient \<Rightarrow> poller_add k cur (f_fd c st) c (kPollerEventRead OR hup_error) st1
                | kCompletionWriteFcgi \<Rightarrow> poller_add k cur (sock_fd cont) c (kPollerEventWrite OR hup_error) st1
                | kCompletionReadFcgi \<Rightarrow> poller_add k cur (sock_fd cont) c (kPollerEventRead OR hup_error) st1
                | _ \<Rightarrow> Some (False, st1))"

definition remove_fd_with_timer :: "fcgi_kernel \<Rightarrow> nat \<Rightarrow> nat \<Rightarrow> nat \<Rightarrow> 'p fcgi_state \<Rightarrow> (bool \<times> 'p fcgi_state) option" where
  "remove_fd_with_timer k i fd c st =
    (let p = f_poller i st;
         st1 = (case f_conts st c of
                  None \<Rightarrow> st
                | Some cont \<Rightarrow> set_f_poller i (p\<lparr>p_timer := snd (timer_remove (cont_last_active cont + kIdleTimeout) (int c) (p_timer p))\<rparr>) st)
     in poller_remove k i fd st1)"

text \<open>The loop of \<open>sched_remove\<close> over the pollers from index \<open>i\<close>, with \<open>n\<close> of them left.\<close>

fun fcgi_remove_loop :: "fcgi_kernel \<Rightarrow> nat \<Rightarrow> nat \<Rightarrow> nat \<Rightarrow> nat \<Rightarrow> 'p fcgi_state \<Rightarrow> 'p fcgi_state option" where
  "fcgi_remove_loop k fd c 0 i st = Some st"
| "fcgi_remove_loop k fd c (Suc n) i st =
    (case remove_fd_with_timer k i fd c st of
       None \<Rightarrow> None
     | Some (True, st1) \<Rightarrow> Some st1
     | Some (False, st1) \<Rightarrow> fcgi_remove_loop k fd c n (Suc i) st1)"

definition fcgi_sched_remove :: "fcgi_kernel \<Rightarrow> nat \<Rightarrow> 'p fcgi_state \<Rightarrow> 'p fcgi_state option" where
  "fcgi_sched_remove k c st =
    (case f_conts st c of
       None \<Rightarrow> Some st
     | Some cont \<Rightarrow>
        fcgi_remove_loop k (if cont_status cont = kCompletionReadClient then f_fd c st else sock_fd cont) c (length (f_pollers st)) 0 st)"

definition update_idle_handler :: "int \<Rightarrow> nat \<Rightarrow> nat \<Rightarrow> 'p fcgi_cont \<Rightarrow> 'p fcgi_state \<Rightarrow> 'p fcgi_state" where
  "update_idle_handler now i c cont st =
    (let oldfuture = cont_last_active cont + kIdleTimeout; p = f_poller i st
     in case cont_update_last_active now cont of
          (False, cont') \<Rightarrow> st
        | (True, cont') \<Rightarrow>
            set_f_poller i (p\<lparr>p_timer := timer_replace (cont_last_active cont' + kIdleTimeout) (int c) ()
                                (snd (timer_remove oldfuture (int c) (p_timer p)))\<rparr>) (set_cont c cont' st))"

section \<open>Parsing the reply\<close>

text \<open>The loop over the pages of the task buffer: the flag tells whether the content parser reported an error.\<close>

fun feed_pages :: "'p content_lib \<Rightarrow> page list \<Rightarrow> nat \<Rightarrow> 'p fcgi_cont \<times> buf_heap \<Rightarrow> (bool \<times> 'p fcgi_cont \<times> buf_heap) option" where
  "feed_pages lib [] n_left (cont, h) = Some (False, cont, h)"
| "feed_pages lib (pg # pgs) n_left (cont, h) =
    (let (off, len0) = get_page_segment h (task_buffer cont) (fst pg);
         len = (if n_left < len0 then n_left else len0);
         ptr = take len (drop off (snd pg))
     in case (if cp_done (cont_parser cont) then Some (0, cont_parser cont) else content_parse lib ptr (cont_parser cont)) of
          None \<Rightarrow> None
        | Some (rs, parser') \<Rightarrow>
            let cont1 = cont\<lparr>cont_parser := parser'\<rparr>
            in if content_has_error lib parser' then Some (True, cont1, h)
               else let (_, o1, h1) = append_data h (output_buffer cont1) (drop rs ptr);
                        cont2 = cont1\<lparr>output_buffer := o1\<rparr>
                    in if n_left - len = 0 then Some (False, cont2, h1) else feed_pages lib pgs (n_left - len) (cont2, h1))"

definition bypass_task :: "nat \<Rightarrow> 'p fcgi_cont \<times> buf_heap \<Rightarrow> 'p fcgi_cont \<times> buf_heap" where
  "bypass_task n ch = (let (cont, h) = ch; (b, h') = bypass_content n (task_buffer cont, h) in (cont\<lparr>task_buffer := b\<rparr>, h'))"

definition fcgi_run_parser :: "'p content_lib \<Rightarrow> 'p fcgi_cont \<times> buf_heap \<Rightarrow> (bool \<times> 'p fcgi_cont \<times> buf_heap) option" where
  "fcgi_run_parser lib ch =
    (let (cont, h) = ch
     in case extract_record (task_buffer cont, h) of
          None \<Rightarrow> None
        | Some (None, b, h1) \<Rightarrow> Some (False, cont\<lparr>task_buffer := b\<rparr>, h1)
        | Some (Some r, b, h1) \<Rightarrow>
            let cont1 = cont\<lparr>task_buffer := b\<rparr>
            in if rec_type r = kFcgiEndRequest
               then let (cont2, h2) = bypass_task (total_length r) (cont1, h1)
                    in Some (True, if cp_done (cont_parser cont2) then cont2\<lparr>task_len := 0\<rparr> else cont2, h2)
               else if rec_type r = kFcgiStdout \<or> rec_type r = kFcgiStderr
               then (case feed_pages lib (buf_pages h1 b) (unat (rec_content_length r)) (cont1, h1) of
                       None \<Rightarrow> None
                     | Some (True, ch2) \<Rightarrow> Some (False, ch2)
                     | Some (False, ch2) \<Rightarrow> Some (True, bypass_task (total_length r) ch2))
               else Some (True, bypass_task (total_length r) (cont1, h1)))"

section \<open>The state machine\<close>

definition fcgi_abort :: "fcgi_kernel \<Rightarrow> nat \<Rightarrow> nat \<Rightarrow> completion_status \<Rightarrow> bool \<Rightarrow> 'p fcgi_state \<Rightarrow> 'p fcgi_state option" where
  "fcgi_abort k i c status remove_timer st =
    (case f_conts st c of
       None \<Rightarrow> None
     | Some cont \<Rightarrow>
        if cont_status cont = kCompletionWriteFcgi \<or> cont_status cont = kCompletionReadFcgi
        then do {
          (_, st1) \<leftarrow> (if remove_timer then remove_fd_with_timer k i (sock_fd cont) c st else poller_remove k i (sock_fd cont) st);
          Some (resched_continuation c (set_cont c (cont\<lparr>need_reconnect := True, cont_status := status\<rparr>) st1))
        }
        else do {
          (_, st1) \<leftarrow> remove_fd_with_timer k i (f_fd c st) c st;
          Some (resched_continuation c (set_cont c (cont\<lparr>cont_status := status\<rparr>) st1))
        })"

definition fcgi_handle_error :: "fcgi_kernel \<Rightarrow> nat \<Rightarrow> nat \<Rightarrow> 'p fcgi_state \<Rightarrow> 'p fcgi_state option" where
  "fcgi_handle_error k i c st = fcgi_abort k i c kCompletionError True st"

definition fcgi_idle_callback :: "fcgi_kernel \<Rightarrow> nat \<Rightarrow> nat \<Rightarrow> 'p fcgi_state \<Rightarrow> (bool \<times> 'p fcgi_state) option" where
  "fcgi_idle_callback k i c st = map_option (Pair True) (fcgi_abort k i c kCompletionTimeout False st)"

definition stream_write_back :: "nat \<Rightarrow> 'p fcgi_cont \<Rightarrow> 'p fcgi_state \<Rightarrow> 'p fcgi_state" where
  "stream_write_back c cont st =
    (let (_, s, h) = stream_append_buffer (f_heap st) (f_outs st c) (output_buffer cont)
     in st\<lparr>f_outs := (f_outs st)(c := s), f_heap := h, f_conns := (f_conns st)(c := set_cork (f_conns st c)),
          f_write_back := f_write_back st @ [c]\<rparr>)"

definition transfer_status :: "fcgi_kernel \<Rightarrow> nat \<Rightarrow> nat \<Rightarrow> 'p fcgi_state \<Rightarrow> (completion_status \<times> 'p fcgi_state) option" where
  "transfer_status k i c st =
    (case f_conts st c of
       None \<Rightarrow> None
     | Some cont \<Rightarrow>
        (case cont_status cont of
           kCompletionReadClient \<Rightarrow>
             if buf_size (task_buffer cont) > kTaskBufferLimit \<or> task_len cont = 0
             then do {
               (_, st1) \<leftarrow> remove_fd_with_timer k i (f_fd c st) c st;
               (_, st2) \<leftarrow> poller_add k i (sock_fd cont) c (kPollerEventWrite OR hup_error)
                             (set_cont c (cont\<lparr>cont_status := kCompletionWriteFcgi\<rparr>) st1);
               Some (kCompletionWriteFcgi, st2)
             }
             else Some (kCompletionReadClient, st)
         | kCompletionWriteFcgi \<Rightarrow>
             if buf_size (task_buffer cont) = 0 \<and> task_len cont = 0
             then do {
               (_, st1) \<leftarrow> poller_change k i (sock_fd cont) c (kPollerEventRead OR hup_error)
                             (set_cont c (cont\<lparr>cont_status := kCompletionReadFcgi, task_len := -1\<rparr>) st);
               Some (kCompletionReadFcgi, st1)
             }
             else Some (kCompletionWriteFcgi, st)
         | kCompletionReadFcgi \<Rightarrow>
             if \<not> cp_done (cont_parser cont) then Some (kCompletionReadFcgi, st)
             else if task_len cont = -1
             then do {
               (_, st1) \<leftarrow> remove_fd_with_timer k i (sock_fd cont) c
                             (set_cont c (cont\<lparr>cont_status := kCompletionHeadersDone, task_len := INT_MAX\<rparr>) st);
               Some (kCompletionHeadersDone, resched_continuation c st1)
             }
             else if task_len cont = 0
             then do {
               (_, st1) \<leftarrow> remove_fd_with_timer k i (sock_fd cont) c (set_cont c (cont\<lparr>cont_status := kCompletionEOF\<rparr>) st);
               Some (kCompletionEOF, resched_continuation c st1)
             }
             else if cp_streaming (cont_parser cont) \<and> buf_size (output_buffer cont) > kTaskBufferLimit
             then do {
               let cont1 = cont\<lparr>cont_status := kCompletionContinue\<rparr>;
               (_, st1) \<leftarrow> remove_fd_with_timer k i (sock_fd cont) c (set_cont c cont1 st);
               Some (kCompletionContinue, stream_write_back c cont1 st1)
             }
             else Some (kCompletionReadFcgi, st)
         | s \<Rightarrow> Some (s, st)))"

definition run_parser_step :: "'p content_lib \<Rightarrow> nat \<Rightarrow> 'p fcgi_state \<Rightarrow> (bool \<times> 'p fcgi_state) option" where
  "run_parser_step lib c st =
    (case f_conts st c of
       None \<Rightarrow> None
     | Some cont \<Rightarrow> map_option (\<lambda>(r, cont', h). (r, set_cont c cont' (st\<lparr>f_heap := h\<rparr>))) (fcgi_run_parser lib (cont, f_heap st)))"

definition task_size :: "nat \<Rightarrow> 'p fcgi_state \<Rightarrow> nat" where
  "task_size c st = (case f_conts st c of None \<Rightarrow> 0 | Some cont \<Rightarrow> buf_size (task_buffer cont))"

lemma prepare_write_size: "buf_size (fst (prepare_write h b)) = buf_size b"
  by (simp add: prepare_write_def copy_for_write_def Let_def split: prod.splits)

lemma pop_size: "buf_size (fst (snd (pop h b n))) = (if buf_size b < n then buf_size b else buf_size b - n)"
proof -
  obtain b1 h1 where pw: "prepare_write h b = (b1, h1)" by (rule prod.exhaust)
  then have "buf_size b1 = buf_size b" using prepare_write_size [of h b] by simp
  then show ?thesis by (simp add: pop_def Let_def pw split: prod.splits)
qed

lemma feed_pages_Cons:
  assumes "get_page_segment h (task_buffer cont) (fst pg) = (off, len0)" and "len = (if n < len0 then n else len0)" and "ptr = take len (drop off (snd pg))"
    and "parsed = (if cp_done (cont_parser cont) then Some (0, cont_parser cont) else content_parse lib ptr (cont_parser cont))"
  shows "feed_pages lib (pg # pgs) n (cont, h) = (case parsed of None \<Rightarrow> None | Some (rs, parser') \<Rightarrow>
      let cont1 = cont\<lparr>cont_parser := parser'\<rparr>
      in if content_has_error lib parser' then Some (True, cont1, h)
         else let (_, o1, h1) = append_data h (output_buffer cont1) (drop rs ptr); cont2 = cont1\<lparr>output_buffer := o1\<rparr>
              in if n - len = 0 then Some (False, cont2, h1) else feed_pages lib pgs (n - len) (cont2, h1))"
  unfolding assms(2-4) by (simp only: feed_pages.simps assms(1) prod.case Let_def)

lemma feed_pages_frame:
  assumes "feed_pages lib pgs n (cont, h) = Some (e, cont', h')"
  shows "task_buffer cont' = task_buffer cont \<and> cont_status cont' = cont_status cont \<and> (cp_done (cont_parser cont) \<longrightarrow> cont_parser cont' = cont_parser cont)"
  using assms
proof (induction pgs arbitrary: n cont h)
  case (Cons pg pgs)
  obtain off len0 where seg: "get_page_segment h (task_buffer cont) (fst pg) = (off, len0)" by (rule prod.exhaust)
  define len where "len = (if n < len0 then n else len0)"
  define ptr where "ptr = take len (drop off (snd pg))"
  define parsed where "parsed = (if cp_done (cont_parser cont) then Some (0, cont_parser cont) else content_parse lib ptr (cont_parser cont))"
  note eq = feed_pages_Cons [OF seg len_def ptr_def parsed_def, of pgs]
  obtain rs parser' where p: "parsed = Some (rs, parser')" using Cons.prems unfolding eq by (cases parsed) auto
  then have keep: "cp_done (cont_parser cont) \<Longrightarrow> parser' = cont_parser cont" by (simp add: parsed_def)
  obtain ok o1 h1 where ap: "append_data h (output_buffer cont) (drop rs ptr) = (ok, o1, h1)" by (rule prod_cases3)
  let ?c = "cont\<lparr>cont_parser := parser', output_buffer := o1\<rparr>"
  consider "content_has_error lib parser'" "cont' = cont\<lparr>cont_parser := parser'\<rparr>" | "cont' = ?c" | "feed_pages lib pgs (n - len) (?c, h1) = Some (e, cont', h')"
    using Cons.prems unfolding eq p by (auto simp: ap Let_def split: if_splits)
  then show ?case
  proof cases
    case 3
    from Cons.IH [OF this] keep show ?thesis by auto
  qed (use keep in auto)
qed simp

lemmas feed_pages_size = feed_pages_frame [THEN conjunct1]
lemmas feed_pages_keeps = feed_pages_frame [THEN conjunct2]

lemma bypass_task_size: "bypass_task n (cont, h) = (cont', h') \<Longrightarrow> buf_size (task_buffer cont') \<le> buf_size (task_buffer cont)"
  using pop_size [of h "task_buffer cont" n] by (auto simp: bypass_task_def bypass_content_def Let_def split: prod.splits if_splits)

lemma extract_record_size:
  assumes "extract_record (b, h) = Some (Some r, b', h')"
  shows "buf_size b' < buf_size b"
proof -
  have "\<not> buf_size b < kRecordSize" using assms by (auto simp: extract_record_def copy_front_def)
  moreover have "b' = fst (snd (pop h b kRecordSize))"
    using assms by (auto simp: extract_record_def Let_def split: option.splits prod.splits if_splits bool.splits)
  ultimately show ?thesis using pop_size [of h b kRecordSize] by (simp add: kRecordSize_def)
qed

lemma run_parser_size:
  assumes "fcgi_run_parser lib (cont, h) = Some (True, cont', h')"
  shows "buf_size (task_buffer cont') < buf_size (task_buffer cont)"
proof -
  obtain r b h1 where e: "extract_record (task_buffer cont, h) = Some (Some r, b, h1)"
    using assms by (auto simp: fcgi_run_parser_def split: option.splits)
  have "buf_size (task_buffer cont') \<le> buf_size b"
    using assms e by (auto simp: fcgi_run_parser_def Let_def split: if_splits prod.splits bool.splits option.splits dest!: bypass_task_size feed_pages_size)
  with extract_record_size [OF e] show ?thesis by simp
qed

lemma set_f_poller_frame [simp]:
  "f_conts (set_f_poller i p st) = f_conts st" "f_heap (set_f_poller i p st) = f_heap st" "f_outs (set_f_poller i p st) = f_outs st"
  "f_conns (set_f_poller i p st) = f_conns st" "f_resched (set_f_poller i p st) = f_resched st"
  "f_write_back (set_f_poller i p st) = f_write_back st" "f_current (set_f_poller i p st) = f_current st"
  "length (f_pollers (set_f_poller i p st)) = length (f_pollers st)"
  by (simp_all add: set_f_poller_def)

text \<open>What two states have in common when only pollers differ.\<close>

definition pollers_only :: "'p fcgi_state \<Rightarrow> 'p fcgi_state \<Rightarrow> bool" where
  "pollers_only st st' \<longleftrightarrow> f_conts st' = f_conts st \<and> f_heap st' = f_heap st \<and> f_outs st' = f_outs st \<and> f_conns st' = f_conns st \<and>
     f_resched st' = f_resched st \<and> f_write_back st' = f_write_back st \<and> length (f_pollers st') = length (f_pollers st)"

lemma pollers_onlyD:
  assumes "pollers_only st st'"
  shows "f_conts st' = f_conts st" "f_heap st' = f_heap st" "f_outs st' = f_outs st" "f_conns st' = f_conns st"
    "f_resched st' = f_resched st" "f_write_back st' = f_write_back st" "length (f_pollers st') = length (f_pollers st)"
  using assms by (simp_all add: pollers_only_def)

lemma poller_ops_frame:
  "poller_add k i fd c evt st = Some (r, st') \<Longrightarrow> pollers_only st st'"
  "poller_change k i fd c evt st = Some (r, st') \<Longrightarrow> pollers_only st st'"
  "poller_remove k i fd st = Some (r, st') \<Longrightarrow> pollers_only st st'"
  "remove_fd_with_timer k i fd c st = Some (r, st') \<Longrightarrow> pollers_only st st'"
  by (auto simp: poller_add_def poller_change_def poller_remove_def remove_fd_with_timer_def Let_def pollers_only_def split: option.splits)

lemma transfer_status_task:
  assumes "transfer_status k i c st = Some (s, st')"
  shows "task_size c st' = task_size c st"
  using assms
  by (auto simp: transfer_status_def task_size_def set_cont_def resched_continuation_def stream_write_back_def Let_def
      split: option.splits completion_status.splits if_splits prod.splits Option.bind_splits dest!: poller_ops_frame pollers_onlyD(1))

lemma run_parser_step_task:
  assumes "run_parser_step lib c st = Some (True, st')"
  shows "task_size c st' < task_size c st"
  using assms by (auto simp: run_parser_step_def task_size_def set_cont_def split: option.splits dest: run_parser_size)

text \<open>The parsing loop of \<open>handle_read\<close>: every round takes a record off the task buffer.\<close>

function read_fcgi_loop :: "'p content_lib \<Rightarrow> fcgi_kernel \<Rightarrow> nat \<Rightarrow> nat \<Rightarrow> 'p fcgi_state \<Rightarrow> 'p fcgi_state option" where
  "read_fcgi_loop lib k i c st =
    (case run_parser_step lib c st of
       None \<Rightarrow> None
     | Some (False, st1) \<Rightarrow> Some st1
     | Some (True, st1) \<Rightarrow>
        (case transfer_status k i c st1 of
           None \<Rightarrow> None
         | Some (s, st2) \<Rightarrow>
            if s = kCompletionHeadersDone then Some st2
            else if (case f_conts st2 c of None \<Rightarrow> False | Some cont \<Rightarrow> content_has_error lib (cont_parser cont))
            then fcgi_handle_error k i c st2
            else read_fcgi_loop lib k i c st2))"
  by pat_completeness auto
termination
  by (relation "measure (\<lambda>(lib, k, i, c, st). task_size c st)") (auto dest!: run_parser_step_task transfer_status_task)

declare read_fcgi_loop.simps [simp del]

text \<open>\<open>again\<close>: \<open>errno\<close> is \<open>EAGAIN\<close> or \<open>EWOULDBLOCK\<close>.\<close>

definition fcgi_handle_read ::
  "'p content_lib \<Rightarrow> fcgi_kernel \<Rightarrow> int \<Rightarrow> (nat \<Rightarrow> byte list option) \<Rightarrow> bool \<Rightarrow> nat \<Rightarrow> nat \<Rightarrow> 'p fcgi_state \<Rightarrow> 'p fcgi_state option" where
  "fcgi_handle_read lib k now readv again i c st0 =
    (case f_conts st0 c of
       None \<Rightarrow> None
     | Some cont0 \<Rightarrow>
        let st = update_idle_handler now i c cont0 st0;
            cont = the (f_conts st c)
        in if cont_status cont = kCompletionReadClient
           then let (rs, b, h) = read_from_fd (f_heap st) (task_buffer cont) readv;
                    st1 = set_cont c (cont\<lparr>task_buffer := b\<rparr>) (st\<lparr>f_heap := h\<rparr>)
                in do {
                  st2 \<leftarrow> (if rs < 0 \<and> \<not> again then fcgi_handle_error k i c st1 else Some st1);
                  cont2 \<leftarrow> f_conts st2 c;
                  let st3 = (if rs > 0 then set_cont c (cont2\<lparr>task_len := task_len cont2 - rs\<rparr>) st2 else st2);
                  (_, st4) \<leftarrow> transfer_status k i c st3;
                  Some st4
                }
           else if cont_status cont = kCompletionReadFcgi
           then let (rs, b, h) = read_from_fd (f_heap st) (task_buffer cont) readv;
                    st1 = set_cont c (cont\<lparr>task_buffer := b\<rparr>) (st\<lparr>f_heap := h\<rparr>)
                in do {
                  st2 \<leftarrow> (if rs < 0 \<and> \<not> again then fcgi_handle_error k i c st1 else Some st1);
                  read_fcgi_loop lib k i c st2
                }
           else Some st)"

definition fcgi_handle_write ::
  "fcgi_kernel \<Rightarrow> int \<Rightarrow> (byte list \<Rightarrow> int) \<Rightarrow> bool \<Rightarrow> nat \<Rightarrow> nat \<Rightarrow> 'p fcgi_state \<Rightarrow> 'p fcgi_state option" where
  "fcgi_handle_write k now writev again i c st0 =
    (case f_conts st0 c of
       None \<Rightarrow> None
     | Some cont0 \<Rightarrow>
        let st = update_idle_handler now i c cont0 st0;
            cont = the (f_conts st c)
        in if cont_status cont = kCompletionWriteFcgi
           then let (rs, b, h) = write_to_fd (f_heap st) (task_buffer cont) writev;
                    st1 = set_cont c (cont\<lparr>task_buffer := b\<rparr>) (st\<lparr>f_heap := h\<rparr>)
                in do {
                  st2 \<leftarrow> (if rs < 0 \<and> \<not> again then fcgi_handle_error k i c st1 else Some st1);
                  (_, st3) \<leftarrow> transfer_status k i c st2;
                  Some st3
                }
           else Some st)"

definition fcgi_handle_connection ::
  "'p content_lib \<Rightarrow> fcgi_kernel \<Rightarrow> int \<Rightarrow> (nat \<Rightarrow> byte list option) \<Rightarrow> (byte list \<Rightarrow> int) \<Rightarrow> bool \<Rightarrow> nat \<Rightarrow> nat \<Rightarrow> 16 word \<Rightarrow>
    'p fcgi_state \<Rightarrow> 'p fcgi_state option" where
  "fcgi_handle_connection lib k now readv writev again i c evt st =
    (if evt AND kPollerEventHup \<noteq> 0 \<or> evt AND kPollerEventError \<noteq> 0 then fcgi_handle_error k i c st
     else if evt AND kPollerEventRead \<noteq> 0 then fcgi_handle_read lib k now readv again i c st
     else if evt AND kPollerEventWrite \<noteq> 0 then fcgi_handle_write k now writev again i c st
     else Some st)"

text \<open>The timer walk of a poller: the callbacks are all \<open>cleanup_idle_callback\<close>.  A callback may change the timer that is being walked.\<close>

definition fcgi_invoke :: "fcgi_kernel \<Rightarrow> nat \<Rightarrow> (unit, 'p fcgi_state option) invoke" where
  "fcgi_invoke k i u x st =
    (case fst st of
       None \<Rightarrow> (False, None, snd st)
     | Some w \<Rightarrow>
        (case fcgi_idle_callback k i (nat x) (set_f_poller i ((f_poller i w)\<lparr>p_timer := snd st\<rparr>) w) of
           None \<Rightarrow> (False, None, snd st)
         | Some (r, w') \<Rightarrow> (r, Some w', p_timer (f_poller i w'))))"

section \<open>A connection leaves the stage once\<close>

definition in_stage :: "completion_status \<Rightarrow> bool" where
  "in_stage s \<longleftrightarrow> s = kCompletionReadClient \<or> s = kCompletionWriteFcgi \<or> s = kCompletionReadFcgi"

text \<open>Relative to the state \<open>st0\<close> before an event: a connection whose status still belongs to the stage was passed on to nobody, one that
  is to be continued went to the write back stage, every other was rescheduled; each exactly once.  Other connections are not affected.\<close>

definition settled :: "nat \<Rightarrow> 'p fcgi_state \<Rightarrow> 'p fcgi_state \<Rightarrow> bool" where
  "settled c st0 st \<longleftrightarrow> (\<forall>d. d \<noteq> c \<longrightarrow> f_conts st d = f_conts st0 d \<and> f_outs st d = f_outs st0 d) \<and> (case f_conts st c of
     None \<Rightarrow> False
   | Some cont \<Rightarrow>
       if in_stage (cont_status cont) then f_resched st = f_resched st0 \<and> f_write_back st = f_write_back st0
       else if cont_status cont = kCompletionContinue then f_resched st = f_resched st0 \<and> f_write_back st = f_write_back st0 @ [c]
       else f_resched st = f_resched st0 @ [c] \<and> f_write_back st = f_write_back st0)"

text \<open>In the parsing loop moreover a status other than reading implies that the header lines are complete.\<close>

definition loop_ok :: "nat \<Rightarrow> 'p fcgi_state \<Rightarrow> 'p fcgi_state \<Rightarrow> bool" where
  "loop_ok c st0 st \<longleftrightarrow> settled c st0 st \<and>
     (\<forall>cont. f_conts st c = Some cont \<longrightarrow> cont_status cont \<noteq> kCompletionReadFcgi \<longrightarrow> cp_done (cont_parser cont))"

lemma abort_settles:
  assumes "fcgi_abort k i c s rt st = Some st'" and "f_conts st c = Some cont" and "in_stage (cont_status cont)"
    and "settled c st0 st" and "\<not> in_stage s" and "s \<noteq> kCompletionContinue"
  shows "settled c st0 st'"
  using assms
  by (auto simp: pollers_only_def fcgi_abort_def settled_def resched_continuation_def set_cont_def split: if_splits Option.bind_splits prod.splits
      dest!: poller_ops_frame)

lemma transfer_settles:
  assumes "transfer_status k i c st = Some (s, st')" and "f_conts st c = Some cont" and "settled c st0 st"
  shows "settled c st0 st'"
  using assms
  by (auto simp: pollers_only_def transfer_status_def settled_def in_stage_def resched_continuation_def stream_write_back_def set_cont_def Let_def
      split: completion_status.splits if_splits Option.bind_splits prod.splits dest!: poller_ops_frame)

lemma transfer_loop_ok:
  assumes "transfer_status k i c st = Some (s, st')" and "f_conts st c = Some cont" and "loop_ok c st0 st"
  shows "loop_ok c st0 st' \<and> (\<exists>cont'. f_conts st' c = Some cont' \<and> cont_parser cont' = cont_parser cont \<and> cont_status cont' = s)"
proof -
  have "(\<exists>cont'. f_conts st' c = Some cont' \<and> cont_parser cont' = cont_parser cont \<and> cont_status cont' = s \<and>
      (cont_status cont \<noteq> kCompletionReadFcgi \<and> \<not> cp_done (cont_parser cont) \<or> cp_done (cont_parser cont) \<or> s = kCompletionReadFcgi))"
    using assms(1,2)
    by (auto simp: pollers_only_def transfer_status_def resched_continuation_def stream_write_back_def set_cont_def Let_def
      split: completion_status.splits if_splits Option.bind_splits prod.splits dest!: poller_ops_frame)
  with transfer_settles [OF assms(1,2)] assms(2,3) show ?thesis by (auto simp: loop_ok_def)
qed

lemma run_event_done: "cp_done p \<Longrightarrow> cp_done (run_event e p)"
  by (cases e) (simp_all add: push_name_def push_value_def push_header_def done_parse_def Let_def split: prod.splits)

lemma bypass_task_keeps:
  "bypass_task n (cont, h) = (cont', h') \<Longrightarrow> cont_status cont' = cont_status cont \<and> cont_parser cont' = cont_parser cont"
  by (auto simp: bypass_task_def Let_def split: prod.splits)

lemma run_parser_keeps:
  "fcgi_run_parser lib (cont, h) = Some (r, cont', h') \<Longrightarrow>
    cont_status cont' = cont_status cont \<and> (cp_done (cont_parser cont) \<longrightarrow> cont_parser cont' = cont_parser cont)"
  by (auto simp: fcgi_run_parser_def Let_def split: option.splits if_splits prod.splits bool.splits
      dest!: bypass_task_keeps feed_pages_keeps)

lemma run_parser_step_loop_ok:
  assumes "run_parser_step lib c st = Some (r, st')" and "loop_ok c st0 st"
  shows "loop_ok c st0 st' \<and> (\<exists>cont. f_conts st' c = Some cont)"
proof -
  obtain cont cont' h where c: "f_conts st c = Some cont" and p: "fcgi_run_parser lib (cont, f_heap st) = Some (r, cont', h)"
      and st': "st' = set_cont c cont' (st\<lparr>f_heap := h\<rparr>)"
    using assms(1) by (auto simp: run_parser_step_def split: option.splits)
  from run_parser_keeps [OF p] assms(2) c show ?thesis by (auto simp: st' loop_ok_def settled_def set_cont_def)
qed

lemma read_fcgi_loop_settles:
  assumes "read_fcgi_loop lib k i c st = Some st'" and "loop_ok c st0 st"
  shows "settled c st0 st'"
  using assms
proof (induction lib k i c st rule: read_fcgi_loop.induct)
  case (1 lib k i c st)
  obtain r st1 where s1: "run_parser_step lib c st = Some (r, st1)"
    using "1.prems"(1) by (subst (asm) read_fcgi_loop.simps) (auto split: option.splits)
  obtain cont1 where l1: "loop_ok c st0 st1" and c1: "f_conts st1 c = Some cont1" using run_parser_step_loop_ok [OF s1 "1.prems"(2)] by blast
  show ?case
  proof (cases r)
    case False
    then show ?thesis using "1.prems"(1) s1 l1 by (subst (asm) read_fcgi_loop.simps) (auto simp: loop_ok_def)
  next
    case True
    obtain s st2 where t: "transfer_status k i c st1 = Some (s, st2)"
      using "1.prems"(1) s1 True by (subst (asm) read_fcgi_loop.simps) (auto split: option.splits)
    obtain cont2 where l2: "loop_ok c st0 st2" and c2: "f_conts st2 c = Some cont2" using transfer_loop_ok [OF t c1 l1] by blast
    have eq: "read_fcgi_loop lib k i c st = (if s = kCompletionHeadersDone then Some st2
        else if content_has_error lib (cont_parser cont2) then fcgi_handle_error k i c st2 else read_fcgi_loop lib k i c st2)"
      by (subst read_fcgi_loop.simps) (simp add: s1 True t c2)
    consider "s = kCompletionHeadersDone" | "s \<noteq> kCompletionHeadersDone" "content_has_error lib (cont_parser cont2)"
      | "s \<noteq> kCompletionHeadersDone" "\<not> content_has_error lib (cont_parser cont2)" by blast
    then show ?thesis
    proof cases
      case 1
      then show ?thesis using eq "1.prems"(1) l2 by (simp add: loop_ok_def)
    next
      case 2
      have "in_stage (cont_status cont2)" using 2(2) l2 c2 by (auto simp: content_has_error_def loop_ok_def in_stage_def split: if_splits)
      moreover have "fcgi_abort k i c kCompletionError True st2 = Some st'" using eq "1.prems"(1) 2 by (simp add: fcgi_handle_error_def)
      ultimately show ?thesis using abort_settles [OF _ c2] l2 by (auto simp: loop_ok_def in_stage_def)
    next
      case 3
      have "read_fcgi_loop lib k i c st2 = Some st'" using eq "1.prems"(1) 3 by simp
      moreover have "r = True" using True by simp
      ultimately show ?thesis using "1.IH" [OF s1 refl _ t refl 3(1) _ _ l2] c2 3(2) by simp
    qed
  qed
qed

lemma update_idle_settles:
  assumes "f_conts st c = Some cont" and "in_stage (cont_status cont)" and "st1 = update_idle_handler now i c cont st"
  shows "\<exists>cont1. f_conts st1 c = Some cont1 \<and> settled c st st1 \<and> cont_status cont1 = cont_status cont"
  using assms
  by (auto simp: update_idle_handler_def cont_update_last_active_def settled_def set_cont_def Let_def split: prod.splits if_splits)

lemma settled_set_cont:
  assumes "settled c st0 st" and "f_conts st c = Some cont" and "cont_status cont' = cont_status cont"
  shows "settled c st0 (set_cont c cont' (st\<lparr>f_heap := h\<rparr>))" and "settled c st0 (set_cont c cont' st)"
  using assms by (auto simp: settled_def set_cont_def)

lemma abort_cont: "fcgi_abort k i c s rt st = Some st' \<Longrightarrow> \<exists>cont. f_conts st' c = Some cont"
  by (auto simp: fcgi_abort_def resched_continuation_def set_cont_def split: option.splits if_splits Option.bind_splits prod.splits)

lemma handle_error_settles:
  assumes "fcgi_handle_error k i c st = Some st'" and "f_conts st c = Some cont" and "in_stage (cont_status cont)" and "settled c st0 st"
  shows "settled c st0 st'"
  using abort_settles [OF assms(1) [unfolded fcgi_handle_error_def] assms(2,3,4)] by (simp add: in_stage_def)

lemma handle_read_settles:
  assumes "fcgi_handle_read lib k now readv again i c st = Some st'" and "f_conts st c = Some cont" and "in_stage (cont_status cont)"
    and "\<And>n. readv n = None \<Longrightarrow> again"
  shows "settled c st st'"
proof -
  define st1 where "st1 = update_idle_handler now i c cont st"
  obtain cont1 where c1: "f_conts st1 c = Some cont1" "settled c st st1" "cont_status cont1 = cont_status cont"
    using update_idle_settles [OF assms(2,3) st1_def] by blast
  obtain rs b h where rd: "read_from_fd (f_heap st1) (task_buffer cont1) readv = (rs, b, h)" by (rule prod_cases3)
  have nerr: "\<not> (rs < 0 \<and> \<not> again)" using rd assms(4) by (auto simp: read_from_fd_def Let_def split: prod.splits option.splits)
  define st2 where "st2 = set_cont c (cont1\<lparr>task_buffer := b\<rparr>) (st1\<lparr>f_heap := h\<rparr>)"
  have s2: "settled c st st2" "f_conts st2 c = Some (cont1\<lparr>task_buffer := b\<rparr>)"
    using settled_set_cont(1) [OF c1(2,1), of "cont1\<lparr>task_buffer := b\<rparr>" h] by (simp_all add: st2_def set_cont_def)
  have eq: "(if cont_status cont1 = kCompletionReadClient
      then do { (_, st4) \<leftarrow> transfer_status k i c (if rs > 0 then set_cont c (cont1\<lparr>task_buffer := b, task_len := task_len cont1 - rs\<rparr>) st2 else st2);
                Some st4 }
      else if cont_status cont1 = kCompletionReadFcgi then read_fcgi_loop lib k i c st2 else Some st1) = Some st'"
    using assms(1,2) nerr unfolding fcgi_handle_read_def
    by (simp only: option.case Let_def st1_def [symmetric] c1(1) option.sel rd prod.case st2_def [symmetric] s2(2) if_False bind.bind_lunit) (simp cong: if_cong)
  consider "cont_status cont1 = kCompletionReadClient" | "cont_status cont1 = kCompletionReadFcgi" | "cont_status cont1 = kCompletionWriteFcgi"
    using assms(3) c1(3) by (auto simp: in_stage_def)
  then show ?thesis
  proof cases
    case 1
    define st3 where "st3 = (if rs > 0 then set_cont c (cont1\<lparr>task_buffer := b, task_len := task_len cont1 - rs\<rparr>) st2 else st2)"
    obtain s where t: "transfer_status k i c st3 = Some (s, st')" using eq 1 by (auto simp: st3_def [symmetric] split: Option.bind_splits)
    have "settled c st st3" using settled_set_cont(2) [OF s2] s2(1) by (simp add: st3_def)
    moreover have "\<exists>cont3. f_conts st3 c = Some cont3" using s2(2) by (simp add: st3_def set_cont_def)
    ultimately show ?thesis using transfer_settles [OF t] by blast
  next
    case 2
    then have "read_fcgi_loop lib k i c st2 = Some st'" using eq by simp
    moreover have "loop_ok c st st2" using s2 2 by (simp add: loop_ok_def)
    ultimately show ?thesis by (rule read_fcgi_loop_settles)
  next
    case 3
    then show ?thesis using eq c1(2) by simp
  qed
qed

lemma handle_write_settles:
  assumes "fcgi_handle_write k now writev again i c st = Some st'" and "f_conts st c = Some cont" and "in_stage (cont_status cont)"
  shows "settled c st st'"
proof -
  define st1 where "st1 = update_idle_handler now i c cont st"
  obtain cont1 where c1: "f_conts st1 c = Some cont1" "settled c st st1" "cont_status cont1 = cont_status cont"
    using update_idle_settles [OF assms(2,3) st1_def] by blast
  obtain rs b h where wr: "write_to_fd (f_heap st1) (task_buffer cont1) writev = (rs, b, h)" by (rule prod_cases3)
  define st2 where "st2 = set_cont c (cont1\<lparr>task_buffer := b\<rparr>) (st1\<lparr>f_heap := h\<rparr>)"
  have s2: "settled c st st2" "f_conts st2 c = Some (cont1\<lparr>task_buffer := b\<rparr>)"
    using settled_set_cont(1) [OF c1(2,1), of "cont1\<lparr>task_buffer := b\<rparr>" h] by (simp_all add: st2_def set_cont_def)
  have eq: "Some st' = (if cont_status cont1 = kCompletionWriteFcgi
      then do { st3 \<leftarrow> (if rs < 0 \<and> \<not> again then fcgi_handle_error k i c st2 else Some st2);
                (_, st4) \<leftarrow> transfer_status k i c st3; Some st4 }
      else Some st1)"
    using assms(1,2) unfolding fcgi_handle_write_def
    by (simp only: option.case Let_def st1_def [symmetric] c1(1) option.sel wr prod.case st2_def [symmetric])
  show ?thesis
  proof (cases "cont_status cont1 = kCompletionWriteFcgi")
    case True
    obtain st3 s where st3: "(if rs < 0 \<and> \<not> again then fcgi_handle_error k i c st2 else Some st2) = Some st3"
        and t: "transfer_status k i c st3 = Some (s, st')" using eq True by (auto split: Option.bind_splits)
    have "settled c st st3" using st3 handle_error_settles [OF _ s2(2) _ s2(1)] s2(1) True by (auto simp: in_stage_def split: if_splits)
    moreover have "\<exists>cont3. f_conts st3 c = Some cont3" using st3 s2(2) by (auto simp: fcgi_handle_error_def split: if_splits dest!: abort_cont)
    ultimately show ?thesis using transfer_settles [OF t] by blast
  next
    case False
    then show ?thesis using eq c1(2) by simp
  qed
qed


text \<open>A state with one connection in the stage, on one poller without registrations, and a kernel that accepts everything.\<close>

definition trivial_lib :: "unit content_lib" where
  "trivial_lib = \<lparr>cl_start = (), cl_exec = (\<lambda>_ bs. Some (length bs, [DoneParse], ())), cl_error = (\<lambda>_. False)\<rparr>"

definition yes_kernel :: fcgi_kernel where
  "yes_kernel = \<lparr>fk_add = \<lambda>_ _. True, fk_change = \<lambda>_ _. True, fk_remove = \<lambda>_. True\<rparr>"

definition fcgi_sample :: "completion_status \<Rightarrow> unit fcgi_state" where
  "fcgi_sample s =
    (let (cont, h) = FcgiCompletionContinuation trivial_lib empty_heap
     in \<lparr>f_conns = (\<lambda>c. Connection 0 5), f_conts = [1 \<mapsto> cont\<lparr>sock_fd := 6, cont_status := s\<rparr>], f_outs = (\<lambda>_. OutputStream), f_heap = h,
         f_pollers = [\<lparr>p_fds = FDMap_new 8, p_timer = [], p_last_executed = 0, p_expired = []\<rparr>], f_current = 0, f_resched = [], f_write_back = []\<rparr>)"


section \<open>The body of a reply\<close>

lemma segment_length:
  assumes "get_page_segment h b (fst pg) = (off, len)" and "length (snd pg) = kPageSize" and "left_offset b \<le> kPageSize"
  shows "length (segment h b pg) = len"
  using assms by (auto simp: segment_def get_page_segment_def Let_def split: if_splits)

text \<open>What the pages of a record make of parser and output: the pieces are cut at the length of the content.\<close>

fun parse_pieces :: "'p content_lib \<Rightarrow> byte list list \<Rightarrow> 'p content_parser \<Rightarrow> (bool \<times> 'p content_parser \<times> byte list) option" where
  "parse_pieces lib [] p = Some (False, p, [])"
| "parse_pieces lib (x # xs) p =
    (case (if cp_done p then Some (0, p) else content_parse lib x p) of
       None \<Rightarrow> None
     | Some (rs, p1) \<Rightarrow>
         if content_has_error lib p1 then Some (True, p1, [])
         else map_option (\<lambda>(e, p2, bs). (e, p2, drop rs x @ bs)) (parse_pieces lib xs p1))"

fun cut_pieces :: "nat \<Rightarrow> 'a list list \<Rightarrow> 'a list list" where
  "cut_pieces n [] = []"
| "cut_pieces n (x # xs) = take n x # (if n \<le> length x then [] else cut_pieces (n - length x) xs)"

lemma concat_cut_pieces: "concat (cut_pieces n xs) = take n (concat xs)"
  by (induction n xs rule: cut_pieces.induct) auto

lemma parse_pieces_done: "cp_done p \<Longrightarrow> parse_pieces lib xs p = Some (False, p, concat xs)"
  by (induction xs) (simp_all add: content_has_error_def)

lemma feed_pages_pieces:
  assumes "heap_ok h" and "buf_ok h (output_buffer cont)" and "buf_ok h (task_buffer cont)" and "separate h (output_buffer cont) (task_buffer cont)"
    and "\<forall>pg \<in> set pgs. length (snd pg) = kPageSize" and "pgs \<noteq> []"
    and "parse_pieces lib (cut_pieces n (map (segment h (task_buffer cont)) pgs)) (cont_parser cont) = Some (False, p', bs)"
  shows "\<exists>o' h'. feed_pages lib pgs n (cont, h) = Some (False, cont\<lparr>cont_parser := p', output_buffer := o'\<rparr>, h') \<and>
    op_spec h (output_buffer cont) h' o' (contents h (output_buffer cont) @ bs)"
  using assms
proof (induction pgs arbitrary: n cont h bs)
  case (Cons pg pgs)
  let ?seg = "segment h (task_buffer cont)" and ?o = "output_buffer cont"
  obtain off len where ol: "get_page_segment h (task_buffer cont) (fst pg) = (off, len)" by (rule prod.exhaust)
  have sg: "?seg pg = take len (drop off (snd pg))" by (simp add: segment_def ol)
  have len: "length (?seg pg) = len"
    using segment_length [OF ol] Cons.prems(5) buf_okD(1) [OF Cons.prems(3)] by (simp add: layout_def)
  define m where "m = (if n < len then n else len)"
  define ptr where "ptr = take m (drop off (snd pg))"
  have ptr: "ptr = take n (?seg pg)" by (auto simp: ptr_def m_def sg min_def)
  have more: "n \<le> length (?seg pg) \<longleftrightarrow> n - m = 0" "n - length (?seg pg) = n - m" using len by (auto simp: m_def)
  define xs where "xs = (if n - m = 0 then [] else cut_pieces (n - m) (map ?seg pgs))"
  have cut: "cut_pieces n (map ?seg (pg # pgs)) = ptr # xs" by (simp add: more ptr xs_def)
  define parsed where "parsed = (if cp_done (cont_parser cont) then Some (0, cont_parser cont) else content_parse lib ptr (cont_parser cont))"
  obtain rs p1 bs1 where parse: "parsed = Some (rs, p1)" "\<not> content_has_error lib p1" "parse_pieces lib xs p1 = Some (False, p', bs1)" "bs = drop rs ptr @ bs1"
    using Cons.prems(7) unfolding cut by (auto simp: parsed_def [symmetric] split: option.splits prod.splits if_splits)
  obtain ok o1 h1 where ap: "append_data h ?o (drop rs ptr) = (ok, o1, h1)" by (rule prod_cases3)
  have sp: "op_spec h ?o h1 o1 (contents h ?o @ drop rs ptr)" using append_data_spec [OF Cons.prems(1,2) ap] by blast
  have tk: "preserved h h1 (task_buffer cont)" "cow_ref (task_buffer cont) \<noteq> cow_ref o1"
    using op_specD(4) [OF sp Cons.prems(3,4)] by blast+
  let ?c = "cont\<lparr>cont_parser := p1, output_buffer := o1\<rparr>"
  have eq: "feed_pages lib (pg # pgs) n (cont, h) = (if n - m = 0 then Some (False, ?c, h1) else feed_pages lib pgs (n - m) (?c, h1))"
    unfolding feed_pages_Cons [OF ol m_def ptr_def parsed_def] using ap parse(1,2) by (simp add: Let_def)
  show ?case
  proof (cases "n - m = 0 \<or> pgs = []")
    case True
    then have "xs = []" by (auto simp: xs_def)
    then have "p' = p1" "bs = drop rs ptr" using parse(3,4) by simp_all
    then show ?thesis using eq True sp by auto
  next
    case False
    have seg: "segment h1 (task_buffer cont) = ?seg" "buf_ok h1 (task_buffer cont)" using tk(1) by (auto simp: preserved_def intro: segment_cong)
    obtain o2 h2 where fp: "feed_pages lib pgs (n - m) (?c, h1) = Some (False, ?c\<lparr>cont_parser := p', output_buffer := o2\<rparr>, h2)"
        and s2: "op_spec h1 o1 h2 o2 (contents h1 o1 @ bs1)"
      using Cons.IH [of h1 ?c "n - m" bs1] op_specD(1,2) [OF sp] seg tk(2) False Cons.prems(5) parse(3)
      by (auto simp: separate_def xs_def)
    have "op_spec h ?o h2 o2 (contents h ?o @ bs)" using op_spec_trans [OF sp s2] op_specD(3) [OF sp] parse(4) by simp
    then show ?thesis using eq fp False by (auto simp del: feed_pages.simps)
  qed
qed simp

text \<open>A complete output record: what is appended to the output is what the parser leaves of its content, if it leaves the same of every cut.\<close>

lemma output_record_parsed:
  assumes "heap_ok h" and "buf_ok h (task_buffer cont)" and "buf_ok h (output_buffer cont)" and "in_int_range (task_buffer cont)"
    and "cow_ref (output_buffer cont) \<noteq> cow_ref (task_buffer cont)"
    and "contents h (task_buffer cont) = frame r dat @ rest" and "length dat = unat (rec_content_length r)"
    and "rec_type r = kFcgiStdout \<or> rec_type r = kFcgiStderr"
    and parsed: "\<And>xs. concat xs = dat \<Longrightarrow> \<exists>p'. parse_pieces lib xs (cont_parser cont) = Some (False, p', bs) \<and> Q p'"
  shows "\<exists>cont' h'. fcgi_run_parser lib (cont, h) = Some (True, cont', h') \<and>
    contents h' (task_buffer cont') = rest \<and> contents h' (output_buffer cont') = contents h (output_buffer cont) @ bs \<and> Q (cont_parser cont') \<and>
    cont' = cont\<lparr>task_buffer := task_buffer cont', output_buffer := output_buffer cont', cont_parser := cont_parser cont'\<rparr> \<and>
    heap_ok h' \<and> buf_ok h' (task_buffer cont') \<and> buf_ok h' (output_buffer cont') \<and>
    cow_ref (output_buffer cont') \<noteq> cow_ref (task_buffer cont')"
proof -
  let ?pad = "replicate (unat (rec_padding_length r)) (0 :: byte)" and ?n = "unat (rec_content_length r)"
  obtain b1 h1 where e: "extract_record (task_buffer cont, h) = Some (Some r, b1, h1)"
      and s1: "op_spec h (task_buffer cont) h1 b1 (dat @ ?pad @ rest)"
    using extract_complete_record [OF assms(1,2,4,6,7)] by blast
  have o1: "preserved h h1 (output_buffer cont)" "cow_ref (output_buffer cont) \<noteq> cow_ref b1"
    using op_specD(4) [OF s1 assms(3)] assms(5) by (auto simp: separate_def)
  have o1c: "buf_ok h1 (output_buffer cont)" "contents h1 (output_buffer cont) = contents h (output_buffer cont)"
    using preserved_contents [OF o1(1)] by auto
  have b1: "heap_ok h1" "buf_ok h1 b1" using op_specD [OF s1] by auto
  have r1: "in_int_range b1"
    using pop_range [OF assms(1,2,4)] e by (auto simp: extract_record_def Let_def split: option.splits bool.splits if_splits prod.splits)
  define c1 where "c1 = cont\<lparr>task_buffer := b1\<rparr>"
  have "concat (cut_pieces ?n (map (segment h1 b1) (buf_pages h1 b1))) = dat"
    using segments_contents [OF b1(2)] op_specD(3) [OF s1] assms(7) by (simp add: concat_cut_pieces)
  from parsed [OF this] obtain p' where p': "parse_pieces lib (cut_pieces ?n (map (segment h1 b1) (buf_pages h1 b1))) (cont_parser cont) = Some (False, p', bs)" "Q p'"
    by blast
  have "\<exists>o' h'. feed_pages lib (buf_pages h1 b1) ?n (c1, h1) = Some (False, c1\<lparr>cont_parser := p', output_buffer := o'\<rparr>, h') \<and>
      op_spec h1 (output_buffer c1) h' o' (contents h1 (output_buffer c1) @ bs)"
    by (rule feed_pages_pieces) (use b1 o1 o1c p'(1) buf_okD [OF b1(2)] in \<open>auto simp: c1_def separate_def layout_def\<close>)
  then obtain o2 h2 where fp: "feed_pages lib (buf_pages h1 b1) ?n (c1, h1) = Some (False, c1\<lparr>cont_parser := p', output_buffer := o2\<rparr>, h2)"
      and s2: "op_spec h1 (output_buffer cont) h2 o2 (contents h (output_buffer cont) @ bs)"
    using o1c(2) by (auto simp: c1_def)
  have b2: "preserved h1 h2 b1" "cow_ref b1 \<noteq> cow_ref o2"
    using op_specD(4) [OF s2 b1(2)] o1(2) by (auto simp: separate_def)
  have b2c: "buf_ok h2 b1" "contents h2 b1 = dat @ ?pad @ rest" using preserved_contents [OF b2(1)] op_specD(3) [OF s1] by auto
  obtain ok b3 h3 where p: "pop h2 b1 (total_length r) = (ok, b3, h3)" by (rule prod_cases3)
  have "total_length r \<le> buf_size b1" using op_spec_size [OF s1] assms(7) by (simp add: total_length_def)
  from pop_spec [OF op_specD(1) [OF s2] b2c(1) r1 this p]
  have s3: "op_spec h2 b1 h3 b3 rest" by (simp add: b2c(2) total_length_def assms(7) [symmetric])
  have o3: "preserved h2 h3 o2" "cow_ref o2 \<noteq> cow_ref b3" using op_specD(4) [OF s3 op_specD(2) [OF s2]] b2(2) by (auto simp: separate_def)
  define c3 where "c3 = cont\<lparr>task_buffer := b3, output_buffer := o2, cont_parser := p'\<rparr>"
  have nt: "rec_type r \<noteq> kFcgiEndRequest" using assms(8) by (auto simp: kFcgiStdout_def kFcgiStderr_def kFcgiEndRequest_def)
  have "fcgi_run_parser lib (cont, h) = Some (True, c3, h3)"
    using e fp [unfolded c1_def] p nt assms(8) by (auto simp: fcgi_run_parser_def Let_def bypass_task_def bypass_content_def c3_def)
  then show ?thesis
    using op_specD [OF s3] op_specD(3) [OF s2] preserved_contents [OF o3(1)] o3(2) p'(2) by (auto simp: c3_def)
qed

text \<open>C37: once the header lines of a reply are complete, a complete standard output record at the front of the task buffer is taken off with
  its padding, and its content, however it is spread over pages, is appended unchanged to the output buffer; what follows the record
  stays in the task buffer.\<close>

theorem fcgi_reply_forwarded:
  assumes "heap_ok h" and "buf_ok h (task_buffer cont)" and "buf_ok h (output_buffer cont)" and "in_int_range (task_buffer cont)"
    and "cow_ref (output_buffer cont) \<noteq> cow_ref (task_buffer cont)"
    and "contents h (task_buffer cont) = frame r dat @ rest" and "length dat = unat (rec_content_length r)"
    and "rec_type r = kFcgiStdout \<or> rec_type r = kFcgiStderr" and "cp_done (cont_parser cont)"
  shows "\<exists>cont' h'. fcgi_run_parser lib (cont, h) = Some (True, cont', h') \<and>
    contents h' (task_buffer cont') = rest \<and> contents h' (output_buffer cont') = contents h (output_buffer cont) @ dat \<and>
    cont' = cont\<lparr>task_buffer := task_buffer cont', output_buffer := output_buffer cont'\<rparr> \<and>
    heap_ok h' \<and> buf_ok h' (task_buffer cont') \<and> buf_ok h' (output_buffer cont') \<and>
    cow_ref (output_buffer cont') \<noteq> cow_ref (task_buffer cont')"
proof -
  have "\<exists>p'. parse_pieces lib xs (cont_parser cont) = Some (False, p', dat) \<and> p' = cont_parser cont" if "concat xs = dat" for xs
    using parse_pieces_done [OF assms(9)] that by simp
  from output_record_parsed [OF assms(1-8) this] obtain cont' h' where
    "fcgi_run_parser lib (cont, h) = Some (True, cont', h')" "cont' = cont\<lparr>task_buffer := task_buffer cont', output_buffer := output_buffer cont', cont_parser := cont_parser cont'\<rparr>"
    "contents h' (task_buffer cont') = rest" "contents h' (output_buffer cont') = contents h (output_buffer cont) @ dat" "cont_parser cont' = cont_parser cont"
    "heap_ok h' \<and> buf_ok h' (task_buffer cont') \<and> buf_ok h' (output_buffer cont') \<and> cow_ref (output_buffer cont') \<noteq> cow_ref (task_buffer cont')"
    by blast
  then show ?thesis by (intro exI [of _ cont'] exI [of _ h']) (cases cont', cases cont, simp)
qed

text \<open>A continuation that has received one standard output record.\<close>

definition output_record :: "byte list \<Rightarrow> fcgi_record" where
  "output_record dat = rec_set_content_length (length dat) (Record kFcgiStdout)"

definition reply_sample :: "'p content_lib \<Rightarrow> byte list \<Rightarrow> 'p fcgi_cont \<times> buf_heap" where
  "reply_sample lib dat =
    (let (cont, h) = FcgiCompletionContinuation lib empty_heap;
         (_, b, h') = append_data h (task_buffer cont) (frame (output_record dat) dat)
     in (cont\<lparr>task_buffer := b\<rparr>, h'))"

lemma output_record_fields:
  "length dat < 65536 \<Longrightarrow> length dat = unat (rec_content_length (output_record dat))" "rec_type (output_record dat) = kFcgiStdout"
  "unat (rec_padding_length (output_record dat)) < 4"
  using rec_set_content_length_fields(1,2,5) [OF refl, of "length dat" "Record kFcgiStdout"] by (simp_all add: output_record_def Record_def)

lemma reply_sample_ok:
  assumes "reply_sample lib dat = (cont, h)" and "length dat < 65536"
  shows "heap_ok h" and "buf_ok h (task_buffer cont)" and "buf_ok h (output_buffer cont)" and "in_int_range (task_buffer cont)"
    and "cow_ref (output_buffer cont) \<noteq> cow_ref (task_buffer cont)" and "cont_parser cont = content_init lib"
    and "contents h (task_buffer cont) = frame (output_record dat) dat" and "contents h (output_buffer cont) = []"
proof -
  let ?f = "frame (output_record dat) dat"
  obtain b h1 where n1: "Buffer_new empty_heap = (b, h1)" by (rule prod.exhaust)
  obtain ob h2 where n2: "Buffer_new h1 = (ob, h2)" by (rule prod.exhaust)
  obtain ok b' h3 where ap: "append_data h2 b ?f = (ok, b', h3)" by (rule prod_cases3)
  have e: "heap_ok empty_heap" by (simp add: heap_ok_def empty_heap_def)
  note s1 = Buffer_new_spec [OF e n1]
  have s2: "heap_ok h2" "buf_ok h2 ob" "contents h2 ob = []" "preserved h1 h2 b" "cow_ref b \<noteq> cow_ref ob"
    using Buffer_new_spec [OF _ n2] s1 by blast+
  have b2: "buf_ok h2 b" "contents h2 b = []" using preserved_contents [OF s2(4)] s1 by auto
  have s3: "op_spec h2 b h3 b' ?f" using append_data_spec [OF s2(1) b2(1) ap] b2(2) by simp
  have o3: "preserved h2 h3 ob" "cow_ref ob \<noteq> cow_ref b'" using op_specD(4) [OF s3 s2(2)] s2(5) by (auto simp: separate_def)
  have r: "cont = \<lparr>sock_fd = 0, need_reconnect = False, cont_status = kCompletionReadClient, task_buffer = b', task_len = 0,
          cont_parser = content_init lib, output_buffer = ob, cont_last_active = 0\<rparr>" "h = h3"
    using assms(1) n1 n2 ap by (simp_all add: reply_sample_def FcgiCompletionContinuation_def)
  show "heap_ok h" "buf_ok h (task_buffer cont)" "contents h (task_buffer cont) = ?f" using op_specD [OF s3] by (simp_all add: r)
  show "buf_ok h (output_buffer cont)" "contents h (output_buffer cont) = []" using preserved_contents [OF o3(1)] s2(3) by (simp_all add: r)
  show "cow_ref (output_buffer cont) \<noteq> cow_ref (task_buffer cont)" "cont_parser cont = content_init lib" using o3(2) by (simp_all add: r)
  have "left_offset b' < kPageSize" using buf_okD(1) [OF op_specD(2) [OF s3]] by (simp add: layout_def)
  moreover have "buf_size b' < 66000" using op_spec_size [OF s3] output_record_fields(3) [of dat] assms(2) by (simp add: frame_def kRecordSize_def)
  ultimately show "in_int_range (task_buffer cont)" by (simp add: r in_int_range_def kPageSize_def)
qed

theorem fcgi_reply_forwarded_witness:
  "\<exists>cont h cont' h'. reply_sample trivial_lib [7, 8] = (cont, h) \<and>
    fcgi_run_parser trivial_lib (cont\<lparr>cont_parser := done_parse (cont_parser cont)\<rparr>, h) = Some (True, cont', h') \<and>
    contents h' (output_buffer cont') = [7, 8] \<and> contents h' (task_buffer cont') = []"
proof -
  obtain cont h where s: "reply_sample trivial_lib [7, 8] = (cont, h)" by (rule prod.exhaust)
  have "length [7, 8 :: byte] < 65536" by simp
  note ok = reply_sample_ok [OF s this] and l = output_record_fields(1) [OF this]
  let ?c = "cont\<lparr>cont_parser := done_parse (cont_parser cont)\<rparr>"
  have c: "heap_ok h" "buf_ok h (task_buffer ?c)" "buf_ok h (output_buffer ?c)" "in_int_range (task_buffer ?c)" "cow_ref (output_buffer ?c) \<noteq> cow_ref (task_buffer ?c)"
    "contents h (task_buffer ?c) = frame (output_record [7, 8]) [7, 8] @ []" "cp_done (cont_parser ?c)" using ok by (simp_all add: done_parse_def)
  from fcgi_reply_forwarded [OF c(1-6) l _ c(7), of trivial_lib] s ok(8) output_record_fields(2) show ?thesis by auto
qed

text \<open>A request body of more than one round stalls: with input left to read, the stage never leaves the state in which it writes.\<close>

lemma large_body_stalls:
  assumes "f_conts st c = Some cont" and "cont_status cont = kCompletionWriteFcgi" and "task_len cont \<noteq> 0"
  shows "transfer_status k i c st = Some (kCompletionWriteFcgi, st)"
  using assms by (simp add: transfer_status_def)

text \<open>The output buffer keeps what was handed to the write back stage: the next time all of it is queued again.\<close>

lemma streamed_output_resent:
  assumes "stream_append_buffer (f_heap st) (f_outs st c) (output_buffer cont) = (n, s, h)"
    and "heap_ok (f_heap st)" and "buf_ok (f_heap st) (output_buffer cont)"
  shows "f_outs (stream_write_back c cont st) c = s \<and> (\<exists>b. writeables s = writeables (f_outs st c) @ [WBuffer b] \<and>
      contents h b = contents (f_heap st) (output_buffer cont)) \<and>
    f_conts (stream_write_back c cont st) = f_conts st \<and>
    contents (f_heap (stream_write_back c cont st)) (output_buffer cont) = contents (f_heap st) (output_buffer cont)"
proof -
  obtain b h' where b: "Buffer_copy (f_heap st) (output_buffer cont) = (b, h')" by (rule prod.exhaust)
  have "h' = h" "writeables s = writeables (f_outs st c) @ [WBuffer b]" using assms(1) b by (auto simp: stream_append_buffer_def)
  then show ?thesis using Buffer_copy_spec [OF assms(2,3) b] assms(1,3) by (auto simp: stream_write_back_def dest: preserved_contents)
qed

end
