(* ===== verification/Connection_Pool.thy ===== *)
theory Connection_Pool
  imports Prelude "HOL-Library.Multiset"
begin

text \<open>
  The pool of sockets to FastCGI applications of \<^verbatim>\<open>src/modules/mod_fcgi/connection_pool.{h,cc}\<close>.  The kernel is a
  parameter: \<open>kern\<close> maps the open descriptors to the result of \<open>socket\<close>.  The state keeps the descriptors that are open
  and those switched to non-blocking mode.  Each operation is one atomic step, as under the pool's mutex.
\<close>

section \<open>Definitions\<close>

text \<open>\<open>TcpPool\<close> holds whether the address was resolved.\<close>

datatype pool_kind = UnixPool | TcpPool bool

record conn_pool =
  pool_kind :: pool_kind
  max_n_sockets :: int
  pool_initialized :: bool
  active_connections :: "int list"
  inactive_connections :: "int list"
  open_fds :: "int list"
  nonblocking :: "int list"

definition ConnectionPool :: "pool_kind \<Rightarrow> int \<Rightarrow> conn_pool" where
  "ConnectionPool kind n = \<lparr>pool_kind = kind, max_n_sockets = n, pool_initialized = False,
     active_connections = [], inactive_connections = [], open_fds = [], nonblocking = []\<rparr>"

definition socket_call :: "(int list \<Rightarrow> int) \<Rightarrow> conn_pool \<Rightarrow> int \<times> conn_pool" where
  "socket_call kern p = (let s = kern (open_fds p) in (s, if s < 0 then p else p\<lparr>open_fds := s # open_fds p\<rparr>))"

definition create_socket :: "(int list \<Rightarrow> int) \<Rightarrow> conn_pool \<Rightarrow> int \<times> conn_pool" where
  "create_socket kern p = (case pool_kind p of TcpPool False \<Rightarrow> (-1, p) | _ \<Rightarrow> socket_call kern p)"

definition set_nonblocking :: "int \<Rightarrow> conn_pool \<Rightarrow> conn_pool" where
  "set_nonblocking s p = p\<lparr>nonblocking := List.insert s (nonblocking p)\<rparr>"

definition close_socket :: "int \<Rightarrow> conn_pool \<Rightarrow> conn_pool" where
  "close_socket s p = p\<lparr>open_fds := removeAll s (open_fds p), nonblocking := removeAll s (nonblocking p)\<rparr>"

text \<open>The filling loop of \<open>alloc_connection\<close>.\<close>

fun fill_pool :: "(int list \<Rightarrow> int) \<Rightarrow> nat \<Rightarrow> conn_pool \<Rightarrow> conn_pool" where
  "fill_pool kern 0 p = p"
| "fill_pool kern (Suc k) p =
    (let (s, p1) = create_socket kern p; p2 = set_nonblocking s p1
     in fill_pool kern k (p2\<lparr>inactive_connections := inactive_connections p2 @ [s]\<rparr>))"

text \<open>The result is the socket and \<open>is_connected\<close>, which keeps its value when there is none.\<close>

definition alloc_connection :: "(int list \<Rightarrow> int) \<Rightarrow> bool \<Rightarrow> conn_pool \<Rightarrow> int \<times> bool \<times> conn_pool" where
  "alloc_connection kern is_connected p0 =
    (if max_n_sockets p0 < 0
     then let (s, p1) = create_socket kern p0 in (s, False, set_nonblocking s p1)
     else let p = (if pool_initialized p0 then p0 else (fill_pool kern (nat (max_n_sockets p0)) p0)\<lparr>pool_initialized := True\<rparr>)
          in if active_connections p = [] \<and> inactive_connections p = [] then (-1, is_connected, p)
             else if active_connections p = []
             then (last (inactive_connections p), False, p\<lparr>inactive_connections := butlast (inactive_connections p)\<rparr>)
             else (last (active_connections p), True, p\<lparr>active_connections := butlast (active_connections p)\<rparr>))"

definition reclaim_connection :: "int \<Rightarrow> conn_pool \<Rightarrow> conn_pool" where
  "reclaim_connection s p =
    (if max_n_sockets p < 0 then close_socket s p else p\<lparr>active_connections := active_connections p @ [s]\<rparr>)"

definition reclaim_inactive_connection :: "(int list \<Rightarrow> int) \<Rightarrow> int \<Rightarrow> conn_pool \<Rightarrow> conn_pool" where
  "reclaim_inactive_connection kern s p =
    (let (s', p1) = create_socket kern (close_socket s p)
     in p1\<lparr>inactive_connections := inactive_connections p1 @ [s']\<rparr>)"

text \<open>\<open>connect\<close>: \<open>res\<close> is \<open>None\<close> when the call succeeds and the error number otherwise.\<close>

definition EINPROGRESS :: int where "EINPROGRESS = 115"

definition pool_connect :: "int option \<Rightarrow> bool" where
  "pool_connect res = (case res of None \<Rightarrow> True | Some errno \<Rightarrow> errno = EINPROGRESS)"

definition ConnectionPool_destroy :: "conn_pool \<Rightarrow> conn_pool" where
  "ConnectionPool_destroy p =
    (if \<not> pool_initialized p then p
     else fold close_socket (inactive_connections p) (fold close_socket (active_connections p) p))"

text \<open>The address of a TCP pool is split at its first colon; without one the whole address is also the port.\<close>

definition split_address :: "string \<Rightarrow> string \<times> string" where
  "split_address addr = (takeWhile (\<lambda>c. c \<noteq> CHR '':'') addr,
     if CHR '':'' \<in> set addr then tl (dropWhile (\<lambda>c. c \<noteq> CHR '':'') addr) else addr)"

text \<open>The constructors.  \<open>getaddrinfo\<close> tells whether host and port can be looked up.  The constructor of a pool of Unix sockets copies a fixed number of
  bytes, one less than \<open>sun_path\<close> has, from the string and its final zero; \<open>None\<close> is a read behind it.\<close>

definition sun_path_size :: nat where "sun_path_size = 108"

definition sun_path :: "string \<Rightarrow> string option" where
  "sun_path addr =
    (let src = addr @ [CHR 0x00]; n = sun_path_size - 1
     in if length src < n then None else Some (take n src @ [CHR 0x00]))"

definition UnixConnectionPool :: "string \<Rightarrow> int \<Rightarrow> conn_pool option" where
  "UnixConnectionPool addr n = map_option (\<lambda>path. ConnectionPool UnixPool n) (sun_path addr)"

definition TcpConnectionPool :: "(string \<Rightarrow> string \<Rightarrow> bool) \<Rightarrow> string \<Rightarrow> int \<Rightarrow> conn_pool" where
  "TcpConnectionPool getaddrinfo addr n = (let (host, port) = split_address addr in ConnectionPool (TcpPool (getaddrinfo host port)) n)"

text \<open>Every usual path of a Unix socket is too short for the copy.\<close>

lemma sun_path_overread: "sun_path addr = None \<longleftrightarrow> length addr < 106"
  by (simp add: sun_path_def sun_path_size_def Let_def)

text \<open>The address \<open>host:port\<close> is split as written.\<close>

lemma split_address_parts: "CHR '':'' \<notin> set host \<Longrightarrow> split_address (host @ CHR '':'' # port) = (host, port)"
  by (induction host) (auto simp: split_address_def)

section \<open>Clients of the pool\<close>

text \<open>\<open>held\<close> are the sockets given out and not yet returned.  A client returns what it holds, once.\<close>

inductive client_step ::
  "(bool \<Rightarrow> 'p \<Rightarrow> int \<times> bool \<times> 'p) \<Rightarrow> (int \<Rightarrow> 'p \<Rightarrow> 'p) \<Rightarrow> (int \<Rightarrow> 'p \<Rightarrow> 'p) \<Rightarrow> 'p \<times> int list \<Rightarrow> 'p \<times> int list \<Rightarrow> bool"
  for allocate give_back give_broken where
  alloc: "allocate ic p = (s, ic', p') \<Longrightarrow> client_step allocate give_back give_broken (p, held) (p', if s < 0 then held else s # held)"
| return: "s \<in> set held \<Longrightarrow> client_step allocate give_back give_broken (p, held) (give_back s p, remove1 s held)"
| broken: "s \<in> set held \<Longrightarrow> client_step allocate give_back give_broken (p, held) (give_broken s p, remove1 s held)"

text \<open>The contract of a pool: an invariant over the pool and the sockets given out that every operation keeps and under which no
  socket is given out twice.\<close>

locale socket_pool =
  fixes allocate :: "bool \<Rightarrow> 'p \<Rightarrow> int \<times> bool \<times> 'p"
    and give_back :: "int \<Rightarrow> 'p \<Rightarrow> 'p"
    and give_broken :: "int \<Rightarrow> 'p \<Rightarrow> 'p"
    and inv :: "'p \<times> int list \<Rightarrow> bool"
  assumes allocate_keeps: "inv (p, held) \<Longrightarrow> allocate ic p = (s, ic', p') \<Longrightarrow> inv (p', if s < 0 then held else s # held)"
    and give_back_keeps: "inv (p, held) \<Longrightarrow> s \<in> set held \<Longrightarrow> inv (give_back s p, remove1 s held)"
    and give_broken_keeps: "inv (p, held) \<Longrightarrow> s \<in> set held \<Longrightarrow> inv (give_broken s p, remove1 s held)"
    and exclusive: "inv (p, held) \<Longrightarrow> distinct held"
begin

lemma step_keeps: "client_step allocate give_back give_broken st st' \<Longrightarrow> inv st \<Longrightarrow> inv st'"
  by (induction rule: client_step.induct) (blast intro: allocate_keeps give_back_keeps give_broken_keeps)+

lemma reachable_keeps: "(client_step allocate give_back give_broken)\<^sup>*\<^sup>* st st' \<Longrightarrow> inv st \<Longrightarrow> inv st'"
  by (induction rule: rtranclp_induct) (blast intro: step_keeps)+

lemma allocated_is_new:
  assumes "inv (p, held)" and "allocate ic p = (s, ic', p')" and "0 \<le> s"
  shows "s \<notin> set held"
  using exclusive [OF allocate_keeps [OF assms(1,2)]] assms(3) by simp

end

abbreviation pool_step :: "(int list \<Rightarrow> int) \<Rightarrow> conn_pool \<times> int list \<Rightarrow> conn_pool \<times> int list \<Rightarrow> bool" where
  "pool_step kern \<equiv> client_step (alloc_connection kern) reclaim_connection (reclaim_inactive_connection kern)"

definition pool_reachable :: "(int list \<Rightarrow> int) \<Rightarrow> pool_kind \<Rightarrow> int \<Rightarrow> conn_pool \<times> int list \<Rightarrow> bool" where
  "pool_reachable kern kind n st = (pool_step kern)\<^sup>*\<^sup>* (ConnectionPool kind n, []) st"

text \<open>\<open>socket\<close> fails or returns a descriptor that is not open.\<close>

definition kernel_fresh :: "(int list \<Rightarrow> int) \<Rightarrow> bool" where
  "kernel_fresh kern \<longleftrightarrow> (\<forall>os. kern os < 0 \<or> kern os \<notin> set os)"

definition real_fds :: "int list \<Rightarrow> int list" where
  "real_fds xs = filter (\<lambda>s. 0 \<le> s) xs"

definition pool_all :: "conn_pool \<Rightarrow> int list" where
  "pool_all p = active_connections p @ inactive_connections p"

definition pool_inv :: "int \<Rightarrow> conn_pool \<times> int list \<Rightarrow> bool" where
  "pool_inv n st \<longleftrightarrow> (case st of (p, held) \<Rightarrow>
     distinct (real_fds (held @ pool_all p)) \<and> set (real_fds (held @ pool_all p)) \<subseteq> set (open_fds p) \<and>
     (\<forall>s \<in> set held. 0 \<le> s) \<and> max_n_sockets p = n \<and> (\<not> pool_initialized p \<and> 0 \<le> n \<longrightarrow> held = [] \<and> pool_all p = []) \<and>
     (0 \<le> n \<longrightarrow> length held + length (pool_all p) \<le> nat n))"

section \<open>No socket has two holders\<close>

text \<open>The descriptors among \<open>xs\<close> are open and pairwise different.\<close>

definition fits :: "conn_pool \<Rightarrow> int list \<Rightarrow> bool" where
  "fits p xs \<longleftrightarrow> distinct (real_fds xs) \<and> set (real_fds xs) \<subseteq> set (open_fds p)"

lemma fits_perm:
  assumes "fits p xs" and "mset (real_fds xs) = mset (real_fds ys)" and "open_fds p' = open_fds p"
  shows "fits p' ys"
  using assms mset_eq_imp_distinct_iff [OF assms(2)] mset_eq_setD [OF assms(2)] by (simp add: fits_def)

lemma create_socket_fits:
  assumes "kernel_fresh kern" and "create_socket kern p = (s, p')" and "fits p xs"
  shows "fits p' (s # xs)"
proof -
  have "p' = p \<and> s < 0 \<or> p' = p\<lparr>open_fds := s # open_fds p\<rparr> \<and> s \<notin> set (open_fds p)"
    using assms(1,2) by (auto simp: create_socket_def socket_call_def kernel_fresh_def Let_def split: pool_kind.splits bool.splits if_splits)
  then show ?thesis using assms(3) by (auto simp: fits_def real_fds_def)
qed

lemma create_socket_frame:
  "create_socket kern p = (s, p') \<Longrightarrow> \<exists>os. p' = p\<lparr>open_fds := os\<rparr>"
  by (auto simp: create_socket_def socket_call_def Let_def split: pool_kind.splits bool.splits if_splits)
    (metis conn_pool.surjective conn_pool.update_convs(6))+

lemma close_socket_fits: "fits p (s # xs) \<Longrightarrow> 0 \<le> s \<Longrightarrow> fits (close_socket s p) xs"
  by (auto simp: fits_def real_fds_def close_socket_def)

lemma fill_pool_spec:
  assumes "kernel_fresh kern" and "fits p (pool_all p)"
  shows "fits (fill_pool kern k p) (pool_all (fill_pool kern k p)) \<and> max_n_sockets (fill_pool kern k p) = max_n_sockets p \<and>
    length (pool_all (fill_pool kern k p)) = length (pool_all p) + k"
  using assms(2)
proof (induction k arbitrary: p)
  case (Suc k)
  obtain s p1 where c: "create_socket kern p = (s, p1)" by (rule prod.exhaust)
  obtain os where p1: "p1 = p\<lparr>open_fds := os\<rparr>" using create_socket_frame [OF c] by blast
  define q where "q = (set_nonblocking s p1)\<lparr>inactive_connections := inactive_connections p1 @ [s]\<rparr>"
  have all: "pool_all q = pool_all p @ [s]" "open_fds q = open_fds p1" "max_n_sockets q = max_n_sockets p"
    by (simp_all add: q_def p1 pool_all_def set_nonblocking_def)
  have "fits q (pool_all q)"
    by (rule fits_perm [OF create_socket_fits [OF assms(1) c Suc.prems] _ all(2)]) (simp add: all(1) real_fds_def)
  from Suc.IH [OF this] have "fits (fill_pool kern k q) (pool_all (fill_pool kern k q)) \<and>
      max_n_sockets (fill_pool kern k q) = max_n_sockets p \<and> length (pool_all (fill_pool kern k q)) = Suc (length (pool_all p) + k)"
    by (simp add: all)
  moreover have "fill_pool kern (Suc k) p = fill_pool kern k q" by (simp add: c q_def set_nonblocking_def)
  ultimately show ?case by simp
qed simp

lemma pool_inv_iff:
  "pool_inv n (p, held) \<longleftrightarrow> fits p (held @ pool_all p) \<and> (\<forall>s \<in> set held. 0 \<le> s) \<and> max_n_sockets p = n \<and>
     (\<not> pool_initialized p \<and> 0 \<le> n \<longrightarrow> held = [] \<and> pool_all p = []) \<and> (0 \<le> n \<longrightarrow> length held + length (pool_all p) \<le> nat n)"
  by (auto simp: pool_inv_def fits_def)

lemma mset_real_fds: "mset (real_fds xs) = filter_mset (\<lambda>s. 0 \<le> s) (mset xs)"
  by (simp add: real_fds_def)

text \<open>Taking an element off the end of one of the lists.\<close>

lemma take_last_inv:
  assumes "pool_inv n (p, held)" and "pool_initialized p" and "xs \<noteq> []" and "mset (pool_all p) = add_mset (last xs) (mset (pool_all p'))"
    and "open_fds p' = open_fds p" "max_n_sockets p' = max_n_sockets p" "pool_initialized p' = pool_initialized p"
  shows "pool_inv n (p', if last xs < 0 then held else last xs # held)"
proof -
  have len: "length (pool_all p) = Suc (length (pool_all p'))" using assms(4) by (metis size_add_mset size_mset)
  have "mset (real_fds (held @ pool_all p)) = mset (real_fds ((if last xs < 0 then held else last xs # held) @ pool_all p'))"
    using assms(4) by (auto simp: mset_real_fds)
  then show ?thesis using assms(1,2,5,6,7) len by (auto simp: pool_inv_iff intro: fits_perm)
qed

lemma alloc_inv:
  assumes kf: "kernel_fresh kern" and inv: "pool_inv n (p0, held)" and al: "alloc_connection kern ic p0 = (s, ic', p')"
  shows "pool_inv n (p', if s < 0 then held else s # held)"
proof (cases "max_n_sockets p0 < 0")
  case True
  obtain p1 where c: "create_socket kern p0 = (s, p1)" and p': "p' = set_nonblocking s p1"
    using al True by (auto simp: alloc_connection_def split: prod.splits)
  obtain os where p1: "p1 = p0\<lparr>open_fds := os\<rparr>" using create_socket_frame [OF c] by blast
  have f: "fits p1 (s # held @ pool_all p0)" using create_socket_fits [OF kf c] inv by (simp add: pool_inv_iff)
  have pa: "pool_all p' = pool_all p0" "open_fds p' = open_fds p1" by (simp_all add: p' p1 pool_all_def set_nonblocking_def)
  have "fits p' ((if s < 0 then held else s # held) @ pool_all p')"
    by (rule fits_perm [OF f _ pa(2)]) (simp add: pa(1) real_fds_def)
  then show ?thesis using inv True by (auto simp: pool_inv_iff p' p1 pool_all_def set_nonblocking_def)
next
  case False
  define p where "p = (if pool_initialized p0 then p0 else (fill_pool kern (nat (max_n_sockets p0)) p0)\<lparr>pool_initialized := True\<rparr>)"
  have n: "0 \<le> n" "max_n_sockets p0 = n" using False inv by (auto simp: pool_inv_iff)
  have ip: "pool_inv n (p, held) \<and> pool_initialized p"
  proof (cases "pool_initialized p0")
    case False
    have f0: "fits p0 (held @ pool_all p0)" using inv by (simp only: pool_inv_iff)
    have e12: "held = []" "pool_all p0 = []" using inv n False by (simp_all add: pool_inv_iff)
    with f0 have e: "held = []" "pool_all p0 = []" "fits p0 (pool_all p0)" by simp_all
    let ?f = "fill_pool kern (nat (max_n_sockets p0)) p0"
    have pp: "pool_all p = pool_all ?f" "max_n_sockets p = max_n_sockets ?f" "open_fds p = open_fds ?f" "pool_initialized p"
      using False by (simp_all add: p_def pool_all_def)
    have "fits ?f (pool_all ?f) \<and> max_n_sockets ?f = n \<and> length (pool_all ?f) = nat n"
      using fill_pool_spec [OF kf e(3), of "nat (max_n_sockets p0)"] e(2) n(2) by simp
    then show ?thesis using e(1) pp by (simp add: pool_inv_iff fits_def)
  qed (use inv in \<open>simp add: p_def\<close>)
  have al': "(s, ic', p') = (if active_connections p = [] \<and> inactive_connections p = [] then (-1, ic, p)
      else if active_connections p = [] then (last (inactive_connections p), False, p\<lparr>inactive_connections := butlast (inactive_connections p)\<rparr>)
      else (last (active_connections p), True, p\<lparr>active_connections := butlast (active_connections p)\<rparr>))"
    using al False unfolding alloc_connection_def Let_def p_def [symmetric] by simp
  have bl: "mset xs = add_mset (last xs) (mset (butlast xs))" if "xs \<noteq> []" for xs :: "int list"
    using arg_cong [OF append_butlast_last_id [OF that], of mset] by simp
  consider "s = -1" "p' = p" | "inactive_connections p \<noteq> []" "s = last (inactive_connections p)" "p' = p\<lparr>inactive_connections := butlast (inactive_connections p)\<rparr>"
    | "active_connections p \<noteq> []" "s = last (active_connections p)" "p' = p\<lparr>active_connections := butlast (active_connections p)\<rparr>"
    using al' by (auto split: if_splits)
  then show ?thesis
  proof cases
    case 1
    then show ?thesis using ip by simp
  next
    case 2
    show ?thesis unfolding 2(2) by (rule take_last_inv [OF _ _ 2(1)]) (use conjunct1 [OF ip] conjunct2 [OF ip] 2 bl [OF 2(1)] in \<open>simp_all add: pool_all_def\<close>)
  next
    case 3
    show ?thesis unfolding 3(2) by (rule take_last_inv [OF _ _ 3(1)]) (use conjunct1 [OF ip] conjunct2 [OF ip] 3 bl [OF 3(1)] in \<open>simp_all add: pool_all_def\<close>)
  qed
qed

lemma give_back_facts:
  assumes inv: "pool_inv n (p, held)" and s: "s \<in> set held"
  shows "fits p (s # remove1 s held @ pool_all p)" and "0 \<le> s" and "\<forall>t \<in> set (remove1 s held). 0 \<le> t"
    and "max_n_sockets p = n" and "\<not> (\<not> pool_initialized p \<and> 0 \<le> n)"
    and "0 \<le> n \<longrightarrow> length (remove1 s held) + Suc (length (pool_all p)) \<le> nat n"
proof -
  have f: "fits p (held @ pool_all p)" and nn: "\<forall>t \<in> set held. 0 \<le> t" and l: "0 \<le> n \<longrightarrow> length held + length (pool_all p) \<le> nat n"
    and m: "max_n_sockets p = n" and i: "\<not> pool_initialized p \<and> 0 \<le> n \<longrightarrow> held = []"
    using inv unfolding pool_inv_iff by blast+
  show "fits p (s # remove1 s held @ pool_all p)" by (rule fits_perm [OF f]) (simp_all add: mset_real_fds s)
  show "0 \<le> s" using nn s by blast
  show "\<forall>t \<in> set (remove1 s held). 0 \<le> t" using nn set_remove1_subset [of s held] by blast
  show "max_n_sockets p = n" by (rule m)
  show "\<not> (\<not> pool_initialized p \<and> 0 \<le> n)" using i s by auto
  have "length (remove1 s held) = length held - 1" "0 < length held"
    using s length_pos_if_in_set [OF s] by (simp_all add: length_remove1)
  then show "0 \<le> n \<longrightarrow> length (remove1 s held) + Suc (length (pool_all p)) \<le> nat n" using l by linarith
qed

lemma give_back_inv:
  assumes inv: "pool_inv n (p, held)" and s: "s \<in> set held"
  shows "pool_inv n (reclaim_connection s p, remove1 s held)"
proof (cases "max_n_sockets p < 0")
  case True
  note g = give_back_facts [OF assms]
  have "fits (close_socket s p) (remove1 s held @ pool_all (close_socket s p))"
    using close_socket_fits [OF g(1,2)] by (simp add: close_socket_def pool_all_def)
  then show ?thesis using True g(3-5) unfolding pool_inv_iff reclaim_connection_def by (simp add: close_socket_def)
next
  case False
  note g = give_back_facts [OF assms]
  let ?q = "p\<lparr>active_connections := active_connections p @ [s]\<rparr>"
  have q: "pool_all ?q = active_connections p @ s # inactive_connections p" "length (pool_all ?q) = Suc (length (pool_all p))"
    by (simp_all add: pool_all_def)
  have "fits ?q (remove1 s held @ pool_all ?q)" by (rule fits_perm [OF g(1)]) (simp_all add: mset_real_fds pool_all_def)
  moreover have "reclaim_connection s p = ?q" using False by (simp add: reclaim_connection_def)
  ultimately show ?thesis using g(3-6) by (simp only: pool_inv_iff q(2)) auto
qed

lemma give_back_broken_inv:
  assumes kf: "kernel_fresh kern" and inv: "pool_inv n (p, held)" and s: "s \<in> set held"
  shows "pool_inv n (reclaim_inactive_connection kern s p, remove1 s held)"
proof -
  note g = give_back_facts [OF inv s]
  obtain s' p1 where c: "create_socket kern (close_socket s p) = (s', p1)" by (rule prod.exhaust)
  obtain os where p1: "p1 = (close_socket s p)\<lparr>open_fds := os\<rparr>" using create_socket_frame [OF c] by blast
  let ?q = "p1\<lparr>inactive_connections := inactive_connections p1 @ [s']\<rparr>"
  have q: "pool_all ?q = pool_all p @ [s']" "max_n_sockets ?q = max_n_sockets p" "pool_initialized ?q = pool_initialized p"
    by (simp_all add: p1 pool_all_def close_socket_def)
  have "fits p1 (s' # remove1 s held @ pool_all p)" by (rule create_socket_fits [OF kf c close_socket_fits [OF g(1,2)]])
  then have f: "fits ?q (remove1 s held @ pool_all ?q)" by (rule fits_perm) (simp_all add: mset_real_fds q(1))
  have "reclaim_inactive_connection kern s p = ?q" by (simp add: reclaim_inactive_connection_def c)
  then show ?thesis using f g(3-6) by (simp only: pool_inv_iff q) simp
qed

lemma pool_inv_facts:
  assumes "pool_inv n (p, held)"
  shows "distinct held" and "set held \<subseteq> set (open_fds p)" and "set held \<inter> set (pool_all p) = {}"
    and "0 \<le> n \<longrightarrow> length held + length (pool_all p) \<le> nat n"
proof -
  have f: "fits p (held @ pool_all p)" and nn: "\<forall>t \<in> set held. 0 \<le> t" and l: "0 \<le> n \<longrightarrow> length held + length (pool_all p) \<le> nat n"
    using assms unfolding pool_inv_iff by blast+
  have "real_fds held = held" using nn by (simp add: real_fds_def filter_id_conv)
  then have "real_fds (held @ pool_all p) = held @ real_fds (pool_all p)" by (simp add: real_fds_def)
  with f have d: "distinct held" "set held \<inter> set (real_fds (pool_all p)) = {}" "set held \<subseteq> set (open_fds p)"
    by (simp_all add: fits_def)
  then show "distinct held" "set held \<subseteq> set (open_fds p)" by simp_all
  show "set held \<inter> set (pool_all p) = {}" using d(2) nn by (auto simp: real_fds_def)
  show "0 \<le> n \<longrightarrow> length held + length (pool_all p) \<le> nat n" by (rule l)
qed

interpretation pl: socket_pool "alloc_connection kern" reclaim_connection "reclaim_inactive_connection kern"
  "\<lambda>st. kernel_fresh kern \<and> pool_inv n st" for kern n
proof (unfold_locales, goal_cases)
  case (1 p held ic s ic' p')
  then show ?case using alloc_inv by blast
next
  case (2 p held s)
  then show ?case using give_back_inv by blast
next
  case (3 p held s)
  then show ?case using give_back_broken_inv by blast
next
  case (4 p held)
  then show ?case using pool_inv_facts(1) by blast
qed

lemma pool_reachable_inv:
  assumes "kernel_fresh kern" and "pool_reachable kern kind n st"
  shows "pool_inv n st"
proof -
  have "pool_inv n (ConnectionPool kind n, [])"
    by (simp add: pool_inv_iff ConnectionPool_def pool_all_def fits_def real_fds_def)
  then show ?thesis using pl.reachable_keeps assms unfolding pool_reachable_def by blast
qed


definition next_free :: "int list \<Rightarrow> int" where
  "next_free os = fold max os 2 + 1"

lemma fold_max_ge: "(x :: int) \<in> set os \<Longrightarrow> x \<le> fold max os a" "a \<le> fold max os a"
proof -
  have ge: "a \<le> fold max os a" for a :: int and os
  proof (induction os arbitrary: a)
    case (Cons y os)
    show ?case using Cons.IH [of "max y a"] by simp
  qed simp
  then show "a \<le> fold max os a" .
  show "x \<in> set os \<Longrightarrow> x \<le> fold max os a"
  proof (induction os arbitrary: a)
    case (Cons y os)
    show ?case using Cons ge [of "max y a" os] by auto
  qed simp
qed

lemma next_free_fresh: "kernel_fresh next_free"
  using fold_max_ge(1) [of _ _ 2] by (force simp: kernel_fresh_def next_free_def)


end
