(* ===== verification/Utils.thy ===== *)
theory Utils
  imports Prelude
begin

text \<open>
  The helpers of \<^verbatim>\<open>src/utils/misc.cc\<close> on strings, and the mutex, scoped lock and condition of
  \<^verbatim>\<open>src/utils/lock.cc\<close>.  The pthread calls are parameters: a call is the \<open>int\<close> it returns, and
  an exception thrown by the code is the value \<open>None\<close>.
\<close>

section \<open>Strings\<close>

text \<open>A \<open>char\<close> as the signed 8 bit integer it is promoted from.\<close>

definition char_code :: "char \<Rightarrow> nat" where
  "char_code c = of_char c"

definition char_val :: "char \<Rightarrow> int" where
  "char_val c = sint (word_of_nat (char_code c) :: 8 word)"

fun ignore_compare_loop :: "string \<Rightarrow> string \<Rightarrow> bool" where
  "ignore_compare_loop (a # p) (b # q) =
    (if a \<noteq> b \<and> \<bar>char_val a - char_val b\<bar> \<noteq> char_val CHR ''a'' - char_val CHR ''A'' then False
     else ignore_compare_loop p q)"
| "ignore_compare_loop _ _ = True"

definition ignore_compare :: "string \<Rightarrow> string \<Rightarrow> bool" where
  "ignore_compare p q = (if length p \<noteq> length q then False else ignore_compare_loop p q)"

definition is_lower :: "char \<Rightarrow> bool" where
  "is_lower c \<longleftrightarrow> 97 \<le> char_code c \<and> char_code c \<le> 122"

definition is_upper :: "char \<Rightarrow> bool" where
  "is_upper c \<longleftrightarrow> 65 \<le> char_code c \<and> char_code c \<le> 90"

definition is_digit :: "char \<Rightarrow> bool" where
  "is_digit c \<longleftrightarrow> 48 \<le> char_code c \<and> char_code c \<le> 57"

definition is_space :: "char \<Rightarrow> bool" where
  "is_space c \<longleftrightarrow> char_code c = 32 \<or> (9 \<le> char_code c \<and> char_code c \<le> 13)"

definition toupper :: "char \<Rightarrow> char" where
  "toupper c = (if is_lower c then char_of (char_code c - 32) else c)"

definition string_to_upper_case :: "string \<Rightarrow> string" where
  "string_to_upper_case s = map toupper s"

definition parse_bool :: "string \<Rightarrow> bool" where
  "parse_bool s = (if ignore_compare s ''on'' \<or> ignore_compare s ''true'' then True else False)"

text \<open>\<open>atoi\<close>, on values that fit an \<open>int\<close>: leading white space, a sign, then decimal digits.\<close>

fun atoi_digits :: "int \<Rightarrow> string \<Rightarrow> int" where
  "atoi_digits acc [] = acc"
| "atoi_digits acc (c # s) = (if is_digit c then atoi_digits (10 * acc + (int (char_code c) - 48)) s else acc)"

definition parse_int :: "string \<Rightarrow> int" where
  "parse_int s =
    (let t = dropWhile is_space s
     in case t of [] \<Rightarrow> 0
        | c # u \<Rightarrow> if c = CHR ''-'' then - atoi_digits 0 u
                   else if c = CHR ''+'' then atoi_digits 0 u else atoi_digits 0 t)"

lemma char_code_less: "char_code c < 256"
  using of_char_mod_256 [of c, where 'a = nat] by (simp add: char_code_def)

lemma char_val_less_128: "char_code c < 128 \<Longrightarrow> char_val c = int (char_code c)"
proof -
  assume lt: "char_code c < 128"
  have "uint (word_of_nat (char_code c) :: 8 word) = int (char_code c)"
    using lt by (simp add: uint_nat unat_of_nat take_bit_nat_eq_self)
  moreover have "int (char_code c) < 2 ^ 7" using lt by simp
  ultimately show ?thesis by (simp add: char_val_def sint_uint signed_take_bit_int_eq_self)
qed

lemma char_code_toupper: "is_lower c \<Longrightarrow> char_code (toupper c) = char_code c - 32"
  using char_code_less [of c] by (simp add: toupper_def char_code_def less_imp_diff_less)

lemma char_code_inj: "char_code c = char_code d \<longleftrightarrow> c = d"
  by (simp add: char_code_def of_char_eq_iff)

lemma ignore_compare_loop_all2:
  "length p = length q \<Longrightarrow> ignore_compare_loop p q = list_all2 (\<lambda>a b. a = b \<or> \<bar>char_val a - char_val b\<bar> = 32) p q"
  by (induction p q rule: list_induct2) (simp_all add: char_val_less_128 char_code_def)

lemma toupper_close:
  assumes "toupper a = toupper b"
  shows "a = b \<or> \<bar>char_val a - char_val b\<bar> = 32"
proof -
  have code: "char_code (toupper c) = (if is_lower c then char_code c - 32 else char_code c)" for c
    using char_code_toupper [of c] by (simp add: toupper_def)
  have "char_code (toupper a) = char_code (toupper b)" using assms by simp
  then have "char_code a = char_code b \<or> (is_lower a \<and> char_code b = char_code a - 32) \<or>
      (is_lower b \<and> char_code a = char_code b - 32)"
    unfolding code is_lower_def by presburger
  then show ?thesis
    unfolding char_code_inj is_lower_def using char_val_less_128 [of a] char_val_less_128 [of b] by auto
qed

lemma ignore_compare_upper:
  assumes "string_to_upper_case p = string_to_upper_case q"
  shows "ignore_compare p q"
proof -
  have len: "length p = length q" using assms by (metis length_map string_to_upper_case_def)
  have "toupper (p ! i) = toupper (q ! i)" if "i < length p" for i
    using arg_cong [OF assms, of "\<lambda>s. s ! i"] that len by (simp add: string_to_upper_case_def)
  then have "list_all2 (\<lambda>a b. a = b \<or> \<bar>char_val a - char_val b\<bar> = 32) p q"
    using len toupper_close by (simp add: list_all2_conv_all_nth)
  then show ?thesis by (simp add: ignore_compare_def len ignore_compare_loop_all2)
qed

section \<open>Mutex, scoped lock and condition\<close>

text \<open>\<open>EBUSY\<close> and \<open>ETIMEDOUT\<close> are the platform's error numbers.  A pthread call on a mutex in state
  \<open>m\<close> returns an error number and the new state.\<close>

definition EBUSY :: int where "EBUSY = 16"

definition ETIMEDOUT :: int where "ETIMEDOUT = 110"

type_synonym 'm pthread_call = "'m \<Rightarrow> int \<times> 'm"

definition Mutex_lock :: "'m pthread_call \<Rightarrow> 'm \<Rightarrow> 'm option" where
  "Mutex_lock pthread_mutex_lock m = (let (res, m') = pthread_mutex_lock m in if res \<noteq> 0 then None else Some m')"

definition Mutex_unlock :: "'m pthread_call \<Rightarrow> 'm \<Rightarrow> bool \<times> 'm" where
  "Mutex_unlock pthread_mutex_unlock m = (let (res, m') = pthread_mutex_unlock m in (res = 0, m'))"

definition Mutex_try_lock :: "'m pthread_call \<Rightarrow> 'm \<Rightarrow> (bool \<times> 'm) option" where
  "Mutex_try_lock pthread_mutex_trylock m =
    (let (res, m') = pthread_mutex_trylock m in if res \<noteq> 0 \<and> res \<noteq> EBUSY then None else Some (res = 0, m'))"

text \<open>A \<open>Lock\<close> object is its flag \<open>locked_\<close>, beside the state of the mutex it refers to.\<close>

definition Lock_lock :: "'m pthread_call \<Rightarrow> bool \<Rightarrow> 'm \<Rightarrow> (bool \<times> 'm) option" where
  "Lock_lock plock locked m = map_option (Pair True) (Mutex_lock plock m)"

definition Lock_new :: "'m pthread_call \<Rightarrow> bool \<Rightarrow> 'm \<Rightarrow> (bool \<times> 'm) option" where
  "Lock_new plock auto_lock m = (if auto_lock then Lock_lock plock False m else Some (False, m))"

definition Lock_unlock :: "'m pthread_call \<Rightarrow> bool \<Rightarrow> 'm \<Rightarrow> bool \<times> bool \<times> 'm" where
  "Lock_unlock punlock locked m =
    (let (ok, m') = Mutex_unlock punlock m in if ok then (True, False, m') else (False, locked, m'))"

definition Lock_try_lock :: "'m pthread_call \<Rightarrow> bool \<Rightarrow> 'm \<Rightarrow> (bool \<times> bool \<times> 'm) option" where
  "Lock_try_lock ptry locked m =
    (case Mutex_try_lock ptry m of None \<Rightarrow> None
     | Some (ok, m') \<Rightarrow> Some (if ok then (True, True, m') else (False, locked, m')))"

definition Lock_destroy :: "'m pthread_call \<Rightarrow> bool \<Rightarrow> 'm \<Rightarrow> 'm" where
  "Lock_destroy punlock locked m = (if locked then snd (snd (Lock_unlock punlock locked m)) else m)"

text \<open>The absolute deadline \<open>(tv_sec, tv_nsec)\<close> that \<open>timed_wait\<close> computes; C division rounds towards zero.\<close>

definition wait_deadline :: "int \<times> int \<Rightarrow> int \<Rightarrow> int \<times> int" where
  "wait_deadline now timeout_msec =
    (let tv_sec = fst now + timeout_msec sdiv 1000;
         tv_nsec = snd now + (timeout_msec smod 1000) * 1000000
     in (tv_sec + tv_nsec sdiv 1000000000, tv_nsec smod 1000000000))"

definition timed_wait :: "(int \<times> int \<Rightarrow> int) \<Rightarrow> int \<times> int \<Rightarrow> int \<Rightarrow> bool option" where
  "timed_wait pthread_cond_timedwait now timeout_msec =
    (let res = pthread_cond_timedwait (wait_deadline now timeout_msec)
     in if res \<noteq> 0 \<and> res \<noteq> ETIMEDOUT then None else Some (res = 0))"

text \<open>A mutex that is free or held, as pthread specifies \<open>trylock\<close> and \<open>unlock\<close> for it.\<close>

definition simple_trylock :: "bool pthread_call" where
  "simple_trylock held = (if held then (EBUSY, held) else (0, True))"

definition simple_unlock :: "bool pthread_call" where
  "simple_unlock held = (0, False)"

section \<open>Properties\<close>

text \<open>Header and option names that agree up to letter case compare equal under
  \<open>ignore_compare\<close>; in particular the comparison is reflexive.\<close>

lemma ignore_compare_ignores_case:
  assumes "string_to_upper_case p = string_to_upper_case q"
  shows "ignore_compare p q"
  using assms by (rule ignore_compare_upper)

text \<open>A scoped lock taken with \<open>try_lock\<close> releases the mutex in its destructor exactly when it got
  it: after the scope the mutex is in the state it had before, whether or not another thread held it, for
  every mutex whose \<open>trylock\<close> reports a held mutex as busy without changing it, and whose \<open>unlock\<close> undoes a
  successful \<open>trylock\<close>.\<close>

lemma scoped_try_lock_balanced:
  assumes "ptry m = (0, m') \<and> punlock m' = (0, m) \<or> ptry m = (EBUSY, m)"
  shows "\<exists>got locked m1. Lock_try_lock ptry False m = Some (got, locked, m1) \<and> locked = got \<and>
    Lock_destroy punlock locked m1 = m"
  using assms
proof
  assume a: "ptry m = (0, m') \<and> punlock m' = (0, m)"
  then have "Lock_try_lock ptry False m = Some (True, True, m')"
    by (simp add: Lock_try_lock_def Mutex_try_lock_def)
  moreover have "Lock_destroy punlock True m' = m"
    using a by (simp add: Lock_destroy_def Lock_unlock_def Mutex_unlock_def)
  ultimately show ?thesis by blast
next
  assume "ptry m = (EBUSY, m)"
  then have "Lock_try_lock ptry False m = Some (False, False, m)"
    by (simp add: Lock_try_lock_def Mutex_try_lock_def EBUSY_def)
  moreover have "Lock_destroy punlock False m = m" by (simp add: Lock_destroy_def)
  ultimately show ?thesis by blast
qed

text \<open>The deadline of \<open>Condition::timed_wait\<close> is the current time plus the timeout to the
  nanosecond, in normal form, for non-negative timeouts.\<close>

lemma wait_deadline_exact:
  assumes "0 \<le> timeout" and "0 \<le> sec" and "0 \<le> nsec" and "nsec < 1000000000"
    and "wait_deadline (sec, nsec) timeout = (s, n)"
  shows "s * 1000000000 + n = sec * 1000000000 + nsec + timeout * 1000000 \<and> 0 \<le> n \<and> n < 1000000000"
proof -
  let ?t = "nsec + (timeout mod 1000) * 1000000"
  have t: "0 \<le> ?t" using assms by simp
  have "s = sec + timeout div 1000 + ?t div 1000000000" "n = ?t mod 1000000000"
    using assms(5) assms(1) t by (auto simp: wait_deadline_def Let_def sdiv_nonneg smod_nonneg)
  moreover have "?t div 1000000000 * 1000000000 + ?t mod 1000000000 = ?t" by simp
  moreover have "timeout div 1000 * 1000000000 + timeout mod 1000 * 1000000 = timeout * 1000000"
    using div_mult_mod_eq [of timeout 1000] by linarith
  ultimately show ?thesis by (simp add: distrib_right)
qed

end
