(* ===== verification/Http_Wrapper.thy ===== *)
theory Http_Wrapper
  imports Utils
begin

text \<open>
  The HTTP request and response wrappers of \<^verbatim>\<open>src/http/http_wrapper.{h,cc}\<close>: status constants,
  header lookup, quality lists, URL decoding, and the construction of a response.  Text is HOL's
  \<open>string\<close>.  A response writes to the connection's output stream; \<open>out\<close> is the text written to it (theory
  \<open>Stream\<close> relates the stream to the bytes sent).  \<open>atof\<close> is a parameter.
\<close>

section \<open>Status\<close>

record http_status =
  status_code :: int
  reason :: string
  is_text :: bool
  status_text :: string

definition status_of_code :: "int \<Rightarrow> string \<Rightarrow> http_status" where
  "status_of_code code r = \<lparr>status_code = code, reason = r, is_text = False, status_text = ''''\<rparr>"

definition status_of_text :: "string \<Rightarrow> http_status" where
  "status_of_text t = \<lparr>status_code = -1, reason = t, is_text = True, status_text = t\<rparr>"

definition kHttpResponseContinue :: http_status where "kHttpResponseContinue = status_of_code 100 ''Continue''"
definition kHttpResponseSwitchingProtocols :: http_status where "kHttpResponseSwitchingProtocols = status_of_code 101 ''Switching Protocols''"
definition kHttpResponseOK :: http_status where "kHttpResponseOK = status_of_code 200 ''OK''"
definition kHttpResponseCreated :: http_status where "kHttpResponseCreated = status_of_code 201 ''Created''"
definition kHttpResponseAccepted :: http_status where "kHttpResponseAccepted = status_of_code 202 ''Accepted''"
definition kHttpResponseNonAuthoritativeInformation :: http_status where "kHttpResponseNonAuthoritativeInformation = status_of_code 203 ''Non-Authoritative Information''"
definition kHttpResponseNoContent :: http_status where "kHttpResponseNoContent = status_of_code 204 ''No Content''"
definition kHttpResponseResetContent :: http_status where "kHttpResponseResetContent = status_of_code 205 ''Reset Content''"
definition kHttpResponsePartialContent :: http_status where "kHttpResponsePartialContent = status_of_code 206 ''Partial Content''"
definition kHttpResponseMultipleChoices :: http_status where "kHttpResponseMultipleChoices = status_of_code 300 ''Multiple Choices''"
definition kHttpResponseMovedPermanently :: http_status where "kHttpResponseMovedPermanently = status_of_code 301 ''Moved Permanently''"
definition kHttpResponseFound :: http_status where "kHttpResponseFound = status_of_code 302 ''Found''"
definition kHttpResponseSeeOther :: http_status where "kHttpResponseSeeOther = status_of_code 303 ''See Other''"
definition kHttpResponseNotModified :: http_status where "kHttpResponseNotModified = status_of_code 304 ''Not Modified''"
definition kHttpResponseUseProxy :: http_status where "kHttpResponseUseProxy = status_of_code 305 ''Use Proxy''"
definition kHttpResponseTemporaryRedirect :: http_status where "kHttpResponseTemporaryRedirect = status_of_code 307 ''Temporary Redirect''"
definition kHttpResponseBadRequest :: http_status where "kHttpResponseBadRequest = status_of_code 400 ''Bad Request''"
definition kHttpResponseUnauthorized :: http_status where "kHttpResponseUnauthorized = status_of_code 401 ''Unauthorized''"
definition kHttpResponsePaymentRequired :: http_status where "kHttpResponsePaymentRequired = status_of_code 402 ''Payment Required''"
definition kHttpResponseForbidden :: http_status where "kHttpResponseForbidden = status_of_code 403 ''Forbidden''"
definition kHttpResponseNotFound :: http_status where "kHttpResponseNotFound = status_of_code 404 ''Not Found''"
definition kHttpResponseMethodNotAllowed :: http_status where "kHttpResponseMethodNotAllowed = status_of_code 405 ''Method Not Allowed''"
definition kHttpResponseNotAcceptable :: http_status where "kHttpResponseNotAcceptable = status_of_code 406 ''Not Acceptable''"
definition kHttpResponseProxyAuthenticationRequired :: http_status where "kHttpResponseProxyAuthenticationRequired = status_of_code 407 ''Proxy Authentication Required''"
definition kHttpResponseRequestTimeout :: http_status where "kHttpResponseRequestTimeout = status_of_code 408 ''Request Time-out''"
definition kHttpResponseConflict :: http_status where "kHttpResponseConflict = status_of_code 409 ''Conflict''"
definition kHttpResponseGone :: http_status where "kHttpResponseGone = status_of_code 410 ''Gone''"
definition kHttpResponseLengthRequired :: http_status where "kHttpResponseLengthRequired = status_of_code 411 ''Length Required''"
definition kHttpResponsePreconditionFailed :: http_status where "kHttpResponsePreconditionFailed = status_of_code 412 ''Precondition Failed''"
definition kHttpResponseRequestEntityTooLarge :: http_status where "kHttpResponseRequestEntityTooLarge = status_of_code 413 ''Request Entity Too Large''"
definition kHttpResponseRequestUriTooLarge :: http_status where "kHttpResponseRequestUriTooLarge = status_of_code 414 ''Request-URI Too Large''"
definition kHttpResponseUnsupportedMediaType :: http_status where "kHttpResponseUnsupportedMediaType = status_of_code 415 ''Unsupported Media Type''"
definition kHttpResponseRequestedRangeNotSatisfiable :: http_status where "kHttpResponseRequestedRangeNotSatisfiable = status_of_code 416 ''Requested range not satisfiable''"
definition kHttpResponseExpectationFailed :: http_status where "kHttpResponseExpectationFailed = status_of_code 417 ''Expectation Failed''"
definition kHttpResponseInternalServerError :: http_status where "kHttpResponseInternalServerError = status_of_code 500 ''Internal Server Error''"
definition kHttpResponseNotImplemented :: http_status where "kHttpResponseNotImplemented = status_of_code 501 ''Not Implemented''"
definition kHttpResponseBadGateway :: http_status where "kHttpResponseBadGateway = status_of_code 502 ''Bad Gateway''"
definition kHttpResponseServiceUnavailable :: http_status where "kHttpResponseServiceUnavailable = status_of_code 503 ''Service Unavailable''"
definition kHttpResponseGatewayTimeout :: http_status where "kHttpResponseGatewayTimeout = status_of_code 504 ''Gateway Time-out''"
definition kHttpResponseHttpVersionNotSupported :: http_status where "kHttpResponseHttpVersionNotSupported = status_of_code 505 ''HTTP Version not supported''"

section \<open>Headers\<close>

type_synonym header = "string \<times> string"

fun has_header :: "header list \<Rightarrow> string \<Rightarrow> bool" where
  "has_header [] key = False"
| "has_header ((k, v) # hs) key = (if k = key then True else has_header hs key)"

fun find_header_values :: "header list \<Rightarrow> string \<Rightarrow> string list" where
  "find_header_values [] key = []"
| "find_header_values ((k, v) # hs) key =
    (if k = key then v # find_header_values hs key else find_header_values hs key)"

fun find_header_value :: "header list \<Rightarrow> string \<Rightarrow> string" where
  "find_header_value [] key = ''''"
| "find_header_value ((k, v) # hs) key = (if ignore_compare k key then v else find_header_value hs key)"

section \<open>Quality lists\<close>

text \<open>\<open>std::string::find\<close>: the first position of a pattern.\<close>

fun starts_with :: "string \<Rightarrow> string \<Rightarrow> bool" where
  "starts_with [] s = True"
| "starts_with (p # ps) [] = False"
| "starts_with (p # ps) (c # s) = (p = c \<and> starts_with ps s)"

fun find_str :: "string \<Rightarrow> string \<Rightarrow> nat option" where
  "find_str p [] = (if p = [] then Some 0 else None)"
| "find_str p (c # s) = (if starts_with p (c # s) then Some 0 else map_option Suc (find_str p s))"

record 'q quality_value =
  qv_value :: string
  qv_quality :: "'q option"

definition kHttpQualityIndicator :: string where "kHttpQualityIndicator = '';q=''"

definition parse_quality_value :: "(string \<Rightarrow> 'q) \<Rightarrow> string \<Rightarrow> 'q quality_value" where
  "parse_quality_value atof s =
    (case find_str kHttpQualityIndicator s of
       None \<Rightarrow> \<lparr>qv_value = s, qv_quality = None\<rparr>
     | Some pos \<Rightarrow> \<lparr>qv_value = take pos s, qv_quality = Some (atof (drop (pos + length kHttpQualityIndicator) s))\<rparr>)"

lemma starts_with_length: "starts_with q t \<Longrightarrow> length q \<le> length t"
  by (induction q t rule: starts_with.induct) auto

lemma find_str_less: "find_str p s = Some n \<Longrightarrow> n + length p \<le> length s"
proof (induction p s arbitrary: n rule: find_str.induct)
  case (2 p c s)
  then show ?case using starts_with_length [of p "c # s"] by (fastforce split: if_splits)
qed (auto split: if_splits)

text \<open>The loop of \<open>parse_quality_header\<close> on the text behind \<open>pos\<close>.\<close>

function parse_quality_header :: "(string \<Rightarrow> 'q) \<Rightarrow> string \<Rightarrow> 'q quality_value list" where
  "parse_quality_header atof s =
    (case find_str '', '' s of
       None \<Rightarrow> if length s > 0 then [parse_quality_value atof s] else []
     | Some n \<Rightarrow>
        (if n > 0 then [parse_quality_value atof (take n s)] else []) @ parse_quality_header atof (drop (n + 2) s))"
  by pat_completeness auto

termination
  by (relation "measure (\<lambda>(atof, s). length s)") (auto dest!: find_str_less)

declare parse_quality_header.simps [simp del]

definition find_header_quality_values :: "(string \<Rightarrow> 'q) \<Rightarrow> header list \<Rightarrow> string \<Rightarrow> 'q quality_value list" where
  "find_header_quality_values atof hs key = concat (map (parse_quality_header atof) (find_header_values hs key))"

section \<open>URL decoding\<close>

text \<open>\<open>strchr\<close> on \<open>0123456789ABCDEF\<close>; it also finds the terminating zero character, at index 16.\<close>

definition char_to_hex :: "char \<Rightarrow> int" where
  "char_to_hex ch =
    (if is_digit ch then int (char_code ch) - 48
     else if 65 \<le> char_code ch \<and> char_code ch \<le> 70 then int (char_code ch) - 55
     else if char_code ch = 0 then 16 else -1)"

fun http_url_decode :: "string \<Rightarrow> string" where
  "http_url_decode (c # a # b # s) =
    (if c \<noteq> CHR ''%'' then c # http_url_decode (a # b # s)
     else if char_to_hex a = -1 \<or> char_to_hex b = -1 then c # http_url_decode (a # b # s)
     else char_of (nat ((char_to_hex a * 16 + char_to_hex b) mod 256)) # http_url_decode s)"
| "http_url_decode s = s"

section \<open>Numbers\<close>

function decimal :: "nat \<Rightarrow> string" where
  "decimal n = (if n < 10 then [char_of (n + 48)] else decimal (n div 10) @ [char_of (n mod 10 + 48)])"
  by pat_completeness auto
termination by (relation "measure id") auto

declare decimal.simps [simp del]

text \<open>\<open>format_number\<close> with one of the decimal formats.\<close>

definition format_number :: "int \<Rightarrow> string" where
  "format_number n = (if n < 0 then CHR ''-'' # decimal (nat (- n)) else decimal (nat n))"

section \<open>Responses\<close>

definition kHttpVersion :: string where "kHttpVersion = ''HTTP/1.1''"
definition kHttpNewLine :: string where "kHttpNewLine = [CHR 0x0D, CHR 0x0A]"

record http_response =
  rs_headers :: "header list"
  content_length :: int
  prepare_buffer :: string
  use_prepare_buffer :: bool
  has_content_length :: bool
  is_responded :: bool
  responded_status :: http_status
  out :: string

definition response_reset :: "http_response \<Rightarrow> http_response" where
  "response_reset r = r\<lparr>prepare_buffer := '''', content_length := -1, rs_headers := [], has_content_length := True,
     use_prepare_buffer := True, is_responded := False\<rparr>"

definition HttpResponse :: "string \<Rightarrow> http_response" where
  "HttpResponse o0 = response_reset \<lparr>rs_headers = [], content_length = 0, prepare_buffer = '''', use_prepare_buffer = False,
     has_content_length = False, is_responded = False, responded_status = status_of_code 0 '''', out = o0\<rparr>"

definition add_header :: "string \<Rightarrow> string \<Rightarrow> http_response \<Rightarrow> http_response" where
  "add_header key value r =
    (if ignore_compare key ''content-length'' then r\<lparr>content_length := parse_int value\<rparr>
     else let r' = (if ignore_compare key ''transfer-encoding'' \<and> ignore_compare value ''chunked''
                    then r\<lparr>has_content_length := False\<rparr> else r)
          in r'\<lparr>rs_headers := rs_headers r' @ [(key, value)]\<rparr>)"

definition write_data :: "string \<Rightarrow> http_response \<Rightarrow> http_response" where
  "write_data s r = (if use_prepare_buffer r then r\<lparr>prepare_buffer := prepare_buffer r @ s\<rparr> else r\<lparr>out := out r @ s\<rparr>)"

fun write_headers :: "header list \<Rightarrow> http_response \<Rightarrow> http_response" where
  "write_headers [] r = r"
| "write_headers ((k, v) # hs) r = write_headers hs (write_data kHttpNewLine (write_data v (write_data '': '' (write_data k r))))"

definition respond :: "http_status \<Rightarrow> http_response \<Rightarrow> http_response" where
  "respond st r0 =
    (let r1 = (if content_length r0 < 0 then r0\<lparr>content_length := int (length (prepare_buffer r0))\<rparr> else r0);
         r2 = r1\<lparr>use_prepare_buffer := False\<rparr>;
         r3 = (if is_text st
               then write_data kHttpNewLine (write_data (status_text st) (write_data '' '' (write_data kHttpVersion r2)))
               else write_data kHttpNewLine (write_data (reason st) (write_data '' ''
                      (write_data (format_number (status_code st)) (write_data '' '' (write_data kHttpVersion r2))))));
         r4 = write_headers (rs_headers r3) r3;
         r5 = (if has_content_length r4
               then write_data kHttpNewLine (write_data (format_number (content_length r4)) (write_data ''Content-Length: '' r4))
               else r4);
         r6 = write_data kHttpNewLine r5;
         r7 = (if length (prepare_buffer r6) > 0 then r6\<lparr>out := out r6 @ prepare_buffer r6\<rparr> else r6)
     in r7\<lparr>is_responded := True, responded_status := st\<rparr>)"

definition respond_with_message :: "http_status \<Rightarrow> http_response \<Rightarrow> http_response" where
  "respond_with_message st r =
    (let r1 = response_reset r;
         r2 = write_data (''<html><head><title>'' @ reason st @ ''</title></head>'' @ ''<body><h1>'' @ reason st @ ''</h1></body></html>'') r1
     in respond st (add_header ''Content-Type'' ''text/html'' r2))"

section \<open>Decimal numbers\<close>

lemma char_code_char_of: "n < 256 \<Longrightarrow> char_code (char_of n) = n"
  by (simp add: char_code_def)

lemma is_digit_char_of: "d < 10 \<Longrightarrow> is_digit (char_of (d + 48)) \<and> char_code (char_of (d + 48)) = d + 48"
  by (simp add: is_digit_def char_code_char_of)

lemma atoi_digits_append:
  "(\<forall>c \<in> set ds. is_digit c) \<Longrightarrow> atoi_digits acc (ds @ s) = atoi_digits (atoi_digits acc ds) s"
  by (induction ds arbitrary: acc) auto

lemma decimal_digits: "\<forall>c \<in> set (decimal n). is_digit c"
proof (induction n rule: decimal.induct)
  case (1 n)
  have "n mod 10 < 10" by simp
  then show ?case using 1 is_digit_char_of [of "n mod 10"] is_digit_char_of [of n] by (subst decimal.simps) auto
qed

lemma atoi_decimal: "atoi_digits 0 (decimal n) = int n"
proof (induction n rule: decimal.induct)
  case (1 n)
  show ?case
  proof (cases "n < 10")
    case True
    then show ?thesis using is_digit_char_of [of n] by (subst decimal.simps) simp
  next
    case False
    have d: "n mod 10 < 10" by simp
    have "atoi_digits 0 (decimal n) = atoi_digits (int (n div 10)) [char_of (n mod 10 + 48)]"
      using False 1 by (subst decimal.simps) (simp add: atoi_digits_append [OF decimal_digits])
    also have "\<dots> = 10 * int (n div 10) + int (n mod 10)" using is_digit_char_of [OF d] by simp
    also have "\<dots> = int n" by (simp add: zdiv_int zmod_int)
    finally show ?thesis .
  qed
qed

lemma decimal_nonempty: "decimal n \<noteq> []"
  by (subst decimal.simps) simp

lemma digit_not_space: "is_digit c \<Longrightarrow> \<not> is_space c \<and> c \<noteq> CHR ''-'' \<and> c \<noteq> CHR ''+''"
  by (auto simp: is_digit_def is_space_def char_code_def)

lemma parse_format_number: "parse_int (format_number n) = n"
proof (cases "n < 0")
  case True
  have "\<not> is_space CHR ''-''" by (simp add: is_space_def char_code_def)
  then show ?thesis using True by (simp add: format_number_def parse_int_def atoi_decimal Let_def)
next
  case False
  obtain c ds where d: "decimal (nat n) = c # ds" using decimal_nonempty by (cases "decimal (nat n)") auto
  have "is_digit c" using decimal_digits [of "nat n"] d by simp
  then show ?thesis using False d digit_not_space [of c] atoi_decimal [of "nat n"]
    by (simp add: format_number_def parse_int_def Let_def del: atoi_digits.simps)
qed

section \<open>Response text\<close>

definition header_lines :: "header list \<Rightarrow> string" where
  "header_lines hs = concat (map (\<lambda>(k, v). k @ '': '' @ v @ kHttpNewLine) hs)"

definition status_line :: "http_status \<Rightarrow> string" where
  "status_line st = kHttpVersion @ '' '' @
    (if is_text st then status_text st else format_number (status_code st) @ '' '' @ reason st) @ kHttpNewLine"

lemma write_data_direct: "\<not> use_prepare_buffer r \<Longrightarrow> write_data s r = r\<lparr>out := out r @ s\<rparr>"
  by (simp add: write_data_def)

lemma write_headers_direct:
  "\<not> use_prepare_buffer r \<Longrightarrow> write_headers hs r = r\<lparr>out := out r @ header_lines hs\<rparr>"
proof (induction hs arbitrary: r)
  case (Cons h hs)
  then show ?case by (cases h) (simp add: write_data_direct header_lines_def)
qed (simp add: header_lines_def)

lemma respond_out:
  "out (respond st r) = out r @ status_line st @ header_lines (rs_headers r) @
     (if has_content_length r then ''Content-Length: '' @
        format_number (if content_length r < 0 then int (length (prepare_buffer r)) else content_length r) @ kHttpNewLine else []) @
     kHttpNewLine @ prepare_buffer r"
  by (simp add: respond_def Let_def write_data_direct write_headers_direct status_line_def)

section \<open>Percent encoding\<close>

definition hex_digit :: "nat \<Rightarrow> char" where
  "hex_digit d = char_of (if d < 10 then d + 48 else d + 55)"

text \<open>Reference encoder: characters for which \<open>keep\<close> holds stay, the others become \<open>%XY\<close>.\<close>

definition percent_encode :: "(char \<Rightarrow> bool) \<Rightarrow> string \<Rightarrow> string" where
  "percent_encode keep s = concat (map (\<lambda>c. if keep c then [c]
     else [CHR ''%'', hex_digit (char_code c div 16), hex_digit (char_code c mod 16)]) s)"

lemma char_to_hex_digit: "d < 16 \<Longrightarrow> char_to_hex (hex_digit d) = int d"
  by (auto simp: char_to_hex_def hex_digit_def is_digit_def char_code_char_of)

lemma decode_keep:
  "c \<noteq> CHR ''%'' \<Longrightarrow> http_url_decode (c # s) = c # http_url_decode s"
  by (cases s; cases "tl s") auto

lemma decode_hex:
  "http_url_decode (CHR ''%'' # hex_digit (char_code c div 16) # hex_digit (char_code c mod 16) # s) = c # http_url_decode s"
proof -
  have lt: "char_code c div 16 < 16" "char_code c mod 16 < 16" using char_code_less [of c] by simp_all
  have "int (char_code c div 16) * 16 + int (char_code c mod 16) = int (char_code c)"
    by (simp add: zdiv_int zmod_int)
  moreover have "char_of (char_code c) = c" by (simp add: char_code_def)
  ultimately show ?thesis
    using char_code_less [of c] by (simp add: char_to_hex_digit [OF lt(1)] char_to_hex_digit [OF lt(2)])
qed

lemma decode_encode: "\<not> keep CHR ''%'' \<Longrightarrow> http_url_decode (percent_encode keep s) = s"
proof (induction s)
  case (Cons c s)
  show ?case
  proof (cases "keep c")
    case True
    then have "c \<noteq> CHR ''%''" using Cons.prems by auto
    then show ?thesis using True Cons by (simp add: percent_encode_def decode_keep)
  next
    case False
    then show ?thesis using decode_hex [of c] Cons by (simp add: percent_encode_def)
  qed
qed (simp add: percent_encode_def)

section \<open>Quality lists round trip\<close>

fun join :: "string \<Rightarrow> string list \<Rightarrow> string" where
  "join sep [] = []"
| "join sep [x] = x"
| "join sep (x # y # xs) = x @ sep @ join sep (y # xs)"

lemma find_str_none: "CHR '','' \<notin> set x \<Longrightarrow> find_str '', '' x = None"
proof (induction x)
  case (Cons c x)
  then show ?case by (cases x) auto
qed simp

lemma find_str_at: "CHR '','' \<notin> set x \<Longrightarrow> find_str '', '' (x @ '', '' @ s) = Some (length x)"
proof (induction x)
  case (Cons c x)
  then show ?case by (cases x) auto
qed simp

lemma parse_join:
  "\<forall>x \<in> set xs. x \<noteq> [] \<and> CHR '','' \<notin> set x \<Longrightarrow>
    parse_quality_header atof (join '', '' xs) = map (parse_quality_value atof) xs"
proof (induction "'', ''" xs rule: join.induct)
  case 1
  show ?case by (subst parse_quality_header.simps) simp
next
  case (2 x)
  then show ?case by (subst parse_quality_header.simps) (simp add: find_str_none)
next
  case (3 x y xs)
  have x: "x \<noteq> []" "CHR '','' \<notin> set x" using 3 by auto
  have f: "find_str '', '' (join '', '' (x # y # xs)) = Some (length x)" using find_str_at [OF x(2)] by simp
  have "drop (length x + 2) (join '', '' (x # y # xs)) = join '', '' (y # xs)" by simp
  then show ?case using 3 x f by (subst parse_quality_header.simps) simp
qed

section \<open>Properties\<close>

text \<open>C22: a response is framed correctly: \<open>respond\<close> writes the status line, the headers in the order they
  were added, an empty line and the prepared body, each line ended by CR LF; and unless a length was set
  explicitly or the body is chunked, the Content-Length line it writes, read back as a number, is the length
  of that body.\<close>

theorem respond_frames_message:
  assumes "content_length r < 0" and "has_content_length r"
  shows "\<exists>len. out (respond st r) = out r @ status_line st @ header_lines (rs_headers r) @
      ''Content-Length: '' @ len @ kHttpNewLine @ kHttpNewLine @ prepare_buffer r \<and>
    parse_int len = int (length (prepare_buffer r)) \<and> is_responded (respond st r)"
proof -
  have "is_responded (respond st r)" by (simp add: respond_def Let_def)
  then show ?thesis using assms parse_format_number
    by (intro exI [of _ "format_number (int (length (prepare_buffer r)))"]) (simp add: respond_out)
qed

theorem respond_frames_message_witness:
  "\<exists>len. out (respond kHttpResponseNotFound (write_data ''gone'' (HttpResponse ''''))) =
      ''HTTP/1.1 404 Not Found'' @ kHttpNewLine @ ''Content-Length: '' @ len @ kHttpNewLine @ kHttpNewLine @ ''gone'' \<and>
    parse_int len = 4"
proof -
  let ?r = "write_data ''gone'' (HttpResponse '''')"
  have r: "content_length ?r < 0" "has_content_length ?r" "prepare_buffer ?r = ''gone''" "rs_headers ?r = []" "out ?r = []"
    by (simp_all add: write_data_def HttpResponse_def response_reset_def)
  have "decimal 404 = ''404''" by code_simp
  then have "status_line kHttpResponseNotFound = ''HTTP/1.1 404 Not Found'' @ kHttpNewLine"
    by (simp add: status_line_def kHttpResponseNotFound_def status_of_code_def kHttpVersion_def format_number_def)
  with respond_frames_message [OF r(1,2), of kHttpResponseNotFound] show ?thesis by (auto simp: r header_lines_def)
qed

text \<open>C23: URL decoding undoes percent encoding: for every choice of characters an encoder leaves as they are
  (other than the percent sign), decoding gives back the original text.\<close>

theorem url_decode_roundtrip:
  assumes "\<not> keep CHR ''%''"
  shows "http_url_decode (percent_encode keep s) = s"
  using assms by (rule decode_encode)

theorem url_decode_roundtrip_witness:
  "http_url_decode (percent_encode is_lower ''a b%/c'') = ''a b%/c''"
  by (rule url_decode_roundtrip) (simp add: is_lower_def char_code_def)

text \<open>Parsing a quality list such as an Accept-Encoding header splits it into exactly the elements it
  was joined from, in order, each parsed on its own.\<close>

lemma quality_header_roundtrip:
  assumes "\<forall>x \<in> set xs. x \<noteq> [] \<and> CHR '','' \<notin> set x"
  shows "parse_quality_header atof (join '', '' xs) = map (parse_quality_value atof) xs"
  using assms by (rule parse_join)

end
