(* ===== verification/Configuration.thy ===== *)
theory Configuration
  imports Http_Wrapper Buffer
begin

text \<open>
  Parsed requests (\<open>HttpRequestData\<close> of \<^verbatim>\<open>src/http/connection.{h,cc}\<close>), handlers and their options
  (\<^verbatim>\<open>src/http/interface.cc\<close>), and the configuration of \<^verbatim>\<open>src/http/configuration.cc\<close>: handler
  registry, URL rules, virtual hosts, thread pools and server settings.  Handlers and URL rules are
  objects referred to by pointers; here a handler is an address of the registry and a rule pointer is the
  rule itself.  The YAML library is outside the sources: a mapping node is the list of key/value pairs
  its iterator yields, and a document the list of its entries; an access the library answers by an exception is \<open>None\<close>.
  The regular expression library is a parameter \<open>regex_match\<close>, the \<open>load_param\<close> method of a module's
  handler a parameter of the registry.
\<close>

section \<open>Handlers\<close>

record 'p handler_obj =
  h_name :: string
  h_module :: string
  h_options :: "string \<rightharpoonup> string"
  h_param :: "'p option"

definition add_option :: "string \<Rightarrow> string \<Rightarrow> 'p handler_obj \<Rightarrow> 'p handler_obj" where
  "add_option name value h = h\<lparr>h_options := (h_options h)(name \<mapsto> value)\<rparr>"

definition handler_option :: "'p handler_obj \<Rightarrow> string \<Rightarrow> string" where
  "handler_option h name = (case h_options h name of None \<Rightarrow> '''' | Some v \<Rightarrow> v)"

text \<open>The modules: a factory is known by its module name.\<close>

record 'p handler_config =
  factories :: "string \<Rightarrow> bool"
  handlers :: "string \<rightharpoonup> nat"
  handler_objs :: "nat \<Rightarrow> 'p handler_obj"
  next_handler :: nat

definition register_handler_factory :: "string \<Rightarrow> 'p handler_config \<Rightarrow> 'p handler_config" where
  "register_handler_factory module c = c\<lparr>factories := (factories c)(module := True)\<rparr>"

definition create_handler_instance :: "string \<Rightarrow> string \<Rightarrow> 'p handler_config \<Rightarrow> nat option \<times> 'p handler_config" where
  "create_handler_instance name module c =
    (case handlers c name of
       Some a \<Rightarrow> (Some a, c)
     | None \<Rightarrow>
        if factories c module
        then let a = next_handler c
             in (Some a, c\<lparr>handler_objs := (handler_objs c)(a := \<lparr>h_name = name, h_module = module, h_options = Map.empty, h_param = None\<rparr>),
                   handlers := (handlers c)(name \<mapsto> a), next_handler := Suc a\<rparr>)
        else (None, c))"

definition get_handler_instance :: "string \<Rightarrow> 'p handler_config \<Rightarrow> nat option" where
  "get_handler_instance name c = handlers c name"

type_synonym yaml_map = "(string \<times> string) list"

fun add_options :: "yaml_map \<Rightarrow> 'p handler_obj \<Rightarrow> 'p handler_obj" where
  "add_options [] h = h"
| "add_options ((key, value) # kvs) h =
    (if key = ''name'' \<or> key = ''module'' then add_options kvs h else add_options kvs (add_option key value h))"

definition load_handler ::
  "(string \<Rightarrow> (string \<rightharpoonup> string) \<Rightarrow> 'p) \<Rightarrow> yaml_map \<Rightarrow> 'p handler_config \<Rightarrow> 'p handler_config option" where
  "load_handler load_param subdoc c =
    (case (map_of subdoc ''name'', map_of subdoc ''module'') of
       (Some name, Some module) \<Rightarrow>
         (case create_handler_instance name module c of
            (None, c') \<Rightarrow> Some c'
          | (Some a, c') \<Rightarrow>
              let h = add_options subdoc (handler_objs c' a)
              in Some (c'\<lparr>handler_objs := (handler_objs c')(a := h\<lparr>h_param := Some (load_param (h_module h) (h_options h))\<rparr>)\<rparr>))
     | _ \<Rightarrow> None)"

fun load_handlers ::
  "(string \<Rightarrow> (string \<rightharpoonup> string) \<Rightarrow> 'p) \<Rightarrow> yaml_map list \<Rightarrow> 'p handler_config \<Rightarrow> 'p handler_config option" where
  "load_handlers lp [] c = Some c"
| "load_handlers lp (d # ds) c = Option.bind (load_handler lp d c) (load_handlers lp ds)"

section \<open>URL rules\<close>

datatype matcher = PrefixMatcher string | RegexMatcher string

record url_rule =
  rule_handlers :: "nat list"
  rule_matcher :: "matcher option"

text \<open>A parsed request; \<open>chunk_buffer\<close> lives in the buffer store.\<close>

record request_data =
  rq_headers :: "header list"
  rq_path :: string
  rq_uri :: string
  rq_complete_uri :: string
  rq_query_string :: string
  rq_fragment :: string
  rq_chunk :: buffer
  rq_method :: int
  rq_content_length :: nat
  rq_transfer_encoding :: int
  rq_version_major :: int
  rq_version_minor :: int
  rq_keep_alive :: bool
  rq_url_rule :: "url_rule option"

text \<open>\<open>match\<close>: whether the rule applies, and the request after it.  \<open>None\<close>: the prefix is longer than the
  URI and \<open>erase\<close> leaves the string.\<close>

fun matcher_match :: "(string \<Rightarrow> string \<Rightarrow> bool) \<Rightarrow> matcher \<Rightarrow> request_data \<Rightarrow> (bool \<times> request_data) option" where
  "matcher_match rx (RegexMatcher r) req = Some (rx r (rq_path req), req)"
| "matcher_match rx (PrefixMatcher p) req =
    (if length (rq_path req) < length p then Some (False, req)
     else if take (length p) (rq_path req) \<noteq> p then Some (False, req)
     else if length (rq_uri req) < length p then None
     else Some (True, req\<lparr>rq_path := drop (length p) (rq_path req), rq_uri := drop (length p) (rq_uri req)\<rparr>))"

fun rules_match_uri :: "(string \<Rightarrow> string \<Rightarrow> bool) \<Rightarrow> url_rule list \<Rightarrow> request_data \<Rightarrow> (url_rule option \<times> request_data) option" where
  "rules_match_uri rx [] req = Some (None, req)"
| "rules_match_uri rx (r # rs) req =
    (case rule_matcher r of
       None \<Rightarrow> Some (Some r, req)
     | Some m \<Rightarrow>
        (case matcher_match rx m req of
           None \<Rightarrow> None
         | Some (True, req') \<Rightarrow> Some (Some r, req')
         | Some (False, req') \<Rightarrow> rules_match_uri rx rs req'))"

text \<open>\<open>substr (pos)\<close> keeps the text from the colon on.\<close>

definition parse_host :: "string \<Rightarrow> string" where
  "parse_host host = (if CHR '':'' \<in> set host then dropWhile (\<lambda>c. c \<noteq> CHR '':'') host else host)"

type_synonym vhost_config = "string \<rightharpoonup> url_rule list"

text \<open>\<open>None\<close>: neither the host nor \<open>default\<close> is configured and the end iterator is dereferenced.\<close>

definition vhost_match_uri ::
  "(string \<Rightarrow> string \<Rightarrow> bool) \<Rightarrow> vhost_config \<Rightarrow> string \<Rightarrow> request_data \<Rightarrow> (url_rule option \<times> request_data) option" where
  "vhost_match_uri rx cfg host req =
    (case cfg (parse_host host) of
       Some rules \<Rightarrow> rules_match_uri rx rules req
     | None \<Rightarrow> (case cfg ''default'' of Some rules \<Rightarrow> rules_match_uri rx rules req | None \<Rightarrow> None))"

text \<open>A rule node: its scalar entries and the names of its chain.\<close>

record rule_node =
  node_entries :: yaml_map
  node_chain :: "string list"

definition make_matcher :: "string \<Rightarrow> yaml_map \<Rightarrow> matcher option option" where
  "make_matcher type subdoc =
    (if type = ''prefix'' then map_option (\<lambda>p. Some (PrefixMatcher p)) (map_of subdoc ''prefix'')
     else if type = ''regex'' then map_option (\<lambda>r. Some (RegexMatcher r)) (map_of subdoc ''regex'')
     else Some None)"

fun rule_chain :: "'p handler_config \<Rightarrow> string list \<Rightarrow> nat list" where
  "rule_chain c [] = []"
| "rule_chain c (name # names) =
    (case get_handler_instance name c of Some a \<Rightarrow> a # rule_chain c names | None \<Rightarrow> rule_chain c names)"

definition load_url_rule :: "'p handler_config \<Rightarrow> rule_node \<Rightarrow> url_rule list \<Rightarrow> url_rule list option" where
  "load_url_rule c node rules =
    (case map_of (node_entries node) ''type'' of
       None \<Rightarrow> None
     | Some type \<Rightarrow>
        (case make_matcher type (node_entries node) of
           None \<Rightarrow> None
         | Some m \<Rightarrow> Some (rules @ [\<lparr>rule_handlers = rule_chain c (node_chain node), rule_matcher = m\<rparr>])))"

fun load_url_rules :: "'p handler_config \<Rightarrow> rule_node list \<Rightarrow> url_rule list \<Rightarrow> url_rule list option" where
  "load_url_rules c [] rules = Some rules"
| "load_url_rules c (n # ns) rules = Option.bind (load_url_rule c n rules) (load_url_rules c ns)"

text \<open>\<open>std::map::insert\<close> keeps an existing entry.\<close>

fun load_vhost_rules :: "'p handler_config \<Rightarrow> (string \<times> rule_node list) list \<Rightarrow> vhost_config \<Rightarrow> vhost_config option" where
  "load_vhost_rules c [] cfg = Some cfg"
| "load_vhost_rules c ((host, nodes) # ds) cfg =
    (case load_url_rules c nodes [] of
       None \<Rightarrow> None
     | Some rules \<Rightarrow> load_vhost_rules c ds (if cfg host = None then cfg(host \<mapsto> rules) else cfg))"

section \<open>Thread pools and server settings\<close>

text \<open>The pool size of each stage of the pipeline.\<close>

fun load_thread_pool_config :: "yaml_map \<Rightarrow> (string \<rightharpoonup> nat) \<Rightarrow> (string \<rightharpoonup> nat)" where
  "load_thread_pool_config [] stages = stages"
| "load_thread_pool_config ((key, value) # kvs) stages =
    (if key = ''recycle'' then load_thread_pool_config kvs stages
     else let pool_size = parse_int value
          in case stages key of
               None \<Rightarrow> load_thread_pool_config kvs stages
             | Some _ \<Rightarrow> if pool_size \<le> 0 then load_thread_pool_config kvs stages
                         else load_thread_pool_config kvs (stages(key \<mapsto> nat pool_size)))"

datatype write_back_mode = kWriteBackModeBlock | kWriteBackModePoll

record static_settings =
  idle_timeout :: int
  cork_enabled :: bool
  write_back :: write_back_mode
  auto_tuning :: bool

fun load_static_config :: "yaml_map \<Rightarrow> static_settings \<Rightarrow> static_settings" where
  "load_static_config [] s = s"
| "load_static_config ((key, value) # kvs) s =
    load_static_config kvs
      (if key = ''idle_timeout'' then s\<lparr>idle_timeout := parse_int value\<rparr>
       else if key = ''enable_cork'' then s\<lparr>cork_enabled := parse_bool value\<rparr>
       else if key = ''write_back_mode'' then
         (if ignore_compare value ''block'' then s\<lparr>write_back := kWriteBackModeBlock\<rparr>
          else if ignore_compare value ''poll'' then s\<lparr>write_back := kWriteBackModePoll\<rparr> else s)
       else if key = ''handler_auto_tuning'' then s\<lparr>auto_tuning := parse_bool value\<rparr>
       else s)"

datatype doc_value =
    DScalar string
  | DHandlers "yaml_map list"
  | DHosts "(string \<times> rule_node list) list"
  | DPools yaml_map

record 'p server_config =
  cfg_address :: string
  cfg_port :: string
  listen_queue_size :: int
  cfg_handlers :: "'p handler_config"
  cfg_vhosts :: vhost_config
  cfg_pools :: "string \<rightharpoonup> nat"

definition load_entry ::
  "(string \<Rightarrow> (string \<rightharpoonup> string) \<Rightarrow> 'p) \<Rightarrow> string \<Rightarrow> doc_value \<Rightarrow> 'p server_config \<Rightarrow> 'p server_config option" where
  "load_entry lp key value s =
    (if key = ''address'' then (case value of DScalar v \<Rightarrow> Some (s\<lparr>cfg_address := v\<rparr>) | _ \<Rightarrow> None)
     else if key = ''port'' then (case value of DScalar v \<Rightarrow> Some (s\<lparr>cfg_port := v\<rparr>) | _ \<Rightarrow> None)
     else if key = ''handlers'' then
       (case value of DHandlers ds \<Rightarrow> map_option (\<lambda>c. s\<lparr>cfg_handlers := c\<rparr>) (load_handlers lp ds (cfg_handlers s)) | _ \<Rightarrow> None)
     else if key = ''host'' then
       (case value of DHosts ds \<Rightarrow> map_option (\<lambda>v. s\<lparr>cfg_vhosts := v\<rparr>) (load_vhost_rules (cfg_handlers s) ds (cfg_vhosts s)) | _ \<Rightarrow> None)
     else if key = ''thread_pool'' then
       (case value of DPools ps \<Rightarrow> Some (s\<lparr>cfg_pools := load_thread_pool_config ps (cfg_pools s)\<rparr>) | _ \<Rightarrow> None)
     else if key = ''listen_queue_size'' then
       (case value of
          DScalar v \<Rightarrow> let n = parse_int v in Some (s\<lparr>listen_queue_size := (if n \<le> 0 then 128 else n)\<rparr>)
        | _ \<Rightarrow> None)
     else Some s)"

fun load_config ::
  "(string \<Rightarrow> (string \<rightharpoonup> string) \<Rightarrow> 'p) \<Rightarrow> (string \<times> doc_value) list \<Rightarrow> 'p server_config \<Rightarrow> 'p server_config option" where
  "load_config lp [] s = Some s"
| "load_config lp ((key, value) # kvs) s = Option.bind (load_entry lp key value s) (load_config lp kvs)"

section \<open>Routing\<close>

text \<open>What a rule asks of a request, and what it does to the request it accepts.\<close>

definition applies :: "(string \<Rightarrow> string \<Rightarrow> bool) \<Rightarrow> url_rule \<Rightarrow> request_data \<Rightarrow> bool" where
  "applies rx r req = (case rule_matcher r of
     None \<Rightarrow> True
   | Some (RegexMatcher p) \<Rightarrow> rx p (rq_path req)
   | Some (PrefixMatcher p) \<Rightarrow> \<exists>rest. rq_path req = p @ rest)"

definition routed :: "url_rule \<Rightarrow> request_data \<Rightarrow> request_data" where
  "routed r req = (case rule_matcher r of
     Some (PrefixMatcher p) \<Rightarrow> req\<lparr>rq_path := drop (length p) (rq_path req), rq_uri := drop (length p) (rq_uri req)\<rparr>
   | _ \<Rightarrow> req)"

definition route :: "(string \<Rightarrow> string \<Rightarrow> bool) \<Rightarrow> url_rule list \<Rightarrow> request_data \<Rightarrow> url_rule option \<times> request_data" where
  "route rx rules req = (case find (\<lambda>r. applies rx r req) rules of None \<Rightarrow> (None, req) | Some r \<Rightarrow> (Some r, routed r req))"

lemma take_eq_prefix: "(\<exists>rest. xs = p @ rest) \<longleftrightarrow> length p \<le> length xs \<and> take (length p) xs = p"
  by (metis append_eq_conv_conj append_take_drop_id length_append le_add1)

lemma matcher_match_applies:
  assumes "length (rq_path req) \<le> length (rq_uri req)" and "rule_matcher r = Some m"
  shows "matcher_match rx m req = Some (if applies rx r req then (True, routed r req) else (False, req))"
proof (cases m)
  case (PrefixMatcher p)
  then show ?thesis using assms by (auto simp: applies_def routed_def take_eq_prefix)
next
  case (RegexMatcher p)
  then show ?thesis using assms by (simp add: applies_def routed_def)
qed

lemma rules_match_uri_route:
  assumes "length (rq_path req) \<le> length (rq_uri req)"
  shows "rules_match_uri rx rules req = Some (route rx rules req)"
proof (induction rules)
  case (Cons r rs)
  show ?case
  proof (cases "rule_matcher r")
    case None
    then show ?thesis by (simp add: route_def applies_def routed_def)
  next
    case (Some m)
    then show ?thesis using Cons matcher_match_applies [OF assms Some, of rx] by (auto simp add: route_def)
  qed
qed (simp add: route_def)

lemma parse_host_port: "CHR '':'' \<notin> set name \<Longrightarrow> parse_host (name @ '':'' @ port) = '':'' @ port"
  by (auto simp: parse_host_def dropWhile_append3)

lemma parse_host_plain: "CHR '':'' \<notin> set name \<Longrightarrow> parse_host name = name"
  by (simp add: parse_host_def)

section \<open>Handler options\<close>

lemma add_options_lookup:
  assumes "key \<noteq> ''name''" and "key \<noteq> ''module''"
  shows "h_options (add_options kvs h) key = (case map_of (rev kvs) key of None \<Rightarrow> h_options h key | Some v \<Rightarrow> Some v)"
  using assms by (induction kvs h rule: add_options.induct)
    (auto simp: add_option_def map_add_def split: option.splits)

lemma load_handler_options:
  assumes "load_handler lp d c = Some c'" and "map_of d ''name'' = Some name" and "map_of d ''module'' = Some module"
    and "factories c module" and "handlers c name = None" and "key \<noteq> ''name''" and "key \<noteq> ''module''"
  shows "\<exists>a. get_handler_instance name c' = Some a \<and>
    handler_option (handler_objs c' a) key = (case map_of (rev d) key of None \<Rightarrow> '''' | Some v \<Rightarrow> v)"
  using assms(1-5)
  by (intro exI [of _ "next_handler c"])
    (auto simp: add_options_lookup [OF assms(6,7)] load_handler_def create_handler_instance_def get_handler_instance_def handler_option_def Let_def
      split: option.splits)

lemma load_thread_pool_step:
  "\<exists>st'. load_thread_pool_config ((key, value) # kvs) st = load_thread_pool_config kvs st' \<and>
    (st' = st \<or> key \<noteq> ''recycle'' \<and> key \<in> dom st \<and> 0 < parse_int value \<and> st' = st(key \<mapsto> nat (parse_int value)))"
  by (simp add: Let_def domIff not_le split: option.splits) blast

lemma load_thread_pool_keeps:
  assumes "\<forall>k n. st k = Some n \<longrightarrow> 0 < n"
  shows "dom (load_thread_pool_config kvs st) = dom st \<and> load_thread_pool_config kvs st ''recycle'' = st ''recycle'' \<and>
    (\<forall>k n. load_thread_pool_config kvs st k = Some n \<longrightarrow> 0 < n)"
  using assms
proof (induction kvs arbitrary: st)
  case (Cons kv kvs)
  obtain key v where kv: "kv = (key, v)" by (rule prod.exhaust)
  obtain st' where st': "load_thread_pool_config ((key, v) # kvs) st = load_thread_pool_config kvs st'"
    "st' = st \<or> key \<noteq> ''recycle'' \<and> key \<in> dom st \<and> 0 < parse_int v \<and> st' = st(key \<mapsto> nat (parse_int v))"
    using load_thread_pool_step by blast
  have "dom st' = dom st" "st' ''recycle'' = st ''recycle''" "\<forall>k n. st' k = Some n \<longrightarrow> 0 < n"
    using st'(2) Cons.prems by (auto split: if_splits)
  then show ?case using Cons.IH [of st'] st'(1) kv by simp
qed simp

section \<open>Properties\<close>


definition sample_request :: request_data where
  "sample_request = \<lparr>rq_headers = [], rq_path = ''/img/a'', rq_uri = ''/img/a?b'', rq_complete_uri = '''', rq_query_string = ''b'',
     rq_fragment = '''', rq_chunk = \<lparr>cow_ref = 0, borrowed = False, left_offset = 0, right_offset = kPageSize, buf_size = 0\<rparr>,
     rq_method = 4, rq_content_length = 0, rq_transfer_encoding = 1, rq_version_major = 1, rq_version_minor = 1,
     rq_keep_alive = True, rq_url_rule = None\<rparr>"

definition sample_rules :: "url_rule list" where
  "sample_rules = [\<lparr>rule_handlers = [0], rule_matcher = Some (PrefixMatcher ''/img'')\<rparr>, \<lparr>rule_handlers = [1], rule_matcher = None\<rparr>]"


text \<open>A host given with its port never selects its virtual host.  \<open>parse_host\<close> returns the text from
  the colon on, so unless a domain is configured that begins with a colon the request is routed by \<open>default\<close>.\<close>

lemma host_with_port_uses_default:
  assumes "CHR '':'' \<notin> set name" and "\<And>d. d \<in> dom cfg \<Longrightarrow> take 1 d \<noteq> '':''"
  shows "vhost_match_uri rx cfg (name @ '':'' @ port) req = vhost_match_uri rx cfg ''default'' req"
proof -
  have "cfg ('':'' @ port) = None" using assms(2) [of "'':'' @ port"] by auto
  moreover have "parse_host ''default'' = ''default''" by (simp add: parse_host_def)
  ultimately show ?thesis using parse_host_port [OF assms(1)] by (auto simp: vhost_match_uri_def split: option.splits)
qed

end
