(* ===== verification/Http_Connection.thy ===== *)
theory Http_Connection
  imports Configuration
begin

text \<open>
  HTTP connections: \<^verbatim>\<open>src/http/connection.{h,cc}\<close> and the request side of \<^verbatim>\<open>src/core/wrapper.cc\<close> and
  \<^verbatim>\<open>src/http/http_wrapper.cc\<close>.  The parser \<open>http_parser_execute\<close> is generated by Ragel and a parameter:
  executing it on a piece of text gives the number of characters consumed, the callbacks it made in order,
  and the parser afterwards.  The fields that \<open>finish_parse\<close> reads from the parser are arguments of the
  \<open>OnMessageComplete\<close> callback.  The buffer store is part of the connection's state, as the connection holds the
  input buffer, the buffer for chunked data, and the copies in the queued requests.
\<close>

record parser_fields =
  pf_method :: int
  pf_content_length :: nat
  pf_transfer_encoding :: int
  pf_version_major :: int
  pf_version_minor :: int
  pf_keep_alive :: int

datatype parser_event =
    OnField string | OnValue string | OnUri string | OnPath string | OnQueryString string | OnFragment string
  | OnChunkData string | OnHeaderLineComplete | OnMessageComplete parser_fields

record 'p parser_lib =
  http_parser_execute :: "'p \<Rightarrow> string \<Rightarrow> nat \<times> parser_event list \<times> 'p"
  http_parser_has_error :: "'p \<Rightarrow> bool"

definition http_parser_should_keep_alive :: "parser_fields \<Rightarrow> bool" where
  "http_parser_should_keep_alive f =
    (if pf_keep_alive f = -1
     then (if pf_version_major f = 1 then pf_version_minor f \<noteq> 0
           else if pf_version_major f = 0 then False else True)
     else pf_keep_alive f \<noteq> 0)"

section \<open>Requests\<close>

definition HTTP_COPY :: int where "HTTP_COPY = 0x0001"
definition HTTP_DELETE :: int where "HTTP_DELETE = 0x0002"
definition HTTP_GET :: int where "HTTP_GET = 0x0004"
definition HTTP_HEAD :: int where "HTTP_HEAD = 0x0008"
definition HTTP_LOCK :: int where "HTTP_LOCK = 0x0010"
definition HTTP_MKCOL :: int where "HTTP_MKCOL = 0x0020"
definition HTTP_MOVE :: int where "HTTP_MOVE = 0x0040"
definition HTTP_OPTIONS :: int where "HTTP_OPTIONS = 0x0080"
definition HTTP_POST :: int where "HTTP_POST = 0x0100"
definition HTTP_PROPFIND :: int where "HTTP_PROPFIND = 0x0200"
definition HTTP_PROPPATCH :: int where "HTTP_PROPPATCH = 0x0400"
definition HTTP_PUT :: int where "HTTP_PUT = 0x0800"
definition HTTP_TRACE :: int where "HTTP_TRACE = 0x1000"
definition HTTP_UNLOCK :: int where "HTTP_UNLOCK = 0x2000"

lemmas http_methods = HTTP_COPY_def HTTP_DELETE_def HTTP_GET_def HTTP_HEAD_def HTTP_LOCK_def HTTP_MKCOL_def HTTP_MOVE_def
  HTTP_OPTIONS_def HTTP_POST_def HTTP_PROPFIND_def HTTP_PROPPATCH_def HTTP_PUT_def HTTP_TRACE_def HTTP_UNLOCK_def

definition method_string :: "int \<Rightarrow> string" where
  "method_string m =
    (if m = HTTP_COPY then ''COPY''
     else if m = HTTP_DELETE then ''DELETE''
     else if m = HTTP_GET then ''GET''
     else if m = HTTP_HEAD then ''HEAD''
     else if m = HTTP_LOCK then ''LOCK''
     else if m = HTTP_MKCOL then ''MKCOL''
     else if m = HTTP_MOVE then ''MOVE''
     else if m = HTTP_OPTIONS then ''OPTIONS''
     else if m = HTTP_POST then ''POST''
     else if m = HTTP_PROPFIND then ''PROPFIND''
     else if m = HTTP_PROPPATCH then ''PROPFIND''
     else if m = HTTP_PUT then ''PUT''
     else if m = HTTP_TRACE then ''TRACE''
     else if m = HTTP_UNLOCK then ''UNLOCK''
     else '''')"

text \<open>\<open>clear\<close> leaves \<open>complete_uri\<close> and the numeric fields.\<close>

definition request_clear :: "buf_heap \<Rightarrow> request_data \<Rightarrow> request_data \<times> buf_heap" where
  "request_clear h r =
    (let (b, h') = clear h (rq_chunk r)
     in (r\<lparr>rq_headers := [], rq_path := '''', rq_uri := '''', rq_query_string := '''', rq_fragment := '''', rq_chunk := b\<rparr>, h'))"

definition HttpRequestData :: "buf_heap \<Rightarrow> request_data \<times> buf_heap" where
  "HttpRequestData h =
    (let (b, h1) = Buffer_new h
     in request_clear h1 \<lparr>rq_headers = [], rq_path = '''', rq_uri = '''', rq_complete_uri = '''', rq_query_string = '''',
          rq_fragment = '''', rq_chunk = b, rq_method = 0, rq_content_length = 0, rq_transfer_encoding = 0,
          rq_version_major = 0, rq_version_minor = 0, rq_keep_alive = False, rq_url_rule = None\<rparr>)"

text \<open>The copy constructor of \<open>HttpRequestData\<close>.\<close>

definition request_copy :: "buf_heap \<Rightarrow> request_data \<Rightarrow> request_data \<times> buf_heap" where
  "request_copy h r = (let (b, h') = Buffer_copy h (rq_chunk r) in (r\<lparr>rq_chunk := b\<rparr>, h'))"

section \<open>Connection\<close>

record 'p http_conn =
  hc_heap :: buf_heap
  hc_in :: buffer
  hc_parser :: 'p
  hc_requests :: "request_data list"
  hc_tmp :: request_data
  hc_key :: string
  hc_value :: string
  hc_skip :: "64 word"

definition HttpConnection :: "'p \<Rightarrow> buf_heap \<Rightarrow> 'p http_conn" where
  "HttpConnection init h =
    (let (b, h1) = Buffer_new h; (r, h2) = HttpRequestData h1
     in \<lparr>hc_heap = h2, hc_in = b, hc_parser = init, hc_requests = [], hc_tmp = r, hc_key = '''', hc_value = '''', hc_skip = 0\<rparr>)"

definition append_field :: "string \<Rightarrow> 'p http_conn \<Rightarrow> 'p http_conn" where
  "append_field s c = c\<lparr>hc_key := hc_key c @ s\<rparr>"

definition append_value :: "string \<Rightarrow> 'p http_conn \<Rightarrow> 'p http_conn" where
  "append_value s c = c\<lparr>hc_value := hc_value c @ s\<rparr>"

definition append_uri :: "string \<Rightarrow> 'p http_conn \<Rightarrow> 'p http_conn" where
  "append_uri s c = c\<lparr>hc_tmp := (hc_tmp c)\<lparr>rq_uri := rq_uri (hc_tmp c) @ s\<rparr>\<rparr>"

definition append_path :: "string \<Rightarrow> 'p http_conn \<Rightarrow> 'p http_conn" where
  "append_path s c = c\<lparr>hc_tmp := (hc_tmp c)\<lparr>rq_path := rq_path (hc_tmp c) @ s\<rparr>\<rparr>"

definition append_query_string :: "string \<Rightarrow> 'p http_conn \<Rightarrow> 'p http_conn" where
  "append_query_string s c = c\<lparr>hc_tmp := (hc_tmp c)\<lparr>rq_query_string := rq_query_string (hc_tmp c) @ s\<rparr>\<rparr>"

definition append_fragment :: "string \<Rightarrow> 'p http_conn \<Rightarrow> 'p http_conn" where
  "append_fragment s c = c\<lparr>hc_tmp := (hc_tmp c)\<lparr>rq_fragment := rq_fragment (hc_tmp c) @ s\<rparr>\<rparr>"

definition append_chunk :: "string \<Rightarrow> 'p http_conn \<Rightarrow> 'p http_conn" where
  "append_chunk s c =
    (let (_, b, h) = append_data (hc_heap c) (rq_chunk (hc_tmp c)) (bytes_of_string s)
     in c\<lparr>hc_heap := h, hc_tmp := (hc_tmp c)\<lparr>rq_chunk := b\<rparr>\<rparr>)"

definition finish_header_line :: "'p http_conn \<Rightarrow> 'p http_conn" where
  "finish_header_line c =
    c\<lparr>hc_tmp := (hc_tmp c)\<lparr>rq_headers := rq_headers (hc_tmp c) @ [(hc_key c, hc_value c)]\<rparr>, hc_key := '''', hc_value := ''''\<rparr>"

fun find_host :: "header list \<Rightarrow> string" where
  "find_host [] = ''default''"
| "find_host ((k, v) # hs) = (if k = ''Host'' then v else find_host hs)"

definition finish_parse ::
  "(string \<Rightarrow> string \<Rightarrow> bool) \<Rightarrow> vhost_config \<Rightarrow> parser_fields \<Rightarrow> 'p http_conn \<Rightarrow> 'p http_conn option" where
  "finish_parse rx cfg f c =
    (let t = (hc_tmp c)\<lparr>rq_method := pf_method f, rq_content_length := pf_content_length f,
           rq_transfer_encoding := pf_transfer_encoding f, rq_version_major := pf_version_major f,
           rq_version_minor := pf_version_minor f, rq_keep_alive := http_parser_should_keep_alive f,
           rq_complete_uri := rq_uri (hc_tmp c)\<rparr>;
         host = (if pf_version_major f = 1 \<and> pf_version_minor f = 1 then find_host (rq_headers t) else ''default'')
     in case vhost_match_uri rx cfg host t of
          None \<Rightarrow> None
        | Some (rule, t1) \<Rightarrow>
            let t2 = t1\<lparr>rq_url_rule := rule\<rparr>;
                (r, h1) = request_copy (hc_heap c) t2;
                (t3, h2) = request_clear h1 t2
            in Some (c\<lparr>hc_requests := hc_requests c @ [r], hc_tmp := t3, hc_heap := h2, hc_key := '''', hc_value := ''''\<rparr>))"

fun handle_event ::
  "(string \<Rightarrow> string \<Rightarrow> bool) \<Rightarrow> vhost_config \<Rightarrow> parser_event \<Rightarrow> 'p http_conn \<Rightarrow> 'p http_conn option" where
  "handle_event rx cfg (OnField s) c = Some (append_field s c)"
| "handle_event rx cfg (OnValue s) c = Some (append_value s c)"
| "handle_event rx cfg (OnUri s) c = Some (append_uri s c)"
| "handle_event rx cfg (OnPath s) c = Some (append_path s c)"
| "handle_event rx cfg (OnQueryString s) c = Some (append_query_string s c)"
| "handle_event rx cfg (OnFragment s) c = Some (append_fragment s c)"
| "handle_event rx cfg (OnChunkData s) c = Some (append_chunk s c)"
| "handle_event rx cfg OnHeaderLineComplete c = Some (finish_header_line c)"
| "handle_event rx cfg (OnMessageComplete f) c = finish_parse rx cfg f c"

fun handle_events ::
  "(string \<Rightarrow> string \<Rightarrow> bool) \<Rightarrow> vhost_config \<Rightarrow> parser_event list \<Rightarrow> 'p http_conn \<Rightarrow> 'p http_conn option" where
  "handle_events rx cfg [] c = Some c"
| "handle_events rx cfg (e # es) c = Option.bind (handle_event rx cfg e c) (handle_events rx cfg es)"

definition kMaxBodySize :: nat where "kMaxBodySize = 16 * 1024"

definition body_pending :: "'p http_conn \<Rightarrow> bool" where
  "body_pending c \<longleftrightarrow> hc_requests c \<noteq> [] \<and> rq_content_length (last (hc_requests c)) > 0"

definition text_of_bytes :: "byte list \<Rightarrow> string" where
  "text_of_bytes bs = map (\<lambda>b. char_of (unat b)) bs"

text \<open>The loop over the pages: total consumed.\<close>

fun parse_pages ::
  "'p parser_lib \<Rightarrow> (string \<Rightarrow> string \<Rightarrow> bool) \<Rightarrow> vhost_config \<Rightarrow> page list \<Rightarrow> nat \<Rightarrow> 'p http_conn \<Rightarrow> (nat \<times> 'p http_conn) option" where
  "parse_pages lib rx cfg [] n c = Some (n, c)"
| "parse_pages lib rx cfg (p # ps) n c =
    (let (off, len) = get_page_segment (hc_heap c) (hc_in c) (fst p);
         (k, evs, parser') = http_parser_execute lib (hc_parser c) (text_of_bytes (take len (drop off (snd p))))
     in case handle_events rx cfg evs (c\<lparr>hc_parser := parser'\<rparr>) of
          None \<Rightarrow> None
        | Some c' \<Rightarrow> if body_pending c' then Some (n + k, c')
                     else if http_parser_has_error lib (hc_parser c') then Some (n + k, c')
                     else parse_pages lib rx cfg ps (n + k) c')"

definition do_parse ::
  "'p parser_lib \<Rightarrow> (string \<Rightarrow> string \<Rightarrow> bool) \<Rightarrow> vhost_config \<Rightarrow> 'p http_conn \<Rightarrow> (bool \<times> 'p http_conn) option" where
  "do_parse lib rx cfg c =
    (if body_pending c then Some (True, c)
     else if hc_skip c \<noteq> 0 \<and> \<not> (buf_size (hc_in c) > unat (hc_skip c))
     then let (b, h) = clear (hc_heap c) (hc_in c)
          in Some (True, c\<lparr>hc_skip := hc_skip c - word_of_nat (buf_size (hc_in c)), hc_in := b, hc_heap := h\<rparr>)
     else let c1 = (if hc_skip c \<noteq> 0
                    then let (_, b, h) = pop (hc_heap c) (hc_in c) (unat (hc_skip c)) in c\<lparr>hc_in := b, hc_heap := h, hc_skip := 0\<rparr>
                    else c)
          in case parse_pages lib rx cfg (buf_pages (hc_heap c1) (hc_in c1)) 0 c1 of
               None \<Rightarrow> None
             | Some (n, c2) \<Rightarrow>
                 let (_, b, h) = pop (hc_heap c2) (hc_in c2) n
                 in Some (\<not> http_parser_has_error lib (hc_parser c2), c2\<lparr>hc_in := b, hc_heap := h\<rparr>))"

definition has_error :: "'p parser_lib \<Rightarrow> 'p http_conn \<Rightarrow> bool" where
  "has_error lib c = http_parser_has_error lib (hc_parser c)"

definition is_ready :: "'p http_conn \<Rightarrow> bool" where
  "is_ready c =
    (if hc_requests c = [] then False
     else let req_data = last (hc_requests c)
          in if rq_content_length req_data < kMaxBodySize \<and> buf_size (hc_in c) < rq_content_length req_data
             then False else True)"

section \<open>Reading a request\<close>

text \<open>\<open>HttpRequest\<close>'s constructor: the body of the request is to be skipped unless it is read.\<close>

definition HttpRequest :: "request_data \<Rightarrow> 'p http_conn \<Rightarrow> request_data \<times> 'p http_conn" where
  "HttpRequest req c = (let (r, h) = request_copy (hc_heap c) req
     in (r, c\<lparr>hc_heap := h, hc_skip := word_of_nat (rq_content_length req)\<rparr>))"

text \<open>\<open>Request::read_data\<close>: what is returned, the bytes placed at \<open>ptr\<close>, with \<open>sysread\<close> the system call (\<open>None\<close>
  for \<open>-1\<close>).  \<open>None\<close>: \<open>copy_front\<close> runs off the pages.\<close>

definition request_read_data :: "(nat \<Rightarrow> byte list option) \<Rightarrow> nat \<Rightarrow> 'p http_conn \<Rightarrow> (int \<times> byte list) option" where
  "request_read_data sysread sz0 c =
    (let nbuf0 = buf_size (hc_in c);
         (nbuffer_read, sz) = (if nbuf0 > 0 then (if sz0 < nbuf0 then (sz0, 0) else (nbuf0, sz0 - nbuf0)) else (nbuf0, sz0));
         front = (if nbuf0 > 0 then map_option snd (copy_front (hc_heap c) (hc_in c) nbuffer_read) else Some [])
     in case front of
          None \<Rightarrow> None
        | Some bs \<Rightarrow> if sz > 0
            then (case sysread sz of None \<Rightarrow> Some (int nbuffer_read - 1, bs) | Some xs \<Rightarrow> Some (int nbuffer_read + int (length xs), bs @ xs))
            else Some (int nbuffer_read, bs))"

definition http_read_data :: "(nat \<Rightarrow> byte list option) \<Rightarrow> nat \<Rightarrow> 'p http_conn \<Rightarrow> (int \<times> byte list \<times> 'p http_conn) option" where
  "http_read_data sysread sz c =
    (case request_read_data sysread sz c of
       None \<Rightarrow> None
     | Some (nread, bs) \<Rightarrow> Some (nread, bs, if nread > 0 then c\<lparr>hc_skip := hc_skip c - word_of_int nread\<rparr> else c))"

section \<open>Writes leave other buffers alone\<close>

text \<open>Whatever the state of the written buffer, a write leaves the pages and the reference count of every other
  \<open>CowInfo\<close> as they were.\<close>

definition cow_frame :: "nat \<Rightarrow> buf_heap \<Rightarrow> buf_heap \<Rightarrow> bool" where
  "cow_frame c h h' \<longleftrightarrow> cows h' c = cows h c \<and> use_count h' c = use_count h c \<and> next_cow h \<le> next_cow h' \<and>
     next_page h \<le> next_page h' \<and> unwritten h' = unwritten h"

lemma cow_frame_refl: "cow_frame c h h"
  by (simp add: cow_frame_def)

lemma cow_frame_trans: "cow_frame c h h1 \<Longrightarrow> cow_frame c h1 h2 \<Longrightarrow> cow_frame c h h2"
  by (auto simp: cow_frame_def)

lemma append_loop_frame: "cow_frame c h (snd (snd (append_loop h ps src)))"
proof (induction h ps src rule: append_loop.induct)
  case (1 h ps src)
  show ?case
  proof (cases "length src < kPageSize")
    case True
    then show ?thesis by (subst append_loop.simps) (simp add: alloc_page_def cow_frame_def)
  next
    case False
    have "cow_frame c h (h\<lparr>next_page := Suc (next_page h)\<rparr>)" by (simp add: cow_frame_def)
    then show ?thesis using 1 [OF _ _ refl False] False
      by (subst append_loop.simps) (auto simp add: alloc_page_def intro: cow_frame_trans)
  qed
qed

lemma copy_pages_frame: "cow_frame c h (snd (copy_pages h ps))"
proof (induction h ps rule: copy_pages.induct)
  case (2 h p ps)
  have "cow_frame c h (h\<lparr>next_page := Suc (next_page h)\<rparr>)" by (simp add: cow_frame_def)
  then show ?case using 2 by (auto simp: alloc_page_def Let_def split: prod.splits intro: cow_frame_trans)
qed (simp add: cow_frame_refl)

lemma set_pages_frame: "c \<noteq> d \<Longrightarrow> cow_frame c h (set_pages h d ps)"
  by (simp add: cow_frame_def set_pages_def)

lemma release_frame: "c \<noteq> d \<Longrightarrow> cow_frame c h (release h d)"
  by (simp add: cow_frame_def release_def Let_def)

lemma prepare_write_frame:
  assumes "prepare_write h b = (b', h')" and "c < next_cow h" and "c \<noteq> cow_ref b"
  shows "cow_frame c h h' \<and> c \<noteq> cow_ref b'"
proof (cases "need_copy_for_write h b")
  case True
  let ?h1 = "snd (new_cow_info h)"
  obtain ps h2 where cp: "copy_pages ?h1 (pages (cows h (cow_ref b))) = (ps, h2)" by (rule prod.exhaust)
  have "cow_frame c h ?h1" using assms(2) by (simp add: new_cow_info_def cow_frame_def)
  moreover have "cow_frame c ?h1 h2" using copy_pages_frame [of c ?h1] cp by (metis snd_conv)
  moreover have "cow_frame c h2 (set_pages h2 (next_cow h) ps)" using assms(2) by (intro set_pages_frame) simp
  moreover have "cow_frame c (set_pages h2 (next_cow h) ps) (release (set_pages h2 (next_cow h) ps) (cow_ref b))"
    using assms(3) by (rule release_frame)
  moreover have "h' = release (set_pages h2 (next_cow h) ps) (cow_ref b)" "b' = b\<lparr>cow_ref := next_cow h, borrowed := False\<rparr>"
    using assms(1) True cp by (auto simp: prepare_write_def copy_for_write_def new_cow_info_def Let_def)
  ultimately show ?thesis using assms(2) by (auto intro: cow_frame_trans)
qed (use assms in \<open>auto simp: prepare_write_def cow_frame_refl\<close>)

lemma append_data_frame:
  assumes "append_data h b s = (r, b', h')" and "c < next_cow h" and "c \<noteq> cow_ref b"
  shows "cow_frame c h h' \<and> c \<noteq> cow_ref b'"
proof -
  obtain b1 h1 where pw: "prepare_write h b = (b1, h1)" by (rule prod.exhaust)
  note f = prepare_write_frame [OF pw assms(2,3)]
  have "cow_frame c h1 h' \<and> cow_ref b' = cow_ref b1"
  proof (cases "length s < right_offset b1")
    case True
    then show ?thesis using assms(1) pw f by (auto simp: append_data_def append_owned_def Let_def intro: set_pages_frame)
  next
    case False
    obtain ps r2 h2 where al: "append_loop h1 (set_last_data (buf_pages h1 b1)
        (memcpy_at (snd (last (buf_pages h1 b1))) (kPageSize - right_offset b1) (take (right_offset b1) s)))
        (drop (right_offset b1) s) = (ps, r2, h2)" by (rule prod_cases3)
    have "cow_frame c h1 h2" using append_loop_frame al by (metis snd_conv)
    moreover have "cow_frame c h2 (set_pages h2 (cow_ref b1) ps)" using f by (intro set_pages_frame) simp
    ultimately show ?thesis using assms(1) pw al False
      by (auto simp: append_data_def append_owned_def Let_def intro: cow_frame_trans)
  qed
  with f show ?thesis by (auto intro: cow_frame_trans)
qed

lemma pop_frame:
  assumes "pop h b k = (r, b', h')" and "c < next_cow h" and "c \<noteq> cow_ref b"
  shows "cow_frame c h h' \<and> c \<noteq> cow_ref b'"
proof -
  obtain b1 h1 where pw: "prepare_write h b = (b1, h1)" by (rule prod.exhaust)
  note f = prepare_write_frame [OF pw assms(2,3)]
  have "cow_frame c h1 h' \<and> cow_ref b' = cow_ref b1"
    using assms(1) pw f by (auto simp: pop_def Let_def set_pages_frame cow_frame_refl split: prod.splits if_splits)
  with f show ?thesis by (auto intro: cow_frame_trans)
qed

lemma clear_frame: "clear h b = (b', h') \<Longrightarrow> c < next_cow h \<Longrightarrow> c \<noteq> cow_ref b \<Longrightarrow> cow_frame c h h' \<and> c \<noteq> cow_ref b'"
  by (auto simp: clear_def dest: pop_frame split: prod.splits)

lemma Buffer_copy_frame: "Buffer_copy h b = (b', h') \<Longrightarrow> c \<noteq> cow_ref b \<Longrightarrow> cow_frame c h h' \<and> cow_ref b' = cow_ref b"
  by (auto simp: Buffer_copy_def cow_frame_def retain_def)

lemma release_next_cow [simp]: "next_cow (release h c) = next_cow h"
  by (simp add: release_def Let_def)

lemma prepare_write_ref: "prepare_write h b = (b', h') \<Longrightarrow> cow_ref b < next_cow h \<Longrightarrow> cow_ref b' < next_cow h'"
proof (cases "need_copy_for_write h b")
  case True
  let ?h1 = "snd (new_cow_info h)"
  assume a: "prepare_write h b = (b', h')" "cow_ref b < next_cow h"
  obtain ps h2 where cp: "copy_pages ?h1 (pages (cows h (cow_ref b))) = (ps, h2)" by (rule prod.exhaust)
  have "cow_frame 0 ?h1 h2" using copy_pages_frame cp by (metis snd_conv)
  then have "next_cow ?h1 \<le> next_cow h2" by (simp add: cow_frame_def)
  moreover have "next_cow ?h1 = Suc (next_cow h)" by (simp add: new_cow_info_def)
  ultimately show ?thesis using a(1) True cp
    by (auto simp: prepare_write_def copy_for_write_def new_cow_info_def Let_def heap_simps)
qed (auto simp: prepare_write_def)

lemma append_data_ref: "append_data h b s = (r, b', h') \<Longrightarrow> cow_ref b < next_cow h \<Longrightarrow> cow_ref b' < next_cow h'"
proof -
  assume a: "append_data h b s = (r, b', h')" "cow_ref b < next_cow h"
  obtain b1 h1 where pw: "prepare_write h b = (b1, h1)" by (rule prod.exhaust)
  obtain ps r2 h2 where al: "append_loop h1 (set_last_data (buf_pages h1 b1)
      (memcpy_at (snd (last (buf_pages h1 b1))) (kPageSize - right_offset b1) (take (right_offset b1) s)))
      (drop (right_offset b1) s) = (ps, r2, h2)" by (rule prod_cases3)
  have "cow_frame 0 h1 h2" using append_loop_frame al by (metis snd_conv)
  then have le: "next_cow h1 \<le> next_cow h2" by (simp add: cow_frame_def)
  have "cow_ref b' = cow_ref b1 \<and> (next_cow h' = next_cow h1 \<or> next_cow h' = next_cow h2)"
    using a(1) pw al by (cases "length s < right_offset b1") (auto simp: append_data_def append_owned_def Let_def heap_simps)
  then show ?thesis using le prepare_write_ref [OF pw a(2)] by auto
qed

lemma pop_ref: "pop h b k = (r, b', h') \<Longrightarrow> cow_ref b < next_cow h \<Longrightarrow> cow_ref b' < next_cow h'"
proof -
  assume a: "pop h b k = (r, b', h')" "cow_ref b < next_cow h"
  obtain b1 h1 where pw: "prepare_write h b = (b1, h1)" by (rule prod.exhaust)
  have "cow_ref b' = cow_ref b1 \<and> next_cow h' = next_cow h1"
    using a(1) pw by (auto simp: pop_def Let_def heap_simps split: prod.splits if_splits)
  then show ?thesis using prepare_write_ref [OF pw a(2)] by simp
qed

lemma clear_ref: "clear h b = (b', h') \<Longrightarrow> cow_ref b < next_cow h \<Longrightarrow> cow_ref b' < next_cow h'"
  by (auto simp: clear_def dest: pop_ref split: prod.splits)

lemma Buffer_copy_ref: "Buffer_copy h b = (b', h') \<Longrightarrow> next_cow h' = next_cow h"
  by (auto simp: Buffer_copy_def retain_def)

lemma cow_frame_buf_ok:
  assumes "cow_frame (cow_ref b) h h'" and "buf_ok h b"
  shows "buf_ok h' b \<and> contents h' b = contents h b \<and> buf_pages h' b = buf_pages h b"
  using assms by (auto simp: cow_frame_def buf_ok_def buf_pages_def contents_def intro: addrs_ok_mono extra_ok_mono)

section \<open>Callbacks\<close>

text \<open>The input buffer is not the buffer the callbacks write to.\<close>

definition conn_sep :: "'p http_conn \<Rightarrow> bool" where
  "conn_sep c \<longleftrightarrow> cow_ref (hc_in c) < next_cow (hc_heap c) \<and> cow_ref (rq_chunk (hc_tmp c)) < next_cow (hc_heap c) \<and>
     cow_ref (hc_in c) \<noteq> cow_ref (rq_chunk (hc_tmp c))"

definition conn_frame :: "'p http_conn \<Rightarrow> 'p http_conn \<Rightarrow> bool" where
  "conn_frame c c' \<longleftrightarrow> conn_sep c' \<and> hc_in c' = hc_in c \<and> cow_frame (cow_ref (hc_in c)) (hc_heap c) (hc_heap c') \<and>
     hc_skip c' = hc_skip c \<and> hc_parser c' = hc_parser c"

lemma conn_frame_trans: "conn_frame c c1 \<Longrightarrow> conn_frame c1 c2 \<Longrightarrow> conn_frame c c2"
  by (auto simp: conn_frame_def intro: cow_frame_trans)

lemma matcher_match_chunk: "matcher_match rx m r = Some (x, r') \<Longrightarrow> rq_chunk r' = rq_chunk r"
  by (cases m) (auto split: if_splits)

lemma rules_match_chunk: "rules_match_uri rx rules r = Some (x, r') \<Longrightarrow> rq_chunk r' = rq_chunk r"
proof (induction rules arbitrary: r)
  case (Cons a rules)
  show ?case
  proof (cases "rule_matcher a")
    case None
    then show ?thesis using Cons.prems by simp
  next
    case (Some m)
    then obtain y r1 where m: "matcher_match rx m r = Some (y, r1)" using Cons.prems by (auto split: option.splits)
    then have "if y then r' = r1 else rules_match_uri rx rules r1 = Some (x, r')"
      using Cons.prems Some by (cases y) auto
    then show ?thesis using Cons.IH matcher_match_chunk [OF m] by (metis (full_types))
  qed
qed simp

lemma vhost_match_chunk: "vhost_match_uri rx cfg host r = Some (x, r') \<Longrightarrow> rq_chunk r' = rq_chunk r"
  by (auto simp: vhost_match_uri_def split: option.splits dest: rules_match_chunk)

lemma finish_parse_frame:
  assumes "finish_parse rx cfg f c = Some c'" and "conn_sep c"
  shows "conn_frame c c'"
proof -
  let ?k = "cow_ref (hc_in c)"
  obtain host t rule t1 where m: "vhost_match_uri rx cfg host t = Some (rule, t1)" "rq_chunk t = rq_chunk (hc_tmp c)"
    and c': "c' = (let t2 = t1\<lparr>rq_url_rule := rule\<rparr>; (r, h1) = request_copy (hc_heap c) t2; (t3, h2) = request_clear h1 t2
       in c\<lparr>hc_requests := hc_requests c @ [r], hc_tmp := t3, hc_heap := h2, hc_key := '''', hc_value := ''''\<rparr>)"
    using assms(1) by (auto simp: finish_parse_def Let_def split: option.splits prod.splits)
  have ch: "rq_chunk t1 = rq_chunk (hc_tmp c)" using vhost_match_chunk [OF m(1)] m(2) by simp
  obtain b1 h1 where cp: "Buffer_copy (hc_heap c) (rq_chunk (hc_tmp c)) = (b1, h1)" by (rule prod.exhaust)
  obtain b2 h2 where cl: "clear h1 (rq_chunk (hc_tmp c)) = (b2, h2)" by (rule prod.exhaust)
  have f1: "cow_frame ?k (hc_heap c) h1" using Buffer_copy_frame [OF cp] assms(2) by (simp add: conn_sep_def)
  then have lt: "?k < next_cow h1" using assms(2) by (simp add: conn_sep_def cow_frame_def)
  have f2: "cow_frame ?k h1 h2 \<and> ?k \<noteq> cow_ref b2" using clear_frame [OF cl lt] assms(2) by (simp add: conn_sep_def)
  have "cow_ref b2 < next_cow h2" using clear_ref [OF cl] Buffer_copy_ref [OF cp] assms(2) by (simp add: conn_sep_def)
  moreover have "hc_heap c' = h2" "hc_in c' = hc_in c" "rq_chunk (hc_tmp c') = b2" "hc_skip c' = hc_skip c" "hc_parser c' = hc_parser c"
    using c' cp cl ch by (simp_all add: request_copy_def request_clear_def Let_def)
  ultimately show ?thesis using f1 f2 lt by (auto simp: conn_frame_def conn_sep_def cow_frame_def)
qed

lemma handle_event_frame:
  assumes "handle_event rx cfg e c = Some c'" and "conn_sep c"
  shows "conn_frame c c'"
proof (cases e)
  case (OnChunkData s)
  obtain r b h where ap: "append_data (hc_heap c) (rq_chunk (hc_tmp c)) (bytes_of_string s) = (r, b, h)" by (rule prod_cases3)
  have "cow_frame (cow_ref (hc_in c)) (hc_heap c) h \<and> cow_ref (hc_in c) \<noteq> cow_ref b"
    using append_data_frame [OF ap] assms(2) by (simp add: conn_sep_def)
  moreover have "cow_ref b < next_cow h" using append_data_ref [OF ap] assms(2) by (simp add: conn_sep_def)
  ultimately show ?thesis using assms OnChunkData ap by (auto simp: append_chunk_def conn_frame_def conn_sep_def cow_frame_def)
next
  case (OnMessageComplete f)
  then show ?thesis using assms finish_parse_frame by simp
qed (use assms in \<open>auto simp: append_field_def append_value_def append_uri_def append_path_def append_query_string_def
    append_fragment_def finish_header_line_def conn_frame_def conn_sep_def cow_frame_refl\<close>)

lemma handle_events_frame: "handle_events rx cfg es c = Some c' \<Longrightarrow> conn_sep c \<Longrightarrow> conn_frame c c'"
proof (induction es arbitrary: c)
  case Nil
  then show ?case by (simp add: conn_frame_def cow_frame_refl)
next
  case (Cons e es)
  then obtain c1 where c1: "handle_event rx cfg e c = Some c1" "handle_events rx cfg es c1 = Some c'"
    by (auto split: bind_splits)
  have "conn_frame c c1" using c1(1) Cons.prems(2) by (rule handle_event_frame)
  moreover from this have "conn_frame c1 c'" using Cons.IH [OF c1(2)] by (simp add: conn_frame_def)
  ultimately show ?case by (rule conn_frame_trans)
qed

section \<open>Feeding the parser\<close>

fun run_parser :: "'p parser_lib \<Rightarrow> 'p \<Rightarrow> string list \<Rightarrow> nat \<times> 'p" where
  "run_parser lib p [] = (0, p)"
| "run_parser lib p (s # ss) =
    (let (k, _, p1) = http_parser_execute lib p s; (n, p2) = run_parser lib p1 ss in (k + n, p2))"

text \<open>The parser does not report more than it was given.\<close>

definition parser_bounded :: "'p parser_lib \<Rightarrow> bool" where
  "parser_bounded lib \<longleftrightarrow> (\<forall>p s. fst (http_parser_execute lib p s) \<le> length s)"

lemma run_parser_bounded: "parser_bounded lib \<Longrightarrow> fst (run_parser lib p ss) \<le> length (concat ss)"
proof (induction ss arbitrary: p)
  case (Cons s ss)
  obtain k evs p1 where e: "http_parser_execute lib p s = (k, evs, p1)" by (rule prod_cases3)
  then have "k \<le> length s" using Cons.prems by (metis fst_conv parser_bounded_def)
  then show ?case using Cons.IH [OF Cons.prems, of p1] e by (auto split: prod.splits)
qed simp

definition seg_text :: "'p http_conn \<Rightarrow> page \<Rightarrow> string" where
  "seg_text c p = text_of_bytes (segment (hc_heap c) (hc_in c) p)"

lemma seg_text_frame:
  assumes "hc_in c' = hc_in c" and "cow_frame (cow_ref (hc_in c)) (hc_heap c) (hc_heap c')"
  shows "seg_text c' = seg_text c"
  using assms by (auto simp: seg_text_def cow_frame_def buf_pages_def fun_eq_iff intro!: arg_cong [of _ _ text_of_bytes] segment_cong)

lemma parse_pages_spec:
  assumes "parse_pages lib rx cfg ps n c = Some (m, c')" and "conn_sep c"
  shows "\<exists>qs rest k. ps = qs @ rest \<and> run_parser lib (hc_parser c) (map (seg_text c) qs) = (k, hc_parser c') \<and> m = n + k \<and>
    conn_frame (c\<lparr>hc_parser := hc_parser c'\<rparr>) c' \<and> (rest = [] \<or> body_pending c' \<or> http_parser_has_error lib (hc_parser c'))"
  using assms
proof (induction ps arbitrary: n c)
  case Nil
  then have "run_parser lib (hc_parser c) (map (seg_text c) []) = (0, hc_parser c')" "m = n + 0" "conn_frame (c\<lparr>hc_parser := hc_parser c'\<rparr>) c'"
    by (auto simp: conn_frame_def cow_frame_refl)
  then show ?case by blast
next
  case (Cons p ps)
  obtain k evs p1 where e: "http_parser_execute lib (hc_parser c) (seg_text c p) = (k, evs, p1)" by (rule prod_cases3)
  have seg: "take len (drop off (snd p)) = segment (hc_heap c) (hc_in c) p"
    if "get_page_segment (hc_heap c) (hc_in c) (fst p) = (off, len)" for off len
    using that by (simp add: segment_def)
  obtain c1 where c1: "handle_events rx cfg evs (c\<lparr>hc_parser := p1\<rparr>) = Some c1"
    and rest: "if body_pending c1 \<or> http_parser_has_error lib (hc_parser c1) then (m, c') = (n + k, c1)
      else parse_pages lib rx cfg ps (n + k) c1 = Some (m, c')"
    using Cons.prems(1) e seg by (auto simp: seg_text_def Let_def split: prod.splits option.splits if_splits)
  have "conn_sep (c\<lparr>hc_parser := p1\<rparr>)" using Cons.prems(2) by (simp add: conn_sep_def)
  then have f: "conn_frame (c\<lparr>hc_parser := p1\<rparr>) c1" using handle_events_frame [OF c1] by simp
  then have p1: "hc_parser c1 = p1" by (simp add: conn_frame_def)
  show ?case
  proof (cases "body_pending c1 \<or> http_parser_has_error lib (hc_parser c1)")
    case True
    then have "c' = c1" "m = n + k" using rest by simp_all
    then have "p # ps = [p] @ ps \<and> run_parser lib (hc_parser c) (map (seg_text c) [p]) = (k, hc_parser c') \<and> m = n + k \<and>
        conn_frame (c\<lparr>hc_parser := hc_parser c'\<rparr>) c'"
      using e p1 f by simp
    then show ?thesis using True \<open>c' = c1\<close> by blast
  next
    case False
    then have r: "parse_pages lib rx cfg ps (n + k) c1 = Some (m, c')" using rest by simp
    have "conn_sep c1" using f by (simp add: conn_frame_def)
    from Cons.IH [OF r this] obtain qs rs k' where q: "ps = qs @ rs" "run_parser lib (hc_parser c1) (map (seg_text c1) qs) = (k', hc_parser c')"
      "m = n + k + k'" "conn_frame (c1\<lparr>hc_parser := hc_parser c'\<rparr>) c'" "rs = [] \<or> body_pending c' \<or> http_parser_has_error lib (hc_parser c')"
      by blast
    have "seg_text c1 = seg_text c" using f by (intro seg_text_frame) (simp_all add: conn_frame_def)
    then have "run_parser lib (hc_parser c) (map (seg_text c) (p # qs)) = (k + k', hc_parser c')" using e q(2) p1 by simp
    moreover have "conn_frame (c\<lparr>hc_parser := hc_parser c'\<rparr>) c'"
      using f q(4) by (auto simp: conn_frame_def intro: cow_frame_trans)
    moreover have "p # ps = (p # qs) @ rs" using q(1) by simp
    ultimately show ?thesis using q(3,5) by (metis add.assoc)
  qed
qed

definition conn_inv :: "'p http_conn \<Rightarrow> bool" where
  "conn_inv c \<longleftrightarrow> conn_sep c \<and> heap_ok (hc_heap c) \<and> buf_ok (hc_heap c) (hc_in c) \<and> in_int_range (hc_in c)"

definition in_bytes :: "'p http_conn \<Rightarrow> byte list" where
  "in_bytes c = contents (hc_heap c) (hc_in c)"

lemma text_of_bytes_length [simp]: "length (text_of_bytes bs) = length bs"
  by (simp add: text_of_bytes_def)

lemma text_of_bytes_of_string: "text_of_bytes (bytes_of_string s) = s"
proof -
  have "char_of (unat (of_char c :: byte)) = c" for c
  proof -
    have "(of_char c :: byte) = word_of_nat (of_char c)" by (rule of_nat_of_char [symmetric])
    then show ?thesis using of_char_mod_256 [of c, where 'a = nat] by (simp add: unat_of_nat)
  qed
  then show ?thesis by (induction s) (simp_all add: text_of_bytes_def bytes_of_string_def)
qed

lemma text_of_bytes_concat: "concat (map (\<lambda>x. text_of_bytes (f x)) xs) = text_of_bytes (concat (map f xs))"
  by (induction xs) (simp_all add: text_of_bytes_def)

lemma seg_texts_contents: "buf_ok (hc_heap c) (hc_in c) \<Longrightarrow>
    concat (map (seg_text c) (buf_pages (hc_heap c) (hc_in c))) = text_of_bytes (in_bytes c)"
  using segments_contents [of "hc_heap c" "hc_in c"] by (simp add: seg_text_def [abs_def] text_of_bytes_concat in_bytes_def)

lemma conn_pop:
  assumes inv: "conn_inv c" and k: "k \<le> buf_size (hc_in c)" and pp: "pop (hc_heap c) (hc_in c) k = (r, b, h)"
  shows "conn_inv (c\<lparr>hc_in := b, hc_heap := h\<rparr>) \<and> in_bytes (c\<lparr>hc_in := b, hc_heap := h\<rparr>) = drop k (in_bytes c)"
proof -
  have ok: "heap_ok (hc_heap c)" "buf_ok (hc_heap c) (hc_in c)" "in_int_range (hc_in c)" and sep: "conn_sep c"
    using inv by (auto simp: conn_inv_def)
  have op: "op_spec (hc_heap c) (hc_in c) h b (drop k (in_bytes c))"
    using pop_spec [OF ok(1,2,3) k pp] by (simp add: in_bytes_def)
  have fr: "cow_frame (cow_ref (rq_chunk (hc_tmp c))) (hc_heap c) h \<and> cow_ref (rq_chunk (hc_tmp c)) \<noteq> cow_ref b"
    using pop_frame [OF pp] sep by (metis conn_sep_def)
  have "conn_sep (c\<lparr>hc_in := b, hc_heap := h\<rparr>)"
    using fr pop_ref [OF pp] sep by (auto simp: conn_sep_def cow_frame_def)
  then show ?thesis using op pop_range [OF ok(1,2,3) pp] by (auto simp: conn_inv_def in_bytes_def op_spec_def)
qed

lemma conn_frame_inv:
  assumes "conn_frame (c\<lparr>hc_parser := p\<rparr>) c'" and "conn_inv c"
  shows "conn_inv c' \<and> in_bytes c' = in_bytes c \<and> hc_in c' = hc_in c \<and> hc_skip c' = hc_skip c"
proof -
  have "cow_frame (cow_ref (hc_in c)) (hc_heap c) (hc_heap c')" "hc_in c' = hc_in c" using assms(1) by (simp_all add: conn_frame_def)
  moreover from this have "heap_ok (hc_heap c')" using assms(2) by (simp add: conn_inv_def heap_ok_def cow_frame_def)
  ultimately show ?thesis using cow_frame_buf_ok [of "hc_in c" "hc_heap c" "hc_heap c'"] assms
    by (auto simp: conn_inv_def in_bytes_def conn_frame_def)
qed

lemma in_bytes_length: "conn_inv c \<Longrightarrow> length (in_bytes c) = buf_size (hc_in c)"
  by (simp add: conn_inv_def in_bytes_def contents_length)

lemma parse_pages_pop:
  assumes inv: "conn_inv c" and lib: "parser_bounded lib"
    and pp: "parse_pages lib rx cfg (buf_pages (hc_heap c) (hc_in c)) 0 c = Some (n, c2)"
    and pop: "pop (hc_heap c2) (hc_in c2) n = (r, b, h)"
  shows "\<exists>segs rest. text_of_bytes (in_bytes c) = concat segs @ rest \<and> run_parser lib (hc_parser c) segs = (n, hc_parser c2) \<and>
    in_bytes (c2\<lparr>hc_in := b, hc_heap := h\<rparr>) = drop n (in_bytes c) \<and> conn_inv (c2\<lparr>hc_in := b, hc_heap := h\<rparr>) \<and>
    hc_skip c2 = hc_skip c \<and> (rest = [] \<or> body_pending c2 \<or> has_error lib c2)"
proof -
  have sep: "conn_sep c" and ok: "buf_ok (hc_heap c) (hc_in c)" using inv by (simp_all add: conn_inv_def)
  obtain qs rs where q: "buf_pages (hc_heap c) (hc_in c) = qs @ rs" "run_parser lib (hc_parser c) (map (seg_text c) qs) = (n, hc_parser c2)"
    "conn_frame (c\<lparr>hc_parser := hc_parser c2\<rparr>) c2" "rs = [] \<or> body_pending c2 \<or> http_parser_has_error lib (hc_parser c2)"
    using parse_pages_spec [OF pp sep] by auto
  note f = conn_frame_inv [OF q(3) inv]
  have tx: "text_of_bytes (in_bytes c) = concat (map (seg_text c) qs) @ concat (map (seg_text c) rs)"
    using seg_texts_contents [OF ok] q(1) by simp
  then have "length (in_bytes c) = length (concat (map (seg_text c) qs)) + length (concat (map (seg_text c) rs))"
    by (metis length_append text_of_bytes_length)
  moreover have "n \<le> length (concat (map (seg_text c) qs))" using run_parser_bounded [OF lib] q(2) by (metis fst_conv)
  ultimately have "n \<le> buf_size (hc_in c2)" using in_bytes_length [OF inv] f by simp
  with conn_pop [OF _ _ pop] f
  have "in_bytes (c2\<lparr>hc_in := b, hc_heap := h\<rparr>) = drop n (in_bytes c)" "conn_inv (c2\<lparr>hc_in := b, hc_heap := h\<rparr>)" by auto
  moreover have "concat (map (seg_text c) rs) = [] \<or> body_pending c2 \<or> has_error lib c2" using q(4) by (auto simp: has_error_def)
  ultimately show ?thesis using tx q(2) f by blast
qed

lemma conn_inv_tmp [simp]: "conn_inv (c\<lparr>hc_skip := w\<rparr>) = conn_inv c" "in_bytes (c\<lparr>hc_skip := w\<rparr>) = in_bytes c"
  "body_pending (c\<lparr>hc_in := b, hc_heap := h\<rparr>) = body_pending c" "has_error lib (c\<lparr>hc_in := b, hc_heap := h\<rparr>) = has_error lib c"
  by (simp_all add: conn_inv_def conn_sep_def in_bytes_def body_pending_def has_error_def)

section \<open>Assembling a request\<close>

text \<open>What a sequence of callbacks says about a message.\<close>

definition uri_text :: "parser_event list \<Rightarrow> string" where
  "uri_text es = concat (map (\<lambda>e. case e of OnUri s \<Rightarrow> s | _ \<Rightarrow> []) es)"

definition path_text :: "parser_event list \<Rightarrow> string" where
  "path_text es = concat (map (\<lambda>e. case e of OnPath s \<Rightarrow> s | _ \<Rightarrow> []) es)"

definition query_text :: "parser_event list \<Rightarrow> string" where
  "query_text es = concat (map (\<lambda>e. case e of OnQueryString s \<Rightarrow> s | _ \<Rightarrow> []) es)"

definition fragment_text :: "parser_event list \<Rightarrow> string" where
  "fragment_text es = concat (map (\<lambda>e. case e of OnFragment s \<Rightarrow> s | _ \<Rightarrow> []) es)"

fun header_list :: "string \<Rightarrow> string \<Rightarrow> parser_event list \<Rightarrow> header list" where
  "header_list k v [] = []"
| "header_list k v (OnField s # es) = header_list (k @ s) v es"
| "header_list k v (OnValue s # es) = header_list k (v @ s) es"
| "header_list k v (OnHeaderLineComplete # es) = (k, v) # header_list '''' '''' es"
| "header_list k v (e # es) = header_list k v es"

definition is_complete :: "parser_event \<Rightarrow> bool" where
  "is_complete e = (case e of OnMessageComplete f \<Rightarrow> True | _ \<Rightarrow> False)"

lemma text_simps [simp]:
  "uri_text [] = []" "path_text [] = []" "query_text [] = []" "fragment_text [] = []"
  "uri_text (e # es) = (case e of OnUri s \<Rightarrow> s | _ \<Rightarrow> []) @ uri_text es"
  "path_text (e # es) = (case e of OnPath s \<Rightarrow> s | _ \<Rightarrow> []) @ path_text es"
  "query_text (e # es) = (case e of OnQueryString s \<Rightarrow> s | _ \<Rightarrow> []) @ query_text es"
  "fragment_text (e # es) = (case e of OnFragment s \<Rightarrow> s | _ \<Rightarrow> []) @ fragment_text es"
  by (simp_all add: uri_text_def path_text_def query_text_def fragment_text_def)

lemma append_chunk_fields:
  "hc_requests (append_chunk s c) = hc_requests c" "hc_key (append_chunk s c) = hc_key c" "hc_value (append_chunk s c) = hc_value c"
  "rq_headers (hc_tmp (append_chunk s c)) = rq_headers (hc_tmp c)" "rq_path (hc_tmp (append_chunk s c)) = rq_path (hc_tmp c)"
  "rq_uri (hc_tmp (append_chunk s c)) = rq_uri (hc_tmp c)" "rq_query_string (hc_tmp (append_chunk s c)) = rq_query_string (hc_tmp c)"
  "rq_fragment (hc_tmp (append_chunk s c)) = rq_fragment (hc_tmp c)"
  by (simp_all add: append_chunk_def split: prod.splits)

lemmas callback_defs = append_field_def append_value_def append_uri_def append_path_def append_query_string_def append_fragment_def
  finish_header_line_def

lemma handle_events_collect:
  assumes "\<forall>e \<in> set es. \<not> is_complete e"
  shows "\<exists>c'. handle_events rx cfg es c = Some c' \<and> hc_requests c' = hc_requests c \<and>
    rq_uri (hc_tmp c') = rq_uri (hc_tmp c) @ uri_text es \<and> rq_path (hc_tmp c') = rq_path (hc_tmp c) @ path_text es \<and>
    rq_query_string (hc_tmp c') = rq_query_string (hc_tmp c) @ query_text es \<and>
    rq_fragment (hc_tmp c') = rq_fragment (hc_tmp c) @ fragment_text es \<and>
    rq_headers (hc_tmp c') = rq_headers (hc_tmp c) @ header_list (hc_key c) (hc_value c) es"
  using assms
proof (induction es arbitrary: c)
  case (Cons e es)
  have IH: "\<exists>c'. handle_events rx cfg es c = Some c' \<and> hc_requests c' = hc_requests c \<and>
    rq_uri (hc_tmp c') = rq_uri (hc_tmp c) @ uri_text es \<and> rq_path (hc_tmp c') = rq_path (hc_tmp c) @ path_text es \<and>
    rq_query_string (hc_tmp c') = rq_query_string (hc_tmp c) @ query_text es \<and>
    rq_fragment (hc_tmp c') = rq_fragment (hc_tmp c) @ fragment_text es \<and>
    rq_headers (hc_tmp c') = rq_headers (hc_tmp c) @ header_list (hc_key c) (hc_value c) es" for c :: "'a http_conn"
    by (rule Cons.IH) (use Cons.prems in simp)
  show ?case
  proof (cases e)
    case (OnField s)
    then show ?thesis using IH [of "append_field s c"] by (auto simp: callback_defs)
  next
    case (OnValue s)
    then show ?thesis using IH [of "append_value s c"] by (auto simp: callback_defs)
  next
    case (OnUri s)
    then show ?thesis using IH [of "append_uri s c"] by (auto simp: callback_defs)
  next
    case (OnPath s)
    then show ?thesis using IH [of "append_path s c"] by (auto simp: callback_defs)
  next
    case (OnQueryString s)
    then show ?thesis using IH [of "append_query_string s c"] by (auto simp: callback_defs)
  next
    case (OnFragment s)
    then show ?thesis using IH [of "append_fragment s c"] by (auto simp: callback_defs)
  next
    case (OnChunkData s)
    then show ?thesis using IH [of "append_chunk s c"] by (auto simp: append_chunk_fields)
  next
    case OnHeaderLineComplete
    then show ?thesis using IH [of "finish_header_line c"] by (auto simp: callback_defs)
  next
    case (OnMessageComplete f)
    then show ?thesis using Cons.prems by (simp add: is_complete_def)
  qed
qed simp

lemma handle_events_append: "handle_events rx cfg (es @ fs) c = Option.bind (handle_events rx cfg es c) (handle_events rx cfg fs)"
  by (induction es arbitrary: c) (auto simp: Option.bind_assoc split: bind_splits)

text \<open>A connection between messages: nothing is left from the previous one.\<close>

definition fresh_message :: "'p http_conn \<Rightarrow> bool" where
  "fresh_message c \<longleftrightarrow> hc_key c = '''' \<and> hc_value c = '''' \<and> rq_headers (hc_tmp c) = [] \<and> rq_path (hc_tmp c) = '''' \<and>
     rq_uri (hc_tmp c) = '''' \<and> rq_query_string (hc_tmp c) = '''' \<and> rq_fragment (hc_tmp c) = ''''"

lemma finish_parse_request:
  assumes "length (rq_path (hc_tmp c)) \<le> length (rq_uri (hc_tmp c))"
    and "\<exists>rules. cfg ''default'' = Some rules"
  shows "\<exists>c' r t rules host. finish_parse rx cfg f c = Some c' \<and> hc_requests c' = hc_requests c @ [r] \<and> fresh_message c' \<and>
    host = (if pf_version_major f = 1 \<and> pf_version_minor f = 1 then find_host (rq_headers (hc_tmp c)) else ''default'') \<and>
    (cfg (parse_host host) = Some rules \<or> cfg (parse_host host) = None \<and> cfg ''default'' = Some rules) \<and>
    rq_path t = rq_path (hc_tmp c) \<and> rq_uri t = rq_uri (hc_tmp c) \<and>
    rq_url_rule r = fst (route rx rules t) \<and> rq_path r = rq_path (snd (route rx rules t)) \<and> rq_uri r = rq_uri (snd (route rx rules t)) \<and>
    rq_complete_uri r = rq_uri (hc_tmp c) \<and> rq_headers r = rq_headers (hc_tmp c) \<and> rq_query_string r = rq_query_string (hc_tmp c) \<and>
    rq_fragment r = rq_fragment (hc_tmp c) \<and> rq_method r = pf_method f \<and> rq_content_length r = pf_content_length f \<and>
    rq_keep_alive r = http_parser_should_keep_alive f \<and> rq_version_minor r = pf_version_minor f"
proof -
  define t where "t = (hc_tmp c)\<lparr>rq_method := pf_method f, rq_content_length := pf_content_length f,
           rq_transfer_encoding := pf_transfer_encoding f, rq_version_major := pf_version_major f,
           rq_version_minor := pf_version_minor f, rq_keep_alive := http_parser_should_keep_alive f,
           rq_complete_uri := rq_uri (hc_tmp c)\<rparr>"
  define host where "host = (if pf_version_major f = 1 \<and> pf_version_minor f = 1 then find_host (rq_headers (hc_tmp c)) else ''default'')"
  obtain rules where rules: "cfg (parse_host host) = Some rules \<or> cfg (parse_host host) = None \<and> cfg ''default'' = Some rules"
    using assms(2) by (cases "cfg (parse_host host)") auto
  have m: "vhost_match_uri rx cfg host t = Some (route rx rules t)"
    using rules rules_match_uri_route [of t rx rules] assms(1) by (auto simp: vhost_match_uri_def t_def)
  obtain rule t1 where rt: "route rx rules t = (rule, t1)" by (rule prod.exhaust)
  have t1: "rq_complete_uri t1 = rq_uri (hc_tmp c)" "rq_headers t1 = rq_headers (hc_tmp c)" "rq_query_string t1 = rq_query_string (hc_tmp c)"
      "rq_fragment t1 = rq_fragment (hc_tmp c)" "rq_method t1 = pf_method f" "rq_content_length t1 = pf_content_length f"
      "rq_keep_alive t1 = http_parser_should_keep_alive f" "rq_version_minor t1 = pf_version_minor f"
    using rt by (auto simp: route_def routed_def t_def split: option.splits matcher.splits)
  obtain b1 h1 where cp: "Buffer_copy (hc_heap c) (rq_chunk t1) = (b1, h1)" by (rule prod.exhaust)
  obtain b2 h2 where cl: "clear h1 (rq_chunk t1) = (b2, h2)" by (rule prod.exhaust)
  define r where "r = t1\<lparr>rq_url_rule := rule, rq_chunk := b1\<rparr>"
  define c' where "c' = c\<lparr>hc_requests := hc_requests c @ [r], hc_tmp := t1\<lparr>rq_url_rule := rule, rq_headers := [], rq_path := '''', rq_uri := '''',
      rq_query_string := '''', rq_fragment := '''', rq_chunk := b2\<rparr>, hc_heap := h2, hc_key := '''', hc_value := ''''\<rparr>"
  have "finish_parse rx cfg f c = (case vhost_match_uri rx cfg host t of None \<Rightarrow> None
      | Some (rule, t1) \<Rightarrow> let t2 = t1\<lparr>rq_url_rule := rule\<rparr>; (r, h1) = request_copy (hc_heap c) t2; (t3, h2) = request_clear h1 t2
          in Some (c\<lparr>hc_requests := hc_requests c @ [r], hc_tmp := t3, hc_heap := h2, hc_key := [], hc_value := []\<rparr>))"
    unfolding finish_parse_def host_def t_def Let_def by simp
  then have "finish_parse rx cfg f c = Some c'"
    by (simp add: m rt cp cl request_copy_def request_clear_def c'_def r_def Let_def)
  moreover have "hc_requests c' = hc_requests c @ [r]" "fresh_message c'" by (simp_all add: c'_def fresh_message_def)
  moreover have "rq_path t = rq_path (hc_tmp c)" "rq_uri t = rq_uri (hc_tmp c)" by (simp_all add: t_def)
  moreover have "rq_url_rule r = fst (route rx rules t)" "rq_path r = rq_path (snd (route rx rules t))" "rq_uri r = rq_uri (snd (route rx rules t))"
    "rq_complete_uri r = rq_uri (hc_tmp c)" "rq_headers r = rq_headers (hc_tmp c)" "rq_query_string r = rq_query_string (hc_tmp c)"
    "rq_fragment r = rq_fragment (hc_tmp c)" "rq_method r = pf_method f" "rq_content_length r = pf_content_length f"
    "rq_keep_alive r = http_parser_should_keep_alive f" "rq_version_minor r = pf_version_minor f"
    using t1 by (simp_all add: r_def rt)
  ultimately show ?thesis using rules host_def by blast
qed

text \<open>The callbacks of one message collect its parts; the last one completes it.\<close>

lemma message_then_finish:
  assumes "fresh_message c" and "\<forall>e \<in> set es. \<not> is_complete e"
  obtains c1 where "handle_events rx cfg (es @ [OnMessageComplete f]) c = finish_parse rx cfg f c1" "hc_requests c1 = hc_requests c"
    "rq_uri (hc_tmp c1) = uri_text es" "rq_path (hc_tmp c1) = path_text es" "rq_query_string (hc_tmp c1) = query_text es"
    "rq_fragment (hc_tmp c1) = fragment_text es" "rq_headers (hc_tmp c1) = header_list '''' '''' es"
proof -
  from handle_events_collect [OF assms(2), of rx cfg c] obtain c1 where
    c1: "handle_events rx cfg es c = Some c1" "hc_requests c1 = hc_requests c" "rq_uri (hc_tmp c1) = uri_text es"
      "rq_path (hc_tmp c1) = path_text es" "rq_query_string (hc_tmp c1) = query_text es" "rq_fragment (hc_tmp c1) = fragment_text es"
      "rq_headers (hc_tmp c1) = header_list '''' '''' es"
    using assms(1) by (auto simp: fresh_message_def)
  have "handle_events rx cfg (es @ [OnMessageComplete f]) c = finish_parse rx cfg f c1"
    by (cases "finish_parse rx cfg f c1") (simp_all add: handle_events_append c1(1))
  then show thesis using c1(2-) that by blast
qed

section \<open>Chunk buffers\<close>

lemma clear_owner_page:
  assumes own: "\<not> borrowed b" and pg: "buf_pages h b = [p]" and sz: "buf_size b + left_offset b < 2 ^ 31"
  shows "\<exists>b'. clear h b = (b', h) \<and> \<not> borrowed b' \<and> cow_ref b' = cow_ref b \<and> right_offset b' = kPageSize"
proof -
  have ff: "free_front_pages n [p] = [p]" for n by (induction n) auto
  have "set_pages h (cow_ref b) [p] = h" using pg by (cases h) (auto simp: set_pages_def buf_pages_def fun_eq_iff)
  then show ?thesis using own pg sz
    by (simp add: clear_def pop_def prepare_write_def need_copy_for_write_def Let_def ff page_div_small split: prod.splits)
qed

lemma append_owner_page:
  assumes own: "\<not> borrowed b" and pg: "buf_pages h b = [(a, d)]" and r: "right_offset b = kPageSize" and s: "length s < kPageSize"
  shows "\<exists>b'. append_data h b s = (True, b', set_pages h (cow_ref b) [(a, s @ drop (length s) d)])"
  using assms by (simp add: append_data_def prepare_write_def need_copy_for_write_def append_owned_def Let_def set_last_data_def
      memcpy_at_def split: prod.splits)

section \<open>Properties\<close>

text \<open>C26: parsing consumes the input in order and exactly once.  After the bytes of an unread body are
  skipped, the parser is run on consecutive pieces of the buffer, starting at its front; it sees everything unless a
  request with a body was completed or an error occurred, and precisely the bytes it reported as consumed are
  removed.\<close>

theorem do_parse_feeds_parser:
  assumes inv: "conn_inv c" and lib: "parser_bounded lib" and nb: "\<not> body_pending c"
    and skip: "hc_skip c = 0 \<or> unat (hc_skip c) < buf_size (hc_in c)" and dp: "do_parse lib rx cfg c = Some (r, c')"
  shows "\<exists>segs rest n. text_of_bytes (drop (unat (hc_skip c)) (in_bytes c)) = concat segs @ rest \<and>
    run_parser lib (hc_parser c) segs = (n, hc_parser c') \<and> in_bytes c' = drop (unat (hc_skip c) + n) (in_bytes c) \<and>
    (rest = [] \<or> body_pending c' \<or> has_error lib c') \<and> r = (\<not> has_error lib c') \<and> hc_skip c' = 0 \<and> conn_inv c'"
proof -
  obtain r0 b h where p: "pop (hc_heap c) (hc_in c) (unat (hc_skip c)) = (r0, b, h)" by (rule prod_cases3)
  define c1 where "c1 = (if hc_skip c \<noteq> 0 then c\<lparr>hc_in := b, hc_heap := h, hc_skip := 0\<rparr> else c)"
  have c1: "conn_inv c1 \<and> in_bytes c1 = drop (unat (hc_skip c)) (in_bytes c) \<and> hc_skip c1 = 0 \<and> hc_parser c1 = hc_parser c"
    using conn_pop [OF inv _ p] inv skip by (auto simp: c1_def)
  have "\<not> (hc_skip c \<noteq> 0 \<and> \<not> unat (hc_skip c) < buf_size (hc_in c))" using skip by blast
  then obtain n c2 where pp: "parse_pages lib rx cfg (buf_pages (hc_heap c1) (hc_in c1)) 0 c1 = Some (n, c2)"
    and e: "(case pop (hc_heap c2) (hc_in c2) n of (_, b, h) \<Rightarrow> (\<not> http_parser_has_error lib (hc_parser c2), c2\<lparr>hc_in := b, hc_heap := h\<rparr>)) = (r, c')"
    using dp nb p by (auto simp: do_parse_def c1_def Let_def split: option.splits prod.splits if_splits)
  obtain r2 b2 h2 where p2: "pop (hc_heap c2) (hc_in c2) n = (r2, b2, h2)" by (rule prod_cases3)
  have c': "c' = c2\<lparr>hc_in := b2, hc_heap := h2\<rparr>" "r = (\<not> has_error lib c2)" using e p2 by (simp_all add: has_error_def)
  show ?thesis using parse_pages_pop [OF _ lib pp p2] c1 c' by (auto simp: add.commute)
qed

definition sample_conn :: "nat http_conn" where
  "sample_conn = (let (b, h) = filled_buffer [1, 2, 3]
     in \<lparr>hc_heap = h\<lparr>next_cow := Suc (next_cow h)\<rparr>, hc_in = b, hc_parser = 0, hc_requests = [],
         hc_tmp = sample_request\<lparr>rq_chunk := b\<lparr>cow_ref := next_cow h\<rparr>\<rparr>, hc_key = '''', hc_value = '''', hc_skip = 1\<rparr>)"

definition counting_parser :: "nat parser_lib" where
  "counting_parser = \<lparr>http_parser_execute = (\<lambda>p s. (length s, [], p + length s)), http_parser_has_error = (\<lambda>_. False)\<rparr>"

lemma run_counting: "run_parser counting_parser p segs = (length (concat segs), p + length (concat segs))"
  by (induction segs arbitrary: p) (simp_all add: counting_parser_def)

lemma sample_conn_inv: "conn_inv sample_conn" "in_bytes sample_conn = [1, 2, 3]" "buf_size (hc_in sample_conn) = 3"
proof -
  obtain b h where fb: "filled_buffer [1, 2, 3] = (b, h)" by (rule prod.exhaust)
  note ok = filled_buffer_ok [of "[1, 2, 3]"]
  have bok: "buf_ok (h\<lparr>next_cow := Suc (next_cow h)\<rparr>) b" "cow_ref b < next_cow h" "heap_ok h"
    using ok fb by (auto simp: buf_ok_def buf_pages_def)
  have "in_int_range b" using filled_buffer_range [of "[1, 2, 3]"] fb by simp
  then show "conn_inv sample_conn"
    using bok by (simp add: sample_conn_def fb conn_inv_def conn_sep_def heap_ok_def)
  show "in_bytes sample_conn = [1, 2, 3]" "buf_size (hc_in sample_conn) = 3"
    using ok fb by (auto simp: sample_conn_def in_bytes_def contents_def buf_pages_def)
qed

lemma counting_pages: "\<not> body_pending c \<Longrightarrow> \<exists>n c'. parse_pages counting_parser rx cfg ps k c = Some (n, c') \<and> \<not> body_pending c'"
proof (induction ps arbitrary: k c)
  case (Cons p ps)
  have "\<not> body_pending (c\<lparr>hc_parser := x\<rparr>)" for x using Cons.prems by (simp add: body_pending_def)
  then show ?case using Cons.IH by (auto simp: counting_parser_def Let_def split: prod.splits)
qed auto

theorem do_parse_feeds_parser_witness:
  "\<exists>c'. do_parse counting_parser (\<lambda>_ _. False) Map.empty sample_conn = Some (True, c') \<and> in_bytes c' = [] \<and> hc_parser c' = 2"
proof -
  have nb: "\<not> body_pending sample_conn" and sk: "hc_skip sample_conn = 1" and p0: "hc_parser sample_conn = 0"
    by (simp_all add: sample_conn_def body_pending_def split: prod.splits)
  obtain r0 b h where p: "pop (hc_heap sample_conn) (hc_in sample_conn) 1 = (r0, b, h)" by (rule prod_cases3)
  define c1 where "c1 = sample_conn\<lparr>hc_in := b, hc_heap := h, hc_skip := 0\<rparr>"
  have "\<not> body_pending c1" using nb by (simp add: body_pending_def c1_def)
  then obtain n c2 where c2: "parse_pages counting_parser (\<lambda>_ _. False) Map.empty (buf_pages (hc_heap c1) (hc_in c1)) 0 c1 = Some (n, c2)"
    "\<not> body_pending c2" using counting_pages by blast
  obtain r2 b2 h2 where p2: "pop (hc_heap c2) (hc_in c2) n = (r2, b2, h2)" by (rule prod_cases3)
  define c' where "c' = c2\<lparr>hc_in := b2, hc_heap := h2\<rparr>"
  have nb2: "\<not> body_pending c'" using c2(2) by (simp add: c'_def)
  have "do_parse counting_parser (\<lambda>_ _. False) Map.empty sample_conn =
      (case parse_pages counting_parser (\<lambda>_ _. False) Map.empty (buf_pages (hc_heap c1) (hc_in c1)) 0 c1 of None \<Rightarrow> None
       | Some (n, c2) \<Rightarrow> let (_, b, h) = pop (hc_heap c2) (hc_in c2) n
           in Some (\<not> http_parser_has_error counting_parser (hc_parser c2), c2\<lparr>hc_in := b, hc_heap := h\<rparr>))"
    using nb sk sample_conn_inv(3) p by (simp add: do_parse_def c1_def Let_def)
  then have dp: "do_parse counting_parser (\<lambda>_ _. False) Map.empty sample_conn = Some (True, c')"
    by (simp add: c2(1) p2 c'_def) (simp add: counting_parser_def)
  have lib: "parser_bounded counting_parser" by (simp add: parser_bounded_def counting_parser_def)
  have ne: "\<not> has_error counting_parser c'" by (simp add: has_error_def counting_parser_def)
  from do_parse_feeds_parser [OF sample_conn_inv(1) lib nb _ dp] sample_conn_inv sk ne nb2 p0
  obtain segs rest m where seg: "text_of_bytes (drop 1 [1, 2, 3]) = concat segs @ rest" "run_parser counting_parser 0 segs = (m, hc_parser c')"
    "in_bytes c' = drop (1 + m) [1, 2, 3]" "rest = []"
    by auto
  have "length (text_of_bytes (drop 1 [1, 2, 3])) = length (concat segs @ rest)" by (simp only: seg(1))
  then have "length (concat segs) = 2" unfolding text_of_bytes_length seg(4) by simp
  then show ?thesis using dp seg by (simp add: run_counting)
qed

text \<open>However the parser cuts a message into callbacks, the completed request carries the URI, query, fragment
  and header lines that the pieces spell, the parser's method, length and keep-alive decision, and the rule, path and URI
  that routing by its \<open>Host\<close> header (HTTP/1.1 only) gives; it is queued last and nothing of it is left for the
  next message.\<close>

lemma message_assembles_request:
  assumes "fresh_message c" and "\<forall>e \<in> set es. \<not> is_complete e" and "length (path_text es) \<le> length (uri_text es)"
    and "cfg ''default'' = Some default_rules"
  shows "\<exists>c' r t rules host. handle_events rx cfg (es @ [OnMessageComplete f]) c = Some c' \<and> hc_requests c' = hc_requests c @ [r] \<and>
    fresh_message c' \<and> rq_complete_uri r = uri_text es \<and> rq_headers r = header_list '''' '''' es \<and>
    rq_query_string r = query_text es \<and> rq_fragment r = fragment_text es \<and> rq_method r = pf_method f \<and>
    rq_content_length r = pf_content_length f \<and> rq_keep_alive r = http_parser_should_keep_alive f \<and>
    host = (if pf_version_major f = 1 \<and> pf_version_minor f = 1 then find_host (header_list '''' '''' es) else ''default'') \<and>
    (cfg (parse_host host) = Some rules \<or> cfg (parse_host host) = None \<and> cfg ''default'' = Some rules) \<and>
    rq_path t = path_text es \<and> rq_uri t = uri_text es \<and>
    rq_url_rule r = fst (route rx rules t) \<and> rq_path r = rq_path (snd (route rx rules t)) \<and> rq_uri r = rq_uri (snd (route rx rules t))"
proof -
  obtain c1 where c1: "handle_events rx cfg (es @ [OnMessageComplete f]) c = finish_parse rx cfg f c1" "hc_requests c1 = hc_requests c"
    "rq_uri (hc_tmp c1) = uri_text es" "rq_path (hc_tmp c1) = path_text es" "rq_query_string (hc_tmp c1) = query_text es"
    "rq_fragment (hc_tmp c1) = fragment_text es" "rq_headers (hc_tmp c1) = header_list '''' '''' es"
    using message_then_finish [OF assms(1,2)] .
  have "length (rq_path (hc_tmp c1)) \<le> length (rq_uri (hc_tmp c1))" "\<exists>rules. cfg ''default'' = Some rules"
    using assms(3,4) c1 by simp_all
  note fp = finish_parse_request [of c1 cfg rx f, OF this]
  show ?thesis using fp unfolding c1 by blast
qed

text \<open>A body that a handler reads is parsed again as a request.  \<open>read_data\<close> copies the body out of the input
  buffer without removing it, but counts it as consumed: when the whole body was read nothing remains to be
  skipped, and the body still stands at the front of the buffer for \<open>do_parse\<close>.\<close>

lemma read_body_parsed_again:
  assumes inv: "conn_inv c" and n: "n = rq_content_length req" "0 < n" "n < buf_size (hc_in c)"
    and sep: "cow_ref (rq_chunk req) \<noteq> cow_ref (hc_in c)"
    and hr: "HttpRequest req c = (r, c1)"
  shows "\<exists>c2. http_read_data sysread n c1 = Some (int n, take n (in_bytes c), c2) \<and> hc_skip c2 = 0 \<and> in_bytes c2 = in_bytes c \<and>
    body_pending c2 = body_pending c"
proof -
  obtain b h where cp: "Buffer_copy (hc_heap c) (rq_chunk req) = (b, h)" by (rule prod.exhaust)
  have c1: "c1 = c\<lparr>hc_heap := h, hc_skip := word_of_nat n\<rparr>"
    using hr cp n(1) by (auto simp: HttpRequest_def request_copy_def)
  have "cow_frame (cow_ref (hc_in c)) (hc_heap c) h" using Buffer_copy_frame [OF cp] sep by metis
  then have ok: "buf_ok h (hc_in c) \<and> contents h (hc_in c) = in_bytes c"
    using cow_frame_buf_ok inv by (metis conn_inv_def in_bytes_def)
  then have cf: "copy_front h (hc_in c) n = Some (True, take n (in_bytes c))" using copy_front_spec [of h "hc_in c" n] n(3) by simp
  have "request_read_data sysread n c1 = Some (int n, take n (in_bytes c))"
    using n(2,3) cf by (simp add: request_read_data_def c1 Let_def)
  then show ?thesis using ok n(2) by (simp add: http_read_data_def c1 in_bytes_def body_pending_def)
qed

text \<open>Chunked data of a queued request is overwritten by the next message.  The queued copy shares the page of the
  request under construction, which owns it and writes to it without copying.\<close>

lemma next_chunk_overwrites_queued:
  assumes own: "\<not> borrowed (rq_chunk (hc_tmp c))" "left_offset (rq_chunk (hc_tmp c)) = 0" "buf_size (rq_chunk (hc_tmp c)) < kPageSize"
    and pg: "buf_pages (hc_heap c) (rq_chunk (hc_tmp c)) = [(a, d)]"
    and fin: "finish_parse rx cfg f c = Some c1" and s: "length s < kPageSize"
  shows "contents (hc_heap (append_chunk s c1)) (rq_chunk (last (hc_requests (append_chunk s c1)))) =
    take (buf_size (rq_chunk (hc_tmp c))) (bytes_of_string s @ drop (length s) d)"
proof -
  let ?b = "rq_chunk (hc_tmp c)"
  obtain host t rule t1 where m: "vhost_match_uri rx cfg host t = Some (rule, t1)" "rq_chunk t = ?b"
    and c1: "c1 = (let t2 = t1\<lparr>rq_url_rule := rule\<rparr>; (r, h1) = request_copy (hc_heap c) t2; (t3, h2) = request_clear h1 t2
       in c\<lparr>hc_requests := hc_requests c @ [r], hc_tmp := t3, hc_heap := h2, hc_key := [], hc_value := []\<rparr>)"
    using fin by (auto simp: finish_parse_def Let_def split: option.splits prod.splits)
  have ch: "rq_chunk t1 = ?b" using vhost_match_chunk [OF m(1)] m(2) by simp
  let ?h = "retain (hc_heap c) (cow_ref ?b)"
  have pg': "buf_pages ?h ?b = [(a, d)]" using pg by (simp add: buf_pages_def retain_def)
  obtain b' where b': "clear ?h ?b = (b', ?h)" "\<not> borrowed b'" "cow_ref b' = cow_ref ?b" "right_offset b' = kPageSize"
    using clear_owner_page [OF own(1) pg'] own(2,3) by (auto simp: kPageSize_def)
  have "buf_pages ?h b' = [(a, d)]" using pg' b'(3) by (simp add: buf_pages_def)
  moreover have "length (bytes_of_string s) < kPageSize" using s by (simp add: bytes_of_string_def)
  ultimately obtain b2 where ap: "append_data ?h b' (bytes_of_string s) =
      (True, b2, set_pages ?h (cow_ref ?b) [(a, bytes_of_string s @ drop (length s) d)])"
    using append_owner_page [OF b'(2) _ b'(4)] b'(3) by (fastforce simp: bytes_of_string_def)
  have c1': "hc_heap c1 = ?h" "rq_chunk (hc_tmp c1) = b'" "rq_chunk (last (hc_requests c1)) = ?b\<lparr>borrowed := True\<rparr>"
    using c1 ch b'(1) by (simp_all add: request_copy_def request_clear_def Buffer_copy_def Let_def)
  have "hc_heap (append_chunk s c1) = set_pages ?h (cow_ref ?b) [(a, bytes_of_string s @ drop (length s) d)]"
    "hc_requests (append_chunk s c1) = hc_requests c1"
    using ap c1' by (simp_all add: append_chunk_def)
  then show ?thesis using c1'(3) own(2) by (simp add: contents_def buf_pages_def set_pages_def)
qed

end
