(* ===== verification/Io_Cache.thy ===== *)
theory Io_Cache
  imports Prelude
begin

text \<open>
  The file cache of the static handler: \<^verbatim>\<open>src/http/io_cache.{h,cc}\<close>.  Entries are list nodes with an identity
  (the \<open>EntryList::iterator\<close>), newest use first; \<open>entry_map\<close> maps a path to the node.  The file system is a
  parameter: the results of the successive \<open>read\<close> calls on a file, \<open>None\<close> for an error, after which reads
  return 0.  A block from \<open>new byte[n]\<close> starts with arbitrary contents \<open>fresh n\<close>.  \<open>load_cache\<close> gives up the
  mutex while it reads the file; the step relation at the end interleaves the loads of several threads.
\<close>

section \<open>Entries\<close>

record cache_entry =
  ce_path :: string
  ce_mtime :: int
  ce_content :: "byte list option"
  ce_size :: nat

type_synonym file_reads = "string \<Rightarrow> byte list option list option"

text \<open>The reading loop: the bytes placed at \<open>buf\<close>; \<open>Inl False\<close> for a read error, \<open>Inl True\<close> when a read
  goes past the allocated block.\<close>

fun read_all :: "nat \<Rightarrow> nat \<Rightarrow> byte list \<Rightarrow> byte list option list \<Rightarrow> bool + byte list" where
  "read_all sz pos content [] = Inr content"
| "read_all sz pos content (None # rs) = Inl False"
| "read_all sz pos content (Some bs # rs) =
    (if bs = [] then Inr content
     else if pos + length bs > sz then Inl True
     else read_all sz (pos + length bs) (memcpy_at content pos bs) rs)"

text \<open>The constructor; the number counts descriptors that stay open.  \<open>None\<close>: the block is overrun.\<close>

definition IOCacheEntry :: "(nat \<Rightarrow> byte list) \<Rightarrow> file_reads \<Rightarrow> string \<Rightarrow> int \<Rightarrow> nat \<Rightarrow> (cache_entry \<times> nat) option" where
  "IOCacheEntry fresh fs path mtime sz =
    (let e = \<lparr>ce_path = path, ce_mtime = 0, ce_content = None, ce_size = sz\<rparr>
     in case fs path of
          None \<Rightarrow> Some (e, 0)
        | Some rs \<Rightarrow>
            (case read_all sz 0 (fresh sz) rs of
               Inl True \<Rightarrow> None
             | Inl False \<Rightarrow> Some (e, 1)
             | Inr content \<Rightarrow> Some (e\<lparr>ce_content := Some content, ce_mtime := mtime\<rparr>, 0)))"

definition data_copy :: "cache_entry \<Rightarrow> byte list" where
  "data_copy e = take (ce_size e) (the (ce_content e))"

section \<open>Cache\<close>

record io_cache =
  max_cache_entry :: nat
  max_entry_size :: nat
  entries :: "(nat \<times> cache_entry) list"
  entry_map :: "string \<rightharpoonup> nat"
  next_node :: nat
  leaked_fds :: nat

definition IOCache :: io_cache where
  "IOCache = \<lparr>max_cache_entry = 0, max_entry_size = 4096, entries = [], entry_map = Map.empty, next_node = 0, leaked_fds = 0\<rparr>"

definition set_max_cache_entry :: "nat \<Rightarrow> io_cache \<Rightarrow> io_cache" where
  "set_max_cache_entry n c = c\<lparr>max_cache_entry := n\<rparr>"

definition set_max_entry_size :: "nat \<Rightarrow> io_cache \<Rightarrow> io_cache" where
  "set_max_entry_size n c = c\<lparr>max_entry_size := n\<rparr>"

text \<open>\<open>std::map::insert\<close> does not replace.\<close>

definition map_insert :: "'k \<Rightarrow> 'v \<Rightarrow> ('k \<rightharpoonup> 'v) \<Rightarrow> ('k \<rightharpoonup> 'v)" where
  "map_insert k v m = (if m k = None then m(k \<mapsto> v) else m)"

definition add_entry :: "cache_entry \<Rightarrow> io_cache \<Rightarrow> io_cache" where
  "add_entry e c = c\<lparr>entries := (next_node c, e) # entries c, entry_map := map_insert (ce_path e) (next_node c) (entry_map c),
     next_node := Suc (next_node c)\<rparr>"

definition erase_node :: "nat \<Rightarrow> (nat \<times> cache_entry) list \<Rightarrow> (nat \<times> cache_entry) list" where
  "erase_node n es = filter (\<lambda>p. fst p \<noteq> n) es"

text \<open>The node that a map entry refers to is in the list, or the iterator dangles (\<open>None\<close>).\<close>

definition move_entry :: "string \<Rightarrow> nat \<Rightarrow> io_cache \<Rightarrow> io_cache option" where
  "move_entry path n c =
    (case map_of (entries c) n of
       None \<Rightarrow> None
     | Some e \<Rightarrow> Some (add_entry e (c\<lparr>entries := erase_node n (entries c), entry_map := (entry_map c)(path := None)\<rparr>)))"

definition drop_entry :: "io_cache \<Rightarrow> io_cache option" where
  "drop_entry c =
    (if entries c = [] then None
     else let (n, e) = last (entries c)
          in Some (c\<lparr>entries := butlast (entries c), entry_map := (entry_map c)(ce_path e := None)\<rparr>))"

definition remove_entry :: "string \<Rightarrow> nat \<Rightarrow> io_cache \<Rightarrow> io_cache option" where
  "remove_entry path n c =
    (case map_of (entries c) n of
       None \<Rightarrow> None
     | Some e \<Rightarrow> Some (c\<lparr>entries := erase_node n (entries c), entry_map := (entry_map c)(path := None)\<rparr>))"

definition create_cache_entry ::
  "(nat \<Rightarrow> byte list) \<Rightarrow> file_reads \<Rightarrow> string \<Rightarrow> int \<Rightarrow> nat \<Rightarrow> io_cache \<Rightarrow> (cache_entry option \<times> io_cache) option" where
  "create_cache_entry fresh fs path mtime sz c =
    (if sz \<ge> max_entry_size c then Some (None, c)
     else case IOCacheEntry fresh fs path mtime sz of
            None \<Rightarrow> None
          | Some (e, k) \<Rightarrow> Some (if ce_content e = None then None else Some e, c\<lparr>leaked_fds := leaked_fds c + k\<rparr>))"

text \<open>\<open>load_cache\<close> before and after it gives up the mutex.\<close>

definition load_prepare :: "io_cache \<Rightarrow> io_cache option" where
  "load_prepare c = (if length (entries c) \<ge> max_cache_entry c then drop_entry c else Some c)"

definition load_finish ::
  "(nat \<Rightarrow> byte list) \<Rightarrow> file_reads \<Rightarrow> string \<Rightarrow> int \<Rightarrow> nat \<Rightarrow> io_cache \<Rightarrow> (byte list option \<times> io_cache) option" where
  "load_finish fresh fs path mtime sz c =
    (case create_cache_entry fresh fs path mtime sz c of
       None \<Rightarrow> None
     | Some (None, c') \<Rightarrow> Some (None, c')
     | Some (Some e, c') \<Rightarrow> Some (Some (data_copy e), add_entry e c'))"

definition load_cache ::
  "(nat \<Rightarrow> byte list) \<Rightarrow> file_reads \<Rightarrow> string \<Rightarrow> int \<Rightarrow> nat \<Rightarrow> io_cache \<Rightarrow> (byte list option \<times> io_cache) option" where
  "load_cache fresh fs path mtime sz c = Option.bind (load_prepare c) (load_finish fresh fs path mtime sz)"

definition entry_valid :: "cache_entry \<Rightarrow> int \<Rightarrow> nat \<Rightarrow> bool" where
  "entry_valid e mtime sz \<longleftrightarrow> ce_mtime e \<ge> mtime \<and> ce_mtime e \<noteq> 0 \<and> ce_size e = sz"

definition sync_cache ::
  "(nat \<Rightarrow> byte list) \<Rightarrow> file_reads \<Rightarrow> nat \<Rightarrow> string \<Rightarrow> int \<Rightarrow> nat \<Rightarrow> io_cache \<Rightarrow> (byte list option \<times> io_cache) option" where
  "sync_cache fresh fs n path mtime sz c =
    (case map_of (entries c) n of
       None \<Rightarrow> None
     | Some e \<Rightarrow>
        if entry_valid e mtime sz then map_option (Pair (Some (data_copy e))) (move_entry path n c)
        else Option.bind (remove_entry path n c) (load_cache fresh fs path mtime sz))"

definition access_cache ::
  "(nat \<Rightarrow> byte list) \<Rightarrow> file_reads \<Rightarrow> string \<Rightarrow> int \<Rightarrow> nat \<Rightarrow> io_cache \<Rightarrow> (byte list option \<times> io_cache) option" where
  "access_cache fresh fs path mtime sz c =
    (if max_cache_entry c = 0 then Some (None, c)
     else case entry_map c path of
            None \<Rightarrow> load_cache fresh fs path mtime sz c
          | Some n \<Rightarrow> sync_cache fresh fs n path mtime sz c)"

section \<open>Invariants\<close>

text \<open>Every map entry refers to a node of the list that holds the path: no iterator dangles.\<close>

definition map_live :: "io_cache \<Rightarrow> bool" where
  "map_live c \<longleftrightarrow> distinct (map fst (entries c)) \<and> (\<forall>n \<in> set (map fst (entries c)). n < next_node c) \<and>
     (\<forall>(n, e) \<in> set (entries c). ce_content e \<noteq> None) \<and>
     (\<forall>p n. entry_map c p = Some n \<longrightarrow> (\<exists>e. (n, e) \<in> set (entries c) \<and> ce_path e = p))"

text \<open>Used by one thread at a time, the map is exactly the index of the list, and the list is bounded.\<close>

definition indexed :: "io_cache \<Rightarrow> bool" where
  "indexed c \<longleftrightarrow> map_live c \<and> distinct (map (ce_path \<circ> snd) (entries c)) \<and> length (entries c) \<le> max_cache_entry c \<and>
     (\<forall>(n, e) \<in> set (entries c). entry_map c (ce_path e) = Some n)"

definition abs_entries :: "io_cache \<Rightarrow> cache_entry list" where
  "abs_entries c = map snd (entries c)"

lemma map_live_node: "map_live c \<Longrightarrow> entry_map c p = Some n \<Longrightarrow> \<exists>e. (n, e) \<in> set (entries c) \<and> ce_path e = p"
  unfolding map_live_def by blast

lemma map_liveD:
  assumes "map_live c" and "entry_map c p = Some n"
  shows "\<exists>e. map_of (entries c) n = Some e \<and> ce_path e = p \<and> ce_content e \<noteq> None"
  using assms by (fastforce simp: map_live_def)

lemma erase_node_set: "(m, e) \<in> set (erase_node n es) \<longleftrightarrow> (m, e) \<in> set es \<and> m \<noteq> n"
  by (simp add: erase_node_def)

lemma distinct_erase_node: "distinct (map f es) \<Longrightarrow> distinct (map f (erase_node n es))"
  by (simp add: erase_node_def distinct_map_filter)

lemma add_entry_live:
  assumes "map_live c" and "ce_content e \<noteq> None"
  shows "map_live (add_entry e c)"
proof -
  have "\<exists>e'. (n, e') \<in> set (entries (add_entry e c)) \<and> ce_path e' = p" if "entry_map (add_entry e c) p = Some n" for p n
    using that assms(1) by (fastforce simp: add_entry_def map_insert_def map_live_def split: if_splits)
  then show ?thesis using assms by (auto simp: map_live_def add_entry_def less_Suc_eq)
qed

lemma remove_entry_live:
  assumes live: "map_live c" and n: "entry_map c p = Some n"
  shows "\<exists>c'. remove_entry p n c = Some c' \<and> map_live c' \<and> entries c' = erase_node n (entries c) \<and>
    entry_map c' = (entry_map c)(p := None) \<and> max_cache_entry c' = max_cache_entry c \<and> max_entry_size c' = max_entry_size c \<and>
    next_node c' = next_node c \<and> leaked_fds c' = leaked_fds c"
proof -
  obtain e where e: "map_of (entries c) n = Some e" "ce_path e = p" using map_liveD [OF live n] by blast
  let ?c = "c\<lparr>entries := erase_node n (entries c), entry_map := (entry_map c)(p := None)\<rparr>"
  have "\<exists>e'. (m, e') \<in> set (entries ?c) \<and> ce_path e' = q" if "entry_map ?c q = Some m" for q m
  proof -
    have q: "q \<noteq> p" "entry_map c q = Some m" using that by (auto split: if_splits)
    then obtain e' where e': "(m, e') \<in> set (entries c)" "ce_path e' = q" using map_live_node [OF live q(2)] by blast
    then have "m \<noteq> n" using e q(1) live by (metis map_live_def eq_key_imp_eq_value map_of_SomeD)
    then show ?thesis using e' by (auto simp: erase_node_set)
  qed
  then have "map_live ?c" using live by (auto simp: map_live_def erase_node_def distinct_map_filter)
  then show ?thesis using e by (simp add: remove_entry_def)
qed

lemma drop_entry_live:
  assumes live: "map_live c" and ne: "entries c \<noteq> []"
  shows "\<exists>c'. drop_entry c = Some c' \<and> map_live c' \<and> entries c' = butlast (entries c) \<and>
    entry_map c' = (entry_map c)(ce_path (snd (last (entries c))) := None) \<and> max_cache_entry c' = max_cache_entry c \<and>
    max_entry_size c' = max_entry_size c \<and> next_node c' = next_node c"
proof -
  obtain n e where l: "last (entries c) = (n, e)" by (rule prod.exhaust)
  have es: "entries c = butlast (entries c) @ [(n, e)]" using ne l by (metis append_butlast_last_id)
  let ?c = "c\<lparr>entries := butlast (entries c), entry_map := (entry_map c)(ce_path e := None)\<rparr>"
  have "\<exists>e'. (m, e') \<in> set (entries ?c) \<and> ce_path e' = q" if "entry_map ?c q = Some m" for q m
  proof -
    have q: "q \<noteq> ce_path e" "entry_map c q = Some m" using that by (auto split: if_splits)
    then obtain e' where e': "(m, e') \<in> set (entries c)" "ce_path e' = q" using map_live_node [OF live q(2)] by blast
    then have "(m, e') \<in> set (butlast (entries c) @ [(n, e)])" using es by simp
    then show ?thesis using q(1) e' by auto
  qed
  moreover have "set (butlast (entries c)) \<subseteq> set (entries c)" by (auto dest: in_set_butlastD)
  moreover have "distinct (map fst (butlast (entries c)))" using live by (simp add: map_live_def map_butlast distinct_butlast)
  ultimately have "map_live ?c" using live by (auto simp: map_live_def)
  then show ?thesis using ne l by (simp add: drop_entry_def)
qed

lemma move_entry_eq:
  assumes "map_live c" and "entry_map c p = Some n" and "map_of (entries c) n = Some e"
  shows "move_entry p n c = map_option (add_entry e) (remove_entry p n c)"
  using assms by (simp add: move_entry_def remove_entry_def)

section \<open>The cache as a least-recently-used list\<close>

text \<open>The reference: entries ordered by last use, one per path.\<close>

definition lru_access ::
  "(nat \<Rightarrow> byte list) \<Rightarrow> file_reads \<Rightarrow> nat \<Rightarrow> nat \<Rightarrow> string \<Rightarrow> int \<Rightarrow> nat \<Rightarrow> cache_entry list \<Rightarrow> (byte list option \<times> cache_entry list) option" where
  "lru_access fresh fs limit bound path mtime sz es =
    (let others = filter (\<lambda>e. ce_path e \<noteq> path) es;
         kept = (if limit \<le> length others then butlast others else others)
     in case find (\<lambda>e. ce_path e = path \<and> entry_valid e mtime sz) es of
          Some e \<Rightarrow> Some (Some (data_copy e), e # others)
        | None \<Rightarrow>
            if bound \<le> sz then Some (None, kept)
            else case IOCacheEntry fresh fs path mtime sz of
                   None \<Rightarrow> None
                 | Some (e, _) \<Rightarrow> if ce_content e = None then Some (None, kept) else Some (Some (data_copy e), e # kept))"

lemma indexedD:
  assumes "indexed c"
  shows "map_live c" "distinct (map ce_path (abs_entries c))" "length (abs_entries c) \<le> max_cache_entry c"
    "(n, e) \<in> set (entries c) \<Longrightarrow> entry_map c (ce_path e) = Some n"
    "entry_map c p = None \<Longrightarrow> filter (\<lambda>e. ce_path e \<noteq> p) (abs_entries c) = abs_entries c"
proof -
  show "map_live c" "distinct (map ce_path (abs_entries c))" "length (abs_entries c) \<le> max_cache_entry c"
    using assms by (simp_all add: indexed_def abs_entries_def)
  show idx: "(n, e) \<in> set (entries c) \<Longrightarrow> entry_map c (ce_path e) = Some n" for n e using assms by (auto simp: indexed_def)
  show "entry_map c p = None \<Longrightarrow> filter (\<lambda>e. ce_path e \<noteq> p) (abs_entries c) = abs_entries c"
    unfolding filter_id_conv using idx by (fastforce simp: abs_entries_def)
qed

lemma erase_node_abs:
  assumes "indexed c" and "entry_map c p = Some n"
  shows "map snd (erase_node n (entries c)) = filter (\<lambda>e. ce_path e \<noteq> p) (abs_entries c)"
proof -
  obtain e0 where e0: "map_of (entries c) n = Some e0" "ce_path e0 = p"
    using map_liveD [OF indexedD(1) [OF assms(1)] assms(2)] by blast
  have "(fst q \<noteq> n) = (ce_path (snd q) \<noteq> p)" if q: "q \<in> set (entries c)" for q
  proof -
    have "entry_map c (ce_path (snd q)) = Some (fst q)" using indexedD(4) [OF assms(1)] q by (metis prod.collapse)
    moreover have "map_of (entries c) (fst q) = Some (snd q)"
      using q indexedD(1) [OF assms(1)] by (simp add: map_live_def)
    ultimately show ?thesis using assms(2) e0 by auto
  qed
  then have "erase_node n (entries c) = filter (\<lambda>q. ce_path (snd q) \<noteq> p) (entries c)"
    unfolding erase_node_def by (rule filter_cong [OF refl])
  then show ?thesis by (simp add: abs_entries_def filter_map o_def)
qed

lemma remove_entry_indexed:
  assumes ix: "indexed c" and n: "entry_map c p = Some n"
  shows "\<exists>c'. remove_entry p n c = Some c' \<and> indexed c' \<and> abs_entries c' = filter (\<lambda>e. ce_path e \<noteq> p) (abs_entries c) \<and>
    entry_map c' p = None \<and> max_cache_entry c' = max_cache_entry c \<and> max_entry_size c' = max_entry_size c \<and>
    length (entries c') < max_cache_entry c'"
proof -
  obtain c' where c': "remove_entry p n c = Some c'" "map_live c'" "entries c' = erase_node n (entries c)"
    "entry_map c' = (entry_map c)(p := None)" "max_cache_entry c' = max_cache_entry c" "max_entry_size c' = max_entry_size c"
    using remove_entry_live [OF indexedD(1) [OF ix] n] by blast
  have ab: "abs_entries c' = filter (\<lambda>e. ce_path e \<noteq> p) (abs_entries c)"
    using erase_node_abs [OF ix n] c'(3) by (simp add: abs_entries_def)
  obtain e0 where "(n, e0) \<in> set (entries c)" "ce_path e0 = p"
    using map_live_node [OF indexedD(1) [OF ix] n] by blast
  then have "length (entries c') < length (entries c)" unfolding c'(3) erase_node_def by (intro length_filter_less) auto
  moreover have "\<forall>(m, e) \<in> set (entries c'). entry_map c' (ce_path e) = Some m"
  proof clarify
    fix m e assume "(m, e) \<in> set (entries c')"
    then have "(m, e) \<in> set (entries c)" "e \<in> set (abs_entries c')" by (force simp: c'(3) erase_node_set, simp add: abs_entries_def) (metis image_eqI snd_conv)
    then show "entry_map c' (ce_path e) = Some m" using ab indexedD(4) [OF ix] c'(4) by simp
  qed
  moreover have "distinct (map (ce_path \<circ> snd) (entries c'))"
    using indexedD(2) [OF ix] ab by (metis abs_entries_def distinct_map_filter map_map)
  ultimately show ?thesis using c' ab indexedD(3) [OF ix] by (auto simp: indexed_def abs_entries_def)
qed

lemma drop_entry_indexed:
  assumes ix: "indexed c" and ne: "entries c \<noteq> []" and p: "entry_map c p = None"
  shows "\<exists>c'. drop_entry c = Some c' \<and> indexed c' \<and> abs_entries c' = butlast (abs_entries c) \<and> entry_map c' p = None \<and>
    max_cache_entry c' = max_cache_entry c \<and> max_entry_size c' = max_entry_size c \<and> length (entries c') < max_cache_entry c'"
proof -
  obtain c' where c': "drop_entry c = Some c'" "map_live c'" "entries c' = butlast (entries c)"
    "entry_map c' = (entry_map c)(ce_path (snd (last (entries c))) := None)" "max_cache_entry c' = max_cache_entry c"
    "max_entry_size c' = max_entry_size c"
    using drop_entry_live [OF indexedD(1) [OF ix] ne] by blast
  have es: "entries c = butlast (entries c) @ [last (entries c)]" using ne by simp
  have di: "distinct (map (ce_path \<circ> snd) (butlast (entries c) @ [last (entries c)]))" using ix es by (simp add: indexed_def)
  have "\<forall>(m, e) \<in> set (entries c'). entry_map c' (ce_path e) = Some m"
  proof clarify
    fix m e assume a: "(m, e) \<in> set (entries c')"
    then have "ce_path e \<in> (ce_path \<circ> snd) ` set (butlast (entries c))" unfolding c'(3) by (intro image_eqI [of _ _ "(m, e)"]) auto
    moreover have "ce_path (snd (last (entries c))) \<notin> (ce_path \<circ> snd) ` set (butlast (entries c))" using di by (simp del: image_comp)
    ultimately have "ce_path e \<noteq> ce_path (snd (last (entries c)))" by metis
    then show "entry_map c' (ce_path e) = Some m" using a c'(3,4) indexedD(4) [OF ix] by (simp add: in_set_butlastD)
  qed
  moreover have "length (entries c') < length (entries c)" using c'(3) ne by simp
  ultimately show ?thesis using c' di p indexedD(3) [OF ix] by (auto simp: indexed_def abs_entries_def map_butlast)
qed

lemma add_entry_indexed:
  assumes "indexed c" and "ce_content e \<noteq> None" and "entry_map c (ce_path e) = None" and "length (entries c) < max_cache_entry c"
  shows "indexed (add_entry e c) \<and> abs_entries (add_entry e c) = e # abs_entries c"
proof -
  have "ce_path e \<notin> ce_path ` snd ` set (entries c)" using indexedD(4) [OF assms(1)] assms(3) by force
  then show ?thesis using add_entry_live [OF indexedD(1) [OF assms(1)] assms(2)] assms
    by (auto simp: indexed_def add_entry_def map_insert_def abs_entries_def image_image)
qed

lemma load_cache_indexed:
  assumes ix: "indexed c" and p: "entry_map c path = None" and mx: "0 < max_cache_entry c"
  shows "rel_option (\<lambda>(r, c') (r', es). r = r' \<and> abs_entries c' = es \<and> indexed c' \<and> max_cache_entry c' = max_cache_entry c)
    (load_cache fresh fs path mtime sz c)
    (let kept = (if max_cache_entry c \<le> length (abs_entries c) then butlast (abs_entries c) else abs_entries c)
     in if max_entry_size c \<le> sz then Some (None, kept)
        else case IOCacheEntry fresh fs path mtime sz of
               None \<Rightarrow> None
             | Some (e, _) \<Rightarrow> if ce_content e = None then Some (None, kept) else Some (Some (data_copy e), e # kept))"
proof -
  obtain c1 where c1: "load_prepare c = Some c1" "indexed c1" "entry_map c1 path = None" "length (entries c1) < max_cache_entry c1"
      "max_cache_entry c1 = max_cache_entry c" "max_entry_size c1 = max_entry_size c"
      "abs_entries c1 = (if max_cache_entry c \<le> length (abs_entries c) then butlast (abs_entries c) else abs_entries c)"
  proof (cases "max_cache_entry c \<le> length (entries c)")
    case True
    then have "entries c \<noteq> []" using mx by auto
    then show ?thesis using drop_entry_indexed [OF ix _ p] True that by (auto simp: load_prepare_def abs_entries_def)
  next
    case False
    then show ?thesis using ix p that [of c] by (auto simp: load_prepare_def abs_entries_def)
  qed
  have path: "ce_path e = path" if "IOCacheEntry fresh fs path mtime sz = Some (e, k)" for e k
    using that by (auto simp: IOCacheEntry_def Let_def split: option.splits sum.splits bool.splits)
  have leak: "indexed (c1\<lparr>leaked_fds := k\<rparr>) = indexed c1" "abs_entries (c1\<lparr>leaked_fds := k\<rparr>) = abs_entries c1" for k
    by (simp_all add: indexed_def map_live_def abs_entries_def)
  have add: "indexed (add_entry e (c1\<lparr>leaked_fds := k\<rparr>)) \<and> abs_entries (add_entry e (c1\<lparr>leaked_fds := k\<rparr>)) = e # abs_entries c1"
    if "ce_content e \<noteq> None" "ce_path e = path" for e k
    using add_entry_indexed [of "c1\<lparr>leaked_fds := k\<rparr>" e] that c1 leak by simp
  have ml: "max_cache_entry (add_entry e c2) = max_cache_entry c2" for e c2 by (simp add: add_entry_def)
  show ?thesis
    using c1 add path leak
    by (auto simp: load_cache_def load_finish_def create_cache_entry_def Let_def ml split: option.splits)
qed

lemma find_path_none: "filter (\<lambda>e. ce_path e \<noteq> p) es = es \<Longrightarrow> find (\<lambda>e. ce_path e = p \<and> P e) es = None"
  by (auto simp: find_None_iff filter_id_conv)

lemma find_path_unique:
  assumes "distinct (map ce_path es)" and "e \<in> set es"
  shows "find (\<lambda>x. ce_path x = ce_path e \<and> P x) es = (if P e then Some e else None)"
  using assms by (induction es) (auto simp: find_None_iff image_iff)

lemma access_cache_lru:
  assumes ix: "indexed c" and mx: "0 < max_cache_entry c"
  shows "rel_option (\<lambda>(r, c') (r', es). r = r' \<and> abs_entries c' = es \<and> indexed c' \<and> max_cache_entry c' = max_cache_entry c)
    (access_cache fresh fs path mtime sz c)
    (lru_access fresh fs (max_cache_entry c) (max_entry_size c) path mtime sz (abs_entries c))"
proof (cases "entry_map c path")
  case None
  note kp = indexedD(5) [OF ix None]
  show ?thesis using load_cache_indexed [OF ix None mx, of fresh fs mtime sz] mx
    unfolding access_cache_def lru_access_def kp find_path_none [OF kp] by (simp add: None Let_def)
next
  case (Some n)
  obtain e where e: "map_of (entries c) n = Some e" "ce_path e = path" "ce_content e \<noteq> None"
    using map_liveD [OF indexedD(1) [OF ix] Some] by blast
  then have mem: "e \<in> set (abs_entries c)" by (force simp: abs_entries_def dest: map_of_SomeD)
  have fe: "find (\<lambda>x. ce_path x = path \<and> entry_valid x mtime sz) (abs_entries c) = (if entry_valid e mtime sz then Some e else None)"
    using find_path_unique [OF indexedD(2) [OF ix] mem, of "\<lambda>x. entry_valid x mtime sz"] unfolding e(2) .
  obtain c1 where c1: "remove_entry path n c = Some c1" "indexed c1" "abs_entries c1 = filter (\<lambda>e. ce_path e \<noteq> path) (abs_entries c)"
    "entry_map c1 path = None" "max_cache_entry c1 = max_cache_entry c" "max_entry_size c1 = max_entry_size c"
    "length (entries c1) < max_cache_entry c1"
    using remove_entry_indexed [OF ix Some] by blast
  show ?thesis
  proof (cases "entry_valid e mtime sz")
    case True
    have "move_entry path n c = Some (add_entry e c1)" using move_entry_eq [OF indexedD(1) [OF ix] Some e(1)] c1(1) by simp
    moreover have "indexed (add_entry e c1) \<and> abs_entries (add_entry e c1) = e # abs_entries c1"
      using add_entry_indexed [OF c1(2) e(3)] c1(4,7) e(2) by simp
    moreover have "max_cache_entry (add_entry e c1) = max_cache_entry c1" by (simp add: add_entry_def)
    ultimately show ?thesis using True mx Some e(1) fe c1(3,5) by (simp add: access_cache_def sync_cache_def lru_access_def)
  next
    case False
    have "length (abs_entries c1) < max_cache_entry c" using c1(5,7) by (simp add: abs_entries_def)
    then have nf: "\<not> max_cache_entry c \<le> length (filter (\<lambda>e. ce_path e \<noteq> path) (abs_entries c))" using c1(3) by simp
    have "access_cache fresh fs path mtime sz c = load_cache fresh fs path mtime sz c1"
      using mx Some e(1) False c1(1) by (simp add: access_cache_def sync_cache_def)
    then show ?thesis using load_cache_indexed [OF c1(2,4), of fresh fs mtime sz] False mx fe
      unfolding c1(3,5,6) lru_access_def Let_def if_not_P [OF nf] by (simp split del: if_split)
  qed
qed

section \<open>Interleaved loads\<close>

text \<open>The cache and the loads that are between giving up the mutex and taking it again.  The files may change at any time.\<close>

type_synonym cache_state = "io_cache \<times> (string \<times> int \<times> nat) list"

inductive cache_step :: "cache_state \<Rightarrow> cache_state \<Rightarrow> bool" where
  cache_hit: "\<lbrakk>entry_map c p = Some n; map_of (entries c) n = Some e; entry_valid e m s; move_entry p n c = Some c'\<rbrakk>
    \<Longrightarrow> cache_step (c, ls) (c', ls)"
| cache_miss: "\<lbrakk>max_cache_entry c \<noteq> 0; entry_map c p = None; load_prepare c = Some c'\<rbrakk> \<Longrightarrow> cache_step (c, ls) (c', ls @ [(p, m, s)])"
| cache_stale: "\<lbrakk>max_cache_entry c \<noteq> 0; entry_map c p = Some n; map_of (entries c) n = Some e; \<not> entry_valid e m s;
      remove_entry p n c = Some c1; load_prepare c1 = Some c'\<rbrakk> \<Longrightarrow> cache_step (c, ls) (c', ls @ [(p, m, s)])"
| cache_loaded: "load_finish fresh fs p m s c = Some (r, c') \<Longrightarrow> cache_step (c, ls @ (p, m, s) # ls') (c', ls @ ls')"

inductive cache_reach :: "nat \<Rightarrow> nat \<Rightarrow> cache_state \<Rightarrow> bool" for k b where
  cache_start: "cache_reach k b (set_max_entry_size b (set_max_cache_entry k IOCache), [])"
| cache_next: "cache_reach k b s \<Longrightarrow> cache_step s t \<Longrightarrow> cache_reach k b t"

inductive_cases cache_stepE: "cache_step s t"

lemma load_prepare_live: "map_live c \<Longrightarrow> load_prepare c = Some c' \<Longrightarrow> map_live c'"
  using drop_entry_live [of c] by (auto simp: load_prepare_def drop_entry_def split: if_splits)

lemma load_finish_live: "map_live c \<Longrightarrow> load_finish fresh fs p m s c = Some (r, c') \<Longrightarrow> map_live c'"
proof -
  assume live: "map_live c" and lf: "load_finish fresh fs p m s c = Some (r, c')"
  have leak: "map_live (c\<lparr>leaked_fds := k\<rparr>)" for k using live by (simp add: map_live_def)
  show ?thesis using lf live leak
    by (auto simp: load_finish_def create_cache_entry_def add_entry_live split: option.splits if_splits)
qed

lemma cache_step_live: "cache_step s t \<Longrightarrow> map_live (fst s) \<Longrightarrow> map_live (fst t)"
proof (induction rule: cache_step.induct)
  case (cache_hit c p n e m s c' ls)
  then have live: "map_live c" by simp
  from remove_entry_live [OF live cache_hit(1)] obtain c1 where c1: "remove_entry p n c = Some c1" "map_live c1" by blast
  have "ce_content e \<noteq> None" using map_liveD [OF live cache_hit(1)] cache_hit(2) by auto
  then show ?case using move_entry_eq [OF live cache_hit(1,2)] c1 cache_hit(4) by (auto intro: add_entry_live)
next
  case (cache_stale c p n e m s c1 c' ls)
  then show ?case using remove_entry_live [of c p n] load_prepare_live by fastforce
qed (auto intro: load_prepare_live load_finish_live)

lemma cache_reach_live: "cache_reach k b s \<Longrightarrow> map_live (fst s)"
proof (induction rule: cache_reach.induct)
  case cache_start
  show ?case by (simp add: map_live_def IOCache_def set_max_cache_entry_def set_max_entry_size_def)
qed (auto intro: cache_step_live)

section \<open>Properties\<close>

text \<open>C28: used by one thread at a time the cache is a least-recently-used list.  An access that finds a valid
  entry returns a copy of its contents and makes it the newest; any other access replaces the path's entry by the
  file's current contents when the file is small enough and readable, and gives up the oldest entry when the cache is full.
  The index of the cache stays exact and the number of entries within the limit.\<close>

theorem io_cache_refines_lru:
  assumes "indexed c" and "0 < max_cache_entry c"
  shows "rel_option (\<lambda>(r, c') (r', es). r = r' \<and> abs_entries c' = es \<and> indexed c' \<and> length es \<le> max_cache_entry c)
    (access_cache fresh fs path mtime sz c)
    (lru_access fresh fs (max_cache_entry c) (max_entry_size c) path mtime sz (abs_entries c))"
  using access_cache_lru [OF assms, of fresh fs path mtime sz]
  by (rule option.rel_mono_strong) (auto dest: indexedD(3))

definition sample_cache :: io_cache where "sample_cache = set_max_cache_entry 1 IOCache"

theorem io_cache_refines_lru_witness:
  "\<exists>c'. access_cache (\<lambda>n. replicate n 0) (\<lambda>_. Some [Some [7, 8]]) ''/a'' 5 2 sample_cache = Some (Some [7, 8], c') \<and>
    length (abs_entries c') \<le> 1"
proof -
  have "indexed sample_cache" "0 < max_cache_entry sample_cache"
    by (simp_all add: sample_cache_def IOCache_def set_max_cache_entry_def indexed_def map_live_def)
  note r = io_cache_refines_lru [OF this, of "\<lambda>n. replicate n 0" "\<lambda>_. Some [Some [7, 8]]" "''/a''" 5 2]
  have "lru_access (\<lambda>n. replicate n 0) (\<lambda>_. Some [Some [7, 8]]) (max_cache_entry sample_cache) (max_entry_size sample_cache) ''/a'' 5 2
      (abs_entries sample_cache) = Some (Some [7, 8], [\<lparr>ce_path = ''/a'', ce_mtime = 5, ce_content = Some [7, 8], ce_size = 2\<rparr>])"
    by (simp add: lru_access_def sample_cache_def IOCache_def set_max_cache_entry_def abs_entries_def IOCacheEntry_def memcpy_at_def
        data_copy_def numeral_eq_Suc)
  with r show ?thesis by (auto simp: option_rel_Some2 sample_cache_def set_max_cache_entry_def)
qed

text \<open>C29: under every interleaving of accesses and loads the iterators in the map are alive: whenever a path is
  mapped, its node is in the list and holds that path and some contents, so that \<open>move_entry\<close> and \<open>remove_entry\<close>
  never touch a removed node.\<close>

theorem cache_never_dangles:
  assumes "cache_reach k b (c, ls)" and "entry_map c p = Some n"
  shows "\<exists>e c1 c2. map_of (entries c) n = Some e \<and> ce_path e = p \<and> ce_content e \<noteq> None \<and>
    move_entry p n c = Some c1 \<and> remove_entry p n c = Some c2"
proof -
  have live: "map_live c" using cache_reach_live [OF assms(1)] by simp
  obtain e where e: "map_of (entries c) n = Some e" "ce_path e = p" "ce_content e \<noteq> None" using map_liveD [OF live assms(2)] by blast
  then show ?thesis by (simp add: move_entry_def remove_entry_def)
qed

definition two_entries :: io_cache where
  "two_entries = (let e = \<lparr>ce_path = ''/a'', ce_mtime = 5, ce_content = Some [], ce_size = 0\<rparr>
     in \<lparr>max_cache_entry = 1, max_entry_size = 4096, entries = [(1, e), (0, e)], entry_map = [''/a'' \<mapsto> 0], next_node = 2, leaked_fds = 0\<rparr>)"

text \<open>Two threads that miss the same path both insert it: the list then holds the path twice and more entries than
  the limit.\<close>

lemma interleaved_loads_duplicate: "cache_reach 1 4096 (two_entries, [])"
proof -
  let ?c0 = "set_max_entry_size 4096 (set_max_cache_entry 1 IOCache)"
  let ?e = "\<lparr>ce_path = ''/a'', ce_mtime = 5, ce_content = Some [], ce_size = 0\<rparr>"
  let ?c1 = "add_entry ?e ?c0"
  have c0: "load_prepare ?c0 = Some ?c0" "max_cache_entry ?c0 \<noteq> 0" "entry_map ?c0 ''/a'' = None"
    by (simp_all add: load_prepare_def set_max_entry_size_def set_max_cache_entry_def IOCache_def)
  have lf: "load_finish (\<lambda>n. []) (\<lambda>_. Some []) ''/a'' 5 0 c = Some (Some [], add_entry ?e c)" if "max_entry_size c = 4096" for c
    using that by (simp add: load_finish_def create_cache_entry_def IOCacheEntry_def data_copy_def)
  have r1: "cache_reach 1 4096 (?c0, [] @ [(''/a'', 5, 0)])"
    by (rule cache_next [OF cache_start]) (rule cache_miss [OF c0(2,3,1)])
  have r2: "cache_reach 1 4096 (?c0, ([] @ [(''/a'', 5, 0)]) @ [(''/a'', 5, 0)])"
    by (rule cache_next [OF r1]) (rule cache_miss [OF c0(2,3,1)])
  have s3: "cache_step (?c0, [] @ (''/a'', 5, 0) # [(''/a'', 5, 0)]) (?c1, [] @ [(''/a'', 5, 0)])"
    by (rule cache_loaded [OF lf]) (simp add: set_max_entry_size_def)
  have r3: "cache_reach 1 4096 (?c1, [] @ (''/a'', 5, 0) # [])" using cache_next [OF r2, of "(?c1, [(''/a'', 5, 0)])"] s3 by simp
  have s4: "cache_step (?c1, [] @ (''/a'', 5, 0) # []) (add_entry ?e ?c1, [] @ [])"
    by (rule cache_loaded [OF lf]) (simp add: set_max_entry_size_def add_entry_def)
  have "add_entry ?e ?c1 = two_entries"
    by (simp add: two_entries_def Let_def add_entry_def map_insert_def set_max_entry_size_def set_max_cache_entry_def IOCache_def)
  then show ?thesis using cache_next [OF r3 s4] by simp
qed

theorem cache_never_dangles_witness: "\<exists>e c1. map_of (entries two_entries) 0 = Some e \<and> move_entry ''/a'' 0 two_entries = Some c1"
proof -
  have "entry_map two_entries ''/a'' = Some 0" by (simp add: two_entries_def Let_def)
  from cache_never_dangles [OF interleaved_loads_duplicate this] show ?thesis by blast
qed

end
