(* ===== verification/Static_Handler.thy ===== *)
theory Static_Handler
  imports Http_Connection Io_Cache
begin

text \<open>
  The handler for static files: \<^verbatim>\<open>src/http/static_handler.{h,cc}\<close>.  The file system (\<open>stat\<close>, \<open>open\<close>, \<open>fstat\<close>,
  \<open>readdir\<close>), the calendar functions \<open>gmtime\<close>, \<open>mktime\<close> and \<open>localtime\<close>, \<open>atof\<close> and zlib are parameters.  A
  response is the text written so far and the files queued behind it (\<open>OFile\<close>: descriptor, offset and length as given to
  \<open>write_file\<close>); descriptors that were opened and closed are recorded.  File offsets are mathematical integers.
\<close>

section \<open>Paths\<close>

text \<open>\<open>string_remove_dots\<close>: at a slash the following entry is copied unless it is a dot entry.\<close>

function string_remove_dots :: "string \<Rightarrow> string" where
  "string_remove_dots [] = []"
| "string_remove_dots (c # s) =
    (if c = CHR ''/''
     then let ent = takeWhile (\<lambda>x. x \<noteq> CHR ''/'') s
          in c # (if ent \<noteq> ''.'' \<and> ent \<noteq> ''..'' then ent else []) @ string_remove_dots (dropWhile (\<lambda>x. x \<noteq> CHR ''/'') s)
     else c # string_remove_dots s)"
  by pat_completeness auto
termination
  by (relation "measure length") (auto simp: length_dropWhile_le le_imp_less_Suc)

declare string_remove_dots.simps [simp del]

definition remove_path_dots :: "string \<Rightarrow> string" where
  "remove_path_dots path = string_remove_dots path"

section \<open>Ranges\<close>

fun skip_unit :: "string \<Rightarrow> string" where
  "skip_unit [] = []"
| "skip_unit (c # s) = (if c = CHR ''='' then s else skip_unit s)"

text \<open>The second loop: the offset, and the text at which the third loop starts, or \<open>None\<close> after \<open>return\<close>.\<close>

fun range_offset :: "int \<Rightarrow> string \<Rightarrow> int \<times> string option" where
  "range_offset off [] = (off, Some [])"
| "range_offset off (c # s) =
    (if is_digit c then range_offset (10 * off + (int (char_code c) - 48)) s
     else if c = CHR ''-'' then (off, Some (c # s)) else (off, None))"

fun range_end :: "int \<Rightarrow> int \<Rightarrow> int \<Rightarrow> string \<Rightarrow> int" where
  "range_end off end_byte len [] = len"
| "range_end off end_byte len (c # s) =
    (if is_digit c
     then let e = 10 * end_byte + (int (char_code c) - 48) in range_end off e (e - off + 1) s
     else len)"

definition parse_range :: "string \<Rightarrow> int \<times> int" where
  "parse_range range_desc =
    (case range_offset 0 (skip_unit range_desc) of
       (off, None) \<Rightarrow> (off, -1)
     | (off, Some s) \<Rightarrow> (off, range_end off 0 (-1) s))"

definition build_range_response :: "int \<Rightarrow> int \<Rightarrow> int \<Rightarrow> string" where
  "build_range_response off len file_size =
    ''bytes '' @ format_number off @ ''-'' @ format_number (off + len - 1) @ ''/'' @ format_number file_size"

section \<open>Dates\<close>

record tm =
  tm_sec :: int
  tm_min :: int
  tm_hour :: int
  tm_mday :: int
  tm_mon :: int
  tm_year :: int

definition months :: "string list" where
  "months = [''Jan'', ''Feb'', ''Mar'', ''Apr'', ''May'', ''Jun'', ''Jul'', ''Aug'', ''Sep'', ''Oct'', ''Nov'', ''Dec'']"

definition week_days :: "string list" where
  "week_days = [''Sun'', ''Mon'', ''Tue'', ''Wed'', ''Thu'', ''Fri'', ''Sat'']"

definition digit_char :: "nat \<Rightarrow> char" where
  "digit_char n = char_of (n mod 10 + 48)"

definition two_digits :: "int \<Rightarrow> string" where
  "two_digits n = [digit_char (nat n div 10), digit_char (nat n)]"

text \<open>\<open>strftime\<close> with \<^verbatim>\<open>%a, %d %b %Y %T GMT\<close>, for years of four digits; \<open>gmtime\<close> gives the week day and the fields.\<close>

definition build_last_modified :: "(int \<Rightarrow> nat \<times> tm) \<Rightarrow> int \<Rightarrow> string" where
  "build_last_modified gmtime t =
    (let (wday, g) = gmtime t; y = nat (tm_year g + 1900)
     in week_days ! wday @ '', '' @ two_digits (tm_mday g) @ '' '' @ months ! nat (tm_mon g) @ '' '' @
        [digit_char (y div 1000), digit_char (y div 100), digit_char (y div 10), digit_char y] @ '' '' @
        two_digits (tm_hour g) @ '':'' @ two_digits (tm_min g) @ '':'' @ two_digits (tm_sec g) @ '' GMT'')"

text \<open>\<open>strchr\<close> also finds the terminating zero.\<close>

definition is_delim :: "string \<Rightarrow> char \<Rightarrow> bool" where
  "is_delim delim c \<longleftrightarrow> c \<in> set delim \<or> c = CHR 0x00"

fun tokenize_loop :: "string \<Rightarrow> string \<Rightarrow> string \<Rightarrow> string list" where
  "tokenize_loop delim tok [] = (if tok \<noteq> [] then [tok] else [])"
| "tokenize_loop delim tok (c # s) =
    (if is_delim delim c
     then (if tok \<noteq> [] then tok # tokenize_loop delim [] s else tokenize_loop delim tok s)
     else tokenize_loop delim (tok @ [c]) s)"

definition tokenize_string :: "string \<Rightarrow> string \<Rightarrow> string list" where
  "tokenize_string str delim = tokenize_loop delim [] str"

definition tokenize_date :: "string \<Rightarrow> string list" where
  "tokenize_date date = tokenize_string date '', -''"

definition tokenize_time :: "string \<Rightarrow> string list" where
  "tokenize_time time = tokenize_string time '':''"

fun digits_loop :: "int \<Rightarrow> string \<Rightarrow> int option" where
  "digits_loop res [] = Some res"
| "digits_loop res (c # s) = (if is_digit c then digits_loop (res * 10 + int (char_code c) - 48) s else None)"

definition parse_digits :: "string \<Rightarrow> nat \<Rightarrow> int option" where
  "parse_digits number max_ndigits = (if length number > max_ndigits then None else digits_loop 0 number)"

fun month_loop :: "string \<Rightarrow> int \<Rightarrow> string list \<Rightarrow> int option" where
  "month_loop month res [] = None"
| "month_loop month res (m # ms) = (if month = m then Some res else month_loop month (res + 1) ms)"

definition parse_month :: "string \<Rightarrow> int option" where
  "parse_month month = (if length month \<noteq> 3 then None else month_loop month 0 months)"

definition parse_datetime :: "string \<Rightarrow> tm option" where
  "parse_datetime datetime =
    (let toks = tokenize_date datetime
     in if length toks \<noteq> 6 \<or> toks ! 5 \<noteq> ''GMT'' then None
        else case parse_digits (toks ! 1) 2 of None \<Rightarrow> None | Some mday \<Rightarrow>
             (case parse_month (toks ! 2) of None \<Rightarrow> None | Some mon \<Rightarrow>
             (case parse_digits (toks ! 3) 4 of None \<Rightarrow> None | Some year0 \<Rightarrow>
              let year = (if year0 > 100 then year0 - 1900 else year0);
                  time_toks = tokenize_time (toks ! 4)
              in if length time_toks \<noteq> 3 then None
                 else case parse_digits (time_toks ! 0) 2 of None \<Rightarrow> None | Some hour \<Rightarrow>
                      (case parse_digits (time_toks ! 1) 2 of None \<Rightarrow> None | Some minute \<Rightarrow>
                      (case parse_digits (time_toks ! 2) 2 of None \<Rightarrow> None | Some sec \<Rightarrow>
                       Some \<lparr>tm_sec = sec, tm_min = minute, tm_hour = hour, tm_mday = mday, tm_mon = mon, tm_year = year\<rparr>)))))"

section \<open>Handler\<close>

datatype file_kind = Regular | Directory | OtherFile

record file_stat =
  st_kind :: file_kind
  st_mtime :: int
  st_size :: int

record file_system =
  fs_stat :: "string \<Rightarrow> file_stat option"
  fs_open :: "string \<Rightarrow> nat option"
  fs_fstat :: "nat \<Rightarrow> int option"
  fs_reads :: file_reads
  fs_readdir :: "string \<Rightarrow> string list option"

record 'z zlib =
  z_init :: "byte list \<Rightarrow> 'z option"
  z_deflate :: "'z \<Rightarrow> 'z option"
  z_avail_in :: "'z \<Rightarrow> nat"
  z_output :: "'z \<Rightarrow> byte list"

record ('q, 'z) platform =
  file_sys :: file_system
  gm_time :: "int \<Rightarrow> nat \<times> tm"
  mk_time :: "tm \<Rightarrow> int"
  local_time :: "int \<Rightarrow> string"
  a_to_f :: "string \<Rightarrow> 'q"
  fresh_block :: "nat \<Rightarrow> byte list"
  z_lib :: "'z zlib"

record static_handler =
  doc_root :: string
  error_root :: string
  index_page_css :: string
  allow_index :: bool
  allow_compression :: bool
  compression_memlevel :: int
  compression_level :: int
  sh_cache :: io_cache
  charset :: string

definition StaticHttpHandler_options :: "string \<rightharpoonup> string" where
  "StaticHttpHandler_options =
    [''doc_root'' \<mapsto> ''/var/www'', ''error_root'' \<mapsto> '''', ''allow_index'' \<mapsto> ''true'', ''index_page_css'' \<mapsto> '''',
     ''max_cache_entry'' \<mapsto> ''0'', ''max_entry_size'' \<mapsto> ''4096'', ''allow_compression'' \<mapsto> ''false'',
     ''compression_level'' \<mapsto> ''-1'', ''compression_memlevel'' \<mapsto> ''5'']"

definition static_load_param :: "(string \<Rightarrow> string) \<Rightarrow> static_handler \<Rightarrow> static_handler" where
  "static_load_param opt h =
    h\<lparr>doc_root := opt ''doc_root'', error_root := opt ''error_root'', allow_index := parse_bool (opt ''allow_index''),
      index_page_css := opt ''index_page_css'', allow_compression := parse_bool (opt ''allow_compression''),
      compression_level := parse_int (opt ''compression_level''), compression_memlevel := parse_int (opt ''compression_memlevel''),
      sh_cache := set_max_entry_size (size_of_int (parse_int (opt ''max_entry_size'')))
        (set_max_cache_entry (size_of_int (parse_int (opt ''max_cache_entry''))) (sh_cache h))\<rparr>"

datatype out_item = OText string | OFile int int int

record handler_io =
  resp :: http_response
  sent_items :: "out_item list"
  opened :: "nat list"
  closed :: "int list"

definition upd_resp :: "(http_response \<Rightarrow> http_response) \<Rightarrow> handler_io \<Rightarrow> handler_io" where
  "upd_resp f io = io\<lparr>resp := f (resp io)\<rparr>"

text \<open>\<open>write_file\<close> queues a file behind all the text written so far.\<close>

definition response_write_file :: "int \<Rightarrow> int \<Rightarrow> int \<Rightarrow> handler_io \<Rightarrow> handler_io" where
  "response_write_file fd off len io =
    io\<lparr>sent_items := sent_items io @ [OText (out (resp io)), OFile fd off len], resp := (resp io)\<lparr>out := ''''\<rparr>\<rparr>"

definition open_file :: "file_system \<Rightarrow> string \<Rightarrow> handler_io \<Rightarrow> int \<times> handler_io" where
  "open_file fs path io =
    (case fs_open fs path of None \<Rightarrow> (-1, io) | Some fd \<Rightarrow> (int fd, io\<lparr>opened := opened io @ [fd]\<rparr>))"

definition close_fd :: "int \<Rightarrow> handler_io \<Rightarrow> handler_io" where
  "close_fd fd io = io\<lparr>closed := closed io @ [fd]\<rparr>"

definition disable_prepare_buffer :: "http_response \<Rightarrow> http_response" where
  "disable_prepare_buffer r = r\<lparr>use_prepare_buffer := False\<rparr>"

definition set_content_length :: "int \<Rightarrow> http_response \<Rightarrow> http_response" where
  "set_content_length n r = r\<lparr>content_length := n\<rparr>"

definition respond_error :: "static_handler \<Rightarrow> file_system \<Rightarrow> http_status \<Rightarrow> handler_io \<Rightarrow> handler_io" where
  "respond_error h fs err io =
    (if error_root h = '''' then upd_resp (respond_with_message err) io
     else let (fd, io1) = open_file fs (error_root h @ ''/'' @ format_number (status_code err) @ ''.html'') io
          in if fd < 0 then upd_resp (respond_with_message err) io1
             else case fs_fstat fs (nat fd) of
                    None \<Rightarrow> upd_resp (respond_with_message err) (close_fd fd io1)
                  | Some sz \<Rightarrow>
                      response_write_file fd 0 (-1)
                        (upd_resp (\<lambda>r. respond err (set_content_length sz (add_header ''Content-Type'' ''text/html'' (disable_prepare_buffer r)))) io1))"

definition validate_client_cache :: "('q, 'z) platform \<Rightarrow> file_stat \<Rightarrow> request_data \<Rightarrow> bool" where
  "validate_client_cache pf st req =
    (case parse_datetime (find_header_value (rq_headers req) ''If-Modified-Since'') of
       None \<Rightarrow> False
     | Some t \<Rightarrow>
        let orig_mtime = mk_time pf (snd (gm_time pf (st_mtime st))); modified_time = mk_time pf t
        in if orig_mtime > modified_time then False else True)"

fun gzip_accepted :: "('q :: zero) quality_value list \<Rightarrow> bool" where
  "gzip_accepted [] = False"
| "gzip_accepted (v # vs) =
    (if qv_value v = ''gzip'' then (case qv_quality v of None \<Rightarrow> True | Some q \<Rightarrow> q \<noteq> 0) else gzip_accepted vs)"

definition is_request_compression :: "(('q :: zero), 'z) platform \<Rightarrow> static_handler \<Rightarrow> request_data \<Rightarrow> bool" where
  "is_request_compression pf h req =
    (if \<not> allow_compression h then False
     else if rq_method req = HTTP_HEAD then False
     else gzip_accepted (find_header_quality_values (a_to_f pf) (rq_headers req) ''Accept-Encoding''))"

text \<open>The compression loop; \<open>None\<close> when it does not end, \<open>Some None\<close> on a stream error.\<close>

partial_function (option) deflate_loop :: "'z zlib \<Rightarrow> 'z \<Rightarrow> 'z option option" where
  "deflate_loop z s =
    (if z_avail_in z s > 0 then (case z_deflate z s of None \<Rightarrow> Some None | Some s' \<Rightarrow> deflate_loop z s') else Some (Some s))"

definition gzhdr :: "byte list" where
  "gzhdr = [0x1f, 0x8b, 8, 0, 0, 0, 0, 0, 0, 0x03]"

definition write_data_compression :: "'z zlib \<Rightarrow> http_status \<Rightarrow> byte list \<Rightarrow> handler_io \<Rightarrow> (bool \<times> handler_io) option" where
  "write_data_compression z st dat io =
    (case z_init z dat of
       None \<Rightarrow> Some (False, io)
     | Some s \<Rightarrow>
        (case deflate_loop z s of
           None \<Rightarrow> None
         | Some None \<Rightarrow> Some (False, io)
         | Some (Some s') \<Rightarrow>
             let outp = z_output z s'
             in Some (True, upd_resp (\<lambda>r. write_data (text_of_bytes outp) (write_data (text_of_bytes gzhdr)
                  (respond st (add_header ''Content-Encoding'' ''gzip'' (set_content_length (int (length outp) + 10) r))))) io)))"

definition try_open_file :: "static_handler \<Rightarrow> file_system \<Rightarrow> string \<Rightarrow> request_data \<Rightarrow> handler_io \<Rightarrow> int \<times> handler_io" where
  "try_open_file h fs path req io =
    (if rq_method req \<noteq> HTTP_HEAD
     then let (fd, io1) = open_file fs path io
          in (fd, if fd < 0 then respond_error h fs kHttpResponseForbidden io1 else io1)
     else (0, io))"

text \<open>The range a request asks for: \<open>None\<close> when it is answered with \<open>416\<close>.\<close>

definition request_range :: "int \<Rightarrow> string \<Rightarrow> (int \<times> int) option" where
  "request_range file_size range_str =
    (let (off, len0) = parse_range range_str; len = (if len0 < 0 then file_size - off else len0)
     in if size_of_int (off + len) > size_of_int file_size then None else Some (off, len))"

text \<open>\<open>cached_entry + offset\<close> with \<open>length\<close> bytes; \<open>None\<close> when this leaves the block.\<close>

definition cached_slice :: "byte list \<Rightarrow> int \<Rightarrow> int \<Rightarrow> byte list option" where
  "cached_slice d off len =
    (if 0 \<le> off \<and> nat off + size_of_int len \<le> length d then Some (take (size_of_int len) (drop (nat off) d)) else None)"

definition finish_file :: "byte list option \<Rightarrow> int \<Rightarrow> handler_io \<Rightarrow> handler_io" where
  "finish_file cached fd io = (if cached \<noteq> None then close_fd fd io else io)"

text \<open>The part of \<open>respond_file_content\<close> that sends \<open>length\<close> bytes from \<open>offset\<close>.\<close>

definition send_content ::
  "(('q :: zero), 'z) platform \<Rightarrow> static_handler \<Rightarrow> file_stat \<Rightarrow> request_data \<Rightarrow> byte list option \<Rightarrow> int \<Rightarrow> http_status \<Rightarrow> int \<Rightarrow> int \<Rightarrow>
    handler_io \<Rightarrow> handler_io option" where
  "send_content pf h st req cached fd status off len io0 =
    (let io = upd_resp (\<lambda>r. add_header ''Last-Modified'' (build_last_modified (gm_time pf) (st_mtime st)) (disable_prepare_buffer r)) io0;
         compressed =
           (case cached of
              Some d \<Rightarrow> if is_request_compression pf h req
                        then (case cached_slice d off len of None \<Rightarrow> None | Some s \<Rightarrow> write_data_compression (z_lib pf) status s io)
                        else Some (False, io)
            | None \<Rightarrow> Some (False, io))
     in case compressed of
          None \<Rightarrow> None
        | Some (True, io1) \<Rightarrow> Some (finish_file cached fd io1)
        | Some (False, io1) \<Rightarrow>
            let io2 = upd_resp (\<lambda>r. respond status (set_content_length len r)) io1
            in if rq_method req \<noteq> HTTP_HEAD
               then (case cached of
                       Some d \<Rightarrow> (case cached_slice d off len of
                                    None \<Rightarrow> None
                                  | Some s \<Rightarrow> Some (finish_file cached fd (upd_resp (write_data (text_of_bytes s)) io2)))
                     | None \<Rightarrow> Some (finish_file cached fd (response_write_file fd off len io2)))
               else Some (finish_file cached fd io2))"

definition respond_file_content ::
  "(('q :: zero), 'z) platform \<Rightarrow> static_handler \<Rightarrow> string \<Rightarrow> file_stat \<Rightarrow> request_data \<Rightarrow> handler_io \<Rightarrow> (static_handler \<times> handler_io) option" where
  "respond_file_content pf h0 path st req io0 =
    (let acc = (if rq_method req \<noteq> HTTP_HEAD
                then access_cache (fresh_block pf) (fs_reads (file_sys pf)) path (st_mtime st) (size_of_int (st_size st)) (sh_cache h0)
                else Some (None, sh_cache h0))
     in case acc of
          None \<Rightarrow> None
        | Some (cached, cache') \<Rightarrow>
            let h = h0\<lparr>sh_cache := cache'\<rparr>;
                (fd, io) = try_open_file h (file_sys pf) path req io0
            in if fd < 0 then Some (h, finish_file cached fd io)
               else if validate_client_cache pf st req
               then Some (h, finish_file cached fd (upd_resp (respond kHttpResponseNotModified) io))
               else let range_str = find_header_value (rq_headers req) ''Range''
                    in if range_str \<noteq> ''''
                       then (case request_range (st_size st) range_str of
                               None \<Rightarrow> Some (h, finish_file cached fd (respond_error h (file_sys pf) kHttpResponseRequestedRangeNotSatisfiable io))
                             | Some (off, len) \<Rightarrow>
                                 map_option (Pair h) (send_content pf h st req cached fd kHttpResponsePartialContent off len
                                   (upd_resp (add_header ''Content-Range'' (build_range_response off len (st_size st))) io)))
                       else map_option (Pair h) (send_content pf h st req cached fd kHttpResponseOK 0 (st_size st) io))"

section \<open>Directory listings\<close>

definition kHtmlNewLine :: string where "kHtmlNewLine = [CHR 0x0A]"

text \<open>\<open>do_write\<close> hands the text on as a C string.\<close>

definition do_write :: "bool \<Rightarrow> string \<Rightarrow> http_response \<Rightarrow> http_response" where
  "do_write should_write s r =
    (if should_write then write_data (takeWhile (\<lambda>c. c \<noteq> CHR 0x00) s) r
     else r\<lparr>content_length := content_length r + int (length s)\<rparr>)"

fun do_writes :: "bool \<Rightarrow> string list \<Rightarrow> http_response \<Rightarrow> http_response" where
  "do_writes w [] r = r"
| "do_writes w (s # ss) r = do_writes w ss (do_write w s r)"

definition add_directory_entry :: "(int \<Rightarrow> string) \<Rightarrow> bool \<Rightarrow> string \<Rightarrow> file_stat option \<Rightarrow> http_response \<Rightarrow> http_response" where
  "add_directory_entry localtime w entry st r0 =
    (let r1 = (case st of
                 None \<Rightarrow> do_writes w [''<tr class=\"parent\"><td><a href=\"..\">Parent Directory</a>'', ''</td>''] r0
               | Some s \<Rightarrow>
                   (case st_kind s of
                      Directory \<Rightarrow> do_writes w [''<tr class=\"directory\">'', ''<td><a href=\"'', entry, ''/\">'', entry, ''/</a></td>'', ''<td>-</td>''] r0
                    | Regular \<Rightarrow> do_writes w [''<tr class=\"regular\">'', ''<td><a href=\"'', entry, ''\">'', entry, ''</a></td>'', ''<td>'',
                        format_number (st_size s), ''</td>''] r0
                    | OtherFile \<Rightarrow> r0));
         r2 = (case st of None \<Rightarrow> r1 | Some s \<Rightarrow> do_writes w [''<td>'', localtime (st_mtime s), ''</td>''] r1)
     in do_writes w [''</tr>'', kHtmlNewLine] r2)"

fun list_directory_html :: "(int \<Rightarrow> string) \<Rightarrow> (string \<Rightarrow> file_stat option) \<Rightarrow> bool \<Rightarrow> string \<Rightarrow> string list \<Rightarrow> http_response \<Rightarrow> http_response" where
  "list_directory_html lt stat w path [] r = r"
| "list_directory_html lt stat w path (ent # ents) r =
    (if ent = ''.'' \<or> ent = ''..'' then list_directory_html lt stat w path ents r
     else case stat (path @ ''/'' @ ent) of
            None \<Rightarrow> list_directory_html lt stat w path ents r
          | Some s \<Rightarrow> list_directory_html lt stat w path ents (add_directory_entry lt w ent (Some s) r))"

definition directory_html :: "('q, 'z) platform \<Rightarrow> static_handler \<Rightarrow> bool \<Rightarrow> string \<Rightarrow> string \<Rightarrow> string list \<Rightarrow> http_response \<Rightarrow> http_response" where
  "directory_html pf h w path href_path ents r0 =
    (let r1 = do_writes w [''<html><head>'', ''<meta http-equiv=\"Content-Type\"  content=\"text/html; charset='', charset h, ''\">'',
                ''<title>Directory List '', href_path, ''</title>'', kHtmlNewLine] r0;
         r2 = (if index_page_css h \<noteq> ''''
               then do_writes w [''<link rel=\"stylesheet\" type=\"text/css\" href=\"'', index_page_css h, ''\"/>'', kHtmlNewLine] r1 else r1);
         r3 = do_writes w [''</head><body>'', kHtmlNewLine, ''<h1>Index of '', href_path, ''</h1>'', kHtmlNewLine, ''<table>'', kHtmlNewLine] r2;
         r4 = (if href_path \<noteq> ''/'' then add_directory_entry (local_time pf) w ''..'' None r3 else r3);
         r5 = do_writes w [''<table>''] r4;
         r6 = list_directory_html (local_time pf) (fs_stat (file_sys pf)) w path ents r5
     in do_writes w [''</table></body></html>'', kHtmlNewLine] r6)"

definition respond_directory_list :: "('q, 'z) platform \<Rightarrow> static_handler \<Rightarrow> string \<Rightarrow> string \<Rightarrow> request_data \<Rightarrow> handler_io \<Rightarrow> handler_io" where
  "respond_directory_list pf h path href_path req io =
    (case fs_readdir (file_sys pf) path of
       None \<Rightarrow> respond_error h (file_sys pf) kHttpResponseForbidden io
     | Some ents \<Rightarrow>
        upd_resp (\<lambda>r. respond kHttpResponseOK (add_header ''Content-Type'' ''text/html''
          (directory_html pf h (rq_method req \<noteq> HTTP_HEAD) path href_path ents r))) io)"

section \<open>Requests\<close>

definition static_handle_request ::
  "(('q :: zero), 'z) platform \<Rightarrow> static_handler \<Rightarrow> request_data \<Rightarrow> handler_io \<Rightarrow> (static_handler \<times> handler_io) option" where
  "static_handle_request pf h req io0 =
    (let fs = file_sys pf;
         filename = remove_path_dots (http_url_decode (rq_path req));
         io = (if rq_method req \<noteq> HTTP_GET \<and> rq_method req \<noteq> HTTP_POST \<and> rq_method req \<noteq> HTTP_HEAD
               then respond_error h fs kHttpResponseBadRequest io0 else io0);
         filepath = doc_root h @ filename
     in case fs_stat fs filepath of
          None \<Rightarrow> Some (h, respond_error h fs kHttpResponseNotFound io)
        | Some st \<Rightarrow>
            (case st_kind st of
               Regular \<Rightarrow> respond_file_content pf h filepath st req io
             | Directory \<Rightarrow> Some (h, if allow_index h then respond_directory_list pf h filepath filename req io
                                     else respond_error h fs kHttpResponseForbidden io)
             | OtherFile \<Rightarrow> Some (h, respond_error h fs kHttpResponseForbidden io)))"

section \<open>Confinement to the document root\<close>

text \<open>The entries of a path, and the directory a sequence of entries leads to from a directory (without symbolic links).\<close>

fun path_entries :: "string \<Rightarrow> string \<Rightarrow> string list" where
  "path_entries ent [] = [ent]"
| "path_entries ent (c # s) = (if c = CHR ''/'' then ent # path_entries [] s else path_entries (ent @ [c]) s)"

fun resolve :: "string list \<Rightarrow> string list \<Rightarrow> string list" where
  "resolve dir [] = dir"
| "resolve dir (e # es) =
    (if e = '''' \<or> e = ''.'' then resolve dir es else if e = ''..'' then resolve (butlast dir) es else resolve (dir @ [e]) es)"

definition undot :: "string \<Rightarrow> string" where
  "undot e = (if e \<noteq> ''.'' \<and> e \<noteq> ''..'' then e else '''')"

lemma path_entries_append: "path_entries ent (s @ CHR ''/'' # t) = path_entries ent s @ path_entries [] t"
  by (induction s arbitrary: ent) auto

lemma path_entries_plain: "CHR ''/'' \<notin> set s \<Longrightarrow> path_entries ent s = [ent @ s]"
  by (induction s arbitrary: ent) auto

lemma resolve_append: "resolve dir (es @ fs) = resolve (resolve dir es) fs"
  by (induction dir es rule: resolve.induct) auto

lemma resolve_no_parent: "''..'' \<notin> set es \<Longrightarrow> resolve dir es = dir @ filter (\<lambda>e. e \<noteq> '''' \<and> e \<noteq> ''.'') es"
  by (induction dir es rule: resolve.induct) auto

lemma take_drop_slash:
  "CHR ''/'' \<notin> set (takeWhile (\<lambda>x. x \<noteq> CHR ''/'') s)"
  "dropWhile (\<lambda>x. x \<noteq> CHR ''/'') s = [] \<or> (\<exists>t. dropWhile (\<lambda>x. x \<noteq> CHR ''/'') s = CHR ''/'' # t \<and> length t < length s)"
proof -
  show "CHR ''/'' \<notin> set (takeWhile (\<lambda>x. x \<noteq> CHR ''/'') s)" by (auto dest: set_takeWhileD)
  have "length (dropWhile (\<lambda>x. x \<noteq> CHR ''/'') s) \<le> length s" by (rule length_dropWhile_le)
  then show "dropWhile (\<lambda>x. x \<noteq> CHR ''/'') s = [] \<or> (\<exists>t. dropWhile (\<lambda>x. x \<noteq> CHR ''/'') s = CHR ''/'' # t \<and> length t < length s)"
    using hd_dropWhile [of "\<lambda>x. x \<noteq> CHR ''/''" s] by (cases "dropWhile (\<lambda>x. x \<noteq> CHR ''/'') s") auto
qed

lemma undot_slash: "CHR ''/'' \<notin> set e \<Longrightarrow> CHR ''/'' \<notin> set (undot e)"
  by (simp add: undot_def)

lemma remove_dots_entries:
  "\<exists>t. string_remove_dots (CHR ''/'' # s) = CHR ''/'' # t \<and> path_entries [] t = map undot (path_entries [] s)"
proof (induction "length s" arbitrary: s rule: less_induct)
  case less
  let ?ent = "takeWhile (\<lambda>x. x \<noteq> CHR ''/'') s" and ?rest = "dropWhile (\<lambda>x. x \<noteq> CHR ''/'') s"
  have s: "s = ?ent @ ?rest" by simp
  have step: "string_remove_dots (CHR ''/'' # s) = CHR ''/'' # undot ?ent @ string_remove_dots ?rest"
    by (subst string_remove_dots.simps) (simp add: undot_def Let_def)
  show ?case
  proof (cases "?rest = []")
    case True
    then have "?ent = s" using s by simp
    moreover have "string_remove_dots [] = []" by (simp add: string_remove_dots.simps)
    ultimately have "string_remove_dots (CHR ''/'' # s) = CHR ''/'' # undot s" using step True by (metis append_Nil2)
    moreover have "CHR ''/'' \<notin> set s" using take_drop_slash(1) [of s] \<open>?ent = s\<close> by simp
    ultimately show ?thesis using undot_slash [of s] by (simp add: path_entries_plain)
  next
    case False
    then obtain t where t: "?rest = CHR ''/'' # t" "length t < length s" using take_drop_slash(2) by blast
    from less [OF t(2)] obtain u where u: "string_remove_dots (CHR ''/'' # t) = CHR ''/'' # u" "path_entries [] u = map undot (path_entries [] t)"
      by blast
    have "path_entries [] s = ?ent # path_entries [] t"
      by (subst s) (simp add: t(1) path_entries_append path_entries_plain take_drop_slash(1) del: takeWhile_dropWhile_id)
    then show ?thesis using step t(1) u
      by (simp add: path_entries_append path_entries_plain undot_slash take_drop_slash(1))
  qed
qed

section \<open>Dates read back\<close>

definition tm_ok :: "nat \<times> tm \<Rightarrow> bool" where
  "tm_ok g \<longleftrightarrow> fst g < 7 \<and> 0 \<le> tm_sec (snd g) \<and> tm_sec (snd g) < 100 \<and> 0 \<le> tm_min (snd g) \<and> tm_min (snd g) < 100 \<and>
     0 \<le> tm_hour (snd g) \<and> tm_hour (snd g) < 100 \<and> 0 \<le> tm_mday (snd g) \<and> tm_mday (snd g) < 100 \<and>
     0 \<le> tm_mon (snd g) \<and> tm_mon (snd g) < 12 \<and> 0 \<le> tm_year (snd g) \<and> tm_year (snd g) < 8100"

lemma digit_char_digit: "is_digit (digit_char n)" "char_code (digit_char n) = n mod 10 + 48"
  using is_digit_char_of [of "n mod 10"] by (simp_all add: digit_char_def)

lemma digit_not_delim:
  "digit_char n \<noteq> CHR '' ''" "digit_char n \<noteq> CHR '',''" "digit_char n \<noteq> CHR ''-''" "digit_char n \<noteq> CHR '':''" "digit_char n \<noteq> CHR 0x00"
  using digit_char_digit [of n] by (auto simp: char_code_def)

lemma parse_two_digits:
  assumes "0 \<le> n" and "n < 100"
  shows "parse_digits (two_digits n) 2 = Some n"
proof -
  have "nat n div 10 < 10" using assms by (simp add: less_mult_imp_div_less)
  then have d: "nat n div 10 mod 10 = nat n div 10" by (rule mod_less)
  then have "nat n div 10 mod 10 * 10 + nat n mod 10 = nat n" by simp
  then have "int (nat n div 10 mod 10 * 10 + nat n mod 10) = int (nat n)" by (simp only:)
  then have "int (nat n div 10 mod 10) * 10 + int (nat n mod 10) = n"
    using assms(1) by (simp only: of_nat_add of_nat_mult of_nat_numeral int_nat_eq if_True)
  then show ?thesis using d by (simp add: parse_digits_def two_digits_def digit_char_digit algebra_simps)
qed

lemma parse_four_digits:
  assumes "y < 10000"
  shows "parse_digits [digit_char (y div 1000), digit_char (y div 100), digit_char (y div 10), digit_char y] 4 = Some (int y)"
proof -
  have "y div 1000 mod 10 * 1000 + y div 100 mod 10 * 100 + y div 10 mod 10 * 10 + y mod 10 = y"
  proof -
    define a b c where abc: "a = y div 10" "b = a div 10" "c = b div 10"
    have "y = 10 * a + y mod 10" "a = 10 * b + a mod 10" "b = 10 * c + b mod 10" by (simp_all add: abc)
    moreover have "y div 100 = b" "y div 1000 = c" by (simp_all add: abc div_mult2_eq [symmetric])
    moreover from this have "c < 10" using assms by (simp add: less_mult_imp_div_less)
    ultimately show ?thesis by (simp add: abc(1) [symmetric])
  qed
  then have "int (y div 1000 mod 10 * 1000 + y div 100 mod 10 * 100 + y div 10 mod 10 * 10 + y mod 10) = int y" by (simp only:)
  then have "int (y div 1000 mod 10) * 1000 + int (y div 100 mod 10) * 100 + int (y div 10 mod 10) * 10 + int (y mod 10) = int y"
    by (simp only: of_nat_add of_nat_mult of_nat_numeral)
  moreover have "y div 1000 mod 10 = y div 1000" using assms by (intro mod_less) (simp add: less_mult_imp_div_less)
  ultimately show ?thesis by (simp add: parse_digits_def digit_char_digit algebra_simps)
qed

lemma month_cases:
  assumes "0 \<le> m" and "m < (12 :: int)"
  shows "parse_month (months ! nat m) = Some m \<and> length (months ! nat m) = 3 \<and> (\<forall>c \<in> set (months ! nat m). \<not> is_delim '', -'' c)"
proof -
  have "nat m < 12" using assms by linarith
  then have "nat m \<in> {0, 1, 2, 3, 4, 5, 6, 7, 8, 9, 10, 11}" by (auto simp: less_Suc_eq numeral_eq_Suc)
  then have "parse_month (months ! nat m) = Some (int (nat m)) \<and> length (months ! nat m) = 3 \<and>
      (\<forall>c \<in> set (months ! nat m). \<not> is_delim '', -'' c)"
    by (elim insertE emptyE) (simp_all add: months_def parse_month_def is_delim_def)
  then show ?thesis using assms by simp
qed

lemma week_day_cases: "d < 7 \<Longrightarrow> length (week_days ! d) = 3 \<and> (\<forall>c \<in> set (week_days ! d). \<not> is_delim '', -'' c)"
  by (auto simp: week_days_def is_delim_def less_Suc_eq numeral_eq_Suc)

lemma tokenize_word:
  assumes "\<forall>c \<in> set w. \<not> is_delim d c"
  shows "tokenize_loop d tok (w @ s) = tokenize_loop d (tok @ w) s"
  using assms by (induction w arbitrary: tok) auto

lemma two_digits_words:
  "\<forall>c \<in> set (two_digits n). \<not> is_delim '', -'' c" "\<forall>c \<in> set (two_digits n). \<not> is_delim '':'' c" "two_digits n \<noteq> []"
  using digit_not_delim by (auto simp: two_digits_def is_delim_def)

lemma date_tokens:
  assumes "tm_ok (gm t)" and "gm t = (d, g)"
  shows "tokenize_date (build_last_modified gm t) =
    [week_days ! d, two_digits (tm_mday g), months ! nat (tm_mon g),
     (let y = nat (tm_year g + 1900) in [digit_char (y div 1000), digit_char (y div 100), digit_char (y div 10), digit_char y]),
     two_digits (tm_hour g) @ '':'' @ two_digits (tm_min g) @ '':'' @ two_digits (tm_sec g), ''GMT'']"
proof -
  have wd: "\<forall>c \<in> set (week_days ! d). \<not> is_delim '', -'' c" "week_days ! d \<noteq> []" using week_day_cases [of d] assms by (auto simp: tm_ok_def)
  have mo: "\<forall>c \<in> set (months ! nat (tm_mon g)). \<not> is_delim '', -'' c" "months ! nat (tm_mon g) \<noteq> []"
    using month_cases [of "tm_mon g"] assms by (auto simp: tm_ok_def)
  have yr: "\<forall>c \<in> set [digit_char a, digit_char b, digit_char c', digit_char e]. \<not> is_delim '', -'' c" for a b c' e
    using digit_not_delim by (simp add: is_delim_def)
  have ti: "\<forall>c \<in> set (two_digits a @ '':'' @ two_digits b @ '':'' @ two_digits e). \<not> is_delim '', -'' c" for a b e
    using two_digits_words(1) by (auto simp: is_delim_def)
  have sp: "tokenize_loop '', -'' [] ('' '' @ s) = tokenize_loop '', -'' [] s" "tokenize_loop '', -'' [] ('', '' @ s) = tokenize_loop '', -'' [] s"
    "w \<noteq> [] \<Longrightarrow> tokenize_loop '', -'' w ('' '' @ s) = w # tokenize_loop '', -'' [] s"
    "w \<noteq> [] \<Longrightarrow> tokenize_loop '', -'' w ('', '' @ s) = w # tokenize_loop '', -'' [] s" for w s
    by (simp_all add: is_delim_def)
  have gmt: "tokenize_loop '', -'' [] ''GMT'' = [''GMT'']" by (simp add: is_delim_def)
  have eq: "build_last_modified gm t = week_days ! d @ '', '' @ two_digits (tm_mday g) @ '' '' @ months ! nat (tm_mon g) @ '' '' @
      (let y = nat (tm_year g + 1900) in [digit_char (y div 1000), digit_char (y div 100), digit_char (y div 10), digit_char y]) @ '' '' @
      (two_digits (tm_hour g) @ '':'' @ two_digits (tm_min g) @ '':'' @ two_digits (tm_sec g)) @ '' '' @ ''GMT''"
    by (simp add: build_last_modified_def assms(2) Let_def)
  show ?thesis
    unfolding eq tokenize_date_def tokenize_string_def Let_def tokenize_word [OF wd(1)] tokenize_word [OF two_digits_words(1)]
      tokenize_word [OF mo(1)] tokenize_word [OF yr] tokenize_word [OF ti] append_Nil
    by (simp only: sp(3,4) wd(2) mo(2) two_digits_words(3) tokenize_word [OF two_digits_words(1)] tokenize_word [OF mo(1)]
        tokenize_word [OF yr] tokenize_word [OF ti] append_Nil gmt list.distinct append_is_Nil_conv simp_thms)
qed

lemma time_tokens:
  "tokenize_time (two_digits a @ '':'' @ two_digits b @ '':'' @ two_digits c) = [two_digits a, two_digits b, two_digits c]"
proof -
  have sp: "w \<noteq> [] \<Longrightarrow> tokenize_loop '':'' w ('':'' @ s) = w # tokenize_loop '':'' [] s" for w s by (simp add: is_delim_def)
  have e: "tokenize_loop '':'' [] (two_digits c) = [two_digits c]"
    using tokenize_word [OF two_digits_words(2), of "[]" c "[]"] two_digits_words(3) [of c] by simp
  show ?thesis
    unfolding tokenize_time_def tokenize_string_def
    by (simp only: tokenize_word [OF two_digits_words(2)] append_Nil sp two_digits_words(3) e simp_thms)
qed

section \<open>Ranges without an end\<close>

lemma range_offset_rest: "range_offset off s = (o', Some t) \<Longrightarrow> t = [] \<or> (\<exists>u. t = CHR ''-'' # u)"
  by (induction off s rule: range_offset.induct) (auto split: if_splits)

lemma parse_range_open: "snd (parse_range s) = -1"
proof -
  obtain off r where r: "range_offset 0 (skip_unit s) = (off, r)" by (rule prod.exhaust)
  have nd: "\<not> is_digit CHR ''-''" by (simp add: is_digit_def char_code_def)
  show ?thesis
  proof (cases r)
    case (Some t)
    then show ?thesis using range_offset_rest [of 0 "skip_unit s" off t] r nd by (auto simp: parse_range_def)
  qed (simp add: parse_range_def r)
qed

lemma size_of_int_negative:
  assumes "- (2 ^ 62) \<le> i" and "i < 0"
  shows "2 ^ 63 \<le> size_of_int i"
proof -
  have "uint (word_of_int i :: 64 word) = i + 2 ^ 64"
  proof -
    have "(i + 2 ^ 64) mod 2 ^ 64 = i + 2 ^ 64" by (rule mod_pos_pos_trivial) (use assms in simp_all)
    then have "i mod 2 ^ 64 = i + 2 ^ 64" by (metis mod_add_self2)
    then show ?thesis by (simp add: uint_word_of_int)
  qed
  then show ?thesis using assms(1) by (simp add: size_of_int_def nat_uint_eq [symmetric] le_nat_iff)
qed

lemma deflate_stuck_diverges:
  assumes "z_deflate z s = Some s" and "0 < z_avail_in z s"
  shows "deflate_loop z s = None"
proof (rule ccontr)
  assume "deflate_loop z s \<noteq> None"
  then obtain y where "deflate_loop z s = Some y" by blast
  then have "\<not> (z_deflate z s = Some s \<and> 0 < z_avail_in z s)"
    by (rule deflate_loop.raw_induct [where P = "\<lambda>z s y. \<not> (z_deflate z s = Some s \<and> 0 < z_avail_in z s)", rotated])
      (auto split: if_splits option.splits)
  then show False using assms by simp
qed

section \<open>Properties\<close>


definition sample_static :: static_handler where
  "sample_static = \<lparr>doc_root = ''/var/www'', error_root = '''', index_page_css = '''', allow_index = True, allow_compression = False,
     compression_memlevel = 5, compression_level = -1, sh_cache = IOCache, charset = ''''\<rparr>"


text \<open>A path that does not begin with a slash keeps a leading dot entry: with a prefix rule that strips the slash and
  a document root that ends in one, the request leaves the document root.\<close>

lemma relative_path_escapes:
  "rules_match_uri rx [\<lparr>rule_handlers = [0], rule_matcher = Some (PrefixMatcher ''/f/'')\<rparr>] (sample_request\<lparr>rq_path := ''/f/../x'', rq_uri := ''/f/../x''\<rparr>) =
    Some (Some \<lparr>rule_handlers = [0], rule_matcher = Some (PrefixMatcher ''/f/'')\<rparr>, sample_request\<lparr>rq_path := ''../x'', rq_uri := ''../x''\<rparr>)"
  "resolve [] (path_entries [] (''/var/www/'' @ remove_path_dots (http_url_decode ''../x''))) = [''var'', ''x'']"
  by (simp_all add: remove_path_dots_def string_remove_dots.simps)

text \<open>A date the server sends is understood when it comes back: parsing the \<open>Last-Modified\<close> text gives the calendar
  fields it was made from.\<close>

lemma last_modified_roundtrip:
  assumes "tm_ok (gmtime t)"
  shows "parse_datetime (build_last_modified gmtime t) = Some (snd (gmtime t))"
proof -
  obtain d g where g: "gmtime t = (d, g)" by (rule prod.exhaust)
  let ?y = "nat (tm_year g + 1900)"
  have y: "?y < 10000" "int ?y = tm_year g + 1900" "int ?y > 100" using assms g by (auto simp: tm_ok_def)
  note toks = date_tokens [of gmtime t, OF assms g]
  have fields: "parse_digits (two_digits (tm_mday g)) 2 = Some (tm_mday g)" "parse_digits (two_digits (tm_hour g)) 2 = Some (tm_hour g)"
    "parse_digits (two_digits (tm_min g)) 2 = Some (tm_min g)" "parse_digits (two_digits (tm_sec g)) 2 = Some (tm_sec g)"
    "parse_month (months ! nat (tm_mon g)) = Some (tm_mon g)"
    using assms g parse_two_digits month_cases by (auto simp: tm_ok_def)
  show ?thesis
    unfolding parse_datetime_def toks
    using fields parse_four_digits [OF y(1)] y by (simp add: Let_def time_tokens [simplified] g)
qed

text \<open>The end of a requested range is never looked at and no range is ever refused.  Every \<open>Range\<close> header is taken to
  ask for the rest of the file from its offset; when the offset lies behind the end of the file, the length is negative and a cached file
  is read outside its block.\<close>

lemma range_never_checked:
  "request_range file_size range_str = Some (fst (parse_range range_str), file_size - fst (parse_range range_str)) \<and>
   (length d < 2 ^ 62 \<and> file_size = int (length d) \<and> file_size < fst (parse_range range_str) \<and> fst (parse_range range_str) < 2 ^ 62 \<longrightarrow>
    cached_slice d (fst (parse_range range_str)) (file_size - fst (parse_range range_str)) = None)"
proof -
  let ?off = "fst (parse_range range_str)"
  have rr: "request_range file_size range_str = Some (?off, file_size - ?off)"
    using parse_range_open [of range_str] by (cases "parse_range range_str") (auto simp: request_range_def)
  moreover have "cached_slice d ?off (file_size - ?off) = None"
    if a: "length d < 2 ^ 62" "file_size = int (length d)" "file_size < ?off" "?off < 2 ^ 62"
  proof -
    have "2 ^ 63 \<le> size_of_int (file_size - ?off)" using a by (intro size_of_int_negative) auto
    then show ?thesis using a(1) by (simp add: cached_slice_def)
  qed
  ultimately show ?thesis by simp
qed

text \<open>A plain \<open>GET\<close> of a regular file is answered by the status line, the date, the length of the file and then the
  whole file, with the descriptor handed to the output stream.\<close>

lemma static_get_sends_file:
  assumes req: "rq_method req = HTTP_GET" "find_header_value (rq_headers req) ''If-Modified-Since'' = ''''"
      "find_header_value (rq_headers req) ''Range'' = ''''"
    and fil: "fs_stat (file_sys pf) (doc_root h @ remove_path_dots (http_url_decode (rq_path req))) = Some st"
      "st_kind st = Regular" "0 \<le> st_size st" "fs_open (file_sys pf) (doc_root h @ remove_path_dots (http_url_decode (rq_path req))) = Some fd"
    and cache: "max_cache_entry (sh_cache h) = 0"
    and io: "resp io = HttpResponse ''''" "sent_items io = []"
  shows "\<exists>io'. static_handle_request pf h req io = Some (h, io') \<and> closed io' = closed io \<and> out (resp io') = '''' \<and> is_responded (resp io') \<and> responded_status (resp io') = kHttpResponseOK \<and>
    sent_items io' = [OText (status_line kHttpResponseOK @
        ''Last-Modified: '' @ build_last_modified (gm_time pf) (st_mtime st) @ kHttpNewLine @
        ''Content-Length: '' @ format_number (st_size st) @ kHttpNewLine @ kHttpNewLine), OFile (int fd) 0 (st_size st)]"
proof -
  have nm: "\<not> validate_client_cache pf st req" using req(2) by (simp add: validate_client_cache_def parse_datetime_def tokenize_date_def tokenize_string_def)
  have m: "HTTP_GET \<noteq> HTTP_HEAD" by (simp add: HTTP_GET_def HTTP_HEAD_def)
  let ?r = "set_content_length (st_size st) (add_header ''Last-Modified'' (build_last_modified (gm_time pf) (st_mtime st)) (disable_prepare_buffer (HttpResponse '''')))"
  have ic: "\<not> ignore_compare ''Last-Modified'' ''content-length''" "\<not> ignore_compare ''Last-Modified'' ''transfer-encoding''"
    by (simp_all add: ignore_compare_def)
  have r: "out ?r = ''''" "rs_headers ?r = [(''Last-Modified'', build_last_modified (gm_time pf) (st_mtime st))]" "has_content_length ?r"
    "content_length ?r = st_size st" "prepare_buffer ?r = ''''"
    by (simp_all add: set_content_length_def add_header_def ic disable_prepare_buffer_def HttpResponse_def response_reset_def)
  have resp: "is_responded (respond kHttpResponseOK ?r)" "responded_status (respond kHttpResponseOK ?r) = kHttpResponseOK" by (simp_all add: respond_def Let_def)
  have ho: "h\<lparr>sh_cache := sh_cache h\<rparr> = h" by simp
  show ?thesis
    using req fil cache io nm m r resp ho respond_out [of kHttpResponseOK ?r]
    by (simp add: static_handle_request_def respond_file_content_def access_cache_def try_open_file_def open_file_def send_content_def
        upd_resp_def response_write_file_def finish_file_def Let_def header_lines_def)
qed

definition sample_platform :: "(int, unit) platform" where
  "sample_platform = \<lparr>file_sys = \<lparr>fs_stat = (\<lambda>_. Some \<lparr>st_kind = Regular, st_mtime = 0, st_size = 3\<rparr>), fs_open = (\<lambda>_. Some 9),
       fs_fstat = (\<lambda>_. None), fs_reads = (\<lambda>_. None), fs_readdir = (\<lambda>_. None)\<rparr>,
     gm_time = (\<lambda>_. (4, \<lparr>tm_sec = 0, tm_min = 0, tm_hour = 0, tm_mday = 1, tm_mon = 0, tm_year = 70\<rparr>)), mk_time = (\<lambda>_. 0), local_time = (\<lambda>_. ''''),
     a_to_f = (\<lambda>_. 0), fresh_block = (\<lambda>n. replicate n 0),
     z_lib = \<lparr>z_init = (\<lambda>_. None), z_deflate = (\<lambda>_. None), z_avail_in = (\<lambda>_. 0), z_output = (\<lambda>_. [])\<rparr>\<rparr>"

text \<open>A request answered with \<open>304\<close> leaves the file it opened open: the descriptor is neither closed nor handed on.\<close>

lemma not_modified_leaks_fd:
  assumes "rq_method req = HTTP_GET" and "fs_open (file_sys pf) path = Some fd" and "max_cache_entry (sh_cache h) = 0"
    and "validate_client_cache pf st req"
  shows "\<exists>io'. respond_file_content pf h path st req io = Some (h, io') \<and> opened io' = opened io @ [fd] \<and> closed io' = closed io \<and>
    sent_items io' = sent_items io"
  using assms
  by (simp add: respond_file_content_def access_cache_def try_open_file_def open_file_def HTTP_GET_def HTTP_HEAD_def Let_def upd_resp_def
      finish_file_def)

end
