(* ===== verification/Controller.thy ===== *)
theory Controller
  imports Main
begin

text \<open>
  The thread-pool controller of \<^verbatim>\<open>src/core/controller.{h,cc}\<close>: load accounting and the decision to start another
  thread, taken every \<open>kCheckAutoCreate\<close> milliseconds.  A thread is a number; \<open>long\<close> values are integers.  Each operation
  holds the controller's mutex from beginning to end, so any history is a sequence of operations; the insertion of a
  started thread, which the code does without the mutex, is an operation of its own.
\<close>

section \<open>Definitions\<close>

record controller =
  auto_threads :: "nat list"
  load_history :: "int list"
  reserve :: nat
  current_load :: int
  current_speed :: int
  best_speed :: int
  best_threads_size :: nat

definition Controller :: controller where
  "Controller = \<lparr>auto_threads = [], load_history = [], reserve = 0, current_load = 0, current_speed = 0, best_speed = 0, best_threads_size = 0\<rparr>"

definition is_auto_created :: "nat \<Rightarrow> controller \<Rightarrow> bool" where
  "is_auto_created i c \<longleftrightarrow> i \<in> set (auto_threads c)"

definition exit_auto_thread :: "nat \<Rightarrow> controller \<Rightarrow> controller" where
  "exit_auto_thread i c = c\<lparr>auto_threads := removeAll i (auto_threads c)\<rparr>"

definition increase_load :: "int \<Rightarrow> controller \<Rightarrow> controller" where
  "increase_load inc c = c\<lparr>current_load := current_load c + inc\<rparr>"

definition decrease_load :: "int \<Rightarrow> controller \<Rightarrow> controller" where
  "decrease_load d c = c\<lparr>current_load := current_load c - d, current_speed := current_speed c + d\<rparr>"

definition kMaxFeedback :: nat where "kMaxFeedback = 16"
definition kMinFeedback :: nat where "kMinFeedback = 8"
definition kMinLoad :: int where "kMinLoad = 15"
definition kMaxThread :: nat where "kMaxThread = 128"

text \<open>The loop over the history: \<open>None\<close> when it returns, otherwise the sums of the older and the newer half.\<close>

fun sum_loads :: "nat \<Rightarrow> nat \<Rightarrow> int list \<Rightarrow> int \<Rightarrow> int \<Rightarrow> (int \<times> int) option" where
  "sum_loads n i [] sum_last sum_now = Some (sum_last, sum_now)"
| "sum_loads n i (load # ls) sum_last sum_now =
    (if i < n div 2 then sum_loads n (Suc i) ls (sum_last + load) sum_now
     else if i \<ge> (n + 1) div 2
     then (if load < kMinLoad then None else sum_loads n (Suc i) ls sum_last (sum_now + load))
     else sum_loads n (Suc i) ls sum_last sum_now)"

definition check_auto_create :: "controller \<Rightarrow> bool \<times> controller" where
  "check_auto_create c0 =
    (let hist = (if length (load_history c0) = kMaxFeedback then tl (load_history c0) else load_history c0) @ [current_load c0];
         at_size = length (auto_threads c0);
         lh_size = length hist;
         c1 = c0\<lparr>load_history := hist\<rparr>;
         c2 = (if best_speed c1 < current_speed c1 then c1\<lparr>best_speed := current_speed c1, best_threads_size := at_size\<rparr> else c1);
         c3 = c2\<lparr>current_speed := 0\<rparr>
     in if reserve c3 > 0 then (False, c3\<lparr>reserve := reserve c3 - 1\<rparr>)
        else if at_size > kMaxThread then (False, c3)
        else if lh_size < kMinFeedback then (False, c3)
        else if best_threads_size c3 < at_size then (False, c3)
        else case sum_loads lh_size 0 hist 0 0 of
               None \<Rightarrow> (False, c3)
             | Some (sum_last, sum_now) \<Rightarrow>
                 if sum_last > sum_now then (False, c3) else (True, c3\<lparr>reserve := kMaxFeedback\<rparr>))"

datatype controller_op = IncreaseLoad int | DecreaseLoad int | Check | Started nat | Exited nat

text \<open>A history: how many checks it has, and in how many a thread was created.\<close>

fun run_controller :: "controller_op list \<Rightarrow> controller \<Rightarrow> nat \<times> nat \<times> controller" where
  "run_controller [] c = (0, 0, c)"
| "run_controller (IncreaseLoad n # os) c = run_controller os (increase_load n c)"
| "run_controller (DecreaseLoad n # os) c = run_controller os (decrease_load n c)"
| "run_controller (Started i # os) c = run_controller os (c\<lparr>auto_threads := List.insert i (auto_threads c)\<rparr>)"
| "run_controller (Exited i # os) c = run_controller os (exit_auto_thread i c)"
| "run_controller (Check # os) c =
    (let (b, c1) = check_auto_create c; (checks, created, c2) = run_controller os c1
     in (Suc checks, (if b then Suc created else created), c2))"

section \<open>Rate of creation\<close>

lemma check_reserve:
  assumes "check_auto_create c = (b, c')"
  shows "if b then reserve c = 0 \<and> reserve c' = kMaxFeedback else reserve c' = reserve c - 1"
  using assms by (auto simp: check_auto_create_def Let_def split: if_splits option.splits)

lemma check_history:
  assumes "check_auto_create c = (b, c')" and "length (load_history c) \<le> kMaxFeedback"
  shows "length (load_history c') \<le> kMaxFeedback"
proof -
  have h: "load_history c' = (if length (load_history c) = kMaxFeedback then tl (load_history c) else load_history c) @ [current_load c]"
    using assms(1) by (auto simp: check_auto_create_def Let_def split: if_splits option.splits)
  show ?thesis using assms(2) unfolding h by (auto simp: kMaxFeedback_def)
qed

lemma sum_loads_minimum:
  assumes "sum_loads n i ls a b = Some r"
  shows "\<forall>j < length ls. (n + 1) div 2 \<le> i + j \<longrightarrow> kMinLoad \<le> ls ! j"
  using assms
proof (induction n i ls a b rule: sum_loads.induct)
  case (2 n i load ls a b)
  show ?case
  proof (intro allI impI)
    fix j assume j: "j < length (load # ls)" "(n + 1) div 2 \<le> i + j"
    show "kMinLoad \<le> (load # ls) ! j"
    proof (cases j)
      case 0
      then show ?thesis using 2(4) j by (auto split: if_splits)
    next
      case (Suc k)
      then show ?thesis using 2 j by (auto split: if_splits)
    qed
  qed
qed simp

lemma check_create:
  assumes "check_auto_create c = (True, c')"
  shows "length (auto_threads c) \<le> kMaxThread \<and> kMinFeedback \<le> length (load_history c') \<and>
    (\<forall>j < length (load_history c'). (length (load_history c') + 1) div 2 \<le> j \<longrightarrow> kMinLoad \<le> load_history c' ! j)"
proof -
  define hist where "hist = (if length (load_history c) = kMaxFeedback then tl (load_history c) else load_history c) @ [current_load c]"
  have h: "load_history c' = hist"
    using assms by (auto simp: check_auto_create_def hist_def Let_def split: if_splits option.splits)
  obtain r where "sum_loads (length hist) 0 hist 0 0 = Some r" and a: "length (auto_threads c) \<le> kMaxThread" "kMinFeedback \<le> length hist"
    using assms unfolding check_auto_create_def hist_def [symmetric] Let_def by (auto split: if_splits option.splits)
  then show ?thesis using sum_loads_minimum h by fastforce
qed

lemma run_controller_rate:
  assumes "run_controller os c = (checks, created, c')" and "length (load_history c) \<le> kMaxFeedback" and "reserve c \<le> kMaxFeedback"
  shows "(kMaxFeedback + 1) * created + reserve c \<le> checks + reserve c' \<and> length (load_history c') \<le> kMaxFeedback \<and> reserve c' \<le> kMaxFeedback"
  using assms
proof (induction os c arbitrary: checks created rule: run_controller.induct)
  case (6 os c)
  obtain b c1 where ch: "check_auto_create c = (b, c1)" by (rule prod.exhaust)
  obtain k m where run: "run_controller os c1 = (k, m, c')" "checks = Suc k" "created = (if b then Suc m else m)"
    using "6.prems"(1) ch by (auto split: prod.splits)
  have "length (load_history c1) \<le> kMaxFeedback" using check_history [OF ch] "6.prems"(2) by simp
  moreover have "reserve c1 \<le> kMaxFeedback" using check_reserve [OF ch] "6.prems"(3) by (auto split: if_splits)
  ultimately have "(kMaxFeedback + 1) * m + reserve c1 \<le> k + reserve c' \<and> length (load_history c') \<le> kMaxFeedback \<and> reserve c' \<le> kMaxFeedback"
    using "6.IH" [OF ch [symmetric] refl run(1)] by blast
  then show ?case using check_reserve [OF ch] run(2,3) by (cases b) auto
qed (simp_all add: increase_load_def decrease_load_def exit_auto_thread_def)

section \<open>Properties\<close>

text \<open>C33: threads are added slowly.  In any history of load changes, checks, starts and exits, at most one thread in
  \<open>kMaxFeedback + 1\<close> checks (rounded up) is created, the load history never holds more than \<open>kMaxFeedback\<close> samples, and a
  thread is created only while no more than \<open>kMaxThread\<close> run, at least \<open>kMinFeedback\<close> samples exist and every sample of the newer
  half is at least \<open>kMinLoad\<close>.\<close>

theorem auto_threads_bounded:
  assumes "run_controller os Controller = (checks, created, c)"
  shows "(kMaxFeedback + 1) * created \<le> checks + kMaxFeedback \<and> length (load_history c) \<le> kMaxFeedback \<and>
    (\<forall>c'. check_auto_create c = (True, c') \<longrightarrow> length (auto_threads c) \<le> kMaxThread \<and> kMinFeedback \<le> length (load_history c') \<and>
      (\<forall>j < length (load_history c'). (length (load_history c') + 1) div 2 \<le> j \<longrightarrow> kMinLoad \<le> load_history c' ! j))"
proof -
  have "length (load_history Controller) \<le> kMaxFeedback" "reserve Controller \<le> kMaxFeedback" by (simp_all add: Controller_def)
  from run_controller_rate [OF assms this] check_create show ?thesis by auto
qed

theorem auto_threads_bounded_witness:
  "\<exists>c. run_controller (IncreaseLoad 20 # replicate 8 Check) Controller = (8, 1, c) \<and> length (load_history c) \<le> 16"
proof -
  have "fst (run_controller (IncreaseLoad 20 # replicate 8 Check) Controller) = 8 \<and>
      fst (snd (run_controller (IncreaseLoad 20 # replicate 8 Check) Controller)) = 1" by code_simp
  then obtain c where "run_controller (IncreaseLoad 20 # replicate 8 Check) Controller = (8, 1, c)" by (metis prod.collapse)
  with auto_threads_bounded [OF this] show ?thesis by (auto simp: kMaxFeedback_def)
qed

end
