(* ===== verification/Response.thy ===== *)
theory Response
  imports Stream
begin

text \<open>
  The response side of \<^verbatim>\<open>src/core/wrapper.{h,cc}\<close>: writing through the output stream with a memory limit, flushing in
  blocking mode, and the code by which a stage decides about the connection's lock.  The socket may behave differently in every
  call: \<open>sks n\<close> is its behaviour in the \<open>n\<close>-th write.
\<close>

section \<open>Definitions\<close>

record core_response =
  max_mem :: nat
  inactive :: bool
  rs_stream :: out_stream
  rs_heap :: buf_heap
  rs_continuation :: bool

definition kMaxMemorySizes :: nat where "kMaxMemorySizes = 4 * 1024 * 1024"

definition Response :: "bool \<Rightarrow> out_stream \<Rightarrow> buf_heap \<Rightarrow> core_response" where
  "Response cont s h = \<lparr>max_mem = kMaxMemorySizes, inactive = False, rs_stream = s, rs_heap = h, rs_continuation = cont\<rparr>"

definition kStageKeepLock :: int where "kStageKeepLock = -1"
definition kStageReleaseLock :: int where "kStageReleaseLock = 0"

definition response_code :: "core_response \<Rightarrow> int" where
  "response_code r =
    (if rs_continuation r then kStageKeepLock
     else if \<not> inactive r \<and> \<not> is_done (rs_stream r) then kStageKeepLock
     else kStageReleaseLock)"

text \<open>The destructor: whether the connection is corked and handed to the write back stage.\<close>

definition response_flushes :: "core_response \<Rightarrow> bool" where
  "response_flushes r \<longleftrightarrow> response_code r = kStageKeepLock \<and> \<not> rs_continuation r"

text \<open>The loop of \<open>flush_data\<close>; \<open>None\<close> when it does not end.\<close>

partial_function (option) flush_loop :: "(nat \<Rightarrow> socket) \<Rightarrow> nat \<Rightarrow> int \<Rightarrow> buf_heap \<Rightarrow> out_stream \<Rightarrow> (int \<times> out_stream \<times> buf_heap) option" where
  "flush_loop sks n nwrite h s =
    (let (rs, s', h') = write_into_output (sks n) h s
     in if rs < 0 then Some (rs, s', h')
        else if rs = 0 then Some (nwrite, s', h')
        else flush_loop sks (Suc n) (nwrite + rs) h' s')"

definition flush_data :: "(nat \<Rightarrow> socket) \<Rightarrow> core_response \<Rightarrow> (int \<times> core_response) option" where
  "flush_data sks r =
    map_option (\<lambda>(n, s, h). (n, r\<lparr>rs_stream := s, rs_heap := h\<rparr>)) (flush_loop sks 0 0 (rs_heap r) (rs_stream r))"

definition response_write_data :: "(nat \<Rightarrow> socket) \<Rightarrow> byte list \<Rightarrow> core_response \<Rightarrow> (int \<times> core_response) option" where
  "response_write_data sks dat r =
    (let (s, h) = stream_append_data (rs_heap r) (rs_stream r) dat; r' = r\<lparr>rs_stream := s, rs_heap := h\<rparr>
     in if unat (stream_memory s) > max_mem r
        then (case flush_data sks r' of
                None \<Rightarrow> None
              | Some (ret, r2) \<Rightarrow> if ret \<le> 0 then Some (ret, r2) else Some (int (length dat), r2))
        else Some (int (length dat), r'))"

definition response_close :: "core_response \<Rightarrow> core_response" where
  "response_close r = r\<lparr>inactive := True\<rparr>"

definition suspend_continuation :: "core_response \<Rightarrow> core_response" where
  "suspend_continuation r = r\<lparr>rs_continuation := True\<rparr>"

definition restore_continuation :: "core_response \<Rightarrow> bool \<times> core_response" where
  "restore_continuation r = (rs_continuation r, r\<lparr>rs_continuation := False\<rparr>)"

section \<open>A blocking socket makes progress\<close>

text \<open>A write on a blocking socket transfers at least one byte when there is one.\<close>

definition blocking_ok :: "socket \<Rightarrow> (nat \<Rightarrow> byte list) \<Rightarrow> bool" where
  "blocking_ok sk files \<longleftrightarrow> socket_ok sk files \<and> (\<forall>bs. bs \<noteq> [] \<longrightarrow> 0 < sock_writev sk bs) \<and>
     (\<forall>fd off n. 0 \<le> off \<longrightarrow> nat off < length (files fd) \<longrightarrow> 0 < n \<longrightarrow> 0 < sock_sendfile sk fd off n)"

lemma stream_inv_socket: "stream_inv (sk, files, h) others ws \<Longrightarrow> socket_ok sk' files \<Longrightarrow> stream_inv (sk', files, h) others ws"
  by (simp add: stream_inv_def)

lemma stream_pending_socket: "stream_pending (sk', files, h) ws = stream_pending (sk, files, h) ws"
proof -
  have "w_pending (sk', files, h) w = w_pending (sk, files, h) w" for w by (cases w rule: writeable.exhaust) simp_all
  then show ?thesis unfolding stream_pending_def by presburger
qed

lemma write_progress:
  assumes "w_ok (sk, files, h) w" and "blocking_ok sk files" and "\<not> writeable_eof w" and "writeable_write sk h w = (n, w', h')"
  shows "0 < n"
proof (cases w rule: writeable.exhaust)
  case (WBuffer b)
  obtain b1 h1 where pw: "prepare_write h b = (b1, h1)" by (rule prod.exhaust)
  have ok: "heap_ok h" "buf_ok h b" "0 < buf_size b" using assms(1,3) WBuffer by (simp_all add: writeable_eof_def)
  note sp = prepare_write_spec [OF ok(1,2) pw]
  have b1: "buf_ok h1 b1" "0 < buf_size b1" using sp ok(3) by auto
  have "concat (iovecs (buf_pages h1 b1) (left_offset b1) (right_offset b1)) \<noteq> []"
    using iovecs_nonempty [OF buf_okD(1) [OF b1(1)] b1(2)] by simp
  then have "0 < sock_writev sk (concat (iovecs (buf_pages h1 b1) (left_offset b1) (right_offset b1)))"
    using assms(2) by (simp add: blocking_ok_def)
  then show ?thesis using assms(4) WBuffer pw b1(2) by (auto simp: write_to_fd_def Let_def split: prod.splits if_splits)
next
  case (WFile f)
  have ok: "file_ok files f" using assms(1) WFile by simp
  then have sz: "0 < nat (file_length f)" using assms(3) WFile by (simp add: writeable_eof_def file_length_size)
  have "0 < sock_sendfile sk (file_fd f) (file_offset f) (min (size_of_int (file_length f)) kPageSize)"
    using assms(2) ok sz by (auto simp: blocking_ok_def file_length_size [OF ok] file_ok_def)
  then show ?thesis using assms(4) WFile by (auto simp: file_write_to_fd_def Let_def split: if_splits)
qed

definition no_empty :: "writeable list \<Rightarrow> bool" where
  "no_empty ws \<longleftrightarrow> (\<forall>w \<in> set ws. \<not> writeable_eof w)"

lemma write_step:
  assumes inv: "stream_inv (sk, files, h) others (writeables s)" and blk: "blocking_ok sk files" and ne: "no_empty (writeables s)"
    and some: "writeables s \<noteq> []" and wr: "write_into_output sk h s = (n, s', h')"
  shows "0 < n \<and> no_empty (writeables s') \<and> nat n \<le> length (stream_pending (sk, files, h) (writeables s))"
proof -
  obtain w ws where ws: "writeables s = w # ws" using some by (cases "writeables s") auto
  obtain m w' h1 where w: "writeable_write sk h w = (m, w', h1)" by (rule prod_cases3)
  have ok: "w_ok (sk, files, h) w" using stream_inv_w_ok [OF inv] ws by simp
  have "0 < m" using write_progress [OF ok blk _ w] ne ws by (simp add: no_empty_def)
  moreover have "m = n" using wr ws w by (auto simp: write_into_output_def Let_def split: prod.splits if_splits)
  moreover have "no_empty (writeables s')"
    using wr ws w ne by (auto simp: write_into_output_def no_empty_def Let_def split: prod.splits if_splits)
  moreover have "m \<le> int (length (w_pending (sk, files, h) w))"
    using ww.put_ok [OF ok, of m w' "(sk, files, h1)"] w by simp
  ultimately show ?thesis using ws by simp
qed

lemma flush_loop_ends:
  assumes "stream_inv (sk, files, h) others (writeables s)" and blk: "\<And>n. blocking_ok (sks n) files" and "no_empty (writeables s)"
  shows "\<exists>s' h'. flush_loop sks n nw h s = Some (nw + int (length (stream_pending (sk, files, h) (writeables s))), s', h') \<and>
    writeables s' = [] \<and> (\<forall>c \<in> set others. contents h' c = contents h c)"
  using assms(1,3)
proof (induction "length (stream_pending (sk, files, h) (writeables s))" arbitrary: n nw h s rule: less_induct)
  case less
  obtain rs s1 h1 where wr: "write_into_output (sks n) h s = (rs, s1, h1)" by (rule prod_cases3)
  show ?case
  proof (cases "writeables s = []")
    case True
    then have "rs = 0" "s1 = s" "h1 = h" using wr by (auto simp: write_into_output_def)
    then show ?thesis using True wr by (subst flush_loop.simps) simp
  next
    case False
    have ok: "socket_ok (sks n) files" "socket_ok sk files" using blk less.prems(1) by (auto simp: blocking_ok_def stream_inv_def)
    have inv: "stream_inv (sks n, files, h) others (writeables s)" using stream_inv_socket [OF less.prems(1) ok(1)] .
    note st = write_step [OF inv blk less.prems(2) False wr]
    note sp = write_into_output_spec [OF inv wr]
    let ?p = "stream_pending (sk, files, h) (writeables s)"
    have p1: "stream_pending (sk, files, h1) (writeables s1) = drop (nat rs) ?p"
      using sp stream_pending_socket by metis
    have le: "nat rs \<le> length ?p" using st stream_pending_socket by metis
    then have "0 < length ?p" using st by linarith
    then have "length (stream_pending (sk, files, h1) (writeables s1)) < length ?p" using st p1 by simp
    moreover have "stream_inv (sk, files, h1) others (writeables s1)" using sp stream_inv_socket [OF _ ok(2)] by blast
    ultimately obtain s' h' where fl: "flush_loop sks (Suc n) (nw + rs) h1 s1 =
        Some (nw + rs + int (length (stream_pending (sk, files, h1) (writeables s1))), s', h')" "writeables s' = []"
        "\<forall>c \<in> set others. contents h' c = contents h1 c"
      using less.hyps [of h1 s1] st by blast
    have "nw + rs + int (length (stream_pending (sk, files, h1) (writeables s1))) = nw + int (length ?p)"
      using p1 le st by (simp add: of_nat_diff)
    then show ?thesis using fl wr st sp by (subst flush_loop.simps) simp
  qed
qed

section \<open>Properties\<close>


definition busy_socket :: socket where
  "busy_socket = \<lparr>sock_writev = (\<lambda>bs. if bs = [] then 0 else 1), sock_sendfile = (\<lambda>fd off n. 0)\<rparr>"


end
