(* ===== verification/Http_Stages.thy ===== *)
theory Http_Stages
  imports Static_Handler Controller Stages Response
begin

text \<open>
  The HTTP stages of \<^verbatim>\<open>src/http/http_stages.{h,cc}\<close>: the parser stage, which turns input into requests and passes the
  connection on, and the handler stage, which runs the handler chain of each request.  A task is what a stage sees of one
  connection.  Handlers are a parameter: the handler at an address acts on the request, the response and its own
  state, and may suspend the connection (\<open>suspend_continuation\<close>).  The controller exists only with auto tuning.
\<close>

section \<open>Connections\<close>

definition HttpConnectionFactory_timeout :: int where "HttpConnectionFactory_timeout = 15"

definition create_connection :: "int \<Rightarrow> bool \<Rightarrow> int \<Rightarrow> nat \<Rightarrow> connection" where
  "create_connection timeout cork now fd = set_cork_enabled cork ((Connection now fd)\<lparr>c_timeout := timeout\<rparr>)"

section \<open>Parser stage\<close>

text \<open>What the parser stage did with a connection.\<close>

record parse_outcome =
  closed_conn :: bool
  to_handler :: bool
  po_controller :: "controller option"

definition stage_increase_load :: "int \<Rightarrow> controller option \<Rightarrow> controller option" where
  "stage_increase_load load c = map_option (increase_load load) c"

text \<open>After a parse error the connection is closed, and the rest of the function still runs.\<close>

definition parser_process_task ::
  "'p parser_lib \<Rightarrow> (string \<Rightarrow> string \<Rightarrow> bool) \<Rightarrow> vhost_config \<Rightarrow> controller option \<Rightarrow> 'p http_conn \<Rightarrow> (int \<times> parse_outcome \<times> 'p http_conn) option" where
  "parser_process_task lib rx cfg ctl c =
    (let orig_size = length (hc_requests c)
     in case do_parse lib rx cfg c of
          None \<Rightarrow> None
        | Some (ok, c1) \<Rightarrow>
            let ctl1 = (if ok then ctl else stage_increase_load (- int (length (hc_requests c1))) ctl);
                ready = is_ready c1;
                ctl2 = (if ready then stage_increase_load (int (length (hc_requests c1)) - int orig_size) ctl1 else ctl1)
            in Some (0, \<lparr>closed_conn = \<not> ok, to_handler = ready, po_controller = ctl2\<rparr>, c1))"

section \<open>Handler stage\<close>

definition kMaxContinuesRequestNumber :: nat where "kMaxContinuesRequestNumber = 3"

record 's handler_task =
  ht_requests :: "request_data list"
  ht_io :: handler_io
  ht_state :: 's
  ht_suspended :: bool
  ht_close_after_finish :: bool
  ht_rescheduled :: bool
  ht_log :: "(string \<times> string \<times> int) list"

text \<open>A handler: the response, its own state, and whether it suspended the connection; \<open>None\<close> when it fails.\<close>

type_synonym 's handler = "request_data \<Rightarrow> handler_io \<times> 's \<Rightarrow> (bool \<times> handler_io \<times> 's) option"

fun run_chain :: "(nat \<Rightarrow> 's handler) \<Rightarrow> nat list \<Rightarrow> request_data \<Rightarrow> handler_io \<times> 's \<Rightarrow> (bool \<times> handler_io \<times> 's) option" where
  "run_chain hs [] req (io, st) = Some (False, upd_resp (respond_with_message kHttpResponseServiceUnavailable) io, st)"
| "run_chain hs (a # as) req (io, st) =
    (case hs a req (io, st) of
       None \<Rightarrow> None
     | Some (True, io1, st1) \<Rightarrow> Some (True, io1, st1)
     | Some (False, io1, st1) \<Rightarrow> if is_responded (resp io1) then Some (False, io1, st1) else run_chain hs as req (io1, st1))"

definition log_respond :: "request_data \<Rightarrow> http_response \<Rightarrow> string \<times> string \<times> int" where
  "log_respond req r = (method_string (rq_method req), rq_complete_uri req, status_code (responded_status r))"

definition trigger_handler :: "(nat \<Rightarrow> 's handler) \<Rightarrow> request_data \<Rightarrow> 's handler_task \<Rightarrow> 's handler_task option" where
  "trigger_handler hs req t =
    (let outcome =
       (case rq_url_rule req of
          None \<Rightarrow> Some (False, upd_resp (\<lambda>r. respond kHttpResponseServiceUnavailable (write_data ''This url is not configured.'' r)) (ht_io t), ht_state t)
        | Some rule \<Rightarrow>
            let io = (if rq_keep_alive req \<and> rq_version_minor req = 0 then upd_resp (add_header ''Connection'' ''Keep-Alive'') (ht_io t) else ht_io t)
            in run_chain hs (rule_handlers rule) req (io, ht_state t))
     in case outcome of
          None \<Rightarrow> None
        | Some (True, io, st) \<Rightarrow> Some (t\<lparr>ht_io := io, ht_state := st, ht_suspended := True\<rparr>)
        | Some (False, io, st) \<Rightarrow>
            Some (t\<lparr>ht_log := ht_log t @ [log_respond req (resp io)], ht_io := upd_resp response_reset io, ht_state := st\<rparr>))"

text \<open>The loop of \<open>process_task\<close>, with the number of iterations left; the flag tells whether it ran to the end.\<close>

fun serve_loop :: "(nat \<Rightarrow> 's handler) \<Rightarrow> nat \<Rightarrow> 's handler_task \<Rightarrow> (bool \<times> 's handler_task) option" where
  "serve_loop hs 0 t = Some (True, t)"
| "serve_loop hs (Suc k) t =
    (case ht_requests t of
       [] \<Rightarrow> Some (True, t)
     | req # rest \<Rightarrow>
        (case trigger_handler hs req t of
           None \<Rightarrow> None
         | Some t1 \<Rightarrow>
            if ht_suspended t1 then Some (False, t1)
            else let t2 = t1\<lparr>ht_requests := rest\<rparr>
                 in if \<not> rq_keep_alive req then Some (False, t2\<lparr>ht_close_after_finish := True\<rparr>) else serve_loop hs k t2))"

definition out_done :: "handler_io \<Rightarrow> bool" where
  "out_done io \<longleftrightarrow> sent_items io = [] \<and> out (resp io) = ''''"

definition task_response_code :: "'s handler_task \<Rightarrow> int" where
  "task_response_code t = (if ht_suspended t then kStageKeepLock else if \<not> out_done (ht_io t) then kStageKeepLock else kStageReleaseLock)"

definition handler_process_task ::
  "(nat \<Rightarrow> 's handler) \<Rightarrow> controller option \<Rightarrow> 's handler_task \<Rightarrow> (int \<times> controller option \<times> 's handler_task) option" where
  "handler_process_task hs ctl t0 =
    (let orig_size = length (ht_requests t0)
     in case serve_loop hs kMaxContinuesRequestNumber (t0\<lparr>ht_rescheduled := False\<rparr>) of
          None \<Rightarrow> None
        | Some (to_end, t) \<Rightarrow>
            let t1 = (if to_end \<and> ht_requests t \<noteq> [] then t\<lparr>ht_rescheduled := True\<rparr> else t);
                ctl1 = map_option (decrease_load (int orig_size - int (length (ht_requests t1)))) ctl
            in Some (task_response_code t1, ctl1, t1))"

definition handler_sched_remove :: "controller option \<Rightarrow> 's handler_task \<Rightarrow> nat list \<Rightarrow> (nat \<Rightarrow> nat) \<Rightarrow> nat \<Rightarrow> controller option \<times> nat list" where
  "handler_sched_remove ctl t q fd c =
    (map_option (increase_load (- int (length (ht_requests t)))) ctl, queue_remove fd c q)"

text \<open>\<open>resched_continuation\<close>: the connection is queued, then unlocked; every waiting thread looks again.\<close>

definition handler_resched :: "(nat \<Rightarrow> nat) \<Rightarrow> nat \<Rightarrow> nat list \<Rightarrow> world \<Rightarrow> nat list \<times> world" where
  "handler_resched fd c q w = (queue_add fd c q, unlock c w)"

section \<open>The static handler in a chain\<close>

definition static_chain_handler :: "((int, unit) platform) \<Rightarrow> static_handler handler" where
  "static_chain_handler pf req ios = map_option (\<lambda>(h, io). (False, io, h)) (static_handle_request pf (snd ios) req (fst ios))"

section \<open>What a chain guarantees\<close>

lemma respond_responded: "is_responded (respond st r)"
  by (simp add: respond_def Let_def)

lemma run_chain_responds: "run_chain hs as req (io, st) = Some (False, io', st') \<Longrightarrow> is_responded (resp io')"
proof (induction as arbitrary: io st)
  case Nil
  then have "io' = upd_resp (respond_with_message kHttpResponseServiceUnavailable) io" by simp
  moreover have "is_responded (respond_with_message kHttpResponseServiceUnavailable r)" for r
    unfolding respond_with_message_def Let_def by (rule respond_responded)
  ultimately show ?case by (simp add: upd_resp_def)
next
  case (Cons a as)
  obtain b io1 st1 where h: "hs a req (io, st) = Some (b, io1, st1)" using Cons.prems by (cases "hs a req (io, st)") auto
  show ?case
  proof (cases "\<not> b \<and> \<not> is_responded (resp io1)")
    case True
    then show ?thesis using Cons.prems h by (auto intro: Cons.IH)
  next
    case False
    then show ?thesis using Cons.prems h by (cases b) auto
  qed
qed

definition answered :: "request_data list \<Rightarrow> (string \<times> string \<times> int) list \<Rightarrow> bool" where
  "answered reqs log \<longleftrightarrow> map (\<lambda>(m, u, s). (m, u)) log = map (\<lambda>q. (method_string (rq_method q), rq_complete_uri q)) reqs"

lemma trigger_handler_cases:
  assumes "trigger_handler hs req t = Some t'" and "\<not> ht_suspended t"
  shows "ht_requests t' = ht_requests t \<and> ht_close_after_finish t' = ht_close_after_finish t \<and> ht_rescheduled t' = ht_rescheduled t \<and>
    (if ht_suspended t' then ht_log t' = ht_log t
     else \<exists>s. ht_log t' = ht_log t @ [(method_string (rq_method req), rq_complete_uri req, s)])"
  using assms
  by (auto simp: trigger_handler_def log_respond_def Let_def split: option.splits bool.splits prod.splits if_splits)

lemma serve_loop_spec:
  assumes "serve_loop hs k t = Some (e, t')" and "\<not> ht_suspended t"
  shows "\<exists>served log. ht_requests t = served @ ht_requests t' \<and> length served \<le> k \<and> ht_log t' = ht_log t @ log \<and> answered served log \<and>
    (if ht_suspended t' then \<not> e \<and> ht_requests t' \<noteq> []
     else if e then (ht_requests t' = [] \<or> length served = k) \<and> ht_close_after_finish t' = ht_close_after_finish t
     else served \<noteq> [] \<and> \<not> rq_keep_alive (last served) \<and> ht_close_after_finish t') \<and>
    (\<forall>q \<in> set (butlast served). rq_keep_alive q) \<and> (e \<longrightarrow> (\<forall>q \<in> set served. rq_keep_alive q)) \<and> ht_rescheduled t' = ht_rescheduled t"
  using assms
proof (induction k arbitrary: t)
  case 0
  then show ?case by (auto simp: answered_def)
next
  case (Suc k)
  show ?case
  proof (cases "ht_requests t")
    case Nil
    then show ?thesis using Suc.prems by (auto simp: answered_def)
  next
    case (Cons req rest)
    obtain t1 where t1: "trigger_handler hs req t = Some t1" using Suc.prems(1) Cons by (auto split: option.splits)
    note tc = trigger_handler_cases [OF t1 Suc.prems(2)]
    consider (susp) "ht_suspended t1" | (close) "\<not> ht_suspended t1" "\<not> rq_keep_alive req" | (go) "\<not> ht_suspended t1" "rq_keep_alive req" by blast
    then show ?thesis
    proof cases
      case susp
      then have "t' = t1" "\<not> e" using Suc.prems(1) Cons t1 by auto
      then show ?thesis using susp tc Cons by (intro exI [of _ "[]"]) (auto simp: answered_def)
    next
      case close
      then have t': "t' = t1\<lparr>ht_requests := rest, ht_close_after_finish := True\<rparr>" "\<not> e" using Suc.prems(1) Cons t1 by auto
      obtain s where s: "ht_log t1 = ht_log t @ [(method_string (rq_method req), rq_complete_uri req, s)]" using tc close by auto
      show ?thesis using close t' tc Cons s
        by (intro exI [of _ "[req]"] exI [of _ "[(method_string (rq_method req), rq_complete_uri req, s)]"]) (auto simp: answered_def)
    next
      case go
      let ?t2 = "t1\<lparr>ht_requests := rest\<rparr>"
      have r: "serve_loop hs k ?t2 = Some (e, t')" "\<not> ht_suspended ?t2" using Suc.prems(1) Cons t1 go by auto
      obtain s where s: "ht_log t1 = ht_log t @ [(method_string (rq_method req), rq_complete_uri req, s)]" using tc go by auto
      from Suc.IH [OF r] obtain served log where
        ih: "ht_requests ?t2 = served @ ht_requests t'" "length served \<le> k" "ht_log t' = ht_log ?t2 @ log" "answered served log"
          "if ht_suspended t' then \<not> e \<and> ht_requests t' \<noteq> []
           else if e then (ht_requests t' = [] \<or> length served = k) \<and> ht_close_after_finish t' = ht_close_after_finish ?t2
           else served \<noteq> [] \<and> \<not> rq_keep_alive (last served) \<and> ht_close_after_finish t'"
          "\<forall>q \<in> set (butlast served). rq_keep_alive q" "e \<longrightarrow> (\<forall>q \<in> set served. rq_keep_alive q)" "ht_rescheduled t' = ht_rescheduled ?t2"
        by blast
      show ?thesis using ih go tc Cons s
        by (intro exI [of _ "req # served"] exI [of _ "(method_string (rq_method req), rq_complete_uri req, s) # log"])
          (auto simp: answered_def split: if_splits)
    qed
  qed
qed

section \<open>Serving a queue of requests\<close>

text \<open>Handlers that always answer at once.\<close>

definition prompt :: "(nat \<Rightarrow> 's handler) \<Rightarrow> bool" where
  "prompt hs \<longleftrightarrow> (\<forall>a req ios. \<exists>io st. hs a req ios = Some (False, io, st))"

lemma run_chain_prompt: "prompt hs \<Longrightarrow> \<exists>io' st'. run_chain hs as req (io, st) = Some (False, io', st')"
proof (induction as arbitrary: io st)
  case (Cons a as)
  obtain io1 st1 where "hs a req (io, st) = Some (False, io1, st1)" using Cons.prems unfolding prompt_def by blast
  then show ?case using Cons by auto
qed simp

lemma trigger_handler_prompt:
  assumes "prompt hs" and "\<not> ht_suspended t"
  shows "\<exists>t'. trigger_handler hs req t = Some t' \<and> \<not> ht_suspended t'"
proof (cases "rq_url_rule req")
  case None
  then show ?thesis using assms(2) by (simp add: trigger_handler_def Let_def)
next
  case (Some rule)
  let ?io = "if rq_keep_alive req \<and> rq_version_minor req = 0 then upd_resp (add_header ''Connection'' ''Keep-Alive'') (ht_io t) else ht_io t"
  obtain io' st' where "run_chain hs (rule_handlers rule) req (?io, ht_state t) = Some (False, io', st')"
    using run_chain_prompt [OF assms(1)] by blast
  then show ?thesis using Some assms(2) by (simp add: trigger_handler_def Let_def)
qed

lemma serve_loop_prompt:
  assumes "prompt hs" and "\<not> ht_suspended t" and "\<forall>q \<in> set (ht_requests t). rq_keep_alive q"
  shows "\<exists>t'. serve_loop hs k t = Some (True, t') \<and> \<not> ht_suspended t'"
  using assms(2,3)
proof (induction k arbitrary: t)
  case (Suc k)
  show ?case
  proof (cases "ht_requests t")
    case (Cons req rest)
    obtain t1 where t1: "trigger_handler hs req t = Some t1" "\<not> ht_suspended t1" using trigger_handler_prompt [OF assms(1) Suc.prems(1)] by blast
    have "\<exists>t'. serve_loop hs k (t1\<lparr>ht_requests := rest\<rparr>) = Some (True, t') \<and> \<not> ht_suspended t'"
      using Suc.prems(2) Cons t1(2) by (intro Suc.IH) auto
    then show ?thesis using Cons t1 Suc.prems(2) by auto
  qed (use Suc.prems in auto)
qed auto

text \<open>A connection that is scheduled again until nothing is left to do: the number of rounds is given.\<close>

fun serve_rounds :: "(nat \<Rightarrow> 's handler) \<Rightarrow> nat \<Rightarrow> 's handler_task \<Rightarrow> 's handler_task option" where
  "serve_rounds hs 0 t = Some t"
| "serve_rounds hs (Suc n) t =
    (case handler_process_task hs None t of
       None \<Rightarrow> None
     | Some (_, _, t') \<Rightarrow> if ht_rescheduled t' then serve_rounds hs n t' else Some t')"

lemma process_task_prompt:
  assumes "prompt hs" and "\<not> ht_suspended t" and "\<forall>q \<in> set (ht_requests t). rq_keep_alive q"
  shows "\<exists>code t' log. handler_process_task hs None t = Some (code, None, t') \<and> \<not> ht_suspended t' \<and>
    ht_requests t' = drop kMaxContinuesRequestNumber (ht_requests t) \<and> ht_log t' = ht_log t @ log \<and>
    answered (take kMaxContinuesRequestNumber (ht_requests t)) log \<and> ht_rescheduled t' = (ht_requests t' \<noteq> [])"
proof -
  let ?t = "t\<lparr>ht_rescheduled := False\<rparr>"
  obtain t1 where t1: "serve_loop hs kMaxContinuesRequestNumber ?t = Some (True, t1)" "\<not> ht_suspended t1"
    using serve_loop_prompt [of hs ?t] assms by auto
  obtain served log where sv: "ht_requests t = served @ ht_requests t1" "length served \<le> kMaxContinuesRequestNumber" "ht_log t1 = ht_log t @ log"
    "answered served log" "ht_requests t1 = [] \<or> length served = kMaxContinuesRequestNumber" "ht_rescheduled t1 = False"
    using serve_loop_spec [OF t1(1)] assms(2) t1(2) by auto
  have "served = take kMaxContinuesRequestNumber (ht_requests t)" "ht_requests t1 = drop kMaxContinuesRequestNumber (ht_requests t)"
    using sv(1,2,5) by auto
  then show ?thesis using t1 sv(3,4,6) by (auto simp: handler_process_task_def Let_def)
qed

lemma answered_append: "answered xs l1 \<Longrightarrow> answered ys l2 \<Longrightarrow> answered (xs @ ys) (l1 @ l2)"
  by (simp add: answered_def)

lemma serve_rounds_drain:
  assumes "prompt hs" and "\<not> ht_suspended t" and "\<forall>q \<in> set (ht_requests t). rq_keep_alive q"
    and "length (ht_requests t) \<le> n * kMaxContinuesRequestNumber" and "0 < n"
  shows "\<exists>t' log. serve_rounds hs n t = Some t' \<and> ht_requests t' = [] \<and> ht_log t' = ht_log t @ log \<and> answered (ht_requests t) log"
  using assms(2-)
proof (induction n arbitrary: t)
  case (Suc n)
  obtain code t1 l1 where p: "handler_process_task hs None t = Some (code, None, t1)" "\<not> ht_suspended t1"
    "ht_requests t1 = drop kMaxContinuesRequestNumber (ht_requests t)" "ht_log t1 = ht_log t @ l1"
    "answered (take kMaxContinuesRequestNumber (ht_requests t)) l1" "ht_rescheduled t1 = (ht_requests t1 \<noteq> [])"
    using process_task_prompt [OF assms(1) Suc.prems(1,2)] by blast
  show ?case
  proof (cases "ht_requests t1 = []")
    case True
    then have "take kMaxContinuesRequestNumber (ht_requests t) = ht_requests t" using p(3) by simp
    then show ?thesis using True p by auto
  next
    case False
    have len: "length (ht_requests t1) \<le> n * kMaxContinuesRequestNumber" using Suc.prems(3) p(3) by simp
    then have "0 < n" using False by (cases n) auto
    moreover have "\<forall>q \<in> set (ht_requests t1). rq_keep_alive q" using Suc.prems(2) p(3) by (auto dest: in_set_dropD)
    ultimately obtain t' l2 where r: "serve_rounds hs n t1 = Some t'" "ht_requests t' = []" "ht_log t' = ht_log t1 @ l2" "answered (ht_requests t1) l2"
      using Suc.IH [OF p(2) _ len] by blast
    have "answered (ht_requests t) (l1 @ l2)" using answered_append [OF p(5) r(4)] p(3) by simp
    then show ?thesis using r p False by auto
  qed
qed simp

section \<open>Properties\<close>

text \<open>C30: the handler stage serves requests in order.  One task answers at most \<open>kMaxContinuesRequestNumber\<close> requests from the front of the
  queue, each logged once in order, and removes exactly those.  It stops early at a suspended request, which stays at the
  front, or behind a request without keep-alive, after which the connection is closed when its output is sent; otherwise, and only
  then, the connection is scheduled again if requests remain.  The controller's load falls by the number of
  requests served.\<close>

theorem handler_serves_in_order:
  assumes "handler_process_task hs (Some ctl) t = Some (code, ctl', t')" and "\<not> ht_suspended t"
  shows "\<exists>served log. ht_requests t = served @ ht_requests t' \<and> length served \<le> kMaxContinuesRequestNumber \<and>
    ht_log t' = ht_log t @ log \<and> answered served log \<and>
    (ht_suspended t' \<longrightarrow> ht_requests t' \<noteq> [] \<and> \<not> ht_rescheduled t' \<and> code = kStageKeepLock) \<and>
    (\<forall>q \<in> set (butlast served). rq_keep_alive q) \<and>
    (\<not> ht_suspended t' \<and> served \<noteq> [] \<and> \<not> rq_keep_alive (last served) \<longrightarrow> ht_close_after_finish t' \<and> \<not> ht_rescheduled t') \<and>
    (\<not> ht_suspended t' \<and> (\<forall>q \<in> set served. rq_keep_alive q) \<longrightarrow> ht_rescheduled t' = (ht_requests t' \<noteq> [])) \<and>
    ctl' = Some (decrease_load (int (length served)) ctl)"
proof -
  obtain e t1 where l: "serve_loop hs kMaxContinuesRequestNumber (t\<lparr>ht_rescheduled := False\<rparr>) = Some (e, t1)"
    and t': "t' = (if e \<and> ht_requests t1 \<noteq> [] then t1\<lparr>ht_rescheduled := True\<rparr> else t1)" "code = task_response_code t'"
      "ctl' = Some (decrease_load (int (length (ht_requests t)) - int (length (ht_requests t'))) ctl)"
    using assms(1) by (auto simp: handler_process_task_def Let_def split: option.splits)
  have f: "ht_requests t' = ht_requests t1" "ht_log t' = ht_log t1" "ht_suspended t' = ht_suspended t1"
    "ht_close_after_finish t' = ht_close_after_finish t1"
    by (simp_all add: t'(1))
  from serve_loop_spec [OF l] assms(2) obtain served log where
    sv: "ht_requests t = served @ ht_requests t1" "length served \<le> kMaxContinuesRequestNumber" "ht_log t1 = ht_log t @ log" "answered served log"
      "if ht_suspended t1 then \<not> e \<and> ht_requests t1 \<noteq> []
       else if e then (ht_requests t1 = [] \<or> length served = kMaxContinuesRequestNumber) \<and>
         ht_close_after_finish t1 = ht_close_after_finish (t\<lparr>ht_rescheduled := False\<rparr>)
       else served \<noteq> [] \<and> \<not> rq_keep_alive (last served) \<and> ht_close_after_finish t1"
      "\<forall>q \<in> set (butlast served). rq_keep_alive q" "e \<longrightarrow> (\<forall>q \<in> set served. rq_keep_alive q)" "\<not> ht_rescheduled t1"
    by (auto simp del: if_split)
  have "ctl' = Some (decrease_load (int (length served)) ctl)" using t'(3) sv(1) f(1) by simp
  moreover have "ht_suspended t' \<longrightarrow> ht_requests t' \<noteq> [] \<and> \<not> ht_rescheduled t' \<and> code = kStageKeepLock"
    using sv(5,8) t' f by (auto simp: task_response_code_def)
  moreover have "\<not> ht_suspended t' \<and> served \<noteq> [] \<and> \<not> rq_keep_alive (last served) \<longrightarrow> ht_close_after_finish t' \<and> \<not> ht_rescheduled t'"
  proof (intro impI)
    assume a: "\<not> ht_suspended t' \<and> served \<noteq> [] \<and> \<not> rq_keep_alive (last served)"
    then have "\<not> e" using sv(7) last_in_set by blast
    then show "ht_close_after_finish t' \<and> \<not> ht_rescheduled t'" using a sv(5,8) t'(1) f by simp
  qed
  moreover have "\<not> ht_suspended t' \<and> (\<forall>q \<in> set served. rq_keep_alive q) \<longrightarrow> ht_rescheduled t' = (ht_requests t' \<noteq> [])"
    using sv(5,8) t'(1) f by (auto split: if_splits)
  ultimately show ?thesis using sv(1-4,6) f by auto
qed

definition sample_task :: "nat \<Rightarrow> unit handler_task" where
  "sample_task n = \<lparr>ht_requests = replicate n sample_request, ht_io = \<lparr>resp = HttpResponse '''', sent_items = [], opened = [], closed = []\<rparr>,
     ht_state = (), ht_suspended = False, ht_close_after_finish = False, ht_rescheduled = False, ht_log = []\<rparr>"

definition echo_handlers :: "nat \<Rightarrow> unit handler" where
  "echo_handlers a req ios = Some (False, upd_resp (respond kHttpResponseOK) (fst ios), ())"

lemma echo_prompt: "prompt echo_handlers"
  by (simp add: prompt_def echo_handlers_def)

lemma sample_task_fields: "\<not> ht_suspended (sample_task n)" "\<forall>q \<in> set (ht_requests (sample_task n)). rq_keep_alive q"
  "ht_requests (sample_task n) = replicate n sample_request" "ht_log (sample_task n) = []"
  by (simp_all add: sample_task_def sample_request_def)

theorem handler_serves_in_order_witness:
  "\<exists>code ctl' t'. handler_process_task echo_handlers (Some Controller) (sample_task 4) = Some (code, ctl', t') \<and>
    ht_requests t' = [sample_request] \<and> ht_rescheduled t' \<and> ctl' = Some (decrease_load 3 Controller)"
proof -
  obtain code t1 log where p: "handler_process_task echo_handlers None (sample_task 4) = Some (code, None, t1)"
    "ht_requests t1 = drop kMaxContinuesRequestNumber (ht_requests (sample_task 4))" "\<not> ht_suspended t1"
    using process_task_prompt [OF echo_prompt sample_task_fields(1,2)] by blast
  then obtain ctl' where q: "handler_process_task echo_handlers (Some Controller) (sample_task 4) = Some (code, ctl', t1)"
    by (auto simp: handler_process_task_def Let_def split: option.splits)
  have one: "ht_requests t1 = [sample_request]" using p(2) by (simp add: sample_task_fields kMaxContinuesRequestNumber_def numeral_eq_Suc)
  obtain served where sv: "ht_requests (sample_task 4) = served @ ht_requests t1"
    "\<not> ht_suspended t1 \<and> (\<forall>q \<in> set served. rq_keep_alive q) \<longrightarrow> ht_rescheduled t1 = (ht_requests t1 \<noteq> [])"
    "ctl' = Some (decrease_load (int (length served)) Controller)"
    using handler_serves_in_order [OF q sample_task_fields(1)] by blast
  have "length (served @ [sample_request]) = 4" using sv(1) one by (metis length_replicate sample_task_fields(3))
  then have "length served = 3" by simp
  moreover have "\<forall>q \<in> set served. rq_keep_alive q"
    using sample_task_fields(2) [of 4] sv(1) by (metis Un_iff set_append)
  ultimately show ?thesis using q one sv p(3) by auto
qed

text \<open>C31: pipelined requests are all answered.  With handlers that answer at once and requests that keep the connection
  alive, rescheduling the connection as the stage asks for empties the queue: any number of rounds that is large
  enough for the length of the queue ends with every request answered, in order.\<close>

theorem pipelined_requests_drain:
  assumes "prompt hs" and "\<not> ht_suspended t" and "\<forall>q \<in> set (ht_requests t). rq_keep_alive q"
    and "length (ht_requests t) \<le> n * kMaxContinuesRequestNumber" and "0 < n"
  shows "\<exists>t' log. serve_rounds hs n t = Some t' \<and> ht_requests t' = [] \<and> ht_log t' = ht_log t @ log \<and> answered (ht_requests t) log"
  using assms by (rule serve_rounds_drain)

theorem pipelined_requests_drain_witness:
  "\<exists>t' log. serve_rounds echo_handlers 2 (sample_task 4) = Some t' \<and> ht_requests t' = [] \<and> ht_log t' = log \<and>
    answered (replicate 4 sample_request) log"
  using pipelined_requests_drain [OF echo_prompt sample_task_fields(1,2), of 4 2]
  by (simp add: sample_task_fields kMaxContinuesRequestNumber_def)

text \<open>A connection closed for a parse error is still handed to the handler stage when a complete request precedes the
  error.\<close>

lemma closed_connection_scheduled:
  assumes "do_parse lib rx cfg c = Some (False, c1)" and "is_ready c1"
  shows "\<exists>o1. parser_process_task lib rx cfg ctl c = Some (0, o1, c1) \<and> closed_conn o1 \<and> to_handler o1"
  using assms by (simp add: parser_process_task_def Let_def)

end
