(* ===== verification/Fcgi_Handler.thy ===== *)
theory Fcgi_Handler
  imports Fcgi_Completion Connection_Pool Http_Stages
begin

text \<open>
  The FastCGI request handler, \<^verbatim>\<open>src/modules/mod_fcgi/fcgi_handler.{h,cc}\<close>: it composes the connection pool, the request builder
  of \<open>Fcgi_Proto\<close>, the completion stage and the HTTP response.  One call of \<open>handle_request\<close> starts a request or continues a suspended
  connection according to the status the completion stage left in its continuation.  What a response writes is the text \<open>out\<close>; it
  goes to the connection's output stream before a buffer is appended there.  \<open>None\<close> is a failure of one of the components.
\<close>

section \<open>Definitions\<close>

record fcgi_handler =
  script_filename :: string
  script_dirname :: string

text \<open>What the handler works on: the stage's state, the pool, the response, the connection's input buffer, whether
  polling is on, and whether the connection is to be closed.\<close>

record 'p fcgi_io =
  fi_state :: "'p fcgi_state"
  fi_pool :: "conn_pool option"
  fi_resp :: http_response
  fi_in :: buffer
  fi_polling :: bool
  fi_closed :: bool

text \<open>The constructor's options with their defaults.\<close>

definition FcgiHttpHandler :: "'p handler_obj \<Rightarrow> 'p handler_obj" where
  "FcgiHttpHandler h = add_option ''script_dirname'' [] (add_option ''script_filename'' [] (add_option ''connection_pool_size'' ''-1''
     (add_option ''connection_address'' [] (add_option ''connection_type'' [] h))))"

text \<open>\<open>load_param\<close>, with the options' values; the pool is the inner \<open>None\<close> when the type of the connection is unknown.  The outer \<open>None\<close> is
  the read behind the address of a Unix socket.\<close>

definition fcgi_load_param :: "(string \<Rightarrow> string \<Rightarrow> bool) \<Rightarrow> (string \<Rightarrow> string) \<Rightarrow> (conn_pool option \<times> fcgi_handler) option" where
  "fcgi_load_param getaddrinfo option =
    (let conn_type = option ''connection_type''; conn_addr = option ''connection_address'';
         pool_size = parse_int (option ''connection_pool_size'');
         pool = (if conn_type = ''tcp'' then Some (Some (TcpConnectionPool getaddrinfo conn_addr pool_size))
                 else if conn_type = ''unix'' then map_option Some (UnixConnectionPool conn_addr pool_size) else Some None)
     in map_option (\<lambda>p. (p, \<lparr>script_filename = option ''script_filename'', script_dirname = option ''script_dirname''\<rparr>)) pool)"

text \<open>A handler with a TCP application whose address resolves gets a pool of the configured size; without the option there is no pooling.\<close>

lemma tcp_pool_loaded:
  assumes "option ''connection_type'' = ''tcp''" and "option ''connection_address'' = host @ CHR '':'' # port" and "CHR '':'' \<notin> set host"
    and "getaddrinfo host port"
  shows "\<exists>fh. fcgi_load_param getaddrinfo option = Some (Some (ConnectionPool (TcpPool True) (parse_int (option ''connection_pool_size''))), fh)"
  using assms by (simp add: fcgi_load_param_def TcpConnectionPool_def split_address_parts)

text \<open>The variables \<open>setup_environment\<close> sets, in order.\<close>

definition fcgi_variables :: "fcgi_handler \<Rightarrow> request_data \<Rightarrow> (string \<times> string) list" where
  "fcgi_variables fh req =
    [(''QUERY_STRING'', rq_query_string req),
     (''CONTENT_TYPE'', find_header_value (rq_headers req) ''Content-type''),
     (''CONTENT_LENGTH'', format_number (int (rq_content_length req))),
     (''REQUEST_METHOD'', method_string (rq_method req)),
     (''REQUEST_URI'', rq_uri req),
     (''SCRIPT_NAME'', rq_path req),
     (''SERVER_PROTOCOL'', ''HTTP/1.1''),
     (''GATEWAY_INTERFACE'', ''CGI/1.1''),
     (''SCRIPT_FILENAME'', if script_filename fh \<noteq> [] then script_filename fh else script_dirname fh @ ''/'' @ rq_path req)]
    @ map (\<lambda>(key, val). (''HTTP_'' @ string_to_upper_case key, val)) (rq_headers req)"

definition setup_environment :: "fcgi_handler \<Rightarrow> request_data \<Rightarrow> fcgi_environment \<Rightarrow> fcgi_environment" where
  "setup_environment fh req e = set_environments (fcgi_variables fh req) e"

text \<open>The request that \<open>process_continuation_start\<close> builds.\<close>

definition build_request :: "fcgi_handler \<Rightarrow> request_data \<Rightarrow> int \<Rightarrow> buf_heap \<Rightarrow> (fcgi_environment \<times> buf_heap) option" where
  "build_request fh req sock h =
    do {
      (_, e1, h1) \<leftarrow> begin_request (FcgiEnvironment sock h);
      (_, e3, h3) \<leftarrow> commit_environment (setup_environment fh req e1, h1);
      let (_, e4, h4) = prepare_request (rq_content_length req) (e3, h3);
      Some (e4, h4)
    }"

definition fcgi_upd_resp :: "(http_response \<Rightarrow> http_response) \<Rightarrow> 'p fcgi_io \<Rightarrow> 'p fcgi_io" where
  "fcgi_upd_resp f io = io\<lparr>fi_resp := f (fi_resp io)\<rparr>"

definition fcgi_yield :: "fcgi_kernel \<Rightarrow> int \<Rightarrow> nat \<Rightarrow> 'p fcgi_cont \<Rightarrow> 'p fcgi_io \<Rightarrow> 'p fcgi_io option" where
  "fcgi_yield k now c cont io =
    map_option (\<lambda>(_, st). io\<lparr>fi_state := st\<rparr>) (fcgi_sched_add k now c (set_cont c cont (fi_state io)))"

text \<open>The continuation made from the request built in the environment's buffer and the input received so far.\<close>

definition start_continuation ::
  "'p content_lib \<Rightarrow> request_data \<Rightarrow> int \<Rightarrow> buffer \<Rightarrow> buffer \<Rightarrow> buf_heap \<Rightarrow> ('p fcgi_cont \<times> buf_heap) option" where
  "start_continuation lib req sock env_buf in_buf h =
    (let (cont0, h1) = FcgiCompletionContinuation lib h;
         (b, h2) = Buffer_assign h1 (task_buffer cont0) env_buf
     in case append_buffer h2 b in_buf of
          None \<Rightarrow> None
        | Some (_, b', h3) \<Rightarrow>
            let len = (if buf_size b' < rq_content_length req then int_of_size (rq_content_length req - buf_size b') else 0)
            in Some (cont0\<lparr>sock_fd := nat sock, task_buffer := b', task_len := len,
                      cont_status := (if len > 0 then kCompletionReadClient else kCompletionWriteFcgi)\<rparr>, h3))"

text \<open>\<open>connected\<close> is the result of the \<open>connect\<close> call.\<close>

definition process_continuation_start ::
  "'p content_lib \<Rightarrow> fcgi_kernel \<Rightarrow> (int list \<Rightarrow> int) \<Rightarrow> int option \<Rightarrow> int \<Rightarrow> fcgi_handler \<Rightarrow> request_data \<Rightarrow> nat \<Rightarrow> conn_pool \<Rightarrow>
    'p fcgi_io \<Rightarrow> 'p fcgi_io option" where
  "process_continuation_start lib k kern connected now fh req c pool io =
    (let (sock, is_connected, pool1) = alloc_connection kern False pool
     in if sock < 0
        then Some (fcgi_upd_resp (respond_with_message kHttpResponseBadGateway) (io\<lparr>fi_pool := Some pool1\<rparr>))
        else if \<not> is_connected \<and> \<not> pool_connect connected
        then Some (fcgi_upd_resp (respond_with_message kHttpResponseBadGateway)
               (io\<lparr>fi_pool := Some (reclaim_inactive_connection kern sock pool1)\<rparr>))
        else do {
          (e, h) \<leftarrow> build_request fh req sock (f_heap (fi_state io));
          (cont, h1) \<leftarrow> start_continuation lib req sock (env_buffer e) (fi_in io) h;
          io1 \<leftarrow> fcgi_yield k now c cont
                   (io\<lparr>fi_pool := Some pool1, fi_polling := False, fi_state := (fi_state io)\<lparr>f_heap := h1\<rparr>\<rparr>);
          Some (io1\<lparr>fi_state := (fi_state io1)\<lparr>f_heap := Buffer_destroy (f_heap (fi_state io1)) (env_buffer e)\<rparr>\<rparr>)
        })"

definition make_response :: "'p content_parser \<Rightarrow> http_response \<Rightarrow> http_response" where
  "make_response p r =
    (let r1 = fold (\<lambda>(key, val). add_header key val) (cp_headers p) (disable_prepare_buffer r)
     in if cp_status_text p \<noteq> [] then respond (status_of_text (cp_status_text p)) r1 else respond kHttpResponseOK r1)"

definition force_responded :: "http_response \<Rightarrow> http_response" where
  "force_responded r = r\<lparr>is_responded := True\<rparr>"

text \<open>The text of the response is in the output stream already when a buffer is appended to it.\<close>

definition append_output :: "nat \<Rightarrow> buffer \<Rightarrow> 'p fcgi_io \<Rightarrow> 'p fcgi_io" where
  "append_output c b io =
    (let st = fi_state io;
         (s1, h1) = (if out (fi_resp io) = [] then (f_outs st c, f_heap st)
                     else stream_append_data (f_heap st) (f_outs st c) (bytes_of_string (out (fi_resp io))));
         (_, s2, h2) = stream_append_buffer h1 s1 b
     in io\<lparr>fi_state := st\<lparr>f_outs := (f_outs st)(c := s2), f_heap := h2\<rparr>, fi_resp := (fi_resp io)\<lparr>out := []\<rparr>\<rparr>)"

definition process_eof :: "nat \<Rightarrow> conn_pool \<Rightarrow> 'p fcgi_cont \<Rightarrow> 'p fcgi_io \<Rightarrow> 'p fcgi_io" where
  "process_eof c pool cont io =
    (let pool1 = reclaim_connection (int (sock_fd cont)) pool;
         io1 = fcgi_upd_resp (\<lambda>r. if cp_streaming (cont_parser cont) then force_responded r
                 else make_response (cont_parser cont) (Static_Handler.set_content_length (int (buf_size (output_buffer cont))) r)) io;
         io2 = append_output c (output_buffer cont) io1;
         pool2 = reclaim_connection (int (sock_fd cont)) pool1
     in io2\<lparr>fi_pool := Some pool2, fi_polling := True\<rparr>)"

definition process_abort :: "(int list \<Rightarrow> int) \<Rightarrow> conn_pool \<Rightarrow> 'p fcgi_cont \<Rightarrow> 'p fcgi_io \<Rightarrow> 'p fcgi_io" where
  "process_abort kern pool cont io =
    (let pool1 = (if need_reconnect cont then reclaim_inactive_connection kern (int (sock_fd cont)) pool
                  else reclaim_connection (int (sock_fd cont)) pool);
         io1 = io\<lparr>fi_pool := Some pool1\<rparr>
     in if need_reconnect cont \<and> cp_streaming (cont_parser cont) then io1\<lparr>fi_closed := True\<rparr>
        else (fcgi_upd_resp (\<lambda>r. if cont_status cont = kCompletionError then respond_with_message kHttpResponseBadGateway r
                else if cont_status cont = kCompletionTimeout then respond_with_message kHttpResponseGatewayTimeout r else r) io1)
               \<lparr>fi_polling := True\<rparr>)"

definition process_continue :: "fcgi_kernel \<Rightarrow> int \<Rightarrow> nat \<Rightarrow> 'p fcgi_cont \<Rightarrow> 'p fcgi_io \<Rightarrow> 'p fcgi_io option" where
  "process_continue k now c cont io = fcgi_yield k now c (cont\<lparr>cont_status := kCompletionReadFcgi\<rparr>) io"

text \<open>The parsing loop of \<open>process_headers_done\<close>; the outcome is the end of the reply, an error, or that no complete record is left.\<close>

function headers_loop :: "'p content_lib \<Rightarrow> 'p fcgi_cont \<times> buf_heap \<Rightarrow> (completion_status \<times> 'p fcgi_cont \<times> buf_heap) option" where
  "headers_loop lib ch =
    (case fcgi_run_parser lib ch of
       None \<Rightarrow> None
     | Some (False, ch1) \<Rightarrow> Some (kCompletionReadFcgi, ch1)
     | Some (True, ch1) \<Rightarrow>
        if task_len (fst ch1) = 0 then Some (kCompletionEOF, ch1)
        else if content_has_error lib (cont_parser (fst ch1)) then Some (kCompletionError, ch1)
        else headers_loop lib ch1)"
  by pat_completeness auto
termination
  by (relation "measure (\<lambda>(lib, ch). buf_size (task_buffer (fst ch)))") (auto dest!: run_parser_size)

declare headers_loop.simps [simp del]

definition process_headers_done ::
  "'p content_lib \<Rightarrow> fcgi_kernel \<Rightarrow> (int list \<Rightarrow> int) \<Rightarrow> int \<Rightarrow> nat \<Rightarrow> conn_pool \<Rightarrow> 'p fcgi_cont \<Rightarrow> 'p fcgi_io \<Rightarrow> 'p fcgi_io option" where
  "process_headers_done lib k kern now c pool cont io =
    (if content_has_error lib (cont_parser cont)
     then Some (fcgi_upd_resp (respond_with_message kHttpResponseBadGateway) io)
     else let io1 = (if cp_streaming (cont_parser cont) then fcgi_upd_resp (make_response (cont_parser cont)) io else io)
          in case headers_loop lib (cont, f_heap (fi_state io1)) of
               None \<Rightarrow> None
             | Some (s, cont1, h) \<Rightarrow>
                 let io2 = io1\<lparr>fi_state := (fi_state io1)\<lparr>f_heap := h\<rparr>\<rparr>; cont2 = cont1\<lparr>cont_status := s\<rparr>
                 in if s = kCompletionEOF then Some (process_eof c pool cont2 io2)
                    else if s = kCompletionError then Some (process_abort kern pool cont2 io2)
                    else fcgi_yield k now c cont2 io2)"

definition fcgi_handle_request ::
  "'p content_lib \<Rightarrow> fcgi_kernel \<Rightarrow> (int list \<Rightarrow> int) \<Rightarrow> int option \<Rightarrow> int \<Rightarrow> fcgi_handler \<Rightarrow> request_data \<Rightarrow> nat \<Rightarrow> 'p fcgi_io \<Rightarrow> 'p fcgi_io option" where
  "fcgi_handle_request lib k kern connected now fh req c io =
    (case fi_pool io of
       None \<Rightarrow> Some io
     | Some pool \<Rightarrow>
        if script_filename fh = [] \<and> script_dirname fh = [] then Some io
        else (case f_conts (fi_state io) c of
                None \<Rightarrow> process_continuation_start lib k kern connected now fh req c pool io
              | Some cont \<Rightarrow>
                  let io1 = io\<lparr>fi_state := (fi_state io)\<lparr>f_conts := (f_conts (fi_state io))(c := None)\<rparr>\<rparr>
                  in (case cont_status cont of
                        kCompletionHeadersDone \<Rightarrow> process_headers_done lib k kern now c pool cont io1
                      | kCompletionContinue \<Rightarrow> process_continue k now c cont io1
                      | kCompletionEOF \<Rightarrow> Some (process_eof c pool cont io1)
                      | kCompletionError \<Rightarrow> Some (process_abort kern pool cont io1)
                      | kCompletionTimeout \<Rightarrow> Some (process_abort kern pool cont io1)
                      | _ \<Rightarrow> Some io1)))"

section \<open>The request an application receives\<close>

lemma fcgi_variables_bytes: "concat (map pair_bytes (fcgi_variables fh req)) \<noteq> []"
  using pair_bytes_two [of "(''QUERY_STRING'', rq_query_string req)"] by (auto simp: fcgi_variables_def)

lemma frame_params:
  assumes "length dat < 65536"
  shows "parse_record (frame (rec_set_content_length (length dat) (Record ty)) dat @ rest) = Some ((ty, 1, dat), rest)"
proof -
  let ?r = "rec_set_content_length (length dat) (Record ty)"
  note f = rec_set_content_length_fields [OF refl, of "length dat" "Record ty"]
  have "length dat = unat (rec_content_length ?r)" using f(1) assms by simp
  from parse_record_frame [OF this] f show ?thesis by (simp add: Record_def)
qed

definition begin_body :: "byte list" where "begin_body = [0, 1, 1, 0, 0, 0, 0, 0]"

definition request_frames :: "byte list \<Rightarrow> nat \<Rightarrow> byte list" where
  "request_frames kv n = frame (rec_set_content_length (length begin_body) (Record kFcgiBeginRequest)) begin_body @
     frame (rec_set_content_length (length kv) (Record kFcgiParams)) kv @
     frame (rec_set_content_length (length ([] :: byte list)) (Record kFcgiParams)) [] @
     record_bytes (rec_set_content_length n (Record kFcgiStdin))"

lemma build_request_contents:
  assumes "heap_ok h" and "length (concat (map pair_bytes (fcgi_variables fh req))) \<le> kEnvironmentSizeLimit"
  shows "\<exists>e h'. build_request fh req sock h = Some (e, h') \<and> heap_ok h' \<and> buf_ok h' (env_buffer e) \<and>
    contents h' (env_buffer e) = request_frames (concat (map pair_bytes (fcgi_variables fh req))) (rq_content_length req)"
proof -
  let ?vars = "fcgi_variables fh req" and ?kv = "concat (map pair_bytes (fcgi_variables fh req))"
  obtain b0 h0 where n: "Buffer_new h = (b0, h0)" by (rule prod.exhaust)
  define e0 where "e0 = \<lparr>env_sock = sock, env_state = 0, env_buffer = b0, kv_buf = []\<rparr>"
  have b0: "heap_ok h0" "buf_ok h0 (env_buffer e0)" "contents h0 b0 = []" "env_state e0 = 0" "kv_buf e0 = []"
    using Buffer_new_spec [OF assms(1) n] by (simp_all add: e0_def)
  have l8: "8 = length begin_body" by (simp add: begin_body_def)
  obtain e1 h1 where e1: "begin_request (e0, h0) = Some (True, e1, h1)" "env_state e1 = 1" "kv_buf e1 = []"
      and s1: "env_step (e0, h0) (e1, h1) (frame (rec_set_content_length 8 (Record kFcgiBeginRequest)) begin_body)"
    using begin_request_spec [OF b0(1,2,4)] b0(5) by (auto simp: begin_body_def)
  define e2 where "e2 = e1\<lparr>kv_buf := ?kv\<rparr>"
  have e2: "setup_environment fh req e1 = e2"
    using set_environments_kv [OF e1(2), of ?vars] assms(2) e1(3) by (simp add: setup_environment_def e2_def)
  have ok2: "heap_ok h1" "buf_ok h1 (env_buffer e2)" "env_state e2 = 1" "kv_buf e2 \<noteq> []"
    using env_step_ok [OF s1] e1(2) fcgi_variables_bytes [of fh req] by (simp_all add: e2_def)
  have kv: "take (length ?kv mod 65536) ?kv = ?kv" using assms(2) by (simp add: kEnvironmentSizeLimit_def)
  have kv2: "kv_buf e2 = ?kv" by (simp add: e2_def)
  obtain e3 h3 where e3: "commit_environment (e2, h1) = Some (True, e3, h3)" "env_state e3 = 1"
      and s3: "env_step (e2, h1) (e3, h3) (frame (rec_set_content_length (length ?kv) (Record kFcgiParams)) ?kv)"
    using commit_environment_spec [OF ok2] unfolding kv2 kv by blast
  have ok3: "heap_ok h3" "buf_ok h3 (env_buffer e3)" using env_step_ok [OF s3] by simp_all
  obtain l e4 h4 where e4: "prepare_request (rq_content_length req) (e3, h3) = (l, e4, h4)"
      and s4: "env_step (e3, h3) (e4, h4) (frame (rec_set_content_length (length ([] :: byte list)) (Record kFcgiParams)) [] @
        record_bytes (rec_set_content_length (rq_content_length req) (Record kFcgiStdin)))"
    using prepare_request_spec [OF ok3 e3(2), of "rq_content_length req"] by auto
  have s2: "env_step (e0, h0) (e2, h1) (frame (rec_set_content_length (length begin_body) (Record kFcgiBeginRequest)) begin_body)"
    using s1 [unfolded l8] by (simp add: env_step_def e2_def)
  have fin: "env_step (e0, h0) (e4, h4) (request_frames ?kv (rq_content_length req))"
    using env_step_trans [OF env_step_trans [OF s2 s3] s4] by (simp add: request_frames_def)
  then have "contents h4 (env_buffer e4) = request_frames ?kv (rq_content_length req)"
    using b0(3) by (simp add: env_step_def e0_def op_spec_def)
  moreover have "build_request fh req sock h = Some (e4, h4)"
    using e1(1) e3(1) e4 by (simp add: build_request_def FcgiEnvironment_def n e0_def [symmetric] e2)
  ultimately show ?thesis using env_step_ok [OF fin] by blast
qed

lemma parse_request_frames:
  assumes "length kv < 65536"
  shows "parse_records 3 (request_frames kv n) = Some ([(kFcgiBeginRequest, 1, begin_body), (kFcgiParams, 1, kv), (kFcgiParams, 1, [])],
    record_bytes (rec_set_content_length n (Record kFcgiStdin)))"
proof -
  have l: "length begin_body < 65536" "length ([] :: byte list) < 65536" by (simp_all add: begin_body_def)
  show ?thesis unfolding request_frames_def numeral_3_eq_3 parse_records.simps frame_params [OF l(1)] frame_params [OF assms] frame_params [OF l(2)]
      option.case prod.case
    by simp
qed


lemma short_pair_bytes: "short_pair p \<Longrightarrow> length (pair_bytes p) = 2 + length (fst p) + length (snd p)"
  by (simp add: short_pair_def pair_bytes_def push_length_def)

definition fcgi_sample_request :: request_data where
  "fcgi_sample_request = sample_request\<lparr>rq_headers := [(''Host'', ''a'')], rq_method := HTTP_GET, rq_path := ''/x'', rq_uri := ''/x'', rq_query_string := [], rq_content_length := 0\<rparr>"

lemma fcgi_sample_variables:
  "fcgi_variables \<lparr>script_filename = ''/s'', script_dirname = []\<rparr> fcgi_sample_request =
    [(''QUERY_STRING'', []), (''CONTENT_TYPE'', []), (''CONTENT_LENGTH'', ''0''), (''REQUEST_METHOD'', ''GET''), (''REQUEST_URI'', ''/x''),
     (''SCRIPT_NAME'', ''/x''), (''SERVER_PROTOCOL'', ''HTTP/1.1''), (''GATEWAY_INTERFACE'', ''CGI/1.1''), (''SCRIPT_FILENAME'', ''/s''),
     (''HTTP_HOST'', ''a'')]"
proof -
  have "format_number 0 = ''0''" by (simp add: format_number_def decimal.simps) code_simp
  moreover have "method_string HTTP_GET = ''GET''" by (simp add: method_string_def HTTP_GET_def HTTP_COPY_def HTTP_DELETE_def)
  moreover have "find_header_value [(''Host'', ''a'')] ''Content-type'' = []" by code_simp
  moreover have "string_to_upper_case ''Host'' = ''HOST''" by code_simp
  ultimately show ?thesis by (simp add: fcgi_variables_def fcgi_sample_request_def)
qed


section \<open>What goes wrong with bodies and at the end of a reply\<close>

text \<open>The bytes still to be read are counted from the size of the whole request, records included: when no input has arrived and the body is no longer than the
  records, the stage starts writing at once and the body is never forwarded.\<close>

lemma start_skips_body:
  assumes "start_continuation lib req sock env_buf in_buf h = Some (cont, h')" and "rq_content_length req \<le> buf_size (task_buffer cont)"
  shows "cont_status cont = kCompletionWriteFcgi \<and> task_len cont = 0"
  using assms by (auto simp: start_continuation_def FcgiCompletionContinuation_def Buffer_assign_def Let_def split: prod.splits option.splits if_splits)

text \<open>At the end of a reply the socket is returned twice, so that the next two requests share it.\<close>

lemma eof_socket_shared:
  assumes "0 \<le> max_n_sockets pool" and "pool_initialized pool"
  shows "\<exists>p1 p2 p3. fi_pool (process_eof c pool cont io) = Some p1 \<and>
    alloc_connection kern ic p1 = (int (sock_fd cont), True, p2) \<and> alloc_connection kern ic p2 = (int (sock_fd cont), True, p3)"
  using assms by (simp add: process_eof_def reclaim_connection_def alloc_connection_def Let_def butlast_append)

text \<open>A reply header the parser rejects is answered, but the socket is not returned to the pool and polling stays off.\<close>

lemma header_error_keeps_socket:
  assumes "content_has_error lib (cont_parser cont)" and "fi_pool io = Some pool"
  shows "\<exists>io'. process_headers_done lib k kern now c pool cont io = Some io' \<and> fi_pool io' = Some pool \<and> fi_polling io' = fi_polling io"
  using assms by (simp add: process_headers_done_def fcgi_upd_resp_def)

end
