(* ===== verification/Poll_Loops.thy ===== *)
theory Poll_Loops
  imports Stages
begin

text \<open>
  The loops of the poll stages in \<^verbatim>\<open>src/core/stages.cc\<close>: a thread creates its poller, installs the handlers, adds the poller to the
  stage and runs rounds of the epoll back end (theory \<open>Poller\<close>).  The type of a world, \<open>stages_ok\<close>, says that tables, timers and indices
  fit together; every operation of the stages is defined on worlds of this type and keeps it.
\<close>

section \<open>Definitions\<close>

text \<open>A new poller with a table of \<open>cap\<close> descriptors, and \<open>PollStage::add_poll\<close> of the two stages.\<close>

definition Poller_new :: "nat \<Rightarrow> int \<Rightarrow> poll_state" where
  "Poller_new cap now = \<lparr>p_fds = FDMap_new cap, p_timer = [], p_last_executed = timer_unit_from_time now, p_expired = []\<rparr>"

definition in_add_poll :: "poll_state \<Rightarrow> world \<Rightarrow> world" where
  "in_add_poll p w = w\<lparr>in_pollers := in_pollers w @ [p]\<rparr>"

definition out_add_poll :: "poll_state \<Rightarrow> world \<Rightarrow> world" where
  "out_add_poll p w = w\<lparr>out_pollers := out_pollers w @ [p]\<rparr>"

text \<open>The timer walk of the poll-out stage.\<close>

definition out_invoke :: "kernel \<Rightarrow> nat \<Rightarrow> (unit, world option) invoke" where
  "out_invoke k i u x st =
    (case fst st of
       None \<Rightarrow> (False, None, snd st)
     | Some w \<Rightarrow>
        (case out_idle_callback k i (nat x) w of
           None \<Rightarrow> (False, None, snd st)
         | Some (r, w') \<Rightarrow> (r, Some w', snd st)))"

definition out_trigger_timer :: "kernel \<Rightarrow> bool \<Rightarrow> int \<Rightarrow> int \<Rightarrow> nat \<Rightarrow> world \<Rightarrow> world option" where
  "out_trigger_timer k mutex_free now tmo i w =
    (if mutex_free \<and> timer_due now tmo (out_pollers w ! i)
     then do {
       (wo, t) \<leftarrow> process_callbacks (out_invoke k i) now (Some w, p_timer (out_pollers w ! i));
       w1 \<leftarrow> wo;
       Some (set_out_poller i ((out_pollers w1 ! i)\<lparr>p_timer := t, p_last_executed := timer_unit_from_time now\<rparr>) w1)
     }
     else Some w)"

text \<open>What the system does in a round: the time, the result of \<open>epoll_wait\<close>, and for each connection the results of its reads or
  writes, whether the last of them would have blocked, and whether its output is then done; and whether the stage's mutex is free when the timer and when the
  list of expired connections is processed.\<close>

record round_input =
  ri_now :: int
  ri_waited :: "int + (32 word \<times> nat) list"
  ri_io :: "nat \<Rightarrow> nat \<Rightarrow> int"
  ri_again :: "nat \<Rightarrow> bool"
  ri_done :: "nat \<Rightarrow> bool"
  ri_timer_mutex :: bool
  ri_recycle_mutex :: bool

text \<open>A round of each stage's poller: the event handler and the post handler are those \<open>main_loop\<close> installs.  The outer \<open>None\<close> is the
  exception of a failed \<open>epoll_wait\<close>.\<close>

definition in_round :: "kernel \<Rightarrow> int \<Rightarrow> nat \<Rightarrow> round_input \<Rightarrow> world \<Rightarrow> world option option" where
  "in_round k tmo i r w =
    handle_event_round None
      (Some (\<lambda>c evt wo. wo \<bind> in_handle_connection k (ri_now r) (ri_io r c) (ri_again r c) i c evt))
      (Some (\<lambda>wo. wo \<bind> in_post_handle k (ri_timer_mutex r) (ri_recycle_mutex r) (ri_now r) tmo i)) (ri_waited r) (Some w)"

definition out_round :: "kernel \<Rightarrow> int \<Rightarrow> (nat \<Rightarrow> world \<Rightarrow> world) \<Rightarrow> nat \<Rightarrow> round_input \<Rightarrow> world \<Rightarrow> world option option" where
  "out_round k tmo resched i r w =
    handle_event_round None
      (Some (\<lambda>c evt wo. wo \<bind> out_handle_connection k (ri_now r) (ri_io r c) (ri_again r c) (ri_done r c) resched i c evt))
      (Some (\<lambda>wo. wo \<bind> out_trigger_timer k (ri_timer_mutex r) (ri_now r) tmo i)) (ri_waited r) (Some w)"

text \<open>\<open>main_loop\<close> over the inputs of its rounds, up to the failure of \<open>epoll_wait\<close> at the latest: its exception is caught nowhere and ends the process in that world.  What
  follows \<open>handle_event\<close> in \<open>main_loop\<close> is never reached.\<close>

fun rounds :: "(round_input \<Rightarrow> world \<Rightarrow> world option option) \<Rightarrow> round_input list \<Rightarrow> world \<Rightarrow> world option" where
  "rounds step [] w = Some w"
| "rounds step (r # rs) w = (case step r w of None \<Rightarrow> Some w | Some None \<Rightarrow> None | Some (Some w') \<Rightarrow> rounds step rs w')"

definition in_main_loop :: "nat \<Rightarrow> int \<Rightarrow> kernel \<Rightarrow> int \<Rightarrow> round_input list \<Rightarrow> world \<Rightarrow> world option" where
  "in_main_loop cap start k tmo rs w =
    rounds (in_round k tmo (length (in_pollers w))) rs (in_add_poll (Poller_new cap start) w)"

definition out_main_loop :: "nat \<Rightarrow> int \<Rightarrow> kernel \<Rightarrow> int \<Rightarrow> (nat \<Rightarrow> world \<Rightarrow> world) \<Rightarrow> round_input list \<Rightarrow> world \<Rightarrow> world option" where
  "out_main_loop cap start k tmo resched rs w =
    rounds (out_round k tmo resched (length (out_pollers w))) rs (out_add_poll (Poller_new cap start) w)"

section \<open>The type of a world\<close>

definition poller_ok :: "nat \<Rightarrow> poll_state \<Rightarrow> bool" where
  "poller_ok cap p \<longleftrightarrow> fdmap_ok (p_fds p) \<and> fdmap_capacity (p_fds p) = cap \<and> tree_ok (p_timer p)"

text \<open>A world with \<open>n\<close> pollers of the poll-in stage and \<open>m\<close> of the poll-out stage.\<close>

definition stages_ok :: "nat \<Rightarrow> nat \<Rightarrow> nat \<Rightarrow> world \<Rightarrow> bool" where
  "stages_ok cap n m w \<longleftrightarrow>
    length (in_pollers w) = n \<and> length (out_pollers w) = m \<and> in_current w < n \<and> out_current w < m \<and>
    (\<forall>p \<in> set (in_pollers w). poller_ok cap p) \<and> (\<forall>p \<in> set (out_pollers w). poller_ok cap p) \<and>
    (\<forall>c. w_fd w c < cap) \<and> distinct (map (w_fd w) (parser_q w)) \<and> distinct (map (w_fd w) (block_q w))"

text \<open>\<open>well_typed P f\<close>: on states of type \<open>P\<close> the operation ends normally in a state of that type.\<close>

definition well_typed :: "('s \<Rightarrow> bool) \<Rightarrow> ('s \<Rightarrow> 's option) \<Rightarrow> bool" where
  "well_typed P f \<longleftrightarrow> (\<forall>s. P s \<longrightarrow> (\<exists>s'. f s = Some s' \<and> P s'))"

lemma well_typedI: "(\<And>s. P s \<Longrightarrow> \<exists>s'. f s = Some s' \<and> P s') \<Longrightarrow> well_typed P f"
  by (simp add: well_typed_def)

lemma well_typedE: "well_typed P f \<Longrightarrow> P s \<Longrightarrow> (\<And>s'. f s = Some s' \<Longrightarrow> P s' \<Longrightarrow> thesis) \<Longrightarrow> thesis"
  by (auto simp: well_typed_def)

lemma well_typed_bind: "well_typed P f \<Longrightarrow> well_typed P g \<Longrightarrow> well_typed P (\<lambda>s. f s \<bind> g)"
  by (fastforce simp: well_typed_def)

text \<open>The parts of the world the type depends on.\<close>

lemma stages_ok_fields:
  "stages_ok cap n m (w\<lparr>shut_fds := xs\<rparr>) = stages_ok cap n m w"
  "stages_ok cap n m (w\<lparr>closed_socks := xs\<rparr>) = stages_ok cap n m w"
  "stages_ok cap n m (w\<lparr>disposed := xs\<rparr>) = stages_ok cap n m w"
  by (simp_all add: stages_ok_def w_fd_def [abs_def])

lemma stages_ok_conn: "c_fd (f (conns w c)) = c_fd (conns w c) \<Longrightarrow> stages_ok cap n m (upd_conn c f w) = stages_ok cap n m w"
proof -
  assume f: "c_fd (f (conns w c)) = c_fd (conns w c)"
  have "w_fd (upd_conn c f w) = w_fd w" by (auto simp: w_fd_def upd_conn_def f)
  then show ?thesis by (simp add: stages_ok_def upd_conn_def)
qed

lemma poller_of_world:
  assumes "stages_ok cap n m w"
  shows "i < n \<Longrightarrow> poller_ok cap (in_pollers w ! i)" "j < m \<Longrightarrow> poller_ok cap (out_pollers w ! j)"
  using assms nth_mem by (auto simp: stages_ok_def)

lemma stages_ok_pollers:
  "stages_ok cap n m w \<Longrightarrow> (i < n \<Longrightarrow> poller_ok cap p) \<Longrightarrow> stages_ok cap n m (set_in_poller i p w)"
  "stages_ok cap n m w \<Longrightarrow> (i < m \<Longrightarrow> poller_ok cap p) \<Longrightarrow> stages_ok cap n m (set_out_poller i p w)"
proof -
  show "stages_ok cap n m w \<Longrightarrow> (i < n \<Longrightarrow> poller_ok cap p) \<Longrightarrow> stages_ok cap n m (set_in_poller i p w)"
    by (cases "i < n") (auto simp: stages_ok_def set_in_poller_def w_fd_def [abs_def] list_update_beyond dest!: set_update_subset_insert [THEN subsetD])
  show "stages_ok cap n m w \<Longrightarrow> (i < m \<Longrightarrow> poller_ok cap p) \<Longrightarrow> stages_ok cap n m (set_out_poller i p w)"
    by (cases "i < m") (auto simp: stages_ok_def set_out_poller_def w_fd_def [abs_def] list_update_beyond dest!: set_update_subset_insert [THEN subsetD])
qed

lemma conn_updates:
  "c_fd (set_active v x) = c_fd x" "c_fd (set_cork x) = c_fd x" "c_fd (clear_cork x) = c_fd x"
  "c_fd (snd (update_last_active now x)) = c_fd x" "c_fd (fst (update_connection_timer now c x t)) = c_fd x"
  by (auto simp: set_active_def set_cork_def clear_cork_def update_last_active_def update_connection_timer_def Let_def split: prod.splits if_splits)

text \<open>Tables and timers.\<close>

lemma add_fd_total:
  assumes "fdmap_ok fds" and "fdmap_capacity fds = cap" and "fd < cap"
  shows "\<exists>r f. add_fd b fds fd c = Some (r, f) \<and> fdmap_ok f \<and> fdmap_capacity f = cap"
proof -
  obtain f where f: "fdmap_insert fds fd c = Some (fdmap_get fds fd = None, f)" "fdmap_ok f" "fdmap_capacity f = cap"
    using fdm.insert_in [OF assms(1), of fd c] assms(2,3) by auto
  obtain f' where f': "fdmap_erase f fd = Some (fdmap_get f fd \<noteq> None, f')" "fdmap_ok f'" "fdmap_capacity f' = cap"
    using fdm.erase_in [OF f(2), of fd] f(3) assms(3) by auto
  show ?thesis using f f' by (cases "fdmap_get fds fd = None") (auto simp: add_fd_def add_fd_set_def remove_fd_set_def)
qed

lemma remove_fd_total:
  assumes "fdmap_ok fds" and "fdmap_capacity fds = cap" and "fd < cap"
  shows "\<exists>r f. remove_fd b fds fd = Some (r, f) \<and> fdmap_ok f \<and> fdmap_capacity f = cap"
proof -
  obtain f where f: "fdmap_erase fds fd = Some (fdmap_get fds fd \<noteq> None, f)" "fdmap_ok f" "fdmap_capacity f = cap"
    using fdm.erase_in [OF assms(1), of fd] assms(2,3) by auto
  have "\<exists>f'. fdmap_insert f fd c = Some (fdmap_get f fd = None, f') \<and> fdmap_ok f' \<and> fdmap_capacity f' = cap" for c
    using fdm.insert_in [OF f(2), of fd c] f(3) assms(3) by auto
  then show ?thesis using f assms by (cases "fdmap_get fds fd") (fastforce simp: remove_fd_def find_connection_def add_fd_set_def remove_fd_set_def)+
qed

lemma timer_ops_ok:
  "tree_ok t \<Longrightarrow> tree_ok (timer_replace u x cb t)" "tree_ok t \<Longrightarrow> tree_ok (snd (timer_remove u x t))"
  "tree_ok t \<Longrightarrow> tree_ok (snd (update_connection_timer now c conn t))"
  by (auto simp: timer_replace_def timer_remove_def update_connection_timer_def Let_def intro: map_insert_ok map_erase_ok split: prod.splits bool.splits)

lemma poller_ok_add:
  assumes "poller_ok cap p" and "fd < cap"
  obtains r f where "add_fd b (p_fds p) fd c = Some (r, f)" "\<And>t e. tree_ok t \<Longrightarrow> poller_ok cap (p\<lparr>p_fds := f, p_timer := t, p_expired := e\<rparr>)"
    "poller_ok cap (p\<lparr>p_fds := f\<rparr>)"
  using add_fd_total [of "p_fds p" cap fd b c] assms by (auto simp: poller_ok_def)

lemma poller_ok_remove:
  assumes "poller_ok cap p" and "fd < cap"
  obtains r f where "remove_fd b (p_fds p) fd = Some (r, f)" "fdmap_ok f" "fdmap_capacity f = cap"
  using remove_fd_total [of "p_fds p" cap fd b] assms by (auto simp: poller_ok_def)


section \<open>The operations of the stages are well typed\<close>

lemma w_fd_less: "stages_ok cap n m w \<Longrightarrow> w_fd w c < cap"
  by (simp add: stages_ok_def)

lemma stages_ok_lock:
  "stages_ok cap n m (unlock c w) = stages_ok cap n m w" "stages_ok cap n m (upd_conn c (c_locked_update f) w) = stages_ok cap n m w"
  by (simp_all add: unlock_def stages_ok_conn)

lemma stages_ok_queues:
  "stages_ok cap n m w \<Longrightarrow> stages_ok cap n m (w\<lparr>parser_q := queue_add (w_fd w) c (parser_q w)\<rparr>)"
  "stages_ok cap n m w \<Longrightarrow> stages_ok cap n m (w\<lparr>block_q := queue_add (w_fd w) c (block_q w)\<rparr>)"
  "stages_ok cap n m w \<Longrightarrow> stages_ok cap n m (w\<lparr>parser_q := queue_remove (w_fd w) c (parser_q w), block_q := queue_remove (w_fd w) c (block_q w)\<rparr>)"
  using distinct_queue_add [of "w_fd w" "parser_q w" c] distinct_queue_add [of "w_fd w" "block_q w" c]
    distinct_queue_remove [of "w_fd w" "parser_q w" c] distinct_queue_remove [of "w_fd w" "block_q w" c]
  by (simp_all add: stages_ok_def w_fd_def [abs_def])

lemma in_sched_add_ok: "well_typed (stages_ok cap n m) (\<lambda>w. map_option snd (in_sched_add k c w))"
proof (rule well_typedI)
  fix w assume ok: "stages_ok cap n m w"
  define cur where "cur = (in_current w + 1) mod n"
  have n: "length (in_pollers w) = n" "in_pollers w \<noteq> []" "cur < n" and cur: "Suc (in_current w) mod n = cur"
    using ok by (auto simp: stages_ok_def cur_def)
  note p = poller_of_world(1) [OF ok n(3)]
  obtain r f where f: "add_fd (k_add k (w_fd w c)) (p_fds (in_pollers w ! cur)) (w_fd w c) c = Some (r, f)" "fdmap_ok f" "fdmap_capacity f = cap"
    using add_fd_total [of "p_fds (in_pollers w ! cur)" cap "w_fd w c"] p w_fd_less [OF ok] by (metis poller_ok_def)
  have "stages_ok cap n m (w\<lparr>in_current := cur\<rparr>)" using ok n(3) by (simp add: stages_ok_def w_fd_def [abs_def])
  from stages_ok_pollers(1) [OF this] f p
  show "\<exists>w'. map_option snd (in_sched_add k c w) = Some w' \<and> stages_ok cap n m w'"
    by (simp add: in_sched_add_def n cur Let_def poller_ok_def timer_ops_ok)
qed

lemma remove_from_pollers_ok:
  "\<forall>p \<in> set ps. poller_ok cap p \<Longrightarrow> c_fd conn < cap \<Longrightarrow>
    \<exists>r ps'. remove_from_pollers k c conn rc ps = Some (r, ps') \<and> length ps' = length ps \<and> (\<forall>p \<in> set ps'. poller_ok cap p)"
proof (induction ps)
  case (Cons p ps)
  obtain r f where f: "remove_fd (k_remove k (c_fd conn)) (p_fds p) (c_fd conn) = Some (r, f)" "fdmap_ok f" "fdmap_capacity f = cap"
    using poller_ok_remove [of cap p "c_fd conn"] Cons.prems by auto
  have p: "poller_ok cap (p\<lparr>p_fds := f\<rparr>)"
    "poller_ok cap (p\<lparr>p_fds := f, p_timer := snd (timer_remove (timer_sched_time conn) (int c) (p_timer p)), p_expired := e\<rparr>)" for e
    using f Cons.prems timer_ops_ok(2) by (auto simp: poller_ok_def)
  show ?case
  proof (cases r)
    case True
    then show ?thesis using f p Cons.prems by auto
  next
    case False
    obtain r' ps' where "remove_from_pollers k c conn rc ps = Some (r', ps')" "length ps' = length ps" "\<forall>p \<in> set ps'. poller_ok cap p"
      using Cons by auto
    then show ?thesis using False f p by simp
  qed
qed auto

lemma sched_remove_ok: "well_typed (stages_ok cap n m) (sched_remove_nolock k c rc)"
proof (rule well_typedI)
  fix w assume ok: "stages_ok cap n m w"
  obtain r ps where ps: "remove_from_pollers k c (conns w c) rc (in_pollers w) = Some (r, ps)" "length ps = n" "\<forall>p \<in> set ps. poller_ok cap p"
    using remove_from_pollers_ok [of "in_pollers w" cap "conns w c" k c rc] ok by (auto simp: stages_ok_def w_fd_def)
  have w': "stages_ok cap n m (w\<lparr>in_pollers := ps\<rparr>)" and n: "in_current w < n" using ok ps by (auto simp: stages_ok_def w_fd_def [abs_def])
  have "poller_ok cap ((ps ! in_current w)\<lparr>p_expired := e\<rparr>)" for e
    using ps n nth_mem [of "in_current w" ps] by (auto simp: poller_ok_def)
  then have "stages_ok cap n m (w\<lparr>in_pollers := ps[in_current w := (ps ! in_current w)\<lparr>p_expired := e\<rparr>], in_current := (in_current w + 1) mod n\<rparr>)" for e
    using w' n by (auto simp: stages_ok_def w_fd_def [abs_def] dest!: set_update_subset_insert [THEN subsetD])
  then show "\<exists>w'. sched_remove_nolock k c rc w = Some w' \<and> stages_ok cap n m w'"
    using ps n w' by (simp add: sched_remove_nolock_def Let_def)
qed

lemma active_close_ok: "well_typed (stages_ok cap n m) (active_close k c)"
  using sched_remove_ok [of cap n m k c True]
  by (auto simp: active_close_def well_typed_def shutdown_conn_def stages_ok_fields stages_ok_conn conn_updates)

lemma poll_ok: "well_typed (stages_ok cap n m) (enable_poll k c)" "well_typed (stages_ok cap n m) (disable_poll k c)"
  using in_sched_add_ok [of cap n m k c] sched_remove_ok [of cap n m k c False]
  by (auto simp: enable_poll_def disable_poll_def in_sched_remove_def well_typed_def)


lemma in_cleanup_ok: "i < n \<Longrightarrow> well_typed (stages_ok cap n m) (in_cleanup k i c)"
proof (rule well_typedI)
  fix w assume i: "i < n" and ok: "stages_ok cap n m w"
  define w1 where "w1 = shutdown_conn c (upd_conn c (set_active False) w)"
  have w1: "stages_ok cap n m w1" using ok by (simp add: w1_def shutdown_conn_def stages_ok_fields stages_ok_conn conn_updates)
  obtain r f where f: "remove_fd (k_remove k (w_fd w c)) (p_fds (in_pollers w1 ! i)) (w_fd w c) = Some (r, f)" "fdmap_ok f" "fdmap_capacity f = cap"
    using poller_ok_remove [OF poller_of_world(1) [OF w1 i] w_fd_less [OF ok]] .
  show "\<exists>w'. in_cleanup k i c w = Some w' \<and> stages_ok cap n m w'"
    using ok f stages_ok_pollers(1) [OF w1, of i] poller_of_world(1) [OF w1 i]
    by (simp add: in_cleanup_def Let_def w1_def [symmetric] poller_ok_def timer_ops_ok)
qed

lemma in_idle_callback_ok: "i < n \<Longrightarrow> well_typed (stages_ok cap n m) (\<lambda>w. map_option snd (in_idle_callback k i c w))"
proof (rule well_typedI)
  fix w assume i: "i < n" and ok: "stages_ok cap n m w"
  define w1 where "w1 = shutdown_conn c (upd_conn c (c_locked_update (\<lambda>_. True)) w)"
  have w1: "stages_ok cap n m w1" using ok by (simp add: w1_def shutdown_conn_def stages_ok_fields stages_ok_conn)
  obtain r f where f: "remove_fd (k_remove k (w_fd w c)) (p_fds (in_pollers w1 ! i)) (w_fd w c) = Some (r, f)" "fdmap_ok f" "fdmap_capacity f = cap"
    using poller_ok_remove [OF poller_of_world(1) [OF w1 i] w_fd_less [OF ok]] .
  show "\<exists>w'. map_option snd (in_idle_callback k i c w) = Some w' \<and> stages_ok cap n m w'"
    using ok f stages_ok_pollers(1) [OF w1, of i] poller_of_world(1) [OF w1 i]
    by (simp add: in_idle_callback_def try_lock_def Let_def w1_def [symmetric] poller_ok_def stages_ok_lock) auto
qed

lemma read_connection_ok: "i < n \<Longrightarrow> well_typed (stages_ok cap n m) (read_connection k now rd again i c)"
proof (rule well_typedI)
  fix w assume i: "i < n" and ok: "stages_ok cap n m w"
  define w1 where "w1 = upd_conn c (c_locked_update (\<lambda>_. True)) w"
  have w1: "stages_ok cap n m w1" using ok by (simp add: w1_def stages_ok_lock)
  obtain conn t where ct: "update_connection_timer now c (conns w1 c) (p_timer (in_pollers w1 ! i)) = (conn, t)" by (rule prod.exhaust)
  define w2 where "w2 = set_in_poller i ((in_pollers w1 ! i)\<lparr>p_timer := t\<rparr>) (upd_conn c (\<lambda>_. conn) w1)"
  have t: "tree_ok t" "c_fd conn = w_fd w1 c"
    using timer_ops_ok(3) [of "p_timer (in_pollers w1 ! i)" now c "conns w1 c"]
      conn_updates(5) [of now c "conns w1 c" "p_timer (in_pollers w1 ! i)"] ct
      poller_of_world(1) [OF w1 i] by (auto simp: poller_ok_def w_fd_def)
  then have "stages_ok cap n m (upd_conn c (\<lambda>_. conn) w1)"
    using w1 by (simp add: stages_ok_conn w_fd_def)
  from stages_ok_pollers(1) [OF this, of i] have w2: "stages_ok cap n m w2"
    using t poller_of_world(1) [OF w1 i] by (simp add: w2_def poller_ok_def)
  obtain w3 where w3: "(if read_loop rd 0 0 < 0 \<and> again then Some (w2\<lparr>parser_q := queue_add (w_fd w2) c (parser_q w2)\<rparr>)
                  else in_cleanup k i c w2) = Some w3" "stages_ok cap n m w3"
    using in_cleanup_ok [OF i, of cap m k c] w2 stages_ok_queues(1) [OF w2, of c] by (cases "read_loop rd 0 0 < 0 \<and> again") (auto simp: well_typed_def)
  have "\<not> c_locked (conns w c) \<Longrightarrow> read_connection k now rd again i c w = Some (unlock c w3)"
    unfolding read_connection_def try_lock_def using w3(1) by (auto simp: w1_def [symmetric] ct Let_def w2_def [symmetric] split: if_splits)
  moreover have "c_locked (conns w c) \<Longrightarrow> read_connection k now rd again i c w = Some w" by (simp add: read_connection_def try_lock_def)
  ultimately show "\<exists>w'. read_connection k now rd again i c w = Some w' \<and> stages_ok cap n m w'"
    using ok w3(2) stages_ok_lock(1) by (cases "c_locked (conns w c)") auto
qed

lemma in_handle_ok: "i < n \<Longrightarrow> well_typed (stages_ok cap n m) (in_handle_connection k now rd again i c evt)"
proof (rule well_typedI)
  fix w assume i: "i < n" and ok: "stages_ok cap n m w"
  have "stages_ok cap n m (upd_conn c (c_locked_update (\<lambda>_. True)) w)" using ok by (simp add: stages_ok_lock)
  from well_typedE [OF in_cleanup_ok [OF i] this] obtain w2 where
    "in_cleanup k i c (upd_conn c (c_locked_update (\<lambda>_. True)) w) = Some w2" "stages_ok cap n m w2" .
  moreover from well_typedE [OF read_connection_ok [OF i] ok] obtain w3 where
    "read_connection k now rd again i c w = Some w3" "stages_ok cap n m w3" .
  ultimately show "\<exists>w'. in_handle_connection k now rd again i c evt w = Some w' \<and> stages_ok cap n m w'"
    using ok by (simp add: in_handle_connection_def try_lock_def stages_ok_lock)
qed


lemma dispose_ok: "stages_ok cap n m w \<Longrightarrow> stages_ok cap n m (snd (dispose_connection c w))"
proof -
  assume ok: "stages_ok cap n m w"
  define w1 where "w1 = upd_conn c (c_locked_update (\<lambda>_. True)) w"
  have "stages_ok cap n m w1" using ok by (simp add: w1_def stages_ok_lock)
  from stages_ok_queues(3) [OF this, of c] ok show ?thesis
    by (simp add: dispose_connection_def try_lock_def w1_def [symmetric] Let_def stages_ok_fields stages_ok_lock)
qed

lemma recycle_loop_ok: "stages_ok cap n m w \<Longrightarrow> stages_ok cap n m (snd (recycle_loop cnt cs w))"
proof (induction cnt cs w rule: recycle_loop.induct)
  case (2 cnt c cs w)
  obtain r w1 where d: "dispose_connection c w = (r, w1)" by (rule prod.exhaust)
  then have "stages_ok cap n m w1" using dispose_ok [OF 2(3), of c] by simp
  then show ?case using 2 d by (cases r) (auto split: prod.splits)
qed simp

lemma recycle_ok: "i < n \<Longrightarrow> stages_ok cap n m w \<Longrightarrow> stages_ok cap n m (recycle i w)"
proof -
  assume i: "i < n" and ok: "stages_ok cap n m w"
  obtain rest w1 where r: "recycle_loop 0 (p_expired (in_pollers w ! i)) w = (rest, w1)" by (rule prod.exhaust)
  then have w1: "stages_ok cap n m w1" using recycle_loop_ok [OF ok, of 0 "p_expired (in_pollers w ! i)"] by simp
  then show ?thesis using stages_ok_pollers(1) [OF w1, of i] poller_of_world(1) [OF w1 i] by (simp add: recycle_def r poller_ok_def)
qed

text \<open>The timer walk: callbacks that keep the type and leave the walked timer alone.\<close>

lemma run_due_ok:
  assumes "\<And>u x w t. stages_ok cap n m w \<Longrightarrow> \<exists>r w'. invoke u x (Some w, t) = (r, Some w', t) \<and> stages_ok cap n m w'"
  shows "stages_ok cap n m w \<Longrightarrow> \<exists>g w'. run_due invoke t (Some w) es = (g, Some w') \<and> stages_ok cap n m w'"
proof (induction es arbitrary: w)
  case (Cons e es)
  obtain key u where e: "e = (key, u)" by (rule prod.exhaust)
  obtain r w1 where w1: "invoke u (key_ctx key) (Some w, t) = (r, Some w1, t)" "stages_ok cap n m w1" using assms [OF Cons.prems, of u "key_ctx key" t] by blast
  obtain g w2 where "run_due invoke t (Some w1) es = (g, Some w2)" "stages_ok cap n m w2" using Cons.IH [OF w1(2)] by blast
  then show ?case using w1 by (simp add: e)
qed simp

lemma process_callbacks_ok:
  assumes "untouched invoke" and "\<And>u x w t. stages_ok cap n m w \<Longrightarrow> \<exists>r w'. invoke u x (Some w, t) = (r, Some w', t) \<and> stages_ok cap n m w'"
    and "stages_ok cap n m w" and "tree_ok t"
  obtains w' t' where "process_callbacks invoke now (Some w, t) = Some (Some w', t')" "stages_ok cap n m w'" "tree_ok t'"
proof -
  obtain g w' where r: "run_due invoke t (Some w) (filter (due (timer_unit_from_time now)) t) = (g, Some w')" "stages_ok cap n m w'"
    using run_due_ok [of cap n m invoke w t "filter (due (timer_unit_from_time now)) t", OF assms(2,3)] by blast
  have "tree_ok (filter (\<lambda>e. fst e \<notin> set g) t)" using assms(4) by (simp add: tree_ok_def sorted_wrt_filter)
  with process_callbacks_runs [OF assms(1,4) r(1)] r(2) show ?thesis using that by blast
qed


lemma in_trigger_ok: "i < n \<Longrightarrow> well_typed (stages_ok cap n m) (in_trigger_timer k mf now tmo i)"
proof (rule well_typedI)
  fix w assume i: "i < n" and ok: "stages_ok cap n m w"
  have u: "untouched (in_invoke k i)" by (auto simp: untouched_def in_invoke_def split: option.splits)
  have "\<exists>r w'. in_invoke k i u x (Some w, t) = (r, Some w', t) \<and> stages_ok cap n m w'" if "stages_ok cap n m w" for u x w t
    using well_typedE [OF in_idle_callback_ok [OF i, of cap m k "nat x"] that] by (fastforce simp: in_invoke_def)
  from process_callbacks_ok [OF u this ok, of "p_timer (in_pollers w ! i)" now] obtain w' t' where
    w': "process_callbacks (in_invoke k i) now (Some w, p_timer (in_pollers w ! i)) = Some (Some w', t')" "stages_ok cap n m w'" "tree_ok t'"
    using poller_of_world(1) [OF ok i] by (auto simp: poller_ok_def)
  show "\<exists>w'. in_trigger_timer k mf now tmo i w = Some w' \<and> stages_ok cap n m w'"
    using ok w' stages_ok_pollers(1) [OF w'(2), of i] poller_of_world(1) [OF w'(2) i] by (simp add: in_trigger_timer_def poller_ok_def)
qed

lemma in_post_ok: "i < n \<Longrightarrow> well_typed (stages_ok cap n m) (in_post_handle k mf mf2 now tmo i)"
  unfolding in_post_handle_def by (rule well_typed_bind [OF in_trigger_ok]) (auto simp: well_typed_def recycle_ok)

text \<open>The stages that write back.\<close>

lemma block_ok:
  "well_typed (stages_ok cap n m) (block_sched_add k c)"
  "well_typed (stages_ok cap n m) (\<lambda>w. map_option snd (block_process_task k rs out_done c w))"
proof -
  show "well_typed (stages_ok cap n m) (block_sched_add k c)"
  proof (rule well_typedI)
    fix w assume ok: "stages_ok cap n m w"
    have "stages_ok cap n m (upd_conn c set_cork w)" using ok by (simp add: stages_ok_conn conn_updates)
    from well_typedE [OF poll_ok(2) this] obtain w1 where "disable_poll k c (upd_conn c set_cork w) = Some w1" "stages_ok cap n m w1" .
    then show "\<exists>w'. block_sched_add k c w = Some w' \<and> stages_ok cap n m w'" using stages_ok_queues(2) by (simp add: block_sched_add_def)
  qed
  show "well_typed (stages_ok cap n m) (\<lambda>w. map_option snd (block_process_task k rs out_done c w))"
  proof (rule well_typedI)
    fix w assume ok: "stages_ok cap n m w"
    have w1: "stages_ok cap n m (upd_conn c clear_cork w)" using ok by (simp add: stages_ok_conn conn_updates)
    from well_typedE [OF poll_ok(1) w1] obtain w2 where "enable_poll k c (upd_conn c clear_cork w) = Some w2" "stages_ok cap n m w2" .
    moreover from well_typedE [OF active_close_ok w1] obtain w3 where "active_close k c (upd_conn c clear_cork w) = Some w3" "stages_ok cap n m w3" .
    ultimately show "\<exists>w'. map_option snd (block_process_task k rs out_done c w) = Some w' \<and> stages_ok cap n m w'"
      using stages_ok_queues(2) [OF ok] by (auto simp: block_process_task_def Let_def)
  qed
qed

lemma out_sched_add_ok: "well_typed (stages_ok cap n m) (\<lambda>w. map_option snd (out_sched_add k now c w))"
proof (rule well_typedI)
  fix w assume ok: "stages_ok cap n m w"
  define cur where "cur = (out_current w + 1) mod m"
  have m: "length (out_pollers w) = m" "out_pollers w \<noteq> []" "cur < m" and cur: "Suc (out_current w) mod m = cur"
    using ok by (auto simp: stages_ok_def cur_def)
  have "stages_ok cap n m (w\<lparr>out_current := cur\<rparr>)" using ok m(3) by (simp add: stages_ok_def w_fd_def [abs_def])
  from well_typedE [OF poll_ok(2) this] obtain w1 where w1: "disable_poll k c (w\<lparr>out_current := cur\<rparr>) = Some w1" "stages_ok cap n m w1" .
  define w2 where "w2 = upd_conn c (\<lambda>x. snd (update_last_active now (set_cork x))) w1"
  have w2: "stages_ok cap n m w2" using w1 by (simp add: w2_def stages_ok_conn conn_updates)
  obtain r f where f: "add_fd (k_add k (w_fd w2 c)) (p_fds (out_pollers w2 ! cur)) (w_fd w2 c) c = Some (r, f)" "fdmap_ok f" "fdmap_capacity f = cap"
    using add_fd_total [of "p_fds (out_pollers w2 ! cur)" cap "w_fd w2 c"] poller_of_world(2) [OF w2 m(3)] w_fd_less [OF w2] by (metis poller_ok_def)
  show "\<exists>w'. map_option snd (out_sched_add k now c w) = Some w' \<and> stages_ok cap n m w'"
    using f stages_ok_pollers(2) [OF w2, of cur] poller_of_world(2) [OF w2 m(3)]
    by (simp add: out_sched_add_def m cur Let_def w1 w2_def [symmetric] poller_ok_def)
qed

lemma out_cleanup_ok: "i < m \<Longrightarrow> well_typed (stages_ok cap n m) (out_cleanup k i c)"
proof (rule well_typedI)
  fix w assume i: "i < m" and ok: "stages_ok cap n m w"
  obtain r f where "remove_fd (k_remove k (w_fd w c)) (p_fds (out_pollers w ! i)) (w_fd w c) = Some (r, f)" "fdmap_ok f" "fdmap_capacity f = cap"
    using poller_ok_remove [OF poller_of_world(2) [OF ok i] w_fd_less [OF ok]] .
  then show "\<exists>w'. out_cleanup k i c w = Some w' \<and> stages_ok cap n m w'"
    using stages_ok_pollers(2) [OF ok, of i] poller_of_world(2) [OF ok i]
    by (simp add: out_cleanup_def Let_def poller_ok_def timer_ops_ok stages_ok_lock)
qed

lemma out_idle_callback_ok: "i < m \<Longrightarrow> well_typed (stages_ok cap n m) (\<lambda>w. map_option snd (out_idle_callback k i c w))"
proof (rule well_typedI)
  fix w assume i: "i < m" and ok: "stages_ok cap n m w"
  have "stages_ok cap n m (upd_conn c clear_cork w)" using ok by (simp add: stages_ok_conn conn_updates)
  from well_typedE [OF active_close_ok this] obtain w1 where w1: "active_close k c (upd_conn c clear_cork w) = Some w1" "stages_ok cap n m w1" .
  obtain r f where f: "remove_fd (k_remove k (w_fd w1 c)) (p_fds (out_pollers w1 ! i)) (w_fd w1 c) = Some (r, f)" "fdmap_ok f" "fdmap_capacity f = cap"
    using poller_ok_remove [OF poller_of_world(2) [OF w1(2) i] w_fd_less [OF w1(2)]] .
  then show "\<exists>w'. map_option snd (out_idle_callback k i c w) = Some w' \<and> stages_ok cap n m w'"
    using stages_ok_pollers(2) [OF w1(2), of i] poller_of_world(2) [OF w1(2) i] w1(1)
    by (simp add: out_idle_callback_def Let_def poller_ok_def stages_ok_lock)
qed

lemma out_trigger_ok: "i < m \<Longrightarrow> well_typed (stages_ok cap n m) (out_trigger_timer k mf now tmo i)"
proof (rule well_typedI)
  fix w assume i: "i < m" and ok: "stages_ok cap n m w"
  have u: "untouched (out_invoke k i)" by (auto simp: untouched_def out_invoke_def split: option.splits)
  have "\<exists>r w'. out_invoke k i u x (Some w, t) = (r, Some w', t) \<and> stages_ok cap n m w'" if "stages_ok cap n m w" for u x w t
    using well_typedE [OF out_idle_callback_ok [OF i, of cap n k "nat x"] that] by (fastforce simp: out_invoke_def)
  from process_callbacks_ok [OF u this ok, of "p_timer (out_pollers w ! i)" now] obtain w' t' where
    w': "process_callbacks (out_invoke k i) now (Some w, p_timer (out_pollers w ! i)) = Some (Some w', t')" "stages_ok cap n m w'" "tree_ok t'"
    using poller_of_world(2) [OF ok i] by (auto simp: poller_ok_def)
  show "\<exists>w'. out_trigger_timer k mf now tmo i w = Some w' \<and> stages_ok cap n m w'"
    using ok w' stages_ok_pollers(2) [OF w'(2), of i] poller_of_world(2) [OF w'(2) i] by (simp add: out_trigger_timer_def poller_ok_def)
qed


lemma out_handle_ok:
  assumes i: "i < m" and resched: "\<And>c w. stages_ok cap n m w \<Longrightarrow> stages_ok cap n m (resched c w)"
  shows "well_typed (stages_ok cap n m) (out_handle_connection k now wr again out_done resched i c evt)"
proof (rule well_typedI)
  fix w assume ok: "stages_ok cap n m w"
  obtain conn t where ct: "update_connection_timer now c (conns w c) (p_timer (out_pollers w ! i)) = (conn, t)" by (rule prod.exhaust)
  define w1 where "w1 = set_out_poller i ((out_pollers w ! i)\<lparr>p_timer := t\<rparr>) (upd_conn c (\<lambda>_. conn) w)"
  have t: "tree_ok t" "c_fd conn = w_fd w c"
    using timer_ops_ok(3) [of "p_timer (out_pollers w ! i)" now c "conns w c"]
      conn_updates(5) [of now c "conns w c" "p_timer (out_pollers w ! i)"] ct
      poller_of_world(2) [OF ok i] by (auto simp: poller_ok_def w_fd_def)
  have "stages_ok cap n m (upd_conn c (\<lambda>_. conn) w)" using ok t by (simp add: stages_ok_conn w_fd_def)
  from stages_ok_pollers(2) [OF this, of i] have w1: "stages_ok cap n m w1"
    using t poller_of_world(2) [OF ok i] by (simp add: w1_def poller_ok_def)
  define w2 where "w2 = upd_conn c clear_cork w1"
  have w2: "stages_ok cap n m w2" using w1 by (simp add: w2_def stages_ok_conn conn_updates)
  obtain r f where f: "remove_fd (k_remove k (w_fd w2 c)) (p_fds (out_pollers w2 ! i)) (w_fd w2 c) = Some (r, f)" "fdmap_ok f" "fdmap_capacity f = cap"
    using poller_ok_remove [OF poller_of_world(2) [OF w2 i] w_fd_less [OF w2]] .
  have cont: "stages_ok cap n m (resched c (set_out_poller i ((out_pollers w2 ! i)\<lparr>p_fds := f, p_timer := snd (timer_remove u x (p_timer (out_pollers w2 ! i)))\<rparr>) w2))" for u x
    using resched [OF stages_ok_pollers(2) [OF w2, of i]] f poller_of_world(2) [OF w2 i] by (simp add: poller_ok_def timer_ops_ok)
  have clean: "\<exists>w'. out_cleanup k i c s = Some w' \<and> stages_ok cap n m w'" if "stages_ok cap n m s" for s
    using out_cleanup_ok [OF i] that by (simp add: well_typed_def)
  obtain w3 w3' where w3: "active_close k c w2 = Some w3" "out_cleanup k i c w3 = Some w3'" "stages_ok cap n m w3'"
    using well_typedE [OF active_close_ok w2] clean by metis
  obtain w4 w4' where w4: "enable_poll k c w2 = Some w4" "out_cleanup k i c w4 = Some w4'" "stages_ok cap n m w4'"
    using well_typedE [OF poll_ok(1) w2] clean by metis
  have "stages_ok cap n m (upd_conn c clear_cork w)" using ok by (simp add: stages_ok_conn conn_updates)
  from well_typedE [OF active_close_ok this] clean obtain w5 w5' where
    w5: "active_close k c (upd_conn c clear_cork w) = Some w5" "out_cleanup k i c w5 = Some w5'" "stages_ok cap n m w5'" by metis
  show "\<exists>w'. out_handle_connection k now wr again out_done resched i c evt w = Some w' \<and> stages_ok cap n m w'"
    using w1 f cont w3 w4 w5 by (simp add: out_handle_connection_def ct Let_def w1_def [symmetric] w2_def [symmetric])
qed

section \<open>Rounds\<close>

lemma handle_round_ok:
  assumes "\<And>c evt. well_typed P (handler c evt)" and "well_typed P post" and "P w"
  shows "handle_event_round None (Some (\<lambda>c evt wo. wo \<bind> handler c evt)) (Some (\<lambda>wo. wo \<bind> post)) waited (Some w) = None \<or>
    (\<exists>w'. handle_event_round None (Some (\<lambda>c evt wo. wo \<bind> handler c evt)) (Some (\<lambda>wo. wo \<bind> post)) waited (Some w) = Some (Some w') \<and> P w')"
proof -
  have "\<exists>w'. fold (\<lambda>(e, c) wo. wo \<bind> handler c (build_poller_event e)) evts (Some w) = Some w' \<and> P w'" if "P w" for evts w
    using that
  proof (induction evts arbitrary: w)
    case (Cons e evts)
    obtain w1 where w1: "handler (snd e) (build_poller_event (fst e)) w = Some w1" "P w1" using well_typedE [OF assms(1) Cons.prems] .
    show ?case using Cons.IH [OF w1(2)] w1(1) by (simp add: case_prod_unfold)
  qed simp
  note handled = this [OF assms(3)]
  show ?thesis
  proof (cases waited)
    case (Inl e)
    then show ?thesis using assms(3) by (simp add: handle_event_round_def)
  next
    case (Inr evts)
    obtain w1 where w1: "fold (\<lambda>(e, c) wo. wo \<bind> handler c (build_poller_event e)) evts (Some w) = Some w1" "P w1" using handled by blast
    obtain w2 where "post w1 = Some w2" "P w2" using well_typedE [OF assms(2) w1(2)] .
    then show ?thesis using Inr w1(1) by (simp add: handle_event_round_def)
  qed
qed

lemma rounds_ok:
  assumes "\<And>r w. P w \<Longrightarrow> step r w = None \<or> (\<exists>w'. step r w = Some (Some w') \<and> P w')"
  shows "well_typed P (rounds step rs)"
proof (rule well_typedI)
  fix w assume "P w"
  then show "\<exists>w'. rounds step rs w = Some w' \<and> P w'"
  proof (induction rs arbitrary: w)
    case (Cons r rs)
    from assms [OF Cons.prems, of r] Cons show ?case by fastforce
  qed simp
qed

lemma in_rounds_ok: "i < n \<Longrightarrow> well_typed (stages_ok cap n m) (rounds (in_round k tmo i) rs)"
  unfolding in_round_def by (rule rounds_ok, rule handle_round_ok) (auto intro: in_handle_ok in_post_ok)

lemma out_rounds_ok:
  assumes "i < m" and "\<And>c w. stages_ok cap n m w \<Longrightarrow> stages_ok cap n m (resched c w)"
  shows "well_typed (stages_ok cap n m) (rounds (out_round k tmo resched i) rs)"
  unfolding out_round_def using assms by (intro rounds_ok handle_round_ok) (auto intro: out_handle_ok out_trigger_ok)

lemma Poller_new_ok: "poller_ok cap (Poller_new cap now)"
  by (simp add: poller_ok_def Poller_new_def fdmap_new_ok tree_ok_def)

lemma main_loops_ok:
  assumes "stages_ok cap n m w"
  shows "\<exists>w'. in_main_loop cap start k tmo rs w = Some w' \<and> stages_ok cap (Suc n) m w'"
    "(\<And>c w. stages_ok cap n (Suc m) w \<Longrightarrow> stages_ok cap n (Suc m) (resched c w)) \<Longrightarrow>
      \<exists>w'. out_main_loop cap start k tmo resched rs w = Some w' \<and> stages_ok cap n (Suc m) w'"
proof -
  have "stages_ok cap (Suc n) m (in_add_poll (Poller_new cap start) w)" and len: "length (in_pollers w) = n" "length (out_pollers w) = m"
    using assms Poller_new_ok by (auto simp: stages_ok_def in_add_poll_def w_fd_def [abs_def])
  from well_typedE [OF in_rounds_ok this(1)] show "\<exists>w'. in_main_loop cap start k tmo rs w = Some w' \<and> stages_ok cap (Suc n) m w'"
    unfolding in_main_loop_def len by blast
  assume r: "\<And>c w. stages_ok cap n (Suc m) w \<Longrightarrow> stages_ok cap n (Suc m) (resched c w)"
  have "stages_ok cap n (Suc m) (out_add_poll (Poller_new cap start) w)"
    using assms Poller_new_ok by (auto simp: stages_ok_def out_add_poll_def w_fd_def [abs_def])
  from well_typedE [OF out_rounds_ok [of m "Suc m" cap n resched, OF _ r] this] show "\<exists>w'. out_main_loop cap start k tmo resched rs w = Some w' \<and> stages_ok cap n (Suc m) w'"
    unfolding out_main_loop_def len by blast
qed

end
