(* ===== verification/Fcgi_Loop.thy ===== *)
theory Fcgi_Loop
  imports Fcgi_Completion Poll_Loops
begin

text \<open>
  The loop of the FastCGI completion stage (\<^verbatim>\<open>src/modules/mod_fcgi/fcgi_completion_stage.cc\<close>): rounds of a poller with the stage's event handler and the timer
  of \<^verbatim>\<open>src/core/stages.cc\<close> as post handler.  A connection that waits for the application too long is handed back by the timer; one whose client is too slow
  with its body makes the timer walk use an entry that its own callback has erased.
\<close>

section \<open>Definitions\<close>

definition fcgi_trigger_timer :: "fcgi_kernel \<Rightarrow> bool \<Rightarrow> int \<Rightarrow> int \<Rightarrow> nat \<Rightarrow> 'p fcgi_state \<Rightarrow> 'p fcgi_state option" where
  "fcgi_trigger_timer k mutex_free now tmo i st =
    (if mutex_free \<and> timer_due now tmo (f_poller i st)
     then do {
       (so, t) \<leftarrow> process_callbacks (fcgi_invoke k i) now (Some st, p_timer (f_poller i st));
       st1 \<leftarrow> so;
       Some (set_f_poller i ((f_poller i st1)\<lparr>p_timer := t, p_last_executed := timer_unit_from_time now\<rparr>) st1)
     }
     else Some st)"

text \<open>What the system does in a round, as for the other poll stages.\<close>

record fcgi_input =
  fi_now :: int
  fi_waited :: "int + (32 word \<times> nat) list"
  fi_readv :: "nat \<Rightarrow> nat \<Rightarrow> byte list option"
  fi_writev :: "nat \<Rightarrow> byte list \<Rightarrow> int"
  fi_again :: "nat \<Rightarrow> bool"
  fi_mutex :: bool

definition fcgi_round :: "'p content_lib \<Rightarrow> fcgi_kernel \<Rightarrow> int \<Rightarrow> nat \<Rightarrow> fcgi_input \<Rightarrow> 'p fcgi_state \<Rightarrow> 'p fcgi_state option option" where
  "fcgi_round lib k tmo i r st =
    handle_event_round None
      (Some (\<lambda>c evt so. so \<bind> fcgi_handle_connection lib k (fi_now r) (fi_readv r c) (fi_writev r c) (fi_again r c) i c evt))
      (Some (\<lambda>so. so \<bind> fcgi_trigger_timer k (fi_mutex r) (fi_now r) tmo i)) (fi_waited r) (Some st)"

fun fcgi_rounds :: "'p content_lib \<Rightarrow> fcgi_kernel \<Rightarrow> int \<Rightarrow> nat \<Rightarrow> fcgi_input list \<Rightarrow> 'p fcgi_state \<Rightarrow> 'p fcgi_state option" where
  "fcgi_rounds lib k tmo i [] st = Some st"
| "fcgi_rounds lib k tmo i (r # rs) st =
    (case fcgi_round lib k tmo i r st of None \<Rightarrow> Some st | Some None \<Rightarrow> None | Some (Some st') \<Rightarrow> fcgi_rounds lib k tmo i rs st')"

text \<open>The stage's constructor sets a time limit of ten seconds.\<close>

definition kFcgiTimeout :: int where "kFcgiTimeout = 10"

definition fcgi_main_loop :: "'p content_lib \<Rightarrow> nat \<Rightarrow> int \<Rightarrow> fcgi_kernel \<Rightarrow> fcgi_input list \<Rightarrow> 'p fcgi_state \<Rightarrow> 'p fcgi_state option" where
  "fcgi_main_loop lib cap start k rs st =
    fcgi_rounds lib k kFcgiTimeout (length (f_pollers st)) rs (st\<lparr>f_pollers := f_pollers st @ [Poller_new cap start]\<rparr>)"

section \<open>Time limits of the application\<close>

definition conn_of :: "timer_key \<times> 'c \<Rightarrow> nat" where
  "conn_of e = nat (key_ctx (fst e))"

definition waits_fcgi :: "nat \<Rightarrow> 'p fcgi_state \<Rightarrow> nat \<Rightarrow> bool" where
  "waits_fcgi cap st c \<longleftrightarrow> (case f_conts st c of
     None \<Rightarrow> False
   | Some cont \<Rightarrow> (cont_status cont = kCompletionWriteFcgi \<or> cont_status cont = kCompletionReadFcgi) \<and> sock_fd cont < cap)"

definition timed_out :: "'p fcgi_cont \<Rightarrow> 'p fcgi_cont" where
  "timed_out cont = cont\<lparr>need_reconnect := True, cont_status := kCompletionTimeout\<rparr>"

text \<open>\<open>handed_back cs st st'\<close>: exactly the connections \<open>cs\<close>, in this order, were rescheduled with a time-out between the two states.\<close>

definition handed_back :: "nat list \<Rightarrow> 'p fcgi_state \<Rightarrow> 'p fcgi_state \<Rightarrow> bool" where
  "handed_back cs st st' \<longleftrightarrow> f_resched st' = f_resched st @ cs \<and> f_write_back st' = f_write_back st \<and> f_outs st' = f_outs st \<and>
     (\<forall>c. f_conts st' c = (if c \<in> set cs then map_option timed_out (f_conts st c) else f_conts st c))"

definition walk_ok :: "nat \<Rightarrow> nat \<Rightarrow> 'p fcgi_state \<Rightarrow> bool" where
  "walk_ok cap i st \<longleftrightarrow> i < length (f_pollers st) \<and> fdmap_ok (p_fds (f_poller i st)) \<and> fdmap_capacity (p_fds (f_poller i st)) = cap"

lemma timeout_callback:
  assumes "waits_fcgi cap st c" and "walk_ok cap i st" and "nat x = c"
  shows "\<exists>st'. fcgi_invoke k i u x (Some st, t) = (True, Some st', t) \<and> handed_back [c] st st' \<and> walk_ok cap i st'"
proof -
  obtain cont where c: "f_conts st c = Some cont" "cont_status cont = kCompletionWriteFcgi \<or> cont_status cont = kCompletionReadFcgi" "sock_fd cont < cap"
    using assms(1) by (auto simp: waits_fcgi_def split: option.splits)
  obtain r f where f: "remove_fd (fk_remove k (sock_fd cont)) (p_fds (f_poller i st)) (sock_fd cont) = Some (r, f)" "fdmap_ok f" "fdmap_capacity f = cap"
    using remove_fd_total [of "p_fds (f_poller i st)" cap "sock_fd cont" "fk_remove k (sock_fd cont)"] assms(2) c(3) by (auto simp: walk_ok_def)
  define st1 where "st1 = set_f_poller i ((f_poller i st)\<lparr>p_timer := t, p_fds := f\<rparr>) st"
  define st2 where "st2 = resched_continuation c (set_cont c (timed_out cont) st1)"
  have i: "i < length (f_pollers st)" using assms(2) by (simp add: walk_ok_def)
  have "fcgi_idle_callback k i c (set_f_poller i ((f_poller i st)\<lparr>p_timer := t\<rparr>) st) = Some (True, st2)"
    using c f(1) i by (auto simp: fcgi_idle_callback_def fcgi_abort_def poller_remove_def set_f_poller_def f_poller_def st2_def st1_def timed_out_def Let_def)
  moreover have "p_timer (f_poller i st2) = t" "handed_back [c] st st2" "walk_ok cap i st2"
    using c(1) f i by (auto simp: st2_def st1_def resched_continuation_def set_cont_def set_f_poller_def f_poller_def handed_back_def walk_ok_def)
  ultimately show ?thesis using assms(3) by (auto simp: fcgi_invoke_def)
qed

lemma handed_back_trans:
  assumes "handed_back cs st st1" and "handed_back ds st1 st2" and "set cs \<inter> set ds = {}"
  shows "handed_back (cs @ ds) st st2"
  using assms by (auto simp: handed_back_def)

lemma fcgi_walk:
  "tree_ok (us @ vs) \<Longrightarrow> walk_ok cap i st \<Longrightarrow> distinct (map conn_of (takeWhile (due cur) vs)) \<Longrightarrow>
    \<forall>e \<in> set (takeWhile (due cur) vs). waits_fcgi cap st (conn_of e) \<Longrightarrow>
    \<exists>st'. process_loop (fcgi_invoke k i) cur (first_key vs) (Some st, us @ vs) g = Some (g @ map fst (takeWhile (due cur) vs), Some st', us @ vs) \<and>
      handed_back (map conn_of (takeWhile (due cur) vs)) st st' \<and> walk_ok cap i st'"
proof (induction vs arbitrary: us st g)
  case Nil
  then show ?case by (subst process_loop.simps) (simp add: first_key_def handed_back_def)
next
  case (Cons e vs)
  obtain key u where e: "e = (key, u)" by (cases e)
  note ok = Cons.prems(1) [unfolded e]
  show ?case
  proof (cases "due cur e")
    case False
    then show ?thesis using Cons.prems(2) by (subst process_loop.simps) (simp add: e first_key_def due_def handed_back_def)
  next
    case True
    have "nat (key_ctx key) = conn_of e" by (simp add: e conn_of_def)
    from timeout_callback [OF _ Cons.prems(2) this, of k u "us @ e # vs"] Cons.prems(4) True obtain st1 where
      st1: "fcgi_invoke k i u (key_ctx key) (Some st, us @ e # vs) = (True, Some st1, us @ e # vs)" "handed_back [conn_of e] st st1" "walk_ok cap i st1"
      by auto
    have "waits_fcgi cap st1 (conn_of a)" if "a \<in> set (takeWhile (due cur) vs)" for a
    proof -
      have "conn_of a \<noteq> conn_of e" using Cons.prems(3) True that by (auto simp: image_iff)
      then show ?thesis using Cons.prems(4) that st1(2) True by (auto simp: handed_back_def waits_fcgi_def)
    qed
    then obtain st2 where st2: "process_loop (fcgi_invoke k i) cur (first_key vs) (Some st1, us @ e # vs) (g @ [key]) =
        Some ((g @ [key]) @ map fst (takeWhile (due cur) vs), Some st2, us @ e # vs)"
        "handed_back (map conn_of (takeWhile (due cur) vs)) st1 st2" "walk_ok cap i st2"
      using Cons.IH [of "us @ [e]" st1 "g @ [key]"] Cons.prems(1,3) st1(3) True by auto
    have "process_loop (fcgi_invoke k i) cur (first_key (e # vs)) (Some st, us @ e # vs) g =
        process_loop (fcgi_invoke k i) cur (first_key vs) (Some st1, us @ e # vs) (g @ [key])"
      using True st1(1) map_of_middle [OF ok] next_key_middle [OF ok]
      by (subst process_loop.simps) (simp add: e first_key_def due_def)
    moreover have "handed_back ([conn_of e] @ map conn_of (takeWhile (due cur) vs)) st st2"
      using handed_back_trans [OF st1(2) st2(2)] Cons.prems(3) True by auto
    ultimately show ?thesis using st2(1,3) True by (auto simp: e)
  qed
qed

section \<open>Properties\<close>



definition idle_sample :: "completion_status \<Rightarrow> unit fcgi_state" where
  "idle_sample s = (fcgi_sample s)\<lparr>f_pollers :=
     [\<lparr>p_fds = FDMap_new 8, p_timer = [(TimerKey 5 1, ()), (TimerKey 90 2, ())], p_last_executed = 0, p_expired = []\<rparr>]\<rparr>"

lemma idle_sample_cont:
  "\<exists>cont. f_conts (idle_sample s) 1 = Some cont \<and> cont_status cont = s \<and> sock_fd cont = 6"
  "f_pollers (idle_sample s) = [\<lparr>p_fds = FDMap_new 8, p_timer = [(TimerKey 5 1, ()), (TimerKey 90 2, ())], p_last_executed = 0, p_expired = []\<rparr>]"
  "f_resched (idle_sample s) = []"
  by (simp_all add: idle_sample_def fcgi_sample_def FcgiCompletionContinuation_def Let_def split: prod.splits)


section \<open>Slow clients\<close>

text \<open>\<open>abort\<close> takes a connection that still reads the client's body off the timer itself, although the timer walk does so, too: the walk then
  continues from an entry that is gone.  It suffices that the first entry of the timer belongs to such a connection and its time is over.\<close>

lemma slow_upload_breaks_timer:
  assumes "f_conts st c = Some cont" and "cont_status cont = kCompletionReadClient" and "i < length (f_pollers st)"
    and "poller_ok cap (f_poller i st)" and "f_fd c st < cap" and "timer_due now tmo (f_poller i st)"
    and "p_timer (f_poller i st) = (TimerKey (cont_last_active cont + kIdleTimeout) (int c), ()) # t"
    and "cont_last_active cont + kIdleTimeout \<le> timer_unit_from_time now"
  shows "fcgi_trigger_timer k True now tmo i st = None"
proof -
  let ?key = "TimerKey (cont_last_active cont + kIdleTimeout) (int c)" and ?t = "p_timer (f_poller i st)"
  have st: "set_f_poller i ((f_poller i st)\<lparr>p_timer := ?t\<rparr>) st = st" by (simp add: set_f_poller_def f_poller_def)
  obtain r f where f: "remove_fd (fk_remove k (f_fd c st)) (p_fds (f_poller i st)) (f_fd c st) = Some (r, f)"
    using remove_fd_total [of "p_fds (f_poller i st)" cap "f_fd c st" "fk_remove k (f_fd c st)"] assms(4,5) by (auto simp: poller_ok_def)
  define st' where "st' = resched_continuation c (set_cont c (cont\<lparr>cont_status := kCompletionTimeout\<rparr>)
    (set_f_poller i ((f_poller i st)\<lparr>p_timer := map_erase ?key ?t, p_fds := f\<rparr>) st))"
  have "fcgi_idle_callback k i c st = Some (True, st')"
    using assms(1-3,7) f
    by (simp add: fcgi_idle_callback_def fcgi_abort_def remove_fd_with_timer_def poller_remove_def set_f_poller_def f_poller_def Let_def timer_remove_def st'_def)
  moreover have "map_of (p_timer (f_poller i st')) ?key = None"
    using assms(3) by (auto simp: st'_def resched_continuation_def set_cont_def set_f_poller_def f_poller_def map_erase_def map_of_eq_None_iff)
  ultimately have "process_loop (fcgi_invoke k i) (timer_unit_from_time now) (Some ?key) (Some st, ?t) [] = None"
    using assms(7,8) st by (subst process_loop.simps) (simp add: fcgi_invoke_def)
  then show ?thesis using assms(6,7) by (simp add: fcgi_trigger_timer_def process_callbacks_def first_key_def)
qed

end
