(* ===== verification/Http_Parser.thy ===== *)
theory Http_Parser
  imports Http_Connection
begin

text \<open>
  The HTTP parser of \<^verbatim>\<open>src/http/http_parser.rl\<close>.  The grammar is a Ragel machine: \<open>transition\<close> is the deterministic automaton its operators denote, with
  the actions Ragel puts on each transition in their order; \<open>exec\<close> is the loop Ragel generates, and the C functions around it are the definitions of the same
  names.  The alternatives for the special header lines run beside the general one, so a state of the header part holds which of them are still possible.

  Conventions of the Ragel operators that matter here: entering actions (\<open>>\<close>) are on the first character, leaving actions (\<open>%\<close>) on the character that follows,
  also when the machine matched nothing, finishing actions (\<open>@\<close>) on the last character; \<open>:>\<close> makes the end of a line win over the text before it.

  A mark is the text between it and the current position; the callbacks return zero, as those of \<^verbatim>\<open>src/http/connection.cc\<close> do, and \<open>on_message_begin\<close> and
  \<open>on_headers_complete\<close> are not installed.  The size of a field is only read while the field is marked; \<open>http_parser_init\<close>, which leaves the sizes alone, gives
  zeros here.
\<close>

section \<open>Characters\<close>

definition is_CR :: "char \<Rightarrow> bool" where "is_CR c \<longleftrightarrow> c = CHR 0x0D"
definition is_LF :: "char \<Rightarrow> bool" where "is_LF c \<longleftrightarrow> c = CHR 0x0A"

definition is_lower :: "char \<Rightarrow> bool" where "is_lower c \<longleftrightarrow> 97 \<le> char_code c \<and> char_code c \<le> 122"
definition is_upper :: "char \<Rightarrow> bool" where "is_upper c \<longleftrightarrow> 65 \<le> char_code c \<and> char_code c \<le> 90"

definition alpha :: "char \<Rightarrow> bool" where "alpha c \<longleftrightarrow> is_lower c \<or> is_upper c"

definition lower :: "char \<Rightarrow> char" where "lower c = (if is_upper c then char_of (char_code c + 32) else c)"

definition xdigit :: "char \<Rightarrow> bool" where
  "xdigit c \<longleftrightarrow> is_digit c \<or> 65 \<le> char_code c \<and> char_code c \<le> 70 \<or> 97 \<le> char_code c \<and> char_code c \<le> 102"

definition unhex :: "char \<Rightarrow> nat" where
  "unhex c = (if is_digit c then char_code c - 48 else if is_upper c then char_code c - 55 else char_code c - 87)"

definition is_ascii :: "char \<Rightarrow> bool" where "is_ascii c \<longleftrightarrow> char_code c \<le> 127"

definition CTL :: "char \<Rightarrow> bool" where "CTL c \<longleftrightarrow> char_code c \<le> 31 \<or> char_code c = 127"

definition safe :: "char \<Rightarrow> bool" where "safe c \<longleftrightarrow> c \<in> set ''$-_.''"
definition extra :: "char \<Rightarrow> bool" where "extra c \<longleftrightarrow> c \<in> set (''!*(),'' @ [CHR 0x27])"
definition reserved :: "char \<Rightarrow> bool" where "reserved c \<longleftrightarrow> c \<in> set '';/?:@&=+''"
definition unsafe :: "char \<Rightarrow> bool" where "unsafe c \<longleftrightarrow> CTL c \<or> c \<in> set ('' #%<>'' @ [CHR 0x22])"

definition national :: "char \<Rightarrow> bool" where
  "national c \<longleftrightarrow> \<not> (alpha c \<or> is_digit c \<or> reserved c \<or> extra c \<or> safe c \<or> unsafe c)"

definition unreserved :: "char \<Rightarrow> bool" where
  "unreserved c \<longleftrightarrow> alpha c \<or> is_digit c \<or> safe c \<or> extra c \<or> national c"

definition pchar :: "char \<Rightarrow> bool" where "pchar c \<longleftrightarrow> unreserved c \<or> c \<in> set '':@&=+''"

definition scheme_char :: "char \<Rightarrow> bool" where "scheme_char c \<longleftrightarrow> alpha c \<or> is_digit c \<or> c \<in> set ''+-.''"

definition tspecials :: "char \<Rightarrow> bool" where
  "tspecials c \<longleftrightarrow> c \<in> set (''()<>@,;:/[]?={} '' @ [CHR 0x5C, CHR 0x22, CHR 0x09])"

definition token :: "char \<Rightarrow> bool" where "token c \<longleftrightarrow> is_ascii c \<and> \<not> (CTL c \<or> tspecials c)"

section \<open>States and actions\<close>

datatype field = FHeaderField | FHeaderValue | FQueryString | FPath | FUri | FFragment

datatype action =
    Mark field | Data field | SetMethod int | VersionMajor | VersionMinor | StatusCode
  | ContentLength | UseChunked | UseIdentity | SetKeepAlive | SetNotKeepAlive | HeaderLineComplete | AddToChunkSize

text \<open>The actions that move the position or choose the next state; a transition has at most one, as its last.\<close>

datatype control = Advance | MainStart | BodyLogic | SkipChunkData | EndChunkedBody

datatype header_kind = ContentLengthH | ConnectionH | TransferEncodingH | OtherH

text \<open>What may still follow in the value of a special header: digits, or one of some words (with the rest of the word; the flag tells
  whether letters match in either case).\<close>

datatype value_word = KeepAliveW | CloseW | IdentityW

datatype value_obs = Digits | Words bool "(value_word \<times> string) list"

text \<open>The positions of the grammar.  The number in a URI state tells how many characters of an escape have been read; the flag of the version states tells
  whether the line is a status line, that of \<open>PHeaders\<close> whether a header line has just ended, that of the chunk states whether it is the last chunk.\<close>

datatype pstate =
    PMain | PStart | PAfter | PError
  | PMethod string | PUri | PStar | PScheme | PAbsolute nat | PPath nat | PQuery nat | PFragment nat
  | PHttp bool string | PMajor bool | PDot bool | PMinor bool | PVersionEnd bool | PStatus nat | PReason | PLineCR
  | PHeaders bool | PName "(header_kind \<times> string) list" | PSep header_kind | PValue value_obs | PHeaderCR | PEndCR
  | CStart | CZeros | CSize | CExtSpace bool | CExtName bool | CExtVal bool | CExtCR bool | CBody | CEnd | CEndCR
  | CTrailer | CName | CSep | CValue | CHeaderCR | CLastCR | CDone

datatype parser_type = HTTP_REQUEST | HTTP_RESPONSE

section \<open>The automaton\<close>

definition methods :: "(string \<times> int) list" where
  "methods = [(''COPY'', HTTP_COPY), (''DELETE'', HTTP_DELETE), (''GET'', HTTP_GET), (''HEAD'', HTTP_HEAD), (''LOCK'', HTTP_LOCK),
     (''MKCOL'', HTTP_MKCOL), (''MOVE'', HTTP_MOVE), (''OPTIONS'', HTTP_OPTIONS), (''POST'', HTTP_POST), (''PROPFIND'', HTTP_PROPFIND),
     (''PROPPATCH'', HTTP_PROPPATCH), (''PUT'', HTTP_PUT), (''TRACE'', HTTP_TRACE), (''UNLOCK'', HTTP_UNLOCK)]"

definition method_prefix :: "string \<Rightarrow> bool" where
  "method_prefix s \<longleftrightarrow> (\<exists>m \<in> set methods. take (length s) (fst m) = s)"

definition header_words :: "(header_kind \<times> string) list" where
  "header_words = [(ContentLengthH, ''content-length''), (ConnectionH, ''connection''), (TransferEncodingH, ''transfer-encoding'')]"

text \<open>One character of words that run in parallel, and the header whose name has just been completed.\<close>

definition follow :: "char \<Rightarrow> ('a \<times> string) list \<Rightarrow> ('a \<times> string) list" where
  "follow c ws = map (\<lambda>w. (fst w, tl (snd w))) (filter (\<lambda>w. snd w \<noteq> [] \<and> hd (snd w) = c) ws)"

definition finished :: "('a \<times> string) list \<Rightarrow> 'a list" where
  "finished ws = map fst (filter (\<lambda>w. snd w = []) ws)"

definition header_kind :: "(header_kind \<times> string) list \<Rightarrow> header_kind" where
  "header_kind ws = (case finished ws of [] \<Rightarrow> OtherH | k # _ \<Rightarrow> k)"

fun value_start :: "header_kind \<Rightarrow> value_obs" where
  "value_start ContentLengthH = Digits"
| "value_start ConnectionH = Words True [(KeepAliveW, ''keep-alive''), (CloseW, ''close'')]"
| "value_start TransferEncodingH = Words False [(IdentityW, ''identity'')]"
| "value_start OtherH = Words False []"

fun value_step :: "char \<Rightarrow> value_obs \<Rightarrow> action list \<times> value_obs" where
  "value_step c Digits = (if is_digit c then ([ContentLength], Digits) else ([], Words False []))"
| "value_step c (Words ci ws) = ([], Words ci (follow (if ci then lower c else c) ws))"

fun word_action :: "value_word \<Rightarrow> action" where
  "word_action KeepAliveW = SetKeepAlive"
| "word_action CloseW = SetNotKeepAlive"
| "word_action IdentityW = UseIdentity"

fun value_leave :: "value_obs \<Rightarrow> action list" where
  "value_leave Digits = []"
| "value_leave (Words ci ws) = map word_action (finished ws)"

type_synonym transition = "action list \<times> control \<times> pstate"

definition goto :: "action list \<Rightarrow> pstate \<Rightarrow> transition" where "goto acts st = (acts, Advance, st)"
definition fail :: transition where "fail = ([], Advance, PError)"

text \<open>The end of a line, \<open>CRLF\<close>.\<close>

definition line_end :: "char \<Rightarrow> action list \<Rightarrow> pstate \<Rightarrow> pstate \<Rightarrow> transition" where
  "line_end c acts cr lf = (if is_CR c then goto acts cr else if is_LF c then goto acts lf else fail)"

text \<open>The end of the URI in the request line, and a character of a URI part with escapes.\<close>

definition uri_end :: "char \<Rightarrow> action list \<Rightarrow> transition" where
  "uri_end c acts =
    (if c = CHR '' '' then goto (acts @ [Data FUri]) (PHttp False ''HTTP/'')
     else if c = CHR ''#'' then goto (acts @ [Data FUri]) (PFragment 3) else fail)"

definition uri_char :: "(nat \<Rightarrow> pstate) \<Rightarrow> (char \<Rightarrow> bool) \<Rightarrow> nat \<Rightarrow> char \<Rightarrow> action list \<Rightarrow> transition \<Rightarrow> transition" where
  "uri_char st ok e c enter leave =
    (if e = 1 then (if xdigit c then goto [] (st 2) else fail)
     else if e = 2 then (if xdigit c then goto [] (st 0) else fail)
     else if c = CHR ''%'' then goto enter (st 1)
     else if ok c then goto enter (st 0) else leave)"

text \<open>The characters of \<open>query\<close>, \<open>Fragment\<close> and \<open>absolute_uri\<close>.  The first two set their mark on their first character; the state before it has number 3.\<close>

definition uri_rest :: "char \<Rightarrow> bool" where "uri_rest c \<longleftrightarrow> unreserved c \<or> reserved c"

definition start_message :: "parser_type \<Rightarrow> char \<Rightarrow> transition" where
  "start_message ty c =
    (case ty of
       HTTP_REQUEST \<Rightarrow> if method_prefix [c] then goto [] (PMethod [c]) else fail
     | HTTP_RESPONSE \<Rightarrow> if c = CHR ''H'' then goto [] (PHttp True ''TTP/'') else fail)"


fun transition :: "parser_type \<Rightarrow> pstate \<Rightarrow> char \<Rightarrow> transition" where
  "transition ty PMain c = ([], MainStart, PStart)"
| "transition ty PStart c = start_message ty c"
| "transition ty PAfter c = start_message ty c"
| "transition ty PError c = fail"
| "transition ty (PMethod m) c =
    (if c = CHR '' '' then (case map_of methods m of Some code \<Rightarrow> goto [SetMethod code] PUri | None \<Rightarrow> fail)
     else if method_prefix (m @ [c]) then goto [] (PMethod (m @ [c])) else fail)"
| "transition ty PUri c =
    (if c = CHR ''*'' then goto [Mark FUri] PStar
     else if c = CHR ''/'' then goto [Mark FUri, Mark FPath] (PPath 0)
     else if c = CHR '':'' then goto [Mark FUri] (PAbsolute 0)
     else if scheme_char c then goto [Mark FUri] PScheme else fail)"
| "transition ty PStar c = uri_end c []"
| "transition ty PScheme c = (if c = CHR '':'' then goto [] (PAbsolute 0) else if scheme_char c then goto [] PScheme else fail)"
| "transition ty (PAbsolute e) c = uri_char PAbsolute uri_rest e c [] (uri_end c [])"
| "transition ty (PPath e) c =
    uri_char PPath (\<lambda>c. pchar c \<or> c = CHR ''/'' \<or> c = CHR '';'') e c []
      (if c = CHR ''?'' then goto [Data FPath] (PQuery 3) else uri_end c [Data FPath])"
| "transition ty (PQuery e) c = uri_char PQuery uri_rest e c (if e = 3 then [Mark FQueryString] else []) (uri_end c [Data FQueryString])"
| "transition ty (PFragment e) c =
    uri_char PFragment uri_rest e c (if e = 3 then [Mark FFragment] else [])
      (if c = CHR '' '' then goto [Data FFragment] (PHttp False ''HTTP/'') else fail)"
| "transition ty (PHttp resp w) c =
    (case w of [] \<Rightarrow> fail
     | x # w' \<Rightarrow> if c = x then goto [] (if w' = [] then PMajor resp else PHttp resp w') else fail)"
| "transition ty (PMajor resp) c = (if is_digit c then goto [VersionMajor] (PDot resp) else fail)"
| "transition ty (PDot resp) c = (if c = CHR ''.'' then goto [] (PMinor resp) else fail)"
| "transition ty (PMinor resp) c = (if is_digit c then goto [VersionMinor] (PVersionEnd resp) else fail)"
| "transition ty (PVersionEnd resp) c =
    (if resp then (if c = CHR '' '' then goto [] (PStatus 3) else fail) else line_end c [] PLineCR (PHeaders False))"
| "transition ty (PStatus n) c =
    (if n \<noteq> 0 then (if is_digit c then goto [StatusCode] (PStatus (n - 1)) else fail)
     else if c = CHR '' '' then goto [] PReason else line_end c [] PLineCR (PHeaders False))"
| "transition ty PReason c =
    (if is_ascii c \<and> \<not> is_CR c \<and> \<not> is_LF c then goto [] PReason else line_end c [] PLineCR (PHeaders False))"
| "transition ty PLineCR c = (if is_LF c then goto [] (PHeaders False) else fail)"
| "transition ty (PHeaders after) c =
    (let acts = (if after then [HeaderLineComplete] else [])
     in if token c then goto (acts @ [Mark FHeaderField]) (PName (follow (lower c) header_words))
        else if is_CR c then goto acts PEndCR
        else if is_LF c then (acts, BodyLogic, PAfter) else fail)"
| "transition ty (PName ws) c =
    (if token c then goto [] (PName (follow (lower c) ws))
     else if c = CHR '':''
     then goto ((if header_kind ws = TransferEncodingH then [UseChunked] else []) @ [Data FHeaderField]) (PSep (header_kind ws))
     else fail)"
| "transition ty (PSep k) c =
    (if c = CHR '' '' then goto [] (PSep k)
     else if is_CR c \<or> is_LF c then line_end c [Data FHeaderValue] PHeaderCR (PHeaders True)
     else let (acts, obs) = value_step c (value_start k) in goto (acts @ [Mark FHeaderValue]) (PValue obs))"
| "transition ty (PValue obs) c =
    (if is_CR c \<or> is_LF c then line_end c (value_leave obs @ [Data FHeaderValue]) PHeaderCR (PHeaders True)
     else let (acts, obs') = value_step c obs in goto acts (PValue obs'))"
| "transition ty PHeaderCR c = (if is_LF c then goto [] (PHeaders True) else fail)"
| "transition ty PEndCR c = (if is_LF c then ([], BodyLogic, PAfter) else fail)"
| "transition ty CStart c =
    (if c = CHR ''0'' then goto [AddToChunkSize] CZeros else if xdigit c then goto [AddToChunkSize] CSize else fail)"
| "transition ty CZeros c =
    (if c = CHR ''0'' then goto [AddToChunkSize] CZeros else if xdigit c then goto [AddToChunkSize] CSize
     else if c = CHR '';'' then goto [] (CExtSpace True) else line_end c [] (CExtCR True) CTrailer)"
| "transition ty CSize c =
    (if xdigit c then goto [AddToChunkSize] CSize
     else if c = CHR '';'' then goto [] (CExtSpace False) else line_end c [] (CExtCR False) CBody)"
| "transition ty (CExtSpace lst) c =
    (if c = CHR '' '' then goto [] (CExtSpace lst) else if token c then goto [] (CExtName lst)
     else if c = CHR ''='' then goto [] (CExtVal lst) else if c = CHR '';'' then goto [] (CExtSpace lst)
     else line_end c [] (CExtCR lst) (if lst then CTrailer else CBody))"
| "transition ty (CExtName lst) c =
    (if token c then goto [] (CExtName lst) else if c = CHR ''='' then goto [] (CExtVal lst)
     else if c = CHR '';'' then goto [] (CExtSpace lst) else line_end c [] (CExtCR lst) (if lst then CTrailer else CBody))"
| "transition ty (CExtVal lst) c =
    (if token c then goto [] (CExtVal lst)
     else if c = CHR '';'' then goto [] (CExtSpace lst) else line_end c [] (CExtCR lst) (if lst then CTrailer else CBody))"
| "transition ty (CExtCR lst) c = (if is_LF c then goto [] (if lst then CTrailer else CBody) else fail)"
| "transition ty CBody c = ([], SkipChunkData, CEnd)"
| "transition ty CEnd c = line_end c [] CEndCR CStart"
| "transition ty CEndCR c = (if is_LF c then goto [] CStart else fail)"
| "transition ty CTrailer c =
    (if token c then goto [] CName else if is_CR c then goto [] CLastCR
     else if is_LF c then ([], EndChunkedBody, CDone) else fail)"
| "transition ty CName c = (if token c then goto [] CName else if c = CHR '':'' then goto [] CSep else fail)"
| "transition ty CSep c =
    (if c = CHR '' '' then goto [] CSep else if is_CR c \<or> is_LF c then line_end c [] CHeaderCR CTrailer else goto [] CValue)"
| "transition ty CValue c = (if is_CR c \<or> is_LF c then line_end c [] CHeaderCR CTrailer else goto [] CValue)"
| "transition ty CHeaderCR c = (if is_LF c then goto [] CTrailer else fail)"
| "transition ty CLastCR c = (if is_LF c then ([], EndChunkedBody, CDone) else fail)"
| "transition ty CDone c = fail"

lemmas transition_defs = goto_def fail_def line_end_def uri_end_def uri_char_def start_message_def

text \<open>Where the control actions stand.\<close>

lemma transition_control:
  assumes "transition ty st c = (acts, ctl, tgt)"
  shows "ctl = MainStart \<longleftrightarrow> st = PMain" "ctl = SkipChunkData \<longleftrightarrow> st = CBody"
  using assms
  by (cases st; auto simp: transition_defs Let_def split: if_splits option.splits list.splits prod.splits parser_type.splits)+


section \<open>The parser object\<close>

definition HTTP_IDENTITY :: int where "HTTP_IDENTITY = 1"
definition HTTP_CHUNKED :: int where "HTTP_CHUNKED = 2"
definition MAX_FIELD_SIZE :: nat where "MAX_FIELD_SIZE = 80 * 1024"

record http_parser =
  hp_cs :: pstate
  hp_type :: parser_type
  hp_error :: bool
  hp_chunk_size :: "64 word"
  hp_eating :: bool
  hp_body_read :: "64 word"
  hp_mark :: "field \<Rightarrow> string option"
  hp_size :: "field \<Rightarrow> nat"
  hp_status_code :: int
  hp_method :: int
  hp_transfer_encoding :: int
  hp_version_major :: int
  hp_version_minor :: int
  hp_keep_alive :: int
  hp_content_length :: "64 word"

definition RESET_PARSER :: "http_parser \<Rightarrow> http_parser" where
  "RESET_PARSER p = p\<lparr>hp_chunk_size := 0, hp_eating := False, hp_mark := (\<lambda>_. None), hp_status_code := 0, hp_method := 0,
     hp_transfer_encoding := HTTP_IDENTITY, hp_version_major := 0, hp_version_minor := 0, hp_keep_alive := -1,
     hp_content_length := 0, hp_body_read := 0\<rparr>"

definition http_parser_init :: "parser_type \<Rightarrow> http_parser" where
  "http_parser_init ty = RESET_PARSER \<lparr>hp_cs = PMain, hp_type = ty, hp_error = False, hp_chunk_size = 0, hp_eating = False, hp_body_read = 0,
     hp_mark = (\<lambda>_. None), hp_size = (\<lambda>_. 0), hp_status_code = 0, hp_method = 0, hp_transfer_encoding = 0, hp_version_major = 0,
     hp_version_minor = 0, hp_keep_alive = 0, hp_content_length = 0\<rparr>"

fun field_event :: "field \<Rightarrow> string \<Rightarrow> parser_event" where
  "field_event FHeaderField s = OnField s"
| "field_event FHeaderValue s = OnValue s"
| "field_event FQueryString s = OnQueryString s"
| "field_event FPath s = OnPath s"
| "field_event FUri s = OnUri s"
| "field_event FFragment s = OnFragment s"

definition fields_of :: "http_parser \<Rightarrow> parser_fields" where
  "fields_of p = \<lparr>pf_method = hp_method p, pf_content_length = unat (hp_content_length p), pf_transfer_encoding = hp_transfer_encoding p,
     pf_version_major = hp_version_major p, pf_version_minor = hp_version_minor p, pf_keep_alive = hp_keep_alive p\<rparr>"

definition END_REQUEST :: "http_parser \<Rightarrow> parser_event list \<times> http_parser" where
  "END_REQUEST p = ([OnMessageComplete (fields_of p)], RESET_PARSER p)"

text \<open>\<open>CALLBACK\<close>: the events, the parser, and whether the function goes on (otherwise it returns zero).\<close>

definition CALLBACK :: "field \<Rightarrow> http_parser \<Rightarrow> parser_event list \<times> http_parser \<times> bool" where
  "CALLBACK f p =
    (case hp_mark p f of
       None \<Rightarrow> ([], p, True)
     | Some s \<Rightarrow>
        let p1 = p\<lparr>hp_size := (hp_size p)(f := hp_size p f + length s)\<rparr>
        in if hp_size p1 f > MAX_FIELD_SIZE then ([], p1\<lparr>hp_error := True\<rparr>, False) else ([field_event f s], p1, True))"

text \<open>\<open>SKIP_CHUNK_DATA\<close> with \<open>n\<close> characters of the remaining input.\<close>

definition SKIP_CHUNK_DATA :: "nat \<Rightarrow> string \<Rightarrow> http_parser \<Rightarrow> parser_event list \<times> http_parser" where
  "SKIP_CHUNK_DATA n s p =
    (let es = (if n > 0 then [OnChunkData (take n s)] else []);
         p1 = p\<lparr>hp_body_read := hp_body_read p + word_of_nat n, hp_chunk_size := hp_chunk_size p - word_of_nat n\<rparr>
     in if hp_chunk_size p1 = 0
        then let p2 = p1\<lparr>hp_eating := False\<rparr>
             in if hp_transfer_encoding p2 = HTTP_IDENTITY then (let (es', p3) = END_REQUEST p2 in (es @ es', p3)) else (es, p2)
        else (es, p1\<lparr>hp_eating := True\<rparr>))"

fun run_action :: "char \<Rightarrow> action \<Rightarrow> http_parser \<Rightarrow> parser_event list \<times> http_parser \<times> bool" where
  "run_action c (Mark f) p = ([], p\<lparr>hp_mark := (hp_mark p)(f := Some []), hp_size := (hp_size p)(f := 0)\<rparr>, True)"
| "run_action c (Data f) p =
    (let (es, p1, go) = CALLBACK f p
     in if go then (es, p1\<lparr>hp_mark := (hp_mark p1)(f := None), hp_size := (hp_size p1)(f := 0)\<rparr>, True) else (es, p1, False))"
| "run_action c (SetMethod m) p = ([], p\<lparr>hp_method := m\<rparr>, True)"
| "run_action c VersionMajor p = ([], p\<lparr>hp_version_major := hp_version_major p * 10 + (int (char_code c) - 48)\<rparr>, True)"
| "run_action c VersionMinor p = ([], p\<lparr>hp_version_minor := hp_version_minor p * 10 + (int (char_code c) - 48)\<rparr>, True)"
| "run_action c StatusCode p = ([], p\<lparr>hp_status_code := hp_status_code p * 10 + (int (char_code c) - 48)\<rparr>, True)"
| "run_action c ContentLength p = ([], p\<lparr>hp_content_length := hp_content_length p * 10 + word_of_nat (char_code c - 48)\<rparr>, True)"
| "run_action c UseChunked p = ([], p\<lparr>hp_transfer_encoding := HTTP_CHUNKED\<rparr>, True)"
| "run_action c UseIdentity p = ([], p\<lparr>hp_transfer_encoding := HTTP_IDENTITY\<rparr>, True)"
| "run_action c SetKeepAlive p = ([], p\<lparr>hp_keep_alive := 1\<rparr>, True)"
| "run_action c SetNotKeepAlive p = ([], p\<lparr>hp_keep_alive := 0\<rparr>, True)"
| "run_action c HeaderLineComplete p = ([OnHeaderLineComplete], p, True)"
| "run_action c AddToChunkSize p = ([], p\<lparr>hp_chunk_size := hp_chunk_size p * 16 + word_of_nat (unhex c)\<rparr>, True)"

fun run_actions :: "char \<Rightarrow> action list \<Rightarrow> http_parser \<Rightarrow> parser_event list \<times> http_parser \<times> bool" where
  "run_actions c [] p = ([], p, True)"
| "run_actions c (a # acts) p =
    (let (es, p1, go) = run_action c a p
     in if go then (let (es', p2, go') = run_actions c acts p1 in (es @ es', p2, go')) else (es, p1, False))"

section \<open>The loop\<close>

text \<open>\<open>++p\<close>: the text of every mark grows by the character.\<close>

definition advance :: "char \<Rightarrow> http_parser \<Rightarrow> http_parser" where
  "advance c p = p\<lparr>hp_mark := (\<lambda>f. map_option (\<lambda>s. s @ [c]) (hp_mark p f))\<rparr>"

text \<open>How the loop ends: at the end of the input or in the error state, by \<open>fbreak\<close> behind the head of a message with a body, or because an action returned
  from the function.\<close>

datatype outcome = Ran | Broke | Aborted

text \<open>The control actions at the character \<open>c\<close> with \<open>s\<close> behind it: the remaining input, the callbacks, the parser, and the outcome if the loop ends.  The \<open>fbreak\<close>
  in the middle of a chunk is at the end of the input.\<close>

fun run_control :: "control \<Rightarrow> char \<Rightarrow> string \<Rightarrow> http_parser \<Rightarrow> string \<times> parser_event list \<times> http_parser \<times> outcome option" where
  "run_control Advance c s p = (s, [], advance c p, None)"
| "run_control MainStart c s p = (c # s, [], p\<lparr>hp_cs := PStart\<rparr>, None)"
| "run_control BodyLogic c s p =
    (if hp_transfer_encoding p = HTTP_CHUNKED then (s, [], advance c (p\<lparr>hp_cs := CStart\<rparr>), None)
     else let (es, p1) = END_REQUEST p
          in if hp_content_length p > 0 then (s, es, advance c p1, Some Broke)
             else (s, es, advance c (p1\<lparr>hp_cs := PStart\<rparr>), None))"
| "run_control SkipChunkData c s p =
    (let n = min (unat (hp_chunk_size p)) (length (c # s)); (es, p1) = SKIP_CHUNK_DATA n (c # s) p; s1 = drop n (c # s)
     in if unat (hp_chunk_size p1) > Suc (length s1) then (s1, es, p1, Some Ran)
        else (s1, es, p1\<lparr>hp_cs := CEnd\<rparr>, None))"
| "run_control EndChunkedBody c s p = (let (es, p1) = END_REQUEST p in (s, es, advance c (p1\<lparr>hp_cs := PStart\<rparr>), None))"

text \<open>One round of the loop.\<close>

definition parse_round :: "char \<Rightarrow> string \<Rightarrow> http_parser \<Rightarrow> string \<times> parser_event list \<times> http_parser \<times> outcome option" where
  "parse_round c s p =
    (let (acts, ctl, tgt) = transition (hp_type p) (hp_cs p) c
     in if tgt = PError then (c # s, [], p\<lparr>hp_cs := PError\<rparr>, Some Ran)
        else let (es, p1, go) = run_actions c acts (p\<lparr>hp_cs := tgt\<rparr>)
             in if \<not> go then (c # s, es, p1, Some Aborted)
                else let (s1, es1, p2, oc) = run_control ctl c s p1 in (s1, es @ es1, p2, oc))"

definition rank :: "string \<Rightarrow> http_parser \<Rightarrow> nat" where
  "rank s p = 2 * length s + (if hp_cs p = PMain \<or> hp_cs p = CBody then 1 else 0)"

lemma parse_round_rank:
  assumes "parse_round c s p = (s1, es, p1, None)"
  shows "rank s1 p1 < rank (c # s) p"
proof -
  obtain acts ctl tgt where t: "transition (hp_type p) (hp_cs p) c = (acts, ctl, tgt)" by (rule prod_cases3)
  note ctl = transition_control [OF t]
  show ?thesis using assms t ctl
    by (cases ctl) (auto simp: parse_round_def rank_def advance_def Let_def split: prod.splits if_splits)
qed

function exec :: "string \<Rightarrow> http_parser \<Rightarrow> string \<times> parser_event list \<times> http_parser \<times> outcome" where
  "exec [] p = ([], [], p, Ran)"
| "exec (c # s) p =
    (let (s1, es, p1, oc) = parse_round c s p
     in case oc of None \<Rightarrow> (let (s', es', r) = exec s1 p1 in (s', es @ es', r)) | Some r \<Rightarrow> (s1, es, p1, r))"
  by pat_completeness auto

termination by (relation "measure (\<lambda>(s, p). rank s p)") (simp, simp, metis parse_round_rank)

section \<open>The functions\<close>

text \<open>The callbacks behind the loop for the fields that continue in the next piece of input.\<close>

fun flush_fields :: "field list \<Rightarrow> http_parser \<Rightarrow> parser_event list \<times> http_parser \<times> bool" where
  "flush_fields [] p = ([], p, True)"
| "flush_fields (f # fs) p =
    (let (es, p1, go) = CALLBACK f p
     in if go then (let (es', p2, go') = flush_fields fs p1 in (es @ es', p2, go')) else (es, p1, False))"

definition all_fields :: "field list" where
  "all_fields = [FHeaderField, FHeaderValue, FFragment, FQueryString, FPath, FUri]"

text \<open>The part in front of the loop: an unfinished chunk is eaten, and the marks that are set now point to the start of the buffer.\<close>

definition eat_chunk :: "string \<Rightarrow> http_parser \<Rightarrow> string \<times> parser_event list \<times> http_parser" where
  "eat_chunk s p =
    (if 0 < hp_chunk_size p \<and> hp_eating p
     then let n = min (length s) (unat (hp_chunk_size p)); (es, p1) = SKIP_CHUNK_DATA n s p in (drop n s, es, p1)
     else (s, [], p))"

definition rebase_marks :: "string \<Rightarrow> http_parser \<Rightarrow> http_parser" where
  "rebase_marks eaten p = p\<lparr>hp_mark := (\<lambda>f. map_option (\<lambda>_. eaten) (hp_mark p f))\<rparr>"

definition execute :: "http_parser \<Rightarrow> string \<Rightarrow> nat \<times> parser_event list \<times> http_parser" where
  "execute p s =
    (let (s0, es0, p0) = eat_chunk s p;
         (s1, es1, p1, oc) = exec s0 (rebase_marks (take (length s - length s0) s) p0)
     in if oc = Aborted then (0, es0 @ es1, p1\<lparr>hp_cs := hp_cs p\<rparr>)
        else let (es2, p2, go) = flush_fields all_fields p1
             in (if go then length s - length s1 else 0, es0 @ es1 @ es2, p2))"

definition parser_has_error :: "http_parser \<Rightarrow> bool" where
  "parser_has_error p \<longleftrightarrow> hp_error p \<or> hp_cs p = PError"

definition http_lib :: "http_parser parser_lib" where
  "http_lib = \<lparr>http_parser_execute = execute, http_parser_has_error = parser_has_error\<rparr>"

end
