(* ===== verification/Http_Parser_Cuts.thy ===== *)
theory Http_Parser_Cuts
  imports Http_Parser
begin

text \<open>
  The HTTP parser does not depend on how its input is cut into pieces.  The callbacks are read as a \<open>digest\<close>, the texts and messages they spell.  A parser in
  the middle of a field holds text behind a mark that no callback has delivered; \<open>view\<close> adds it to the digest.  The loop respects \<open>view\<close>, and a run
  over two pieces is the run over their concatenation.
\<close>

section \<open>What the callbacks spell\<close>

record message =
  msg_fields :: parser_fields
  msg_texts :: "field \<Rightarrow> string"
  msg_headers :: "header list"
  msg_chunk :: string

record digest =
  dg_text :: "field \<Rightarrow> string"
  dg_headers :: "header list"
  dg_chunk :: string
  dg_messages :: "message list"

definition add_text :: "field \<Rightarrow> string \<Rightarrow> digest \<Rightarrow> digest" where
  "add_text f s m = m\<lparr>dg_text := (dg_text m)(f := dg_text m f @ s)\<rparr>"

text \<open>A complete header line moves key and value to the headers, a complete message starts everything anew, as \<open>finish_header_line\<close> and \<open>finish_parse\<close> do.\<close>

fun absorb :: "parser_event \<Rightarrow> digest \<Rightarrow> digest" where
  "absorb (OnField s) m = add_text FHeaderField s m"
| "absorb (OnValue s) m = add_text FHeaderValue s m"
| "absorb (OnQueryString s) m = add_text FQueryString s m"
| "absorb (OnPath s) m = add_text FPath s m"
| "absorb (OnUri s) m = add_text FUri s m"
| "absorb (OnFragment s) m = add_text FFragment s m"
| "absorb (OnChunkData s) m = m\<lparr>dg_chunk := dg_chunk m @ s\<rparr>"
| "absorb OnHeaderLineComplete m =
    m\<lparr>dg_headers := dg_headers m @ [(dg_text m FHeaderField, dg_text m FHeaderValue)],
      dg_text := (dg_text m)(FHeaderField := [], FHeaderValue := [])\<rparr>"
| "absorb (OnMessageComplete f) m =
    m\<lparr>dg_messages := dg_messages m @ [\<lparr>msg_fields = f, msg_texts = dg_text m, msg_headers = dg_headers m, msg_chunk = dg_chunk m\<rparr>],
      dg_text := (\<lambda>_. []), dg_headers := [], dg_chunk := []\<rparr>"

definition empty_digest :: digest where
  "empty_digest = \<lparr>dg_text = (\<lambda>_. []), dg_headers = [], dg_chunk = [], dg_messages = []\<rparr>"

lemma absorb_field [simp]: "absorb (field_event f s) m = add_text f s m"
  by (cases f) simp_all

section \<open>The view\<close>

definition mark_text :: "http_parser \<Rightarrow> field \<Rightarrow> string" where
  "mark_text p f = (case hp_mark p f of None \<Rightarrow> [] | Some s \<Rightarrow> s)"

definition pending :: "http_parser \<Rightarrow> digest \<Rightarrow> digest" where
  "pending p m = m\<lparr>dg_text := (\<lambda>f. dg_text m f @ mark_text p f)\<rparr>"

definition collapse :: "http_parser \<Rightarrow> http_parser" where
  "collapse p = p\<lparr>hp_mark := (\<lambda>f. map_option (\<lambda>_. []) (hp_mark p f)), hp_size := (\<lambda>f. hp_size p f + length (mark_text p f))\<rparr>"

definition view :: "digest \<Rightarrow> http_parser \<Rightarrow> digest \<times> http_parser" where
  "view m p = (pending p m, collapse p)"

section \<open>Marks\<close>

text \<open>The fields that can be marked in a state.\<close>

fun marked_in :: "pstate \<Rightarrow> field set" where
  "marked_in PError = UNIV"
| "marked_in PStar = {FUri}"
| "marked_in PScheme = {FUri}"
| "marked_in (PAbsolute e) = {FUri}"
| "marked_in (PPath e) = {FUri, FPath}"
| "marked_in (PQuery e) = (if e = 3 then {FUri} else {FUri, FQueryString})"
| "marked_in (PFragment e) = (if e = 3 then {} else {FFragment})"
| "marked_in (PName ws) = {FHeaderField}"
| "marked_in (PValue obs) = {FHeaderValue}"
| "marked_in st = {}"

definition marks_ok :: "http_parser \<Rightarrow> bool" where
  "marks_ok p \<longleftrightarrow> dom (hp_mark p) \<subseteq> marked_in (hp_cs p)"

text \<open>What actions do with the marks: a field is marked only when it is not, and header lines end without marks on their parts.\<close>

fun marks_after :: "action list \<Rightarrow> field set \<Rightarrow> field set" where
  "marks_after [] M = M"
| "marks_after (Mark f # acts) M = marks_after acts (insert f M)"
| "marks_after (Data f # acts) M = marks_after acts (M - {f})"
| "marks_after (a # acts) M = marks_after acts M"

fun acts_ok :: "action list \<Rightarrow> field set \<Rightarrow> bool" where
  "acts_ok [] M = True"
| "acts_ok (Mark f # acts) M = (f \<notin> M \<and> acts_ok acts (insert f M))"
| "acts_ok (Data f # acts) M = acts_ok acts (M - {f})"
| "acts_ok (HeaderLineComplete # acts) M = (FHeaderField \<notin> M \<and> FHeaderValue \<notin> M \<and> acts_ok acts M)"
| "acts_ok (a # acts) M = acts_ok acts M"

lemma word_actions_marks [simp]:
  "marks_after (map word_action ws @ acts) M = marks_after acts M" "acts_ok (map word_action ws @ acts) M = acts_ok acts M"
proof -
  have w: "marks_after (word_action w # as) N = marks_after as N" "acts_ok (word_action w # as) N = acts_ok as N" for w as N
    by (cases w; simp)+
  show "marks_after (map word_action ws @ acts) M = marks_after acts M" "acts_ok (map word_action ws @ acts) M = acts_ok acts M"
    by (induction ws) (simp_all add: w)
qed

lemma value_leave_marks [simp]:
  "marks_after (value_leave obs @ acts) M = marks_after acts M" "acts_ok (value_leave obs @ acts) M = acts_ok acts M"
  by (cases obs; simp)+

lemma value_step_marks:
  assumes "value_step c obs = (acts, obs')"
  shows "marks_after (acts @ as) M = marks_after as M" "acts_ok (acts @ as) M = acts_ok as M"
  using assms by (cases obs; auto split: if_splits)+

lemma value_step_marks_Nil:
  assumes "value_step c obs = (acts, obs')"
  shows "marks_after acts M = M" "acts_ok acts M"
  using value_step_marks [OF assms, of "[]"] by simp_all

lemma transition_marks:
  assumes "transition ty st c = (acts, ctl, tgt)" and "tgt \<noteq> PError"
  shows "acts_ok acts (marked_in st) \<and> marks_after acts (marked_in st) \<subseteq> marked_in tgt \<and> (ctl \<noteq> Advance \<longrightarrow> marks_after acts (marked_in st) = {} \<and> marked_in tgt = {})"
  using assms
  by (cases st)
    (auto simp: transition_defs Let_def value_step_marks value_step_marks_Nil split: if_splits option.splits list.splits prod.splits parser_type.splits)


section \<open>The loop respects the view\<close>

lemma view_iff:
  "view m p = view n q \<longleftrightarrow>
    (\<forall>f. dg_text m f @ mark_text p f = dg_text n f @ mark_text q f) \<and> dg_headers m = dg_headers n \<and> dg_chunk m = dg_chunk n \<and>
    dg_messages m = dg_messages n \<and> (\<forall>f. (hp_mark p f = None) = (hp_mark q f = None)) \<and>
    (\<forall>f. hp_size p f + length (mark_text p f) = hp_size q f + length (mark_text q f)) \<and>
    hp_cs p = hp_cs q \<and> hp_type p = hp_type q \<and> hp_error p = hp_error q \<and> hp_chunk_size p = hp_chunk_size q \<and> hp_eating p = hp_eating q \<and>
    hp_body_read p = hp_body_read q \<and> hp_status_code p = hp_status_code q \<and> hp_method p = hp_method q \<and>
    hp_transfer_encoding p = hp_transfer_encoding q \<and> hp_version_major p = hp_version_major q \<and> hp_version_minor p = hp_version_minor q \<and>
    hp_keep_alive p = hp_keep_alive q \<and> hp_content_length p = hp_content_length q"
proof -
  have mk: "map_option (\<lambda>_. []) x = map_option (\<lambda>_. []) y \<longleftrightarrow> (x = None) = (y = None)" for x y :: "'z option"
    by (cases x; cases y) simp_all
  have c: "collapse p = collapse q \<longleftrightarrow> (\<forall>f. (hp_mark p f = None) = (hp_mark q f = None)) \<and>
    (\<forall>f. hp_size p f + length (mark_text p f) = hp_size q f + length (mark_text q f)) \<and>
    hp_cs p = hp_cs q \<and> hp_type p = hp_type q \<and> hp_error p = hp_error q \<and> hp_chunk_size p = hp_chunk_size q \<and> hp_eating p = hp_eating q \<and>
    hp_body_read p = hp_body_read q \<and> hp_status_code p = hp_status_code q \<and> hp_method p = hp_method q \<and>
    hp_transfer_encoding p = hp_transfer_encoding q \<and> hp_version_major p = hp_version_major q \<and> hp_version_minor p = hp_version_minor q \<and>
    hp_keep_alive p = hp_keep_alive q \<and> hp_content_length p = hp_content_length q"
    by (cases p; cases q) (simp add: collapse_def fun_eq_iff mk, argo)
  have d: "pending p m = pending q n \<longleftrightarrow> (\<forall>f. dg_text m f @ mark_text p f = dg_text n f @ mark_text q f) \<and> dg_headers m = dg_headers n \<and>
      dg_chunk m = dg_chunk n \<and> dg_messages m = dg_messages n"
    by (cases m; cases n) (simp add: pending_def fun_eq_iff)
  show ?thesis unfolding view_def prod.inject c d by argo
qed

text \<open>Views that agree on everything but the marks and texts.\<close>

lemma run_action_view:
  assumes v: "view m p = view n q" and ok: "acts_ok [a] (dom (hp_mark p))"
    and r: "run_action c a p = (es, p1, go)" "run_action c a q = (es', q1, go')"
  shows "go = go' \<and> (go \<longrightarrow> view (fold absorb es m) p1 = view (fold absorb es' n) q1 \<and> dom (hp_mark p1) = marks_after [a] (dom (hp_mark p)))"
proof -
  have none: "hp_mark p f = None \<longleftrightarrow> hp_mark q f = None" and texts: "dg_text m f @ mark_text p f = dg_text n f @ mark_text q f"
    and sizes: "hp_size p f + length (mark_text p f) = hp_size q f + length (mark_text q f)" for f using v by (simp_all add: view_iff)
  have unmarked: "dg_text m f = dg_text n f" "mark_text p f = []" "mark_text q f = []" if "hp_mark p f = None" for f
    using texts [of f] none [of f] that by (simp_all add: mark_text_def)
  show ?thesis
  proof (cases a)
    case (Mark f)
    then have "hp_mark p f = None" using ok by (auto simp: domIff)
    then show ?thesis using v r Mark unmarked [of f] by (auto simp: view_iff mark_text_def)
  next
    case (Data f)
    define clr where "clr p = (p :: http_parser)\<lparr>hp_mark := (hp_mark p)(f := None), hp_size := (hp_size p)(f := 0)\<rparr>" for p
    have clr_view: "view (add_text f (mark_text p f) m) (clr p) = view (add_text f (mark_text q f) n) (clr q)"
    proof -
      have "mark_text (clr x) g = (if g = f then [] else mark_text x g)" for x g by (simp add: clr_def mark_text_def)
      then show ?thesis using v texts sizes by (simp add: view_iff add_text_def clr_def)
    qed
    have unit: "add_text f [] d = d" for d by (simp add: add_text_def)
    have ev: "run_action c (Data f) x = (if hp_mark x f = None then ([], clr x, True)
        else if hp_size x f + length (mark_text x f) > MAX_FIELD_SIZE
          then ([], x\<lparr>hp_size := (hp_size x)(f := hp_size x f + length (mark_text x f)), hp_error := True\<rparr>, False)
          else ([field_event f (mark_text x f)], clr x, True))" for x
      by (cases "hp_mark x f") (simp_all add: CALLBACK_def Let_def clr_def mark_text_def)
    have "dom (hp_mark (clr p)) = dom (hp_mark p) - {f}" by (simp add: clr_def)
    then show ?thesis using r clr_view none [of f] sizes [of f] unmarked(2,3) [of f] Data
      unfolding Data ev by (auto simp: unit split: if_splits)
  next
    case HeaderLineComplete
    then have "hp_mark p FHeaderField = None" "hp_mark p FHeaderValue = None" using ok by (auto simp: domIff)
    then have u: "dg_text m FHeaderField = dg_text n FHeaderField" "dg_text m FHeaderValue = dg_text n FHeaderValue"
      "mark_text p FHeaderField = []" "mark_text p FHeaderValue = []" "mark_text q FHeaderField = []" "mark_text q FHeaderValue = []"
      using unmarked by simp_all
    have "view (absorb OnHeaderLineComplete m) p = view (absorb OnHeaderLineComplete n) q" using v u by (simp add: view_iff)
    then show ?thesis using r HeaderLineComplete by auto
  qed (use v r in \<open>clarsimp simp: view_iff mark_text_def\<close>)+
qed


lemma acts_ok_mono: "acts_ok acts M \<Longrightarrow> N \<subseteq> M \<Longrightarrow> acts_ok acts N \<and> marks_after acts N \<subseteq> marks_after acts M"
proof (induction acts M arbitrary: N rule: acts_ok.induct)
  case (2 f acts M)
  then have "insert f N \<subseteq> insert f M" by auto
  then show ?case using 2 by (auto dest: "2.IH")
next
  case (3 f acts M)
  then have "N - {f} \<subseteq> M - {f}" by auto
  then show ?case using 3 by auto
qed auto

lemma run_actions_view:
  assumes "view m p = view n q" and "acts_ok acts (dom (hp_mark p))"
    and "run_actions c acts p = (es, p1, go)" "run_actions c acts q = (es', q1, go')"
  shows "go = go' \<and> (go \<longrightarrow> view (fold absorb es m) p1 = view (fold absorb es' n) q1 \<and> dom (hp_mark p1) = marks_after acts (dom (hp_mark p)))"
  using assms
proof (induction acts arbitrary: m n p q es es' p1 q1 go go')
  case (Cons a acts)
  obtain e1 pa g1 where a: "run_action c a p = (e1, pa, g1)" by (rule prod_cases3)
  obtain e2 qa g2 where b: "run_action c a q = (e2, qa, g2)" by (rule prod_cases3)
  obtain e3 pb g3 where a2: "run_actions c acts pa = (e3, pb, g3)" by (rule prod_cases3)
  obtain e4 qb g4 where b2: "run_actions c acts qa = (e4, qb, g4)" by (rule prod_cases3)
  have hd: "acts_ok [a] (dom (hp_mark p))" using Cons.prems(2) by (cases a) simp_all
  have tl: "acts_ok acts (marks_after [a] (dom (hp_mark p)))" "marks_after (a # acts) M = marks_after acts (marks_after [a] M)" for M
    using Cons.prems(2) by (cases a; simp)+
  from run_action_view [OF Cons.prems(1) hd a b] have
    s: "g1 = g2" "g1 \<Longrightarrow> view (fold absorb e1 m) pa = view (fold absorb e2 n) qa" "g1 \<Longrightarrow> dom (hp_mark pa) = marks_after [a] (dom (hp_mark p))"
    by blast+
  show ?case
  proof (cases g1)
    case True
    from Cons.IH [OF s(2) [OF True] _ a2 b2] tl(1) s(3) [OF True]
    have "g3 = g4 \<and> (g3 \<longrightarrow> view (fold absorb e3 (fold absorb e1 m)) pb = view (fold absorb e4 (fold absorb e2 n)) qb \<and>
      dom (hp_mark pb) = marks_after acts (dom (hp_mark pa)))" by simp
    then show ?thesis using Cons.prems(3,4) a b a2 b2 True s(1,3) tl(2) by auto
  next
    case False
    then show ?thesis using Cons.prems(3,4) a b s(1) by auto
  qed
qed simp


lemma view_cs: "view m p = view n q \<Longrightarrow> view m (p\<lparr>hp_cs := st\<rparr>) = view n (q\<lparr>hp_cs := st\<rparr>)"
  by (simp add: view_iff mark_text_def)

lemma view_advance: "view m p = view n q \<Longrightarrow> view m (advance c p) = view n (advance c q)"
proof -
  assume v: "view m p = view n q"
  have t: "mark_text (advance c x) f = mark_text x f @ (if hp_mark x f = None then [] else [c])" for x f
    by (simp add: mark_text_def advance_def split: option.splits)
  have "dg_text m f @ mark_text (advance c p) f = dg_text n f @ mark_text (advance c q) f" for f
    using v unfolding view_iff t by (simp only: append_assoc [symmetric])
  moreover have "hp_size p f + length (mark_text (advance c p) f) = hp_size q f + length (mark_text (advance c q) f)" for f
    using v unfolding view_iff t by (simp add: add.assoc [symmetric])
  ultimately show ?thesis using v by (simp add: view_iff) (simp add: advance_def)
qed

lemma dom_advance [simp]: "dom (hp_mark (advance c p)) = dom (hp_mark p)" "hp_cs (advance c p) = hp_cs p"
  by (auto simp: advance_def)

lemma view_unmarked:
  assumes "view m p = view n q" and "dom (hp_mark p) = {}"
  shows "m = n" "hp_mark p = (\<lambda>_. None)" "hp_mark q = (\<lambda>_. None)" "collapse p = collapse q" "hp_size p = hp_size q"
proof -
  show p: "hp_mark p = (\<lambda>_. None)" using assms(2) by auto
  then show q: "hp_mark q = (\<lambda>_. None)" using assms(1) by (auto simp: view_iff)
  show "m = n" using assms(1) p q by (cases m; cases n) (auto simp: view_iff mark_text_def)
  show "collapse p = collapse q" using assms(1) by (simp add: view_def)
  show "hp_size p = hp_size q" using assms(1) p q by (auto simp: view_iff mark_text_def)
qed

text \<open>Without marks the view determines digest and parser.\<close>

lemma view_unmarked_eq:
  assumes "view m p = view n q" and "dom (hp_mark p) = {}"
  shows "m = n \<and> p = q"
proof -
  have "p = q" using view_unmarked [OF assms] assms(1) by (cases p; cases q) (simp add: view_iff)
  then show ?thesis using view_unmarked(1) [OF assms] by simp
qed

lemma skip_keeps:
  assumes "SKIP_CHUNK_DATA n s p = (es, p1)" and "dom (hp_mark p) = {}"
  shows "dom (hp_mark p1) = {}" "hp_cs p1 = hp_cs p"
  using assms by (auto simp: SKIP_CHUNK_DATA_def END_REQUEST_def RESET_PARSER_def Let_def split: if_splits)

lemma run_action_cs: "run_action c a p = (es, p1, go) \<Longrightarrow> hp_cs p1 = hp_cs p \<and> hp_type p1 = hp_type p"
  by (cases a) (auto simp: CALLBACK_def Let_def split: option.splits if_splits prod.splits)

lemma run_actions_cs: "run_actions c acts p = (es, p1, go) \<Longrightarrow> hp_cs p1 = hp_cs p \<and> hp_type p1 = hp_type p"
proof (induction acts arbitrary: p es)
  case (Cons a acts)
  obtain e1 pa g where a: "run_action c a p = (e1, pa, g)" by (rule prod_cases3)
  obtain e2 pb g2 where b: "run_actions c acts pa = (e2, pb, g2)" by (rule prod_cases3)
  show ?case using Cons a b run_action_cs [OF a] by (cases g) auto
qed simp

lemma run_control_marks:
  assumes "run_control ctl c s p = (s1, es, p1, oc)" and "dom (hp_mark p) = {}" and "ctl \<noteq> Advance"
  shows "marks_ok p1"
  using assms skip_keeps(1) [OF _ assms(2)]
  by (cases ctl) (auto simp: marks_ok_def END_REQUEST_def RESET_PARSER_def advance_def Let_def split: if_splits prod.splits)

lemma skip_cs: "SKIP_CHUNK_DATA n s p = (es, p1) \<Longrightarrow> hp_cs p1 = hp_cs p"
  by (auto simp: SKIP_CHUNK_DATA_def END_REQUEST_def RESET_PARSER_def Let_def split: if_splits)

text \<open>A round on views: the same rest and the same end, and again equal views.\<close>

lemma parse_round_view:
  assumes v: "view m p = view n q" and ok: "marks_ok p"
    and r: "parse_round c s p = (s1, es, p1, oc)" "parse_round c s q = (s2, es', q1, oc')"
  shows "s1 = s2 \<and> oc = oc' \<and> (oc \<noteq> Some Aborted \<longrightarrow> view (fold absorb es m) p1 = view (fold absorb es' n) q1 \<and> marks_ok p1)"
proof -
  obtain acts ctl tgt where t: "transition (hp_type p) (hp_cs p) c = (acts, ctl, tgt)" by (rule prod_cases3)
  then have t': "transition (hp_type q) (hp_cs q) c = (acts, ctl, tgt)" using v by (simp add: view_iff)
  show ?thesis
  proof (cases "tgt = PError")
    case True
    then show ?thesis using r v t t' view_cs [OF v] by (auto simp: parse_round_def marks_ok_def)
  next
    case False
    obtain e1 pa go where a: "run_actions c acts (p\<lparr>hp_cs := tgt\<rparr>) = (e1, pa, go)" by (rule prod_cases3)
    obtain e2 qa go2 where b: "run_actions c acts (q\<lparr>hp_cs := tgt\<rparr>) = (e2, qa, go2)" by (rule prod_cases3)
    have acts: "acts_ok acts (dom (hp_mark p))" "marks_after acts (dom (hp_mark p)) \<subseteq> marked_in tgt"
        "ctl \<noteq> Advance \<Longrightarrow> marks_after acts (dom (hp_mark p)) = {}"
      using transition_marks [OF t False] acts_ok_mono [of acts "marked_in (hp_cs p)" "dom (hp_mark p)"] ok by (auto simp: marks_ok_def)
    from run_actions_view [OF view_cs [OF v] _ a b] acts(1)
    have go: "go = go2" and w: "go \<Longrightarrow> view (fold absorb e1 m) pa = view (fold absorb e2 n) qa"
      and dom: "go \<Longrightarrow> dom (hp_mark pa) = marks_after acts (dom (hp_mark p))" by auto
    consider "\<not> go" | "go" "ctl = Advance" | "go" "ctl \<noteq> Advance" by blast
    then show ?thesis
    proof cases
      case 1
      then show ?thesis using r t t' False a b go by (auto simp: parse_round_def)
    next
      case 2
      have "marks_ok (advance c pa)" using 2(1) dom acts(2) run_actions_cs [OF a] unfolding marks_ok_def dom_advance by simp
      then show ?thesis using 2 r t t' False a b go view_advance [OF w, of c] by (auto simp: parse_round_def)
    next
      case 3
      then have pa: "dom (hp_mark pa) = {}" using dom acts(3) by simp
      have eq: "fold absorb e1 m = fold absorb e2 n" "pa = qa" using view_unmarked_eq [OF w pa] 3(1) by simp_all
      obtain s3 e3 p3 oc3 where c: "run_control ctl c s pa = (s3, e3, p3, oc3)" by (rule prod_cases4)
      have "parse_round c s p = (s3, e1 @ e3, p3, oc3)" "parse_round c s q = (s3, e2 @ e3, p3, oc3)"
        using t t' False a b go 3(1) c eq(2) by (simp_all add: parse_round_def)
      then show ?thesis using r eq(1) run_control_marks [OF c pa 3(2)] by auto
    qed
  qed
qed


lemma exec_view:
  assumes "view m p = view n q" and "marks_ok p" and "exec s p = (s1, es, p1, oc)" and "exec s q = (s2, es', q1, oc')"
  shows "s1 = s2 \<and> oc = oc' \<and> (oc \<noteq> Aborted \<longrightarrow> view (fold absorb es m) p1 = view (fold absorb es' n) q1 \<and> marks_ok p1)"
  using assms
proof (induction s p arbitrary: m n q s1 es p1 oc s2 es' q1 oc' rule: exec.induct)
  case (2 c s p)
  obtain sa ea pa oa where a: "parse_round c s p = (sa, ea, pa, oa)" by (rule prod_cases4)
  obtain sb eb qb ob where b: "parse_round c s q = (sb, eb, qb, ob)" by (rule prod_cases4)
  have r: "sa = sb" "oa = ob" "oa \<noteq> Some Aborted \<Longrightarrow> view (fold absorb ea m) pa = view (fold absorb eb n) qb \<and> marks_ok pa"
    using parse_round_view [OF "2.prems"(1,2) a b] by blast+
  show ?case
  proof (cases oa)
    case None
    obtain sc ec pc oc2 where c: "exec sa pa = (sc, ec, pc, oc2)" by (rule prod_cases4)
    obtain sd ed qd od where d: "exec sa qb = (sd, ed, qd, od)" by (rule prod_cases4)
    have "view (fold absorb ea m) pa = view (fold absorb eb n) qb" "marks_ok pa" using r(3) None by simp_all
    from "2.IH" [OF a [symmetric] refl refl refl None this c d] show ?thesis using "2.prems"(3,4) a b c d r(1,2) None by auto
  next
    case (Some x)
    then show ?thesis using "2.prems"(3,4) a b r by (cases x) auto
  qed
qed auto

section \<open>Concatenated input\<close>

definition run :: "string \<Rightarrow> digest \<Rightarrow> http_parser \<Rightarrow> string \<times> digest \<times> http_parser \<times> outcome" where
  "run s m p =
    (let (s0, es0, p0) = eat_chunk s p; (s1, es1, p1, oc) = exec s0 p0 in (s1, fold absorb (es0 @ es1) m, p1, oc))"

lemma skip_compose:
  assumes "length a < unat (hp_chunk_size p)" and "length a + k \<le> unat (hp_chunk_size p)" and "k \<le> length b"
    and "SKIP_CHUNK_DATA (length a) a p = (es1, p1)" and "SKIP_CHUNK_DATA k b p1 = (es2, p2)"
  shows "\<exists>es. SKIP_CHUNK_DATA (length a + k) (a @ b) p = (es, p2) \<and> (\<forall>m. fold absorb es m = fold absorb (es1 @ es2) m)"
    "0 < hp_chunk_size p1 \<and> hp_eating p1 \<and> unat (hp_chunk_size p1) = unat (hp_chunk_size p) - length a \<and> hp_cs p1 = hp_cs p"
    "p1\<lparr>hp_cs := hp_cs p\<rparr> = p1"
proof -
  let ?w = "hp_chunk_size p"
  have la: "unat (word_of_nat (length a) :: 64 word) = length a"
    using assms(1) unsigned_less [of ?w, where ?'a = nat] by (simp add: unat_of_nat)
  have sub: "unat (?w - word_of_nat (length a)) = unat ?w - length a"
    using assms(1) la by (simp add: unat_sub word_le_nat_alt)
  then have nz: "?w - word_of_nat (length a) \<noteq> 0" using assms(1) by (metis unat_0 zero_less_diff less_numeral_extra(3))
  then have pos: "0 < ?w - word_of_nat (length a)" using word_neq_0_conv by blast
  have p1: "p1 = p\<lparr>hp_body_read := hp_body_read p + word_of_nat (length a), hp_chunk_size := ?w - word_of_nat (length a), hp_eating := True\<rparr>"
      "es1 = (if 0 < length a then [OnChunkData a] else [])"
    using assms(4) nz by (auto simp: SKIP_CHUNK_DATA_def Let_def)
  show "0 < hp_chunk_size p1 \<and> hp_eating p1 \<and> unat (hp_chunk_size p1) = unat ?w - length a \<and> hp_cs p1 = hp_cs p" "p1\<lparr>hp_cs := hp_cs p\<rparr> = p1"
    using pos sub by (simp_all add: p1)
  have tk: "take (length a + k) (a @ b) = a @ take k b" by simp
  have ar: "?w - word_of_nat (length a + k) = ?w - word_of_nat (length a) - word_of_nat k"
    "hp_body_read p + word_of_nat (length a + k) = hp_body_read p + word_of_nat (length a) + word_of_nat k" by simp_all
  show "\<exists>es. SKIP_CHUNK_DATA (length a + k) (a @ b) p = (es, p2) \<and> (\<forall>m. fold absorb es m = fold absorb (es1 @ es2) m)"
    using assms(5) unfolding SKIP_CHUNK_DATA_def p1 tk ar Let_def
    by (cases "length a"; cases k) (auto simp: END_REQUEST_def RESET_PARSER_def fields_of_def split: if_splits)
qed


text \<open>One round with more input behind it.\<close>

definition partial_chunk :: "char \<Rightarrow> string \<Rightarrow> http_parser \<Rightarrow> bool" where
  "partial_chunk c s p \<longleftrightarrow> hp_cs p = CBody \<and> length (c # s) < unat (hp_chunk_size p)"

lemma skip_done:
  assumes "SKIP_CHUNK_DATA n s p = (es, p1)" and "n = unat (hp_chunk_size p)"
  shows "hp_chunk_size p1 = 0" "\<not> hp_eating p1"
proof -
  have "word_of_nat n = hp_chunk_size p" using assms(2) by simp
  then show "hp_chunk_size p1 = 0" "\<not> hp_eating p1" using assms(1)
    by (auto simp: SKIP_CHUNK_DATA_def END_REQUEST_def RESET_PARSER_def Let_def split: if_splits)
qed

lemma run_actions_eating: "run_actions c acts p = (es, p1, go) \<Longrightarrow> hp_eating p1 = hp_eating p"
proof (induction acts arbitrary: p es)
  case (Cons a acts)
  obtain e1 pa g where a: "run_action c a p = (e1, pa, g)" by (rule prod_cases3)
  obtain e2 pb g2 where b: "run_actions c acts pa = (e2, pb, g2)" by (rule prod_cases3)
  have "hp_eating pa = hp_eating p" using a by (cases a) (auto simp: CALLBACK_def Let_def split: option.splits if_splits prod.splits)
  then show ?case using Cons a b by (cases g) auto
qed simp

lemma run_control_append:
  assumes "run_control ctl c s p = (s1, es, p1, oc)" and "ctl = SkipChunkData \<Longrightarrow> unat (hp_chunk_size p) \<le> length (c # s)" and "\<not> hp_eating p"
  shows "run_control ctl c (s @ b) p = (s1 @ b, es, p1, oc) \<and> \<not> hp_eating p1 \<and> oc \<noteq> Some Ran"
proof (cases "ctl = SkipChunkData")
  case True
  let ?n = "unat (hp_chunk_size p)"
  obtain e q where sk: "SKIP_CHUNK_DATA ?n (c # s) p = (e, q)" by (rule prod.exhaust)
  have n: "?n \<le> length (c # s)" using assms(2) True by simp
  then have "take ?n (c # s @ b) = take ?n (c # s)" "drop ?n (c # s @ b) = drop ?n (c # s) @ b"
    by (metis append_Cons take_append diff_is_0_eq take_eq_Nil append_Nil2, metis append_Cons drop_append diff_is_0_eq drop_0)
  moreover from this(1) have "SKIP_CHUNK_DATA ?n (c # s @ b) p = SKIP_CHUNK_DATA ?n (c # s) p" by (simp only: SKIP_CHUNK_DATA_def)
  moreover have "min ?n (length (c # s)) = ?n" "min ?n (length (c # s @ b)) = ?n" using n by simp_all
  ultimately show ?thesis using assms(1) True skip_done [OF sk refl] sk by (auto simp: Let_def)
next
  case False
  then show ?thesis using assms(1,3)
    by (cases ctl) (auto simp: END_REQUEST_def RESET_PARSER_def advance_def Let_def)
qed

lemma parse_round_append:
  assumes "parse_round c s p = (s1, es, p1, oc)" and "\<not> partial_chunk c s p" and "\<not> hp_eating p"
  shows "parse_round c (s @ b) p = (s1 @ b, es, p1, oc) \<and> \<not> hp_eating p1 \<and> \<not> (oc = Some Ran \<and> s1 = [])"
proof -
  obtain acts ctl tgt where t: "transition (hp_type p) (hp_cs p) c = (acts, ctl, tgt)" by (rule prod_cases3)
  show ?thesis
  proof (cases "tgt = PError")
    case True
    then show ?thesis using assms t by (auto simp: parse_round_def)
  next
    case False
    obtain e1 pa go where a: "run_actions c acts (p\<lparr>hp_cs := tgt\<rparr>) = (e1, pa, go)" by (rule prod_cases3)
    have ea: "\<not> hp_eating pa" using run_actions_eating [OF a] assms(3) by simp
    show ?thesis
    proof (cases go)
      case False
      then show ?thesis using assms(1) t \<open>tgt \<noteq> PError\<close> a ea by (auto simp: parse_round_def)
    next
      case True
      obtain s2 e2 p2 oc2 where c: "run_control ctl c s pa = (s2, e2, p2, oc2)" by (rule prod_cases4)
      have "unat (hp_chunk_size pa) \<le> length (c # s)" if skip: "ctl = SkipChunkData"
      proof -
        have "hp_cs p = CBody" using transition_control(2) [OF t] skip by simp
        then have "acts = []" using t by simp
        then show ?thesis using a assms(2) \<open>hp_cs p = CBody\<close> by (auto simp: partial_chunk_def)
      qed
      from run_control_append [OF c this ea, of b] show ?thesis using assms(1) t False a c True by (auto simp: parse_round_def)
    qed
  qed
qed


text \<open>A chunk that the input does not complete.\<close>

lemma partial_chunk_append:
  assumes "partial_chunk c s p" and "\<not> hp_eating p"
  shows "\<exists>es p1. exec (c # s) p = ([], es, p1, Ran) \<and> 0 < hp_chunk_size p1 \<and> hp_cs p1 = CEnd \<and>
    (\<forall>b m. (case exec (c # s @ b) p of (s', es', p', oc') \<Rightarrow> (s', fold absorb es' m, p', oc')) = run b (fold absorb es m) p1)"
proof -
  let ?a = "c # s" and ?p = "p\<lparr>hp_cs := CEnd\<rparr>"
  have cs: "hp_cs p = CBody" "length ?a < unat (hp_chunk_size ?p)" using assms(1) by (simp_all add: partial_chunk_def)
  obtain es p1 where sk: "SKIP_CHUNK_DATA (length ?a) ?a ?p = (es, p1)" by (rule prod.exhaust)
  obtain ez pz where z: "SKIP_CHUNK_DATA 0 [] p1 = (ez, pz)" by (rule prod.exhaust)
  have p1: "0 < hp_chunk_size p1" "hp_eating p1" "unat (hp_chunk_size p1) = unat (hp_chunk_size p) - length ?a" "hp_cs p1 = CEnd"
    using skip_compose(2) [of ?a ?p 0 "[]", OF cs(2) _ _ sk z] cs(2) by simp_all
  then have up: "p1\<lparr>hp_cs := CEnd\<rparr> = p1" by (metis http_parser.surjective http_parser.update_convs(1) http_parser.select_convs(1))
  have rnd: "parse_round c (s @ b) p = (let n = min (unat (hp_chunk_size p)) (length (?a @ b)); (es, q) = SKIP_CHUNK_DATA n (?a @ b) ?p;
        s1 = drop n (?a @ b) in if unat (hp_chunk_size q) > Suc (length s1) then (s1, es, q, Some Ran) else (s1, es, q\<lparr>hp_cs := CEnd\<rparr>, None))" for b
    using cs(1) by (simp add: parse_round_def Let_def split: prod.splits)
  have "min (unat (hp_chunk_size p)) (length ?a) = length ?a" using cs(2) by simp
  then have ex: "exec ?a p = ([], es, p1, Ran)" using rnd [of "[]"] sk up by (simp add: Let_def split: prod.splits)
  have "(case exec (?a @ b) p of (s', es', p', oc') \<Rightarrow> (s', fold absorb es' m, p', oc')) = run b (fold absorb es m) p1" for b m
  proof -
    let ?k = "min (length b) (unat (hp_chunk_size p1))"
    obtain e2 p2 where sk2: "SKIP_CHUNK_DATA ?k b p1 = (e2, p2)" by (rule prod.exhaust)
    have k: "length ?a + ?k \<le> unat (hp_chunk_size ?p)" "?k \<le> length b" using p1(3) cs(2) by auto
    obtain e where e: "SKIP_CHUNK_DATA (length ?a + ?k) (?a @ b) ?p = (e, p2)" "fold absorb e m = fold absorb (es @ e2) m"
      using skip_compose(1) [of ?a ?p ?k b, OF cs(2) k sk sk2] by blast
    have n: "min (unat (hp_chunk_size p)) (length (?a @ b)) = length ?a + ?k" using p1(3) cs(2) by (simp add: min_def) arith
    have cs2: "hp_cs p2 = CEnd" using skip_cs [OF sk2] p1(4) by simp
    then have up2: "p2\<lparr>hp_cs := CEnd\<rparr> = p2" by (metis http_parser.surjective http_parser.update_convs(1) http_parser.select_convs(1))
    have eat: "eat_chunk b p1 = (drop ?k b, e2, p2)" using p1(1,2) sk2 by (simp add: eat_chunk_def Let_def)
    have dr: "drop (length ?a + ?k) (?a @ b) = drop ?k b" by simp
    show ?thesis
    proof (cases "unat (hp_chunk_size p2) > Suc (length (drop ?k b))")
      case True
      have "?k \<noteq> unat (hp_chunk_size p1)" using skip_done(1) [OF sk2] True by auto
      then have "drop ?k b = []" by (simp add: min_def split: if_splits)
      then show ?thesis using True e rnd [of b] n eat dr by (simp add: run_def)
    next
      case False
      obtain s3 e3 p3 oc3 where x: "exec (drop ?k b) p2 = (s3, e3, p3, oc3)" by (rule prod_cases4)
      have "parse_round c (s @ b) p = (drop ?k b, e, p2, None)" using False e(1) rnd [of b] n dr up2 by simp
      then show ?thesis using x e(2) eat by (simp add: run_def)
    qed
  qed
  then show ?thesis using ex p1(1,4) by auto
qed


definition digested :: "digest \<Rightarrow> string \<times> parser_event list \<times> http_parser \<times> outcome \<Rightarrow> string \<times> digest \<times> http_parser \<times> outcome" where
  "digested m r = (case r of (s, es, p, oc) \<Rightarrow> (s, fold absorb es m, p, oc))"

lemma exec_pieces:
  assumes "exec a p = (r, es, p1, oc)" and "\<not> hp_eating p"
  shows "if r = [] \<and> oc = Ran then digested m (exec (a @ b) p) = run b (fold absorb es m) p1 else exec (a @ b) p = (r @ b, es, p1, oc)"
  using assms
proof (induction a p arbitrary: r es p1 oc m rule: exec.induct)
  case (1 p)
  then show ?case by (auto simp: run_def eat_chunk_def digested_def split: prod.splits)
next
  case (2 c s p)
  show ?case
  proof (cases "partial_chunk c s p")
    case True
    from partial_chunk_append [OF this "2.prems"(2)] "2.prems"(1) show ?thesis by (fastforce simp: digested_def)
  next
    case False
    obtain sa ea pa oa where a: "parse_round c s p = (sa, ea, pa, oa)" by (rule prod_cases4)
    have ap: "parse_round c (s @ b) p = (sa @ b, ea, pa, oa)" "\<not> hp_eating pa" "\<not> (oa = Some Ran \<and> sa = [])"
      using parse_round_append [OF a False "2.prems"(2), of b] by simp_all
    show ?thesis
    proof (cases oa)
      case None
      obtain sb eb pb ob where e: "exec sa pa = (sb, eb, pb, ob)" by (rule prod_cases4)
      obtain sc ec pc oc2 where f: "exec (sa @ b) pa = (sc, ec, pc, oc2)" by (rule prod_cases4)
      have res: "r = sb" "es = ea @ eb" "p1 = pb" "oc = ob" using "2.prems"(1) a None e by auto
      have whole: "exec ((c # s) @ b) p = (sc, ea @ ec, pc, oc2)" using ap(1) None f by simp
      from "2.IH" [OF a [symmetric] refl refl refl None e ap(2), of "fold absorb ea m"] show ?thesis
        unfolding f res whole by (auto simp: digested_def)
    next
      case (Some x)
      then show ?thesis using "2.prems"(1) a ap by auto
    qed
  qed
qed

lemma exec_calm:
  assumes "exec a p = (r, es, p1, oc)" and "\<not> hp_eating p" and "hp_eating p1"
  shows "0 < hp_chunk_size p1 \<and> hp_cs p1 = CEnd"
  using assms
proof (induction a p arbitrary: r es p1 oc rule: exec.induct)
  case (2 c s p)
  show ?case
  proof (cases "partial_chunk c s p")
    case True
    from partial_chunk_append [OF this "2.prems"(2)] "2.prems"(1) show ?thesis by auto
  next
    case False
    obtain sa ea pa oa where a: "parse_round c s p = (sa, ea, pa, oa)" by (rule prod_cases4)
    have ne: "\<not> hp_eating pa" using parse_round_append [OF a False "2.prems"(2), of "[]"] by simp
    show ?thesis
    proof (cases oa)
      case None
      obtain sb eb pb ob where e: "exec sa pa = (sb, eb, pb, ob)" by (rule prod_cases4)
      then show ?thesis using "2.IH" [OF a [symmetric] refl refl refl None e ne] "2.prems"(1,3) a None by auto
    next
      case (Some x)
      then show ?thesis using "2.prems"(1,3) a ne by auto
    qed
  qed
qed simp

text \<open>Feeding a text in two pieces is feeding it at once.\<close>

lemma run_append:
  assumes "run a m p = (r, m1, p1, oc)" and calm: "hp_eating p \<Longrightarrow> 0 < hp_chunk_size p"
  shows "run (a @ b) m p = (if r = [] \<and> oc = Ran then run b m1 p1 else (r @ b, m1, p1, oc))"
proof (cases "0 < hp_chunk_size p \<and> hp_eating p \<and> length a < unat (hp_chunk_size p)")
  case True
  let ?k = "min (length b) (unat (hp_chunk_size p) - length a)"
  obtain es p2 where sk: "SKIP_CHUNK_DATA (length a) a p = (es, p2)" by (rule prod.exhaust)
  obtain e3 p3 where sk2: "SKIP_CHUNK_DATA ?k b p2 = (e3, p3)" by (rule prod.exhaust)
  have k: "length a + ?k \<le> unat (hp_chunk_size p)" "?k \<le> length b" using True by auto
  note co = skip_compose [of a p ?k b, OF _ k sk sk2]
  have p2: "0 < hp_chunk_size p2" "hp_eating p2" "unat (hp_chunk_size p2) = unat (hp_chunk_size p) - length a" using co(2) True by simp_all
  obtain e where e: "SKIP_CHUNK_DATA (length a + ?k) (a @ b) p = (e, p3)" "fold absorb e m = fold absorb (es @ e3) m" using co(1) True by blast
  have "min (length a) (unat (hp_chunk_size p)) = length a" using True by simp
  then have "run a m p = ([], fold absorb es m, p2, Ran)" using True sk by (simp add: run_def eat_chunk_def Let_def)
  moreover have "eat_chunk b p2 = (drop ?k b, e3, p3)" using p2 sk2 by (simp add: eat_chunk_def Let_def)
  moreover have "eat_chunk (a @ b) p = (drop ?k b, e, p3)"
  proof -
    have "min (length (a @ b)) (unat (hp_chunk_size p)) = length a + ?k" using True by (simp add: min_def) arith
    then show ?thesis using True e(1) by (simp add: eat_chunk_def Let_def)
  qed
  ultimately show ?thesis using assms e(2) by (auto simp: run_def split: prod.splits)
next
  case False
  obtain s0 es0 p0 where e: "eat_chunk a p = (s0, es0, p0)" by (rule prod_cases3)
  have ne: "eat_chunk (a @ b) p = (s0 @ b, es0, p0) \<and> \<not> hp_eating p0"
  proof (cases "0 < hp_chunk_size p \<and> hp_eating p")
    case True
    then have n: "min (length a) (unat (hp_chunk_size p)) = unat (hp_chunk_size p)" "min (length (a @ b)) (unat (hp_chunk_size p)) = unat (hp_chunk_size p)"
      "unat (hp_chunk_size p) \<le> length a" using False by auto
    have "SKIP_CHUNK_DATA (unat (hp_chunk_size p)) (a @ b) p = SKIP_CHUNK_DATA (unat (hp_chunk_size p)) a p"
      using n(3) by (simp add: SKIP_CHUNK_DATA_def)
    then show ?thesis using True e n skip_done [of "unat (hp_chunk_size p)" a p] by (auto simp: eat_chunk_def Let_def split: prod.splits)
  next
    case False
    then show ?thesis using e calm by (auto simp: eat_chunk_def)
  qed
  obtain sa ea pa oa where a: "exec s0 p0 = (sa, ea, pa, oa)" by (rule prod_cases4)
  have res: "r = sa" "m1 = fold absorb (es0 @ ea) m" "p1 = pa" "oc = oa" using assms e a by (auto simp: run_def)
  have "digested (fold absorb es0 m) (exec (s0 @ b) p0) = run (a @ b) m p" using ne by (simp add: run_def digested_def split: prod.splits)
  then show ?thesis using exec_pieces [OF a, of "fold absorb es0 m" b] ne unfolding res by (auto simp: digested_def split: if_splits)
qed


section \<open>Parsers between two calls\<close>

definition parser_ok :: "http_parser \<Rightarrow> bool" where
  "parser_ok p \<longleftrightarrow> marks_ok p \<and> (hp_eating p \<longrightarrow> 0 < hp_chunk_size p \<and> hp_cs p = CEnd)"

text \<open>The parser as the next call finds it: the marks are at the start of the new buffer.\<close>

definition resume :: "http_parser \<Rightarrow> http_parser" where
  "resume p = rebase_marks [] p"

lemma eat_chunk_ok:
  assumes "eat_chunk s p = (s0, es0, p0)" and "parser_ok p"
  shows "marks_ok p0 \<and> (s0 \<noteq> [] \<longrightarrow> \<not> hp_eating p0) \<and> (hp_eating p0 \<longrightarrow> 0 < hp_chunk_size p0 \<and> hp_cs p0 = CEnd)"
proof (cases "0 < hp_chunk_size p \<and> hp_eating p")
  case True
  let ?n = "min (length s) (unat (hp_chunk_size p))"
  have cs: "hp_cs p = CEnd" "dom (hp_mark p) = {}" using assms(2) True by (auto simp: parser_ok_def marks_ok_def)
  have sk: "SKIP_CHUNK_DATA ?n s p = (es0, p0)" "s0 = drop ?n s" using assms(1) True by (auto simp: eat_chunk_def Let_def split: prod.splits)
  have m: "marks_ok p0" "hp_cs p0 = CEnd" using skip_keeps [OF sk(1) cs(2)] skip_cs [OF sk(1)] cs(1) by (simp_all add: marks_ok_def)
  show ?thesis
  proof (cases "length s < unat (hp_chunk_size p)")
    case lt: True
    obtain ez pz where z: "SKIP_CHUNK_DATA 0 [] p0 = (ez, pz)" by (rule prod.exhaust)
    have "?n = length s" using lt by simp
    then show ?thesis using skip_compose(2) [of s p 0 "[]", OF lt _ _ _ z] sk m lt by simp
  next
    case False
    then have "?n = unat (hp_chunk_size p)" by simp
    then show ?thesis using skip_done [OF sk(1)] m(1) by simp
  qed
next
  case False
  then show ?thesis using assms by (auto simp: eat_chunk_def parser_ok_def)
qed

lemma run_ok:
  assumes "run s m p = (r, m1, p1, oc)" and "parser_ok p" and "oc \<noteq> Aborted"
  shows "parser_ok p1"
proof -
  obtain s0 es0 p0 where e: "eat_chunk s p = (s0, es0, p0)" by (rule prod_cases3)
  obtain s1 es1 q1 oc1 where x: "exec s0 p0 = (s1, es1, q1, oc1)" by (rule prod_cases4)
  note ok = eat_chunk_ok [OF e assms(2)]
  have res: "q1 = p1" "oc1 = oc" using assms(1) e x by (auto simp: run_def)
  have mk: "marks_ok q1" using exec_view [OF refl _ x x, of empty_digest] ok assms(3) res by blast
  show ?thesis
  proof (cases "hp_eating p0")
    case True
    then have "s0 = []" using ok by blast
    then show ?thesis using x ok mk res by (auto simp: parser_ok_def)
  next
    case False
    then show ?thesis using exec_calm [OF x] mk res by (auto simp: parser_ok_def)
  qed
qed

text \<open>Equal views run alike.\<close>

lemma run_view:
  assumes "view m p = view n q" and "parser_ok p" and "run s m p = (r, m1, p1, oc)" and "run s n q = (r', n1, q1, oc')"
  shows "r = r' \<and> oc = oc' \<and> (oc \<noteq> Aborted \<longrightarrow> view m1 p1 = view n1 q1)"
proof (cases "0 < hp_chunk_size p \<and> hp_eating p")
  case True
  then have "dom (hp_mark p) = {}" using assms(2) by (auto simp: parser_ok_def marks_ok_def)
  from view_unmarked_eq [OF assms(1) this] show ?thesis using assms(3,4) by auto
next
  case False
  then have "\<not> (0 < hp_chunk_size q \<and> hp_eating q)" using assms(1) by (simp add: view_iff)
  then have e: "eat_chunk s p = (s, [], p)" "eat_chunk s q = (s, [], q)" using False by (auto simp: eat_chunk_def)
  obtain s1 es1 p2 oc1 where x: "exec s p = (s1, es1, p2, oc1)" by (rule prod_cases4)
  obtain s2 es2 q2 oc2 where y: "exec s q = (s2, es2, q2, oc2)" by (rule prod_cases4)
  show ?thesis using exec_view [OF assms(1) _ x y] assms(2-4) e x y by (auto simp: run_def parser_ok_def)
qed

lemma run_Nil: "parser_ok p \<Longrightarrow> run [] m p = ([], m, p, Ran)"
proof -
  assume ok: "parser_ok p"
  have "p\<lparr>hp_body_read := hp_body_read p, hp_chunk_size := hp_chunk_size p, hp_eating := True\<rparr> = p" if "hp_eating p"
    using that by (cases p) simp
  then show ?thesis using ok by (auto simp: run_def eat_chunk_def SKIP_CHUNK_DATA_def parser_ok_def)
qed


section \<open>Too long fields and errors\<close>

definition too_long :: "http_parser \<Rightarrow> field \<Rightarrow> bool" where
  "too_long p f \<longleftrightarrow> hp_mark p f \<noteq> None \<and> hp_size p f + length (mark_text p f) > MAX_FIELD_SIZE"

lemma run_action_keeps:
  assumes "run_action c a p = (es, p1, True)" and "acts_ok [a] (dom (hp_mark p))"
  shows "too_long p f \<Longrightarrow> too_long p1 f" "hp_error p1 = hp_error p" "dom (hp_mark p1) = marks_after [a] (dom (hp_mark p))"
  using assms
  by (cases a; auto simp: too_long_def mark_text_def CALLBACK_def Let_def split: option.splits if_splits prod.splits)+

lemma run_actions_keeps:
  assumes "run_actions c acts p = (es, p1, True)" and "acts_ok acts (dom (hp_mark p))"
  shows "(too_long p f \<longrightarrow> too_long p1 f) \<and> hp_error p1 = hp_error p"
  using assms
proof (induction acts arbitrary: p es)
  case (Cons a acts)
  obtain e1 pa g where a: "run_action c a p = (e1, pa, g)" by (rule prod_cases3)
  then have g: "g" using Cons.prems(1) by (auto split: if_splits)
  obtain e2 where b: "run_actions c acts pa = (e2, p1, True)" using Cons.prems(1) a g by (auto split: prod.splits)
  have hd: "acts_ok [a] (dom (hp_mark p))" using Cons.prems(2) by (cases a) simp_all
  have tl: "acts_ok acts (marks_after [a] (dom (hp_mark p)))" using Cons.prems(2) by (cases a; simp)
  have k: "too_long p f \<Longrightarrow> too_long pa f" "hp_error pa = hp_error p" "dom (hp_mark pa) = marks_after [a] (dom (hp_mark p))"
    using run_action_keeps [OF a [unfolded eqTrueI [OF g]] hd] by blast+
  show ?case using Cons.IH [OF b] k tl by auto
qed simp

lemma run_control_keeps:
  assumes "run_control ctl c s p = (s1, es, p1, oc)" and "hp_cs p \<noteq> PError"
  shows "hp_error p1 = hp_error p" "hp_cs p1 \<noteq> PError"
  using assms
  by (cases ctl; auto simp: SKIP_CHUNK_DATA_def END_REQUEST_def RESET_PARSER_def advance_def Let_def split: if_splits prod.splits)+

lemma parse_round_keeps:
  assumes "parse_round c s p = (s1, es, p1, oc)" and "marks_ok p" and "oc \<noteq> Some Aborted"
  shows "(too_long p f \<longrightarrow> too_long p1 f) \<and> hp_error p1 = hp_error p \<and> (s1 = [] \<or> oc = None \<longrightarrow> hp_cs p1 \<noteq> PError)"
proof -
  obtain acts ctl tgt where t: "transition (hp_type p) (hp_cs p) c = (acts, ctl, tgt)" by (rule prod_cases3)
  show ?thesis
  proof (cases "tgt = PError")
    case True
    then show ?thesis using assms t by (auto simp: parse_round_def too_long_def mark_text_def)
  next
    case False
    obtain e1 pa go where a: "run_actions c acts (p\<lparr>hp_cs := tgt\<rparr>) = (e1, pa, go)" by (rule prod_cases3)
    then have go: go using assms t False by (auto simp: parse_round_def split: if_splits)
    obtain e2 where c: "run_control ctl c s pa = (s1, e2, p1, oc)" using assms(1) t False a go by (auto simp: parse_round_def split: prod.splits)
    have acts: "acts_ok acts (dom (hp_mark p))" "ctl \<noteq> Advance \<Longrightarrow> marks_after acts (dom (hp_mark p)) = {}"
      using transition_marks [OF t False] acts_ok_mono [of acts "marked_in (hp_cs p)" "dom (hp_mark p)"] assms(2) by (auto simp: marks_ok_def)
    have k: "too_long p f \<Longrightarrow> too_long pa f" "hp_error pa = hp_error p"
      using run_actions_keeps [OF a [unfolded eqTrueI [OF go]], of f] acts(1) by (auto simp: too_long_def mark_text_def)
    have dom: "dom (hp_mark pa) = marks_after acts (dom (hp_mark p))" using run_actions_view [OF refl _ a a] acts(1) go by simp
    have cs: "hp_cs pa \<noteq> PError" using run_actions_cs [OF a] False by simp
    have "too_long p f \<Longrightarrow> too_long p1 f"
    proof -
      assume tl: "too_long p f"
      then have pa: "too_long pa f" by (rule k(1))
      then have "f \<in> dom (hp_mark pa)" by (auto simp: too_long_def)
      then have "ctl = Advance" using dom acts(2) by auto
      then show "too_long p1 f" using pa c by (auto simp: too_long_def mark_text_def advance_def split: option.splits)
    qed
    then show ?thesis using run_control_keeps [OF c cs] k(2) by simp
  qed
qed

lemma exec_keeps:
  assumes "exec s p = (r, es, p1, oc)" and "marks_ok p" and "oc \<noteq> Aborted"
  shows "(too_long p f \<longrightarrow> too_long p1 f) \<and> hp_error p1 = hp_error p \<and> (hp_cs p \<noteq> PError \<and> r = [] \<longrightarrow> hp_cs p1 \<noteq> PError)"
  using assms
proof (induction s p arbitrary: r es p1 oc rule: exec.induct)
  case (2 c s p)
  obtain sa ea pa oa where a: "parse_round c s p = (sa, ea, pa, oa)" by (rule prod_cases4)
  then have na: "oa \<noteq> Some Aborted" using "2.prems"(1,3) by auto
  note k = parse_round_keeps [OF a "2.prems"(2) na, of f]
  have ok: "marks_ok pa" using parse_round_view [OF refl "2.prems"(2) a a, of empty_digest] na by blast
  show ?case
  proof (cases oa)
    case None
    obtain sb eb pb ob where b: "exec sa pa = (sb, eb, pb, ob)" by (rule prod_cases4)
    then show ?thesis using "2.IH" [OF a [symmetric] refl refl refl None b ok] "2.prems"(1,3) a None k by auto
  next
    case (Some x)
    then show ?thesis using "2.prems"(1) a k by auto
  qed
qed auto

lemma run_actions_aborted: "run_actions c acts p = (es, p1, False) \<Longrightarrow> hp_error p1"
proof (induction acts arbitrary: p es)
  case (Cons a acts)
  obtain e1 pa g where a: "run_action c a p = (e1, pa, g)" by (rule prod_cases3)
  have "\<not> g \<Longrightarrow> hp_error pa" using a by (cases a) (auto simp: CALLBACK_def Let_def split: option.splits if_splits prod.splits)
  then show ?case using Cons a by (cases g) (auto split: prod.splits)
qed simp

lemma exec_aborted: "exec s p = (r, es, p1, Aborted) \<Longrightarrow> hp_error p1"
proof (induction s p arbitrary: r es p1 rule: exec.induct)
  case (2 c s p)
  obtain sa ea pa oa where a: "parse_round c s p = (sa, ea, pa, oa)" by (rule prod_cases4)
  have control: "run_control ctl c s q \<noteq> (s1, e1, q1, Some Aborted)" for ctl q s1 e1 q1
    by (cases ctl) (auto simp: Let_def split: prod.splits)
  have "oa = Some Aborted \<Longrightarrow> hp_error pa"
    using a control by (auto simp: parse_round_def Let_def split: prod.splits if_splits intro: run_actions_aborted)
  then show ?case using "2.IH" [OF a [symmetric] refl refl refl] "2.prems" a by (cases oa) (auto split: prod.splits)
qed simp

lemma skip_error: "SKIP_CHUNK_DATA n s p = (es, p1) \<Longrightarrow> hp_error p1 = hp_error p"
  by (auto simp: SKIP_CHUNK_DATA_def END_REQUEST_def RESET_PARSER_def Let_def split: if_splits)

lemma run_keeps:
  assumes "run s m p = (r, m1, p1, oc)" and "parser_ok p" and "oc \<noteq> Aborted"
  shows "(too_long p f \<longrightarrow> too_long p1 f) \<and> hp_error p1 = hp_error p \<and> (hp_cs p \<noteq> PError \<and> r = [] \<longrightarrow> hp_cs p1 \<noteq> PError)"
proof -
  obtain s0 es0 p0 where e: "eat_chunk s p = (s0, es0, p0)" by (rule prod_cases3)
  obtain es1 where x: "exec s0 p0 = (r, es1, p1, oc)" using assms(1) e by (auto simp: run_def split: prod.splits)
  have p0: "(too_long p f \<longrightarrow> too_long p0 f) \<and> hp_error p0 = hp_error p \<and> hp_cs p0 = hp_cs p"
  proof (cases "0 < hp_chunk_size p \<and> hp_eating p")
    case True
    then have "hp_mark p f = None" using assms(2) by (auto simp: parser_ok_def marks_ok_def)
    then have "\<not> too_long p f" by (simp add: too_long_def)
    moreover obtain n where "SKIP_CHUNK_DATA n s p = (es0, p0)" using e True by (auto simp: eat_chunk_def Let_def split: prod.splits)
    ultimately show ?thesis using skip_cs skip_error by blast
  next
    case False
    then show ?thesis using e by (auto simp: eat_chunk_def)
  qed
  show ?thesis using exec_keeps [OF x, of f] eat_chunk_ok [OF e assms(2)] assms(3) p0 by auto
qed


section \<open>One call\<close>

lemma CALLBACK_ok:
  assumes "\<not> too_long p f"
  shows "\<exists>es. CALLBACK f p = (es, p\<lparr>hp_size := (hp_size p)(f := hp_size p f + length (mark_text p f))\<rparr>, True) \<and>
    (\<forall>m. fold absorb es m = add_text f (mark_text p f) m)"
proof (cases "hp_mark p f")
  case None
  have "p\<lparr>hp_size := (hp_size p)(f := hp_size p f)\<rparr> = p" by (cases p) simp
  then show ?thesis using None by (simp add: CALLBACK_def mark_text_def add_text_def)
next
  case (Some s)
  then show ?thesis using assms by (auto simp: CALLBACK_def too_long_def mark_text_def Let_def)
qed

lemma CALLBACK_too_long: "too_long p f \<Longrightarrow> \<exists>p1. CALLBACK f p = ([], p1, False) \<and> hp_error p1"
  by (auto simp: too_long_def CALLBACK_def mark_text_def Let_def)

lemma flush_ok:
  assumes "distinct fs" and "\<forall>f \<in> set fs. \<not> too_long p f"
  shows "\<exists>es. flush_fields fs p = (es, p\<lparr>hp_size := (\<lambda>f. hp_size p f + (if f \<in> set fs then length (mark_text p f) else 0))\<rparr>, True) \<and>
    (\<forall>m. fold absorb es m = m\<lparr>dg_text := (\<lambda>f. dg_text m f @ (if f \<in> set fs then mark_text p f else []))\<rparr>)"
  using assms
proof (induction fs arbitrary: p)
  case Nil
  have "m\<lparr>dg_text := dg_text m\<rparr> = m" for m :: digest by (cases m) simp
  moreover have "p\<lparr>hp_size := hp_size p\<rparr> = p" by (cases p) simp
  ultimately show ?case by simp
next
  case (Cons f fs)
  define p1 where "p1 = p\<lparr>hp_size := (hp_size p)(f := hp_size p f + length (mark_text p f))\<rparr>"
  obtain e1 where a: "CALLBACK f p = (e1, p1, True)" "\<And>m. fold absorb e1 m = add_text f (mark_text p f) m"
    using CALLBACK_ok [of p f] Cons.prems(2) by (auto simp: p1_def)
  have mt: "mark_text p1 g = mark_text p g" for g by (simp add: p1_def mark_text_def)
  have "too_long p1 g \<longleftrightarrow> too_long p g" if "g \<noteq> f" for g using that by (simp add: too_long_def mt) (simp add: p1_def)
  then have "\<forall>g \<in> set fs. \<not> too_long p1 g" using Cons.prems by (metis distinct.simps(2) list.set_intros(2))
  then obtain e2 where b: "flush_fields fs p1 = (e2, p1\<lparr>hp_size := (\<lambda>g. hp_size p1 g + (if g \<in> set fs then length (mark_text p1 g) else 0))\<rparr>, True)"
      "\<And>m. fold absorb e2 m = m\<lparr>dg_text := (\<lambda>g. dg_text m g @ (if g \<in> set fs then mark_text p1 g else []))\<rparr>"
    using Cons.IH [of p1] Cons.prems(1) by auto
  have sz: "(\<lambda>g. hp_size p1 g + (if g \<in> set fs then length (mark_text p1 g) else 0)) =
      (\<lambda>g. hp_size p g + (if g \<in> set (f # fs) then length (mark_text p g) else 0))"
    using Cons.prems(1) by (auto simp: fun_eq_iff mt) (auto simp: p1_def)
  have "fold absorb (e1 @ e2) m = m\<lparr>dg_text := (\<lambda>g. dg_text m g @ (if g \<in> set (f # fs) then mark_text p g else []))\<rparr>" for m
    using Cons.prems(1) by (cases m) (auto simp: a(2) b(2) add_text_def mt fun_eq_iff)
  then show ?case using a(1) b(1) by (auto simp: sz) (simp add: p1_def)
qed

lemma flush_too_long:
  assumes "f \<in> set fs" and "too_long p f" and "distinct fs"
  shows "\<exists>es p1. flush_fields fs p = (es, p1, False) \<and> hp_error p1"
  using assms
proof (induction fs arbitrary: p)
  case (Cons g fs)
  show ?case
  proof (cases "too_long p g")
    case True
    then show ?thesis using CALLBACK_too_long [of p g] by auto
  next
    case False
    let ?p = "p\<lparr>hp_size := (hp_size p)(g := hp_size p g + length (mark_text p g))\<rparr>"
    have "f \<noteq> g" using False Cons.prems(2) by blast
    then have "too_long ?p f" using Cons.prems(2) by (simp add: too_long_def mark_text_def)
    then obtain e2 p2 where "flush_fields fs ?p = (e2, p2, False)" "hp_error p2" using Cons.IH [of ?p] Cons.prems(1,3) \<open>f \<noteq> g\<close> by auto
    moreover obtain e1 where "CALLBACK g p = (e1, ?p, True)" using CALLBACK_ok [OF False] by blast
    ultimately show ?thesis by (metis (mono_tags, lifting) flush_fields.simps(2) case_prod_conv)
  qed
qed simp

lemma all_fields: "distinct all_fields" "f \<in> set all_fields"
  by (simp_all add: all_fields_def) (cases f; simp)

lemma eat_resume:
  assumes "parser_ok p" and "eat_chunk s p = (s0, es0, p0)"
  shows "eat_chunk s (resume p) = (s0, es0, rebase_marks (take (length s - length s0) s) p0)"
proof (cases "0 < hp_chunk_size p \<and> hp_eating p")
  case True
  then have d: "dom (hp_mark p) = {}" using assms(1) by (auto simp: parser_ok_def marks_ok_def)
  have none: "rebase_marks x q = q" if "dom (hp_mark q) = {}" for x q using that by (cases q) (simp add: rebase_marks_def)
  have "dom (hp_mark p0) = {}" using assms(2) True skip_keeps(1) [OF _ d] by (auto simp: eat_chunk_def Let_def split: prod.splits)
  then show ?thesis using assms(2) none d by (simp add: resume_def)
next
  case False
  then show ?thesis using assms(2) by (auto simp: eat_chunk_def resume_def rebase_marks_def)
qed

lemma resume_ok: "parser_ok p \<Longrightarrow> parser_ok (resume p)"
  by (auto simp: parser_ok_def marks_ok_def resume_def rebase_marks_def)

lemma execute_run:
  assumes ok: "parser_ok p" and r: "run s m (resume p) = (rest, m1, q1, oc)"
  shows "oc = Aborted \<or> (\<exists>f. too_long q1 f) \<Longrightarrow> fst (execute p s) = 0 \<and> parser_has_error (snd (snd (execute p s)))"
    "oc \<noteq> Aborted \<Longrightarrow> \<forall>f. \<not> too_long q1 f \<Longrightarrow>
      \<exists>es p1. execute p s = (length s - length rest, es, p1) \<and> fold absorb es m = pending q1 m1 \<and> resume p1 = collapse q1 \<and> parser_ok p1 \<and>
        hp_error p1 = hp_error q1 \<and> hp_cs p1 = hp_cs q1"
proof -
  obtain s0 es0 p0 where e: "eat_chunk s p = (s0, es0, p0)" by (rule prod_cases3)
  let ?p0 = "rebase_marks (take (length s - length s0) s) p0"
  have e': "eat_chunk s (resume p) = (s0, es0, ?p0)" by (rule eat_resume [OF ok e])
  obtain es1 where x: "exec s0 ?p0 = (rest, es1, q1, oc)" "m1 = fold absorb (es0 @ es1) m" using r e' by (auto simp: run_def split: prod.splits)
  show "fst (execute p s) = 0 \<and> parser_has_error (snd (snd (execute p s)))" if bad: "oc = Aborted \<or> (\<exists>f. too_long q1 f)"
  proof (cases "oc = Aborted")
    case True
    then show ?thesis using e x(1) exec_aborted [of s0 ?p0] by (simp add: execute_def parser_has_error_def)
  next
    case False
    then obtain f where "too_long q1 f" using bad by blast
    then obtain e2 p2 where "flush_fields all_fields q1 = (e2, p2, False)" "hp_error p2" using flush_too_long all_fields by metis
    then show ?thesis using e x False by (simp add: execute_def parser_has_error_def)
  qed
  show "\<exists>es p1. execute p s = (length s - length rest, es, p1) \<and> fold absorb es m = pending q1 m1 \<and> resume p1 = collapse q1 \<and> parser_ok p1 \<and>
        hp_error p1 = hp_error q1 \<and> hp_cs p1 = hp_cs q1" if oc: "oc \<noteq> Aborted" and short: "\<forall>f. \<not> too_long q1 f"
  proof -
    obtain e2 where f: "flush_fields all_fields q1 = (e2, q1\<lparr>hp_size := (\<lambda>f. hp_size q1 f + length (mark_text q1 f))\<rparr>, True)"
        "\<And>m. fold absorb e2 m = m\<lparr>dg_text := (\<lambda>f. dg_text m f @ mark_text q1 f)\<rparr>"
      using flush_ok [of all_fields q1] short all_fields by auto
    let ?p1 = "q1\<lparr>hp_size := (\<lambda>f. hp_size q1 f + length (mark_text q1 f))\<rparr>"
    have "execute p s = (length s - length rest, es0 @ es1 @ e2, ?p1)" using e x(1) f(1) oc by (simp add: execute_def)
    moreover have "fold absorb (es0 @ es1 @ e2) m = pending q1 m1" using f(2) x(2) by (simp add: pending_def)
    moreover have "resume ?p1 = collapse q1" by (simp add: resume_def rebase_marks_def collapse_def)
    moreover have "parser_ok ?p1" using run_ok [OF r resume_ok [OF ok] oc] by (simp add: parser_ok_def marks_ok_def)
    ultimately show ?thesis by auto
  qed
qed

end
