(* ===== verification/Http_Request_Text.thy ===== *)
theory Http_Request_Text
  imports Http_Parser_Cuts
begin

text \<open>
  What the HTTP parser reads: \<open>request_text\<close> writes a request as a client does, \<open>request_message\<close> is what the parser has to report of it;
  \<open>reads\<close> relates a text to the digest and the parser behind it, and the lemmas go through the parts of a request one after the other.
\<close>

section \<open>Writing a request\<close>

record request_line =
  rl_method :: string
  rl_path :: string
  rl_query :: "string option"
  rl_minor :: nat
  rl_headers :: "header list"

definition CRLF :: string where "CRLF = [CHR 0x0D, CHR 0x0A]"

definition header_text :: "header \<Rightarrow> string" where
  "header_text h = fst h @ '': '' @ snd h @ CRLF"

definition uri_string :: "request_line \<Rightarrow> string" where
  "uri_string r = rl_path r @ (case rl_query r of None \<Rightarrow> [] | Some q \<Rightarrow> CHR ''?'' # q)"

definition request_text :: "request_line \<Rightarrow> string" where
  "request_text r =
    rl_method r @ '' '' @ uri_string r @ '' HTTP/1.'' @ [char_of (rl_minor r + 48)] @ CRLF @ concat (map header_text (rl_headers r)) @ CRLF"

text \<open>The texts that may stand in a URI, with escapes, and in header lines.\<close>

fun uri_ok :: "(char \<Rightarrow> bool) \<Rightarrow> string \<Rightarrow> bool" where
  "uri_ok ok [] = True"
| "uri_ok ok (c # s) =
    (if c = CHR ''%'' then (case s of a # b # s' \<Rightarrow> xdigit a \<and> xdigit b \<and> uri_ok ok s' | _ \<Rightarrow> False) else ok c \<and> uri_ok ok s)"

definition path_char :: "char \<Rightarrow> bool" where
  "path_char c \<longleftrightarrow> pchar c \<or> c = CHR ''/'' \<or> c = CHR '';''"

definition header_ok :: "header \<Rightarrow> bool" where
  "header_ok h \<longleftrightarrow> fst h \<noteq> [] \<and> (\<forall>c \<in> set (fst h). token c) \<and> (\<forall>c \<in> set (snd h). \<not> is_CR c \<and> \<not> is_LF c) \<and>
     (snd h = [] \<or> hd (snd h) \<noteq> CHR '' '') \<and> length (fst h) \<le> MAX_FIELD_SIZE \<and> length (snd h) \<le> MAX_FIELD_SIZE"

definition request_ok :: "request_line \<Rightarrow> bool" where
  "request_ok r \<longleftrightarrow> rl_method r \<in> fst ` set methods \<and> rl_path r \<noteq> [] \<and> hd (rl_path r) = CHR ''/'' \<and> uri_ok path_char (tl (rl_path r)) \<and>
     (case rl_query r of None \<Rightarrow> True | Some q \<Rightarrow> uri_ok uri_rest q) \<and> length (uri_string r) \<le> MAX_FIELD_SIZE \<and> rl_minor r \<le> 9 \<and>
     list_all header_ok (rl_headers r)"

text \<open>What the header lines mean to the parser: the digits of all \<open>Content-Length\<close> lines, the last \<open>Connection\<close> line with a known word, the last
  \<open>Transfer-Encoding\<close> line.\<close>

definition kind_of :: "string \<Rightarrow> header_kind" where
  "kind_of name = (case filter (\<lambda>w. snd w = map lower name) header_words of [] \<Rightarrow> OtherH | w # _ \<Rightarrow> fst w)"

definition digit_step :: "char \<Rightarrow> 64 word \<Rightarrow> 64 word" where
  "digit_step c n = n * 10 + word_of_nat (char_code c - 48)"

definition length_step :: "header \<Rightarrow> 64 word \<Rightarrow> 64 word" where
  "length_step h n = (if kind_of (fst h) = ContentLengthH then fold digit_step (takeWhile is_digit (snd h)) n else n)"

definition keep_alive_step :: "header \<Rightarrow> int \<Rightarrow> int" where
  "keep_alive_step h k =
    (if kind_of (fst h) = ConnectionH
     then (if map lower (snd h) = ''keep-alive'' then 1 else if map lower (snd h) = ''close'' then 0 else k) else k)"

definition encoding_step :: "header \<Rightarrow> int \<Rightarrow> int" where
  "encoding_step h e =
    (if kind_of (fst h) = TransferEncodingH then (if snd h = ''identity'' then HTTP_IDENTITY else HTTP_CHUNKED) else e)"

definition request_fields :: "request_line \<Rightarrow> parser_fields" where
  "request_fields r =
    \<lparr>pf_method = the (map_of methods (rl_method r)), pf_content_length = unat (fold length_step (rl_headers r) 0),
     pf_transfer_encoding = fold encoding_step (rl_headers r) HTTP_IDENTITY, pf_version_major = 1, pf_version_minor = int (rl_minor r),
     pf_keep_alive = fold keep_alive_step (rl_headers r) (-1)\<rparr>"

definition request_message :: "request_line \<Rightarrow> message" where
  "request_message r =
    \<lparr>msg_fields = request_fields r,
     msg_texts = (\<lambda>_. [])(FUri := uri_string r, FPath := rl_path r, FQueryString := case_option [] id (rl_query r)),
     msg_headers = rl_headers r, msg_chunk = []\<rparr>"

section \<open>Reading\<close>

definition reads :: "string \<Rightarrow> digest \<Rightarrow> http_parser \<Rightarrow> digest \<Rightarrow> http_parser \<Rightarrow> bool" where
  "reads s m p m' p' \<longleftrightarrow> digested m (exec s p) = ([], m', p', Ran) \<and> \<not> hp_eating p \<and> \<not> hp_eating p'"

lemma reads_trans:
  assumes "reads a m p m1 p1" and "reads b m1 p1 m2 p2"
  shows "reads (a @ b) m p m2 p2"
proof -
  obtain es where a: "exec a p = ([], es, p1, Ran)" "m1 = fold absorb es m" using assms(1) by (auto simp: reads_def digested_def split: prod.splits)
  have "run b m1 p1 = digested m1 (exec b p1)" using assms(2) by (simp add: run_def eat_chunk_def digested_def reads_def split: prod.splits)
  then show ?thesis using exec_pieces [OF a(1), of m b] assms a(2) by (simp add: reads_def)
qed

lemma reads_Cons: "reads [c] m p m1 p1 \<Longrightarrow> reads s m1 p1 m2 p2 \<Longrightarrow> reads (c # s) m p m2 p2"
  using reads_trans [of "[c]"] by simp

text \<open>The parser between two characters: its state, its marks, and the rest of it.\<close>

definition pos :: "pstate \<Rightarrow> (field \<rightharpoonup> string) \<Rightarrow> http_parser \<Rightarrow> http_parser" where
  "pos st M C = C\<lparr>hp_cs := st, hp_mark := M, hp_size := (\<lambda>_. 0)\<rparr>"

definition calm :: "http_parser \<Rightarrow> bool" where
  "calm C \<longleftrightarrow> \<not> hp_eating C \<and> hp_type C = HTTP_REQUEST"

definition grow :: "string \<Rightarrow> (field \<rightharpoonup> string) \<Rightarrow> (field \<rightharpoonup> string)" where
  "grow s M = (\<lambda>f. map_option (\<lambda>t. t @ s) (M f))"

lemma grow_simps [simp]: "grow [] M = M" "grow b (grow a M) = grow (a @ b) M" "grow s Map.empty = Map.empty"
    "grow s (M(f \<mapsto> t)) = (grow s M)(f \<mapsto> t @ s)" "grow s (M(f := None)) = (grow s M)(f := None)"
  by (auto simp: grow_def option.map_comp comp_def option.map_ident fun_eq_iff)

lemma zero_upd [simp]: "(\<lambda>_. 0 :: nat)(f := 0) = (\<lambda>_. 0)"
  by auto

lemma add_nothing [simp]: "add_text f [] m = m"
  by (simp add: add_text_def)

lemma reads_Nil: "calm C \<Longrightarrow> reads [] m (pos st M C) m (pos st M C)"
  by (simp add: reads_def digested_def calm_def pos_def)

text \<open>One character with actions \<open>acts\<close>.\<close>

lemma reads_char:
  assumes "transition HTTP_REQUEST st c = (acts, Advance, tgt)" and "tgt \<noteq> PError"
    and "run_actions c acts (pos tgt M C) = (es, pos tgt M' C', True)" and "calm C"
  shows "reads [c] m (pos st M C) (fold absorb es m) (pos tgt (grow [c] M') C')"
proof -
  have "(pos st M C)\<lparr>hp_cs := tgt\<rparr> = pos tgt M C" "hp_cs (pos st M C) = st" "hp_type (pos st M C) = hp_type C" by (simp_all add: pos_def)
  moreover have "advance c (pos tgt M' C') = pos tgt (grow [c] M') C'" by (simp add: pos_def advance_def grow_def)
  moreover have "hp_eating (pos x N C) = hp_eating C" for x N C by (simp add: pos_def)
  moreover from this have "hp_eating C' = hp_eating C" using run_actions_eating [OF assms(3)] by simp
  ultimately show ?thesis using assms by (simp add: reads_def digested_def parse_round_def calm_def)
qed

lemma reads_silent:
  assumes "transition HTTP_REQUEST st c = goto [] tgt" and "tgt \<noteq> PError" and "calm C"
  shows "reads [c] m (pos st M C) m (pos tgt (grow [c] M) C)"
  using reads_char [of st c "[]" tgt M C "[]" M C m] assms by (simp add: goto_def)

lemma run_Mark: "run_action c (Mark f) (pos st M C) = ([], pos st (M(f \<mapsto> [])) C, True)"
  by (simp add: pos_def)

lemma run_Data:
  assumes "M f = Some s" and "length s \<le> MAX_FIELD_SIZE"
  shows "run_action c (Data f) (pos st M C) = ([field_event f s], pos st (M(f := None)) C, True)"
  using assms by (simp add: pos_def CALLBACK_def)

lemma run_Data_unmarked: "M f = None \<Longrightarrow> run_action c (Data f) (pos st M C) = ([], pos st M C, True)"
  by (simp add: pos_def CALLBACK_def) (metis fun_upd_idem)

declare run_action.simps(1,2) [simp del]

section \<open>The request line\<close>

lemma method_prefix_butlast: "method_prefix (t @ [c]) \<Longrightarrow> method_prefix t"
proof -
  assume "method_prefix (t @ [c])"
  then obtain w where w: "w \<in> set methods" "take (Suc (length t)) (fst w) = t @ [c]" by (auto simp: method_prefix_def)
  then have "take (length t) (fst w) = t" by (metis append_eq_conv_conj append_take_drop_id length_append_singleton lessI less_imp_le min.absorb1 take_take)
  then show ?thesis using w(1) by (auto simp: method_prefix_def)
qed

lemma method_no_space: "method_prefix t \<Longrightarrow> CHR '' '' \<notin> set t"
proof
  assume "method_prefix t" and sp: "CHR '' '' \<in> set t"
  then obtain w where w: "w \<in> set methods" "take (length t) (fst w) = t" unfolding method_prefix_def by blast
  have "CHR '' '' \<in> set (fst w)" using sp w(2) by (metis in_set_takeD)
  then show False using w(1) by (auto simp: methods_def)
qed

lemma reads_method:
  assumes "method_prefix t" and "t \<noteq> []" and "calm C"
  shows "reads t m (pos PStart Map.empty C) m (pos (PMethod t) Map.empty C)"
  using assms(1,2)
proof (induction t rule: rev_induct)
  case (snoc c t)
  note pre = method_prefix_butlast [OF snoc.prems(1)]
  have sp: "c \<noteq> CHR '' ''" using method_no_space [OF snoc.prems(1)] by auto
  show ?case
  proof (cases "t = []")
    case True
    then have "transition HTTP_REQUEST PStart c = goto [] (PMethod [c])" using snoc.prems(1) by (simp add: start_message_def)
    from reads_silent [OF this _ assms(3), of m Map.empty] True show ?thesis by simp
  next
    case False
    have "transition HTTP_REQUEST (PMethod t) c = goto [] (PMethod (t @ [c]))" using snoc.prems(1) sp by simp
    from reads_trans [OF snoc.IH [OF pre False] reads_silent [OF this _ assms(3)]] show ?thesis by simp
  qed
qed simp

lemma method_whole: "w \<in> fst ` set methods \<Longrightarrow> method_prefix w \<and> w \<noteq> [] \<and> map_of methods w \<noteq> None"
  by (auto simp: method_prefix_def map_of_eq_None_iff methods_def)

lemma reads_method_space:
  assumes "w \<in> fst ` set methods" and "calm C"
  shows "reads (w @ '' '') m (pos PStart Map.empty C) m (pos PUri Map.empty (C\<lparr>hp_method := the (map_of methods w)\<rparr>))"
proof -
  let ?C = "C\<lparr>hp_method := the (map_of methods w)\<rparr>"
  have w: "method_prefix w" "w \<noteq> []" "map_of methods w \<noteq> None" using method_whole [OF assms(1)] by auto
  from w(3) obtain x where x: "map_of methods w = Some x" by blast
  then have "reads '' '' m (pos (PMethod w) Map.empty C) m (pos PUri Map.empty ?C)"
    using reads_char [of "PMethod w" "CHR '' ''" "[SetMethod x]" PUri Map.empty C "[]" Map.empty ?C m] assms(2) by (simp add: pos_def goto_def)
  from reads_trans [OF reads_method [OF w(1,2) assms(2)] this] show ?thesis .
qed

text \<open>A part of the URI.\<close>

lemma reads_uri:
  assumes "uri_ok ok s" and "calm C" and "\<And>e c. e \<le> 2 \<Longrightarrow> \<exists>leave. transition HTTP_REQUEST (st e) c = uri_char st ok e c [] leave"
    and "\<And>e. st e \<noteq> PError"
  shows "reads s m (pos (st 0) M C) m (pos (st 0) (grow s M) C)"
  using assms(1)
proof (induction s arbitrary: M rule: length_induct)
  case (1 s)
  have step: "reads [x] m (pos (st e) N C) m (pos (st e') (grow [x] N) C)"
    if "e \<le> 2" and "\<And>leave. uri_char st ok e x [] leave = goto [] (st e')" for e e' x N
    using assms(3) [OF that(1), of x] that(2) assms(2,4) reads_silent [of "st e" x "st e'" C m N] by auto
  show ?case
  proof (cases s)
    case Nil
    then show ?thesis using reads_Nil [OF assms(2)] by simp
  next
    case (Cons c u)
    show ?thesis
    proof (cases "c = CHR ''%''")
      case True
      then obtain a b t where s: "u = a # b # t" "xdigit a" "xdigit b" "uri_ok ok t" using "1.prems" Cons by (auto split: list.splits)
      have "reads [c, a, b] m (pos (st 0) M C) m (pos (st 0) (grow [c, a, b] M) C)"
        using reads_Cons [OF step [of 0 c 1 M] reads_Cons [OF step [of 1 a 2] step [of 2 b 0]]] True s by (simp add: uri_char_def)
      moreover have "reads t m (pos (st 0) N C) m (pos (st 0) (grow t N) C)" for N using "1.IH" Cons s by simp
      ultimately show ?thesis using reads_trans Cons s(1) by fastforce
    next
      case False
      then have "reads [c] m (pos (st 0) M C) m (pos (st 0) (grow [c] M) C)" using step [of 0 c 0] "1.prems" Cons by (simp add: uri_char_def)
      moreover have "reads u m (pos (st 0) N C) m (pos (st 0) (grow u N) C)" for N using "1.IH" "1.prems" Cons False by simp
      ultimately show ?thesis using reads_Cons Cons by fastforce
    qed
  qed
qed

lemma reads_path:
  assumes "path \<noteq> []" and "hd path = CHR ''/''" and "uri_ok path_char (tl path)" and "calm C"
  shows "reads path m (pos PUri Map.empty C) m (pos (PPath 0) [FUri \<mapsto> path, FPath \<mapsto> path] C)"
proof -
  obtain t where p: "path = CHR ''/'' # t" "uri_ok path_char t" using assms(1-3) by (cases path) auto
  have "reads [CHR ''/''] m (pos PUri Map.empty C) m (pos (PPath 0) [FUri \<mapsto> ''/'', FPath \<mapsto> ''/''] C)"
    using reads_char [of PUri "CHR ''/''" "[Mark FUri, Mark FPath]" "PPath 0" Map.empty C "[]" "[FUri \<mapsto> [], FPath \<mapsto> []]" C] assms(4) by (simp add: goto_def run_Mark)
  moreover have "reads t m (pos (PPath 0) M C) m (pos (PPath 0) (grow t M) C)" for M
    by (rule reads_uri [OF p(2) assms(4)]) (simp_all add: path_char_def [abs_def] del: split_paired_Ex, blast)
  ultimately show ?thesis using reads_Cons p(1) by fastforce
qed

text \<open>The query, whose first character sets its mark.\<close>

lemma query_mark:
  assumes "c = CHR ''%'' \<or> uri_rest c" and "calm C"
  shows "exec (c # s) (pos (PQuery 3) M C) = exec (c # s) (pos (PQuery 0) (M(FQueryString \<mapsto> [])) C)"
proof -
  have cs: "(pos st N C)\<lparr>hp_cs := tgt\<rparr> = pos tgt N C" "hp_cs (pos st N C) = st" "hp_type (pos st N C) = HTTP_REQUEST" for st N tgt
    using assms(2) by (simp_all add: pos_def calm_def)
  show ?thesis using assms(1) by (auto simp: parse_round_def cs uri_char_def goto_def run_Mark)
qed

lemma reads_query:
  assumes "uri_ok uri_rest q" and "q \<noteq> []" and "calm C"
  shows "reads q m (pos (PQuery 3) M C) m (pos (PQuery 0) ((grow q M)(FQueryString \<mapsto> q)) C)"
proof -
  obtain c s where q: "q = c # s" using assms(2) by (cases q) auto
  have "c = CHR ''%'' \<or> uri_rest c" using assms(1) q by (simp split: if_splits)
  moreover have "reads q m (pos (PQuery 0) (M(FQueryString \<mapsto> [])) C) m (pos (PQuery 0) (grow q (M(FQueryString \<mapsto> []))) C)"
    by (rule reads_uri [OF assms(1,3)]) (simp_all del: split_paired_Ex, blast)
  ultimately show ?thesis using query_mark [OF _ assms(3)] q by (simp add: reads_def pos_def)
qed

definition add_uri :: "request_line \<Rightarrow> digest \<Rightarrow> digest" where
  "add_uri r m = add_text FUri (uri_string r) (add_text FQueryString (case_option [] id (rl_query r)) (add_text FPath (rl_path r) m))"

lemma reads_target:
  assumes "request_ok r" and "calm C"
  shows "reads (uri_string r @ '' '') m (pos PUri Map.empty C) (add_uri r m) (pos (PHttp False ''HTTP/'') Map.empty C)"
proof -
  let ?p = "rl_path r" and ?sp = "CHR '' ''"
  have len: "length ?p \<le> MAX_FIELD_SIZE" "length (uri_string r) \<le> MAX_FIELD_SIZE" using assms(1) by (auto simp: request_ok_def uri_string_def)
  have path: "reads ?p m (pos PUri Map.empty C) m (pos (PPath 0) [FUri \<mapsto> ?p, FPath \<mapsto> ?p] C)"
    using assms(1) by (intro reads_path [OF _ _ _ assms(2)]) (auto simp: request_ok_def)
  show ?thesis
  proof (cases "rl_query r")
    case None
    have "transition HTTP_REQUEST (PPath 0) ?sp = ([Data FPath, Data FUri], Advance, PHttp False ''HTTP/'')" by code_simp
    from reads_char [OF this, of "[FUri \<mapsto> ?p, FPath \<mapsto> ?p]" C "[OnPath ?p, OnUri ?p]" Map.empty C m] len assms(2)
    have "reads [?sp] m (pos (PPath 0) [FUri \<mapsto> ?p, FPath \<mapsto> ?p] C) (add_uri r m) (pos (PHttp False ''HTTP/'') Map.empty C)"
      using None by (simp add: run_Data add_uri_def uri_string_def)
    from reads_trans [OF path this] show ?thesis using None by (simp add: uri_string_def)
  next
    case (Some q)
    let ?u = "?p @ ''?'' @ q" and ?m = "add_text FPath ?p m"
    have "transition HTTP_REQUEST (PPath 0) CHR ''?'' = ([Data FPath], Advance, PQuery 3)" by code_simp
    from reads_char [OF this, of "[FUri \<mapsto> ?p, FPath \<mapsto> ?p]" C "[OnPath ?p]" "[FUri \<mapsto> ?p]" C m] len assms(2)
    have mid: "reads ''?'' m (pos (PPath 0) [FUri \<mapsto> ?p, FPath \<mapsto> ?p] C) ?m (pos (PQuery 3) [FUri \<mapsto> ?p @ ''?''] C)"
      by (simp add: run_Data)
    have u: "length ?u \<le> MAX_FIELD_SIZE" "length q \<le> MAX_FIELD_SIZE" using len Some by (auto simp: uri_string_def)
    have "reads (q @ [?sp]) ?m (pos (PQuery 3) [FUri \<mapsto> ?p @ ''?''] C) (add_uri r m) (pos (PHttp False ''HTTP/'') Map.empty C)"
    proof (cases "q = []")
      case True
      have "transition HTTP_REQUEST (PQuery 3) ?sp = ([Data FQueryString, Data FUri], Advance, PHttp False ''HTTP/'')" by code_simp
      from reads_char [OF this, of "[FUri \<mapsto> ?p @ ''?'']" C "[OnUri ?u]" Map.empty C ?m] u assms(2) True Some
      show ?thesis by (simp add: run_Data run_Data_unmarked add_uri_def uri_string_def)
    next
      case False
      have "transition HTTP_REQUEST (PQuery 0) ?sp = ([Data FQueryString, Data FUri], Advance, PHttp False ''HTTP/'')" by code_simp
      from reads_char [OF this, of "[FUri \<mapsto> ?u, FQueryString \<mapsto> q]" C "[OnQueryString q, OnUri ?u]" Map.empty C ?m] u assms(2) Some
      have "reads [?sp] ?m (pos (PQuery 0) [FUri \<mapsto> ?u, FQueryString \<mapsto> q] C) (add_uri r m) (pos (PHttp False ''HTTP/'') Map.empty C)"
        by (simp add: run_Data add_uri_def uri_string_def)
      moreover have "reads q ?m (pos (PQuery 3) [FUri \<mapsto> ?p @ ''?''] C) ?m (pos (PQuery 0) [FUri \<mapsto> ?u, FQueryString \<mapsto> q] C)"
        using reads_query [OF _ False assms(2), of ?m "[FUri \<mapsto> ?p @ ''?'']"] assms(1) Some by (simp add: request_ok_def)
      ultimately show ?thesis by (rule reads_trans [rotated])
    qed
    from reads_trans [OF path reads_trans [OF mid this]] show ?thesis using Some by (simp add: uri_string_def)
  qed
qed

text \<open>The version.\<close>

lemma reads_word:
  assumes "w \<noteq> []" and "calm C"
  shows "reads w m (pos (PHttp False w) Map.empty C) m (pos (PMajor False) Map.empty C)"
  using assms(1)
proof (induction w)
  case (Cons x w)
  show ?case
  proof (cases "w = []")
    case True
    then show ?thesis using reads_silent [of "PHttp False [x]" x "PMajor False" C m Map.empty] assms(2) by simp
  next
    case False
    then have "reads [x] m (pos (PHttp False (x # w)) Map.empty C) m (pos (PHttp False w) Map.empty C)"
      using reads_silent [of "PHttp False (x # w)" x "PHttp False w" C m Map.empty] assms(2) by simp
    from reads_Cons [OF this Cons.IH [OF False]] show ?thesis .
  qed
qed simp

lemma code_digit: "n \<le> 9 \<Longrightarrow> char_code (char_of (n + 48)) = n + 48 \<and> is_digit (char_of (n + 48))"
  by (simp add: is_digit_def char_code_def)

lemma reads_version:
  assumes "n \<le> 9" and "calm C" and "hp_version_major C = 0" and "hp_version_minor C = 0"
  shows "reads (''HTTP/1.'' @ [char_of (n + 48)] @ CRLF) m (pos (PHttp False ''HTTP/'') Map.empty C)
    m (pos (PHeaders False) Map.empty (C\<lparr>hp_version_major := 1, hp_version_minor := int n\<rparr>))"
proof -
  let ?d = "char_of (n + 48) :: char" and ?A = "C\<lparr>hp_version_major := 1\<rparr>" and ?B = "C\<lparr>hp_version_major := 1, hp_version_minor := int n\<rparr>"
  note d = code_digit [OF assms(1)]
  have calm: "calm ?A" "calm ?B" using assms(2) by (simp_all add: calm_def)
  have "transition HTTP_REQUEST (PMajor False) CHR ''1'' = ([VersionMajor], Advance, PDot False)" by code_simp
  from reads_char [OF this, of Map.empty C "[]" Map.empty ?A m] assms
  have a: "reads ''1'' m (pos (PMajor False) Map.empty C) m (pos (PDot False) Map.empty ?A)" by (simp add: pos_def char_code_def)
  have "transition HTTP_REQUEST (PDot False) CHR ''.'' = goto [] (PMinor False)" by code_simp
  from reads_silent [OF this _ calm(1), of m Map.empty]
  have b: "reads ''.'' m (pos (PDot False) Map.empty ?A) m (pos (PMinor False) Map.empty ?A)" by simp
  have c: "reads [?d] m (pos (PMinor False) Map.empty ?A) m (pos (PVersionEnd False) Map.empty ?B)"
    using reads_char [of "PMinor False" ?d "[VersionMinor]" "PVersionEnd False" Map.empty ?A "[]" Map.empty ?B m] d calm assms
    by (simp add: pos_def goto_def)
  have "transition HTTP_REQUEST (PVersionEnd False) CHR 0x0D = goto [] PLineCR" "transition HTTP_REQUEST PLineCR CHR 0x0A = goto [] (PHeaders False)"
    by code_simp+
  from reads_Cons [OF reads_silent [OF this(1) _ calm(2)] reads_silent [OF this(2) _ calm(2)], of m Map.empty]
  have e: "reads CRLF m (pos (PVersionEnd False) Map.empty ?B) m (pos (PHeaders False) Map.empty ?B)" by (simp add: CRLF_def)
  from reads_trans [OF reads_word [of "''HTTP/''", OF _ assms(2)] reads_trans [OF a reads_trans [OF b reads_trans [OF c e]]]]
  show ?thesis by simp
qed

lemma reads_request_line:
  assumes "request_ok r" and "calm C" and "hp_version_major C = 0" and "hp_version_minor C = 0"
  shows "reads (rl_method r @ '' '' @ uri_string r @ '' HTTP/1.'' @ [char_of (rl_minor r + 48)] @ CRLF) m (pos PStart Map.empty C) (add_uri r m)
    (pos (PHeaders False) Map.empty (C\<lparr>hp_method := the (map_of methods (rl_method r)), hp_version_major := 1, hp_version_minor := int (rl_minor r)\<rparr>))"
proof -
  let ?C = "C\<lparr>hp_method := the (map_of methods (rl_method r))\<rparr>"
  have c: "calm ?C" using assms(2) by (simp add: calm_def)
  have sp: "reads (rl_method r @ '' '') m (pos PStart Map.empty C) m (pos PUri Map.empty ?C)"
    using assms(1,2) by (intro reads_method_space) (simp_all add: request_ok_def)
  have v: "reads (''HTTP/1.'' @ [char_of (rl_minor r + 48)] @ CRLF) (add_uri r m) (pos (PHttp False ''HTTP/'') Map.empty ?C) (add_uri r m)
      (pos (PHeaders False) Map.empty (?C\<lparr>hp_version_major := 1, hp_version_minor := int (rl_minor r)\<rparr>))"
    using reads_version [OF _ c, of "rl_minor r" "add_uri r m"] assms(1,3,4) by (simp add: request_ok_def)
  from reads_trans [OF sp reads_trans [OF reads_target [OF assms(1) c] v]]
  show ?thesis by simp
qed

section \<open>Header lines\<close>

lemma finished_follow: "finished (fold (\<lambda>c. follow (f c)) s ws) = map fst (filter (\<lambda>w. snd w = map f s) ws)"
proof (induction s arbitrary: ws)
  case (Cons c s)
  have "map fst (filter (\<lambda>w. snd w = map f s) (follow (f c) ws)) = map fst (filter (\<lambda>w. snd w = f c # map f s) ws)"
    unfolding follow_def
  proof (induction ws)
    case (Cons w ws)
    then show ?case by (cases "snd w") auto
  qed simp
  then show ?case using Cons.IH by simp
qed (simp add: finished_def)

lemma header_kind_follow: "header_kind (fold (\<lambda>c. follow (lower c)) name header_words) = kind_of name"
  by (simp add: header_kind_def finished_follow kind_of_def split: list.splits)

definition line_done :: "bool \<Rightarrow> digest \<Rightarrow> digest" where
  "line_done after m = (if after then absorb OnHeaderLineComplete m else m)"

lemma reads_name_rest:
  assumes "\<forall>c \<in> set s. token c" and "calm C"
  shows "reads s m (pos (PName ws) M C) m (pos (PName (fold (\<lambda>c. follow (lower c)) s ws)) (grow s M) C)"
  using assms(1)
proof (induction s arbitrary: ws M)
  case (Cons c s)
  have "reads [c] m (pos (PName ws) M C) m (pos (PName (follow (lower c) ws)) (grow [c] M) C)"
    using Cons.prems assms(2) by (intro reads_silent) simp_all
  moreover have "reads s m (pos (PName (follow (lower c) ws)) (grow [c] M) C) m
      (pos (PName (fold (\<lambda>c. follow (lower c)) s (follow (lower c) ws))) (grow s (grow [c] M)) C)"
    by (rule Cons.IH) (use Cons.prems in simp)
  ultimately show ?case using reads_Cons by fastforce
qed (simp add: reads_Nil [OF assms(2)])

lemma reads_name:
  assumes "\<forall>c \<in> set name. token c" and "name \<noteq> []" and "length name \<le> MAX_FIELD_SIZE" and "calm C"
  shows "reads (name @ '': '') m (pos (PHeaders after) Map.empty C) (add_text FHeaderField name (line_done after m))
    (pos (PSep (kind_of name)) Map.empty (if kind_of name = TransferEncodingH then C\<lparr>hp_transfer_encoding := HTTP_CHUNKED\<rparr> else C))"
proof -
  obtain c s where n: "name = c # s" "token c" "\<forall>c \<in> set s. token c" using assms(1,2) by (cases name) auto
  let ?ws = "fold (\<lambda>c. follow (lower c)) name header_words" and ?m = "line_done after m" and ?k = "kind_of name"
  let ?D = "if ?k = TransferEncodingH then C\<lparr>hp_transfer_encoding := HTTP_CHUNKED\<rparr> else C"
  have "reads [c] m (pos (PHeaders after) Map.empty C) ?m (pos (PName (follow (lower c) header_words)) [FHeaderField \<mapsto> [c]] C)"
    using reads_char [of "PHeaders after" c "(if after then [HeaderLineComplete] else []) @ [Mark FHeaderField]" "PName (follow (lower c) header_words)"
        Map.empty C "if after then [OnHeaderLineComplete] else []" "[FHeaderField \<mapsto> []]" C m] n(2) assms(4)
    by (cases after) (simp_all add: goto_def run_Mark line_done_def)
  moreover have "reads s ?m (pos (PName (follow (lower c) header_words)) [FHeaderField \<mapsto> [c]] C) ?m (pos (PName ?ws) [FHeaderField \<mapsto> name] C)"
    using reads_name_rest [OF n(3) assms(4), of ?m "follow (lower c) header_words" "[FHeaderField \<mapsto> [c]]"] n(1) by simp
  ultimately have a: "reads name m (pos (PHeaders after) Map.empty C) ?m (pos (PName ?ws) [FHeaderField \<mapsto> name] C)"
    using reads_Cons n(1) by blast
  have "\<not> token CHR '':''" by code_simp
  then have t: "transition HTTP_REQUEST (PName ?ws) CHR '':'' =
      ((if ?k = TransferEncodingH then [UseChunked] else []) @ [Data FHeaderField], Advance, PSep ?k)"
    using header_kind_follow [of name] by (simp add: goto_def)
  have ch: "run_action x UseChunked (pos st M C) = ([], pos st M (C\<lparr>hp_transfer_encoding := HTTP_CHUNKED\<rparr>), True)" for x st M by (simp add: pos_def)
  have b: "reads '':'' ?m (pos (PName ?ws) [FHeaderField \<mapsto> name] C) (add_text FHeaderField name ?m) (pos (PSep ?k) Map.empty ?D)"
    using reads_char [OF t, of "[FHeaderField \<mapsto> name]" C "[OnField name]" Map.empty ?D ?m] assms(3,4)
    by (cases "?k = TransferEncodingH") (simp_all add: run_Data ch del: run_action.simps)
  have "reads '' '' (add_text FHeaderField name ?m) (pos (PSep ?k) Map.empty ?D) (add_text FHeaderField name ?m) (pos (PSep ?k) Map.empty ?D)"
    using reads_silent [of "PSep ?k" "CHR '' ''" "PSep ?k" ?D _ Map.empty] assms(4) by (simp add: calm_def)
  from reads_trans [OF a reads_trans [OF b this]] show ?thesis by simp
qed

text \<open>The value: what is still possible behind it and the digits it had.\<close>

definition obs_after :: "string \<Rightarrow> value_obs \<Rightarrow> value_obs" where
  "obs_after v obs = fold (\<lambda>c obs. snd (value_step c obs)) v obs"

fun len_after :: "string \<Rightarrow> value_obs \<Rightarrow> 64 word \<Rightarrow> 64 word" where
  "len_after v Digits n = fold digit_step (takeWhile is_digit v) n"
| "len_after v (Words ci ws) n = n"

lemma obs_after_Words: "obs_after v (Words ci ws) = Words ci (fold (\<lambda>c. follow (if ci then lower c else c)) v ws)"
  by (induction v arbitrary: ws) (simp_all add: obs_after_def)

lemma obs_after_Digits: "value_leave (obs_after v Digits) = []"
proof (induction v)
  case (Cons c v)
  have "fold (\<lambda>c. follow (if False then lower c else c)) v ([] :: (value_word \<times> string) list) = []" by (induction v) (simp_all add: follow_def)
  then have "value_leave (obs_after v (Words False [])) = []" by (simp add: obs_after_Words finished_def)
  then show ?case using Cons by (simp add: obs_after_def)
qed (simp add: obs_after_def)

lemma run_ContentLength:
  "run_action c ContentLength (pos st M C) = ([], pos st M (C\<lparr>hp_content_length := digit_step c (hp_content_length C)\<rparr>), True)"
  by (simp add: pos_def digit_step_def)

lemma reads_value_char:
  assumes "\<not> is_CR c" and "\<not> is_LF c" and "calm C"
  shows "reads [c] m (pos (PValue obs) M C) m
    (pos (PValue (snd (value_step c obs))) (grow [c] M) (C\<lparr>hp_content_length := len_after [c] obs (hp_content_length C)\<rparr>))"
proof (cases "obs = Digits \<and> is_digit c")
  case True
  then show ?thesis
    using reads_char [of "PValue Digits" c "[ContentLength]" "PValue Digits" M C "[]" M "C\<lparr>hp_content_length := digit_step c (hp_content_length C)\<rparr>" m] assms
    by (simp add: goto_def run_ContentLength del: run_action.simps)
next
  case False
  then obtain next_obs where "value_step c obs = ([], next_obs)" "\<And>n. len_after [c] obs n = n" by (cases obs) auto
  then show ?thesis using reads_silent [of "PValue obs" c "PValue next_obs" C m M] assms by simp
qed

lemma reads_value:
  assumes "\<forall>c \<in> set v. \<not> is_CR c \<and> \<not> is_LF c" and "calm C"
  shows "reads v m (pos (PValue obs) M C) m
    (pos (PValue (obs_after v obs)) (grow v M) (C\<lparr>hp_content_length := len_after v obs (hp_content_length C)\<rparr>))"
  using assms
proof (induction v arbitrary: obs M C)
  case Nil
  then show ?case using reads_Nil [of C] by (cases obs) (simp_all add: obs_after_def)
next
  case (Cons c v)
  let ?o = "snd (value_step c obs)" and ?C = "C\<lparr>hp_content_length := len_after [c] obs (hp_content_length C)\<rparr>"
  have len: "len_after v ?o (len_after [c] obs n) = len_after (c # v) obs n" for n by (cases obs) auto
  have "reads [c] m (pos (PValue obs) M C) m (pos (PValue ?o) (grow [c] M) ?C)" using Cons.prems by (intro reads_value_char) auto
  moreover have "reads v m (pos (PValue ?o) (grow [c] M) ?C) m
      (pos (PValue (obs_after v ?o)) (grow v (grow [c] M)) (?C\<lparr>hp_content_length := len_after v ?o (hp_content_length ?C)\<rparr>))"
    using Cons.prems by (intro Cons.IH) (auto simp: calm_def)
  ultimately show ?case using reads_Cons by (simp add: obs_after_def len)
qed

text \<open>The first character of the value sets its mark.\<close>

lemma value_mark:
  assumes "\<not> is_CR c" and "\<not> is_LF c" and "c \<noteq> CHR '' ''" and "calm C"
  shows "exec (c # s) (pos (PSep k) Map.empty C) = exec (c # s) (pos (PValue (value_start k)) [FHeaderValue \<mapsto> []] C)"
proof -
  have cs: "(pos st N C)\<lparr>hp_cs := tgt\<rparr> = pos tgt N C" "hp_cs (pos st N C) = st" "hp_type (pos st N C) = HTTP_REQUEST" for st N tgt
    using assms(4) by (simp_all add: pos_def calm_def)
  show ?thesis using assms(1-3) by (cases k) (auto simp: parse_round_def cs goto_def run_Mark run_ContentLength simp del: run_action.simps)
qed

definition header_effect :: "header \<Rightarrow> http_parser \<Rightarrow> http_parser" where
  "header_effect h C = C\<lparr>hp_content_length := length_step h (hp_content_length C), hp_keep_alive := keep_alive_step h (hp_keep_alive C),
     hp_transfer_encoding := encoding_step h (hp_transfer_encoding C)\<rparr>"

lemma calm_effect [simp]: "calm (header_effect h C) = calm C" "calm (fold header_effect hs C) = calm C"
  by (simp add: calm_def header_effect_def) (induction hs arbitrary: C; simp add: calm_def header_effect_def)

text \<open>The words at the end of a value.\<close>

lemma leave_effect:
  assumes "calm C" and "D = (if kind_of (fst h) = TransferEncodingH then C\<lparr>hp_transfer_encoding := HTTP_CHUNKED\<rparr> else C)"
    and "E = D\<lparr>hp_content_length := len_after (snd h) (value_start (kind_of (fst h))) (hp_content_length D)\<rparr>"
  shows "run_actions c (value_leave (obs_after (snd h) (value_start (kind_of (fst h))))) (pos st M E) = ([], pos st M (header_effect h C), True)"
proof (cases "kind_of (fst h)")
  case ContentLengthH
  then show ?thesis using assms
    by (simp add: obs_after_Digits header_effect_def length_step_def keep_alive_step_def encoding_step_def)
next
  case ConnectionH
  have "map lower (snd h) \<noteq> ''keep-alive'' \<or> map lower (snd h) \<noteq> ''close''" by auto
  then show ?thesis using assms ConnectionH
    by (auto simp: obs_after_Words finished_follow header_effect_def length_step_def keep_alive_step_def encoding_step_def pos_def)
next
  case TransferEncodingH
  then show ?thesis using assms
    by (auto simp: obs_after_Words finished_follow header_effect_def length_step_def keep_alive_step_def encoding_step_def pos_def map_idI)
next
  case OtherH
  then show ?thesis using assms
    by (simp add: obs_after_Words finished_follow header_effect_def length_step_def keep_alive_step_def encoding_step_def)
qed

lemma run_actions_append: "run_actions c a p = ([], p1, True) \<Longrightarrow> run_actions c (a @ b) p = run_actions c b p1"
proof (induction a arbitrary: p)
  case (Cons x a)
  obtain e1 pa g where x: "run_action c x p = (e1, pa, g)" by (rule prod_cases3)
  obtain e2 pb g2 where y: "run_actions c a pa = (e2, pb, g2)" by (rule prod_cases3)
  have "e1 = []" "g" "run_actions c a pa = ([], p1, True)" using Cons.prems x y by (auto split: if_splits)
  then show ?case using Cons.IH x by (simp del: run_action.simps)
qed simp

lemma header_line_end:
  assumes "transition HTTP_REQUEST st CHR 0x0D = (acts, Advance, PHeaderCR)" and "run_actions CHR 0x0D acts (pos PHeaderCR M C) = (es, pos PHeaderCR Map.empty C', True)"
    and "calm C"
  shows "reads CRLF m (pos st M C) (fold absorb es m) (pos (PHeaders True) Map.empty C')"
proof -
  have c: "calm C'" using run_actions_eating [OF assms(2)] run_actions_cs [OF assms(2)] assms(3) by (simp add: calm_def pos_def)
  have "transition HTTP_REQUEST PHeaderCR CHR 0x0A = goto [] (PHeaders True)" by code_simp
  from reads_silent [OF this _ c, of "fold absorb es m" Map.empty]
  have "reads [CHR 0x0A] (fold absorb es m) (pos PHeaderCR Map.empty C') (fold absorb es m) (pos (PHeaders True) Map.empty C')" by simp
  moreover have "reads [CHR 0x0D] m (pos st M C) (fold absorb es m) (pos PHeaderCR Map.empty C')"
    using reads_char [OF assms(1) _ assms(2,3), of m] by simp
  ultimately show ?thesis using reads_Cons by (simp add: CRLF_def)
qed

lemma reads_header:
  assumes "header_ok h" and "calm C"
  shows "reads (header_text h) m (pos (PHeaders after) Map.empty C)
    (add_text FHeaderValue (snd h) (add_text FHeaderField (fst h) (line_done after m))) (pos (PHeaders True) Map.empty (header_effect h C))"
proof -
  let ?k = "kind_of (fst h)" and ?v = "snd h" and ?m = "add_text FHeaderField (fst h) (line_done after m)"
  define D where "D = (if ?k = TransferEncodingH then C\<lparr>hp_transfer_encoding := HTTP_CHUNKED\<rparr> else C)"
  define E where "E = D\<lparr>hp_content_length := len_after ?v (value_start ?k) (hp_content_length D)\<rparr>"
  have calm: "calm D" "calm E" using assms(2) by (simp_all add: calm_def D_def E_def)
  have ok: "\<forall>c \<in> set ?v. \<not> is_CR c \<and> \<not> is_LF c" "length ?v \<le> MAX_FIELD_SIZE" using assms(1) by (simp_all add: header_ok_def)
  note leave = leave_effect [OF assms(2) D_def E_def]
  have name: "reads (fst h @ '': '') m (pos (PHeaders after) Map.empty C) ?m (pos (PSep ?k) Map.empty D)"
    using reads_name [of "fst h" C m after] assms by (simp add: header_ok_def D_def)
  have "reads (?v @ CRLF) ?m (pos (PSep ?k) Map.empty D) (add_text FHeaderValue ?v ?m) (pos (PHeaders True) Map.empty (header_effect h C))"
  proof (cases ?v)
    case Nil
    have "E = D" using Nil by (cases ?k) (simp_all add: E_def)
    moreover have "value_leave (obs_after [] (value_start ?k)) = []" by (cases ?k) (simp_all add: obs_after_def finished_def)
    ultimately have eff: "pos st M D = pos st M (header_effect h C)" for st M using leave [of undefined st M] Nil by simp
    have "transition HTTP_REQUEST (PSep ?k) CHR 0x0D = ([Data FHeaderValue], Advance, PHeaderCR)"
      by (simp add: is_CR_def line_end_def goto_def)
    from header_line_end [OF this, of Map.empty D "[]" "header_effect h C"] show ?thesis using calm Nil by (simp add: run_Data_unmarked eff)
  next
    case (Cons c v)
    have c: "\<not> is_CR c" "\<not> is_LF c" "c \<noteq> CHR '' ''" using ok(1) Cons assms(1) by (auto simp: header_ok_def)
    have "reads ?v ?m (pos (PValue (value_start ?k)) [FHeaderValue \<mapsto> []] D) ?m (pos (PValue (obs_after ?v (value_start ?k))) [FHeaderValue \<mapsto> ?v] E)"
      using reads_value [OF ok(1) calm(1), of ?m "value_start ?k" "[FHeaderValue \<mapsto> []]"] by (simp add: E_def)
    then have val: "reads ?v ?m (pos (PSep ?k) Map.empty D) ?m (pos (PValue (obs_after ?v (value_start ?k))) [FHeaderValue \<mapsto> ?v] E)"
      using value_mark [OF c calm(1)] Cons by (simp add: reads_def pos_def)
    have "transition HTTP_REQUEST (PValue (obs_after ?v (value_start ?k))) CHR 0x0D =
        (value_leave (obs_after ?v (value_start ?k)) @ [Data FHeaderValue], Advance, PHeaderCR)" by (simp add: is_CR_def line_end_def goto_def)
    from header_line_end [OF this, of "[FHeaderValue \<mapsto> ?v]" E "[OnValue ?v]" "header_effect h C"] run_actions_append [OF leave] ok(2) calm(2)
    have "reads CRLF ?m (pos (PValue (obs_after ?v (value_start ?k))) [FHeaderValue \<mapsto> ?v] E) (add_text FHeaderValue ?v ?m)
        (pos (PHeaders True) Map.empty (header_effect h C))" by (simp add: run_Data)
    from reads_trans [OF val this] show ?thesis .
  qed
  from reads_trans [OF name this] show ?thesis by (simp add: header_text_def)
qed

lemma reads_headers:
  assumes "list_all header_ok hs" and "calm C" and "dg_text (line_done after m) FHeaderField = []" and "dg_text (line_done after m) FHeaderValue = []"
  shows "\<exists>m'. reads (concat (map header_text hs)) m (pos (PHeaders after) Map.empty C) m' (pos (PHeaders (after \<or> hs \<noteq> [])) Map.empty (fold header_effect hs C)) \<and>
    line_done (after \<or> hs \<noteq> []) m' = (line_done after m)\<lparr>dg_headers := dg_headers (line_done after m) @ hs\<rparr>"
  using assms
proof (induction hs arbitrary: after m C)
  case Nil
  then show ?case using reads_Nil [of C m] by (intro exI [of _ m]) simp
next
  case (Cons h hs)
  let ?n = "line_done after m"
  let ?m = "add_text FHeaderValue (snd h) (add_text FHeaderField (fst h) ?n)"
  have n: "line_done True ?m = ?n\<lparr>dg_headers := dg_headers ?n @ [h]\<rparr>"
    using Cons.prems(3,4) by (cases ?n) (auto simp: line_done_def add_text_def fun_eq_iff)
  have "reads (header_text h) m (pos (PHeaders after) Map.empty C) ?m (pos (PHeaders True) Map.empty (header_effect h C))"
    using Cons.prems by (intro reads_header) simp_all
  moreover obtain m' where "reads (concat (map header_text hs)) ?m (pos (PHeaders True) Map.empty (header_effect h C)) m'
      (pos (PHeaders True) Map.empty (fold header_effect hs (header_effect h C)))"
      "line_done True m' = (line_done True ?m)\<lparr>dg_headers := dg_headers (line_done True ?m) @ hs\<rparr>"
    using Cons.IH [of "header_effect h C" True ?m] Cons.prems n by auto
  ultimately show ?case using reads_trans n by (intro exI [of _ m']) auto
qed

section \<open>The end of the head\<close>

text \<open>Between two messages: nothing is collected, and the parser has been reset.\<close>

definition between :: "digest \<Rightarrow> bool" where
  "between m \<longleftrightarrow> dg_text m = (\<lambda>_. []) \<and> dg_headers m = [] \<and> dg_chunk m = []"

definition fresh :: "http_parser \<Rightarrow> bool" where
  "fresh C \<longleftrightarrow> calm C \<and> RESET_PARSER C = C \<and> \<not> hp_error C"

definition head_core :: "request_line \<Rightarrow> http_parser \<Rightarrow> http_parser" where
  "head_core r C = fold header_effect (rl_headers r)
     (C\<lparr>hp_method := the (map_of methods (rl_method r)), hp_version_major := 1, hp_version_minor := int (rl_minor r)\<rparr>)"

definition head_digest :: "request_line \<Rightarrow> digest \<Rightarrow> digest" where
  "head_digest r m = (add_uri r m)\<lparr>dg_headers := rl_headers r\<rparr>"

lemma effect_fields:
  "hp_content_length (fold header_effect hs C) = fold length_step hs (hp_content_length C)"
  "hp_keep_alive (fold header_effect hs C) = fold keep_alive_step hs (hp_keep_alive C)"
  "hp_transfer_encoding (fold header_effect hs C) = fold encoding_step hs (hp_transfer_encoding C)"
  "hp_method (fold header_effect hs C) = hp_method C" "hp_version_major (fold header_effect hs C) = hp_version_major C"
  "hp_version_minor (fold header_effect hs C) = hp_version_minor C" "RESET_PARSER (fold header_effect hs C) = RESET_PARSER C"
  "hp_chunk_size (fold header_effect hs C) = hp_chunk_size C" "hp_body_read (fold header_effect hs C) = hp_body_read C"
  by (induction hs arbitrary: C) (simp_all add: header_effect_def RESET_PARSER_def)

lemma fresh_fields:
  assumes "fresh C"
  shows "hp_content_length C = 0" "hp_keep_alive C = -1" "hp_transfer_encoding C = HTTP_IDENTITY" "hp_version_major C = 0" "hp_version_minor C = 0"
    "hp_chunk_size C = 0" "hp_mark C = Map.empty"
proof -
  have "RESET_PARSER C = C" using assms by (simp add: fresh_def)
  then show "hp_content_length C = 0" "hp_keep_alive C = -1" "hp_transfer_encoding C = HTTP_IDENTITY" "hp_version_major C = 0" "hp_version_minor C = 0"
    "hp_chunk_size C = 0" "hp_mark C = Map.empty"
    by (cases C; simp add: RESET_PARSER_def)+
qed

lemma head_core_facts:
  assumes "fresh C"
  shows "calm (head_core r C)" "RESET_PARSER (head_core r C) = C" "fields_of (head_core r C) = request_fields r"
    "hp_transfer_encoding (head_core r C) = pf_transfer_encoding (request_fields r)" "unat (hp_content_length (head_core r C)) = pf_content_length (request_fields r)"
    "hp_chunk_size (head_core r C) = 0"
proof -
  let ?D = "C\<lparr>hp_method := the (map_of methods (rl_method r)), hp_version_major := 1, hp_version_minor := int (rl_minor r)\<rparr>"
  have D: "calm ?D" "RESET_PARSER ?D = C" using assms by (simp_all add: fresh_def calm_def) (simp add: RESET_PARSER_def)
  then show "calm (head_core r C)" "RESET_PARSER (head_core r C) = C" by (simp_all add: head_core_def effect_fields)
  show "fields_of (head_core r C) = request_fields r" "hp_transfer_encoding (head_core r C) = pf_transfer_encoding (request_fields r)"
    "unat (hp_content_length (head_core r C)) = pf_content_length (request_fields r)" "hp_chunk_size (head_core r C) = 0"
    by (simp_all add: fields_of_def request_fields_def head_core_def effect_fields fresh_fields [OF assms])
qed

lemma head_digest_done:
  "between m \<Longrightarrow> absorb (OnMessageComplete (request_fields r)) (head_digest r m) = m\<lparr>dg_messages := dg_messages m @ [request_message r]\<rparr>"
  by (cases m) (auto simp: between_def head_digest_def add_uri_def add_text_def request_message_def fun_eq_iff)

lemma reads_head:
  assumes "request_ok r" and "fresh C" and "between m"
  shows "reads (butlast (request_text r)) m (pos PStart Map.empty C) (head_digest r m) (pos PEndCR Map.empty (head_core r C))"
proof -
  let ?D = "C\<lparr>hp_method := the (map_of methods (rl_method r)), hp_version_major := 1, hp_version_minor := int (rl_minor r)\<rparr>" and ?hs = "rl_headers r"
  have c: "calm C" "calm ?D" using assms(2) by (simp_all add: fresh_def calm_def)
  note line = reads_request_line [OF assms(1) c(1) fresh_fields(4,5) [OF assms(2)], of m]
  have "line_done False (add_uri r m) = add_uri r m" "dg_text (add_uri r m) FHeaderField = []" "dg_text (add_uri r m) FHeaderValue = []" "dg_headers (add_uri r m) = []"
    using assms(3) by (simp_all add: line_done_def add_uri_def add_text_def between_def)
  then obtain m' where hs: "reads (concat (map header_text ?hs)) (add_uri r m) (pos (PHeaders False) Map.empty ?D) m'
      (pos (PHeaders (?hs \<noteq> [])) Map.empty (head_core r C))" "line_done (?hs \<noteq> []) m' = head_digest r m"
    using reads_headers [of ?hs ?D False "add_uri r m"] assms(1) c(2) by (auto simp: request_ok_def head_core_def head_digest_def)
  have "\<not> token CHR 0x0D" by code_simp
  then have "reads [CHR 0x0D] m' (pos (PHeaders (?hs \<noteq> [])) Map.empty (head_core r C)) (head_digest r m) (pos PEndCR Map.empty (head_core r C))"
    using reads_char [of "PHeaders (?hs \<noteq> [])" "CHR 0x0D" "if ?hs \<noteq> [] then [HeaderLineComplete] else []" PEndCR Map.empty "head_core r C"
        "if ?hs \<noteq> [] then [OnHeaderLineComplete] else []" Map.empty "head_core r C" m'] head_core_facts(1) [OF assms(2)] hs(2)
    by (cases ?hs) (simp_all add: is_CR_def is_LF_def goto_def line_done_def)
  from reads_trans [OF line reads_trans [OF hs(1) this]] show ?thesis by (simp add: request_text_def CRLF_def butlast_append)
qed

text \<open>The blank line: the message ends here, or a body follows, whose first characters stay in the input, or its first chunk.\<close>

lemma request_text_split: "request_text r = butlast (request_text r) @ [CHR 0x0A]"
  by (simp add: request_text_def CRLF_def butlast_append)

lemma blank_line:
  assumes "calm C"
  shows "exec (CHR 0x0A # s) (pos PEndCR Map.empty C) =
    (if hp_transfer_encoding C = HTTP_CHUNKED then exec s (pos CStart Map.empty C)
     else if hp_content_length C > 0 then (s, [OnMessageComplete (fields_of C)], pos PAfter Map.empty (RESET_PARSER C), Broke)
     else case exec s (pos PStart Map.empty (RESET_PARSER C)) of (s', es, x) \<Rightarrow> (s', OnMessageComplete (fields_of C) # es, x))"
proof -
  have cs: "(pos st M D)\<lparr>hp_cs := tgt\<rparr> = pos tgt M D" "hp_cs (pos st M D) = st" "hp_type (pos st M D) = hp_type D" "fields_of (pos st M D) = fields_of D"
    "hp_transfer_encoding (pos st M D) = hp_transfer_encoding D" "hp_content_length (pos st M D) = hp_content_length D"
    "RESET_PARSER (pos st M D) = pos st Map.empty (RESET_PARSER D)" "advance x (pos st Map.empty D) = pos st Map.empty D" for st M tgt D x
    by (simp_all add: pos_def fields_of_def RESET_PARSER_def advance_def)
  have "hp_type C = HTTP_REQUEST" using assms by (simp add: calm_def)
  then show ?thesis by (auto simp: parse_round_def cs is_LF_def END_REQUEST_def Let_def split: prod.splits)
qed

lemma reads_exec: "reads a m p m1 p1 \<Longrightarrow> digested m (exec (a @ b) p) = digested m1 (exec b p1)"
proof -
  assume r: "reads a m p m1 p1"
  then obtain es where a: "exec a p = ([], es, p1, Ran)" "m1 = fold absorb es m" "\<not> hp_eating p" "\<not> hp_eating p1"
    by (auto simp: reads_def digested_def split: prod.splits)
  have "run b m1 p1 = digested m1 (exec b p1)" using a(4) by (simp add: run_def eat_chunk_def digested_def split: prod.splits)
  then show ?thesis using exec_pieces [OF a(1,3), of m b] a(2) by simp
qed

definition plain :: "request_line \<Rightarrow> bool" where
  "plain r \<longleftrightarrow> pf_transfer_encoding (request_fields r) \<noteq> HTTP_CHUNKED"

lemma exec_request:
  assumes "request_ok r" and "fresh C" and "between m"
  shows "digested m (exec (request_text r @ s) (pos PStart Map.empty C)) =
    (if \<not> plain r then digested (head_digest r m) (exec s (pos CStart Map.empty (head_core r C)))
     else let m' = m\<lparr>dg_messages := dg_messages m @ [request_message r]\<rparr>
          in if pf_content_length (request_fields r) > 0 then (s, m', pos PAfter Map.empty C, Broke)
             else digested m' (exec s (pos PStart Map.empty C)))"
proof -
  let ?C = "head_core r C"
  note f = head_core_facts [OF assms(2), of r]
  have "0 < hp_content_length ?C \<longleftrightarrow> 0 < pf_content_length (request_fields r)" using f(5) by (metis unat_gt_0 word_neq_0_conv gr0I less_irrefl)
  then have "exec (CHR 0x0A # s) (pos PEndCR Map.empty ?C) =
      (if \<not> plain r then exec s (pos CStart Map.empty ?C)
       else if pf_content_length (request_fields r) > 0 then (s, [OnMessageComplete (request_fields r)], pos PAfter Map.empty C, Broke)
       else case exec s (pos PStart Map.empty C) of (s', es, x) \<Rightarrow> (s', OnMessageComplete (request_fields r) # es, x))"
    using blank_line [OF f(1), of s] f(2-4) by (simp add: plain_def)
  moreover have "digested m (exec (request_text r @ s) (pos PStart Map.empty C)) = digested (head_digest r m) (exec (CHR 0x0A # s) (pos PEndCR Map.empty ?C))"
    using reads_exec [OF reads_head [OF assms], of "CHR 0x0A # s"] request_text_split [of r] by (metis append.assoc append_Cons append_Nil)
  ultimately show ?thesis using head_digest_done [OF assms(3), of r]
    by (auto simp: digested_def Let_def split: prod.splits)
qed

section \<open>Chunked bodies\<close>

definition hex_digit :: "nat \<Rightarrow> char" where
  "hex_digit d = ''0123456789abcdef'' ! d"

fun hex_text :: "nat \<Rightarrow> string" where
  "hex_text n = (if n < 16 then [hex_digit n] else hex_text (n div 16) @ [hex_digit (n mod 16)])"

declare hex_text.simps [simp del]

definition chunk_text :: "string \<Rightarrow> string" where
  "chunk_text c = hex_text (length c) @ CRLF @ c @ CRLF"

definition chunked_text :: "string list \<Rightarrow> string" where
  "chunked_text cs = concat (map chunk_text cs) @ ''0'' @ CRLF @ CRLF"

lemma hex_digit_facts: "d < 16 \<Longrightarrow> xdigit (hex_digit d) \<and> unhex (hex_digit d) = d \<and> (hex_digit d = CHR ''0'' \<longleftrightarrow> d = 0)"
proof -
  assume "d < 16"
  moreover have "list_all (\<lambda>d. xdigit (hex_digit d) \<and> unhex (hex_digit d) = d \<and> (hex_digit d = CHR ''0'' \<longleftrightarrow> d = 0)) [0..<16]" by code_simp
  ultimately show ?thesis by (simp add: list_all_iff)
qed

lemma run_AddToChunkSize:
  "run_action c AddToChunkSize (pos st M C) = ([], pos st M (C\<lparr>hp_chunk_size := hp_chunk_size C * 16 + word_of_nat (unhex c)\<rparr>), True)"
  by (simp add: pos_def)

lemma reads_hex:
  assumes "0 < n" and "calm C" and "hp_chunk_size C = 0"
  shows "reads (hex_text n) m (pos CStart Map.empty C) m (pos CSize Map.empty (C\<lparr>hp_chunk_size := word_of_nat n\<rparr>))"
  using assms(1)
proof (induction n rule: hex_text.induct)
  case (1 n)
  show ?case
  proof (cases "n < 16")
    case True
    note d = hex_digit_facts [OF True]
    have "transition HTTP_REQUEST CStart (hex_digit n) = ([AddToChunkSize], Advance, CSize)" using d "1.prems" by (simp add: goto_def)
    from reads_char [OF this, of Map.empty C "[]" Map.empty "C\<lparr>hp_chunk_size := word_of_nat n\<rparr>" m]
    show ?thesis using True d assms(2,3) by (simp add: hex_text.simps [of n] run_AddToChunkSize del: run_action.simps)
  next
    case False
    let ?C = "C\<lparr>hp_chunk_size := word_of_nat (n div 16)\<rparr>"
    note d = hex_digit_facts [of "n mod 16"]
    have "calm ?C" using assms(2) by (simp add: calm_def)
    moreover have "transition HTTP_REQUEST CSize (hex_digit (n mod 16)) = ([AddToChunkSize], Advance, CSize)" using d by (simp add: goto_def)
    moreover have "word_of_nat (n div 16) * 16 + word_of_nat (n mod 16) = (word_of_nat n :: 64 word)"
      by (metis div_mult_mod_eq of_nat_add of_nat_mult of_nat_numeral)
    ultimately have "reads [hex_digit (n mod 16)] m (pos CSize Map.empty ?C) m (pos CSize Map.empty (C\<lparr>hp_chunk_size := word_of_nat n\<rparr>))"
      using reads_char [of CSize "hex_digit (n mod 16)" "[AddToChunkSize]" CSize Map.empty ?C "[]" Map.empty "C\<lparr>hp_chunk_size := word_of_nat n\<rparr>" m] d
      by (simp add: run_AddToChunkSize del: run_action.simps)
    moreover have "reads (hex_text (n div 16)) m (pos CStart Map.empty C) m (pos CSize Map.empty ?C)" using "1.IH" False by simp
    ultimately show ?thesis using reads_trans False by (simp add: hex_text.simps [of n])
  qed
qed

lemma reads_line_end:
  assumes "transition HTTP_REQUEST st CHR 0x0D = goto [] cr" and "transition HTTP_REQUEST cr CHR 0x0A = goto [] lf" and "cr \<noteq> PError" and "lf \<noteq> PError" and "calm C"
  shows "reads CRLF m (pos st Map.empty C) m (pos lf Map.empty C)"
  using reads_Cons [OF reads_silent [OF assms(1,3,5)] reads_silent [OF assms(2,4,5)], of m Map.empty] by (simp add: CRLF_def)

lemma reads_chunk_data:
  assumes "c \<noteq> []" and "length c < 2 ^ 64" and "calm C" and "hp_chunk_size C = word_of_nat (length c)" and "hp_transfer_encoding C = HTTP_CHUNKED"
  shows "reads c m (pos CBody Map.empty C) (m\<lparr>dg_chunk := dg_chunk m @ c\<rparr>)
    (pos CEnd Map.empty (C\<lparr>hp_body_read := hp_body_read C + word_of_nat (length c), hp_chunk_size := 0\<rparr>))"
proof -
  obtain x s where c: "c = x # s" using assms(1) by (cases c) auto
  have n: "unat (hp_chunk_size C) = length c" using assms(2,4) by (simp add: unat_of_nat)
  have "\<not> hp_eating C" "hp_type C = HTTP_REQUEST" using assms(3) by (simp_all add: calm_def)
  then show ?thesis using n assms(4,5) c
    by (simp add: reads_def digested_def parse_round_def pos_def SKIP_CHUNK_DATA_def HTTP_CHUNKED_def HTTP_IDENTITY_def Let_def)
qed

text \<open>Inside a chunked body only the counter of the characters changes.\<close>

definition counted :: "string list \<Rightarrow> http_parser \<Rightarrow> http_parser" where
  "counted cs C = C\<lparr>hp_body_read := hp_body_read C + word_of_nat (length (concat cs))\<rparr>"

definition chunking :: "http_parser \<Rightarrow> bool" where
  "chunking C \<longleftrightarrow> calm C \<and> hp_chunk_size C = 0 \<and> hp_transfer_encoding C = HTTP_CHUNKED"

definition chunk_ok :: "string \<Rightarrow> bool" where
  "chunk_ok c \<longleftrightarrow> c \<noteq> [] \<and> length c < 2 ^ 64"

lemma reads_chunk:
  assumes "chunk_ok c" and "chunking C"
  shows "reads (chunk_text c) m (pos CStart Map.empty C) (m\<lparr>dg_chunk := dg_chunk m @ c\<rparr>) (pos CStart Map.empty (counted [c] C))"
proof -
  let ?C = "C\<lparr>hp_chunk_size := word_of_nat (length c)\<rparr>" and ?m = "m\<lparr>dg_chunk := dg_chunk m @ c\<rparr>"
  have c: "calm C" "calm ?C" "calm (counted [c] C)" "0 < length c" using assms by (simp_all add: chunking_def calm_def counted_def chunk_ok_def)
  have "transition HTTP_REQUEST CSize CHR 0x0D = goto [] (CExtCR False)" "transition HTTP_REQUEST (CExtCR False) CHR 0x0A = goto [] CBody" by code_simp+
  from reads_line_end [OF this _ _ c(2)] have a: "reads CRLF m (pos CSize Map.empty ?C) m (pos CBody Map.empty ?C)" by simp
  have "?C\<lparr>hp_body_read := hp_body_read ?C + word_of_nat (length c), hp_chunk_size := 0\<rparr> = counted [c] C"
    using assms(2) by (cases C) (simp add: counted_def chunking_def)
  then have b: "reads c m (pos CBody Map.empty ?C) ?m (pos CEnd Map.empty (counted [c] C))"
    using reads_chunk_data [of c ?C m] assms c(2) by (simp add: chunk_ok_def chunking_def)
  have "transition HTTP_REQUEST CEnd CHR 0x0D = goto [] CEndCR" "transition HTTP_REQUEST CEndCR CHR 0x0A = goto [] CStart" by code_simp+
  from reads_line_end [OF this _ _ c(3), of ?m]
  have e: "reads CRLF ?m (pos CEnd Map.empty (counted [c] C)) ?m (pos CStart Map.empty (counted [c] C))" by simp
  have h: "reads (hex_text (length c)) m (pos CStart Map.empty C) m (pos CSize Map.empty ?C)" using reads_hex [OF c(4,1)] assms(2) by (simp add: chunking_def)
  from reads_trans [OF h reads_trans [OF a reads_trans [OF b e]]] show ?thesis by (simp add: chunk_text_def)
qed

lemma chunking_counted [simp]: "chunking (counted cs C) = chunking C" "RESET_PARSER (counted cs C) = RESET_PARSER C" "fields_of (counted cs C) = fields_of C"
    "counted cs' (counted cs C) = counted (cs @ cs') C" "counted [] C = C"
  by (simp_all add: chunking_def counted_def calm_def fields_of_def RESET_PARSER_def add.assoc)

lemma reads_chunks:
  assumes "list_all chunk_ok cs" and "chunking C"
  shows "reads (concat (map chunk_text cs)) m (pos CStart Map.empty C) (m\<lparr>dg_chunk := dg_chunk m @ concat cs\<rparr>) (pos CStart Map.empty (counted cs C))"
  using assms
proof (induction cs arbitrary: C m)
  case Nil
  then show ?case using reads_Nil [of C m CStart Map.empty] by (simp add: chunking_def)
next
  case (Cons c cs)
  have "reads (chunk_text c) m (pos CStart Map.empty C) (m\<lparr>dg_chunk := dg_chunk m @ c\<rparr>) (pos CStart Map.empty (counted [c] C))"
    using Cons.prems by (intro reads_chunk) simp_all
  from reads_trans [OF this Cons.IH [of "counted [c] C"]] Cons.prems show ?case by simp
qed

lemma exec_last_chunk:
  assumes "chunking C"
  shows "digested m (exec (''0'' @ CRLF @ CRLF @ s) (pos CStart Map.empty C)) =
    digested (absorb (OnMessageComplete (fields_of C)) m) (exec s (pos PStart Map.empty (RESET_PARSER C)))"
proof -
  have c: "calm C" using assms by (simp add: chunking_def)
  have z: "pos st M (C\<lparr>hp_chunk_size := 0\<rparr>) = pos st M C" for st M using assms by (cases C) (simp add: chunking_def)
  have "transition HTTP_REQUEST CStart CHR ''0'' = ([AddToChunkSize], Advance, CZeros)" "unhex CHR ''0'' = 0" by code_simp+
  with reads_char [OF this(1), of Map.empty C "[]" Map.empty C m] assms c z
  have a: "reads ''0'' m (pos CStart Map.empty C) m (pos CZeros Map.empty C)" by (simp add: run_AddToChunkSize chunking_def del: run_action.simps)
  have "transition HTTP_REQUEST CZeros CHR 0x0D = goto [] (CExtCR True)" "transition HTTP_REQUEST (CExtCR True) CHR 0x0A = goto [] CTrailer" by code_simp+
  from reads_line_end [OF this _ _ c] have b: "reads CRLF m (pos CZeros Map.empty C) m (pos CTrailer Map.empty C)" by simp
  have "transition HTTP_REQUEST CTrailer CHR 0x0D = goto [] CLastCR" by code_simp
  from reads_silent [OF this _ c, of m Map.empty] have d: "reads [CHR 0x0D] m (pos CTrailer Map.empty C) m (pos CLastCR Map.empty C)" by simp
  have cs: "(pos st M D)\<lparr>hp_cs := tgt\<rparr> = pos tgt M D" "hp_cs (pos st M D) = st" "hp_type (pos st M D) = hp_type D" "fields_of (pos st M D) = fields_of D"
    "RESET_PARSER (pos st M D) = pos st Map.empty (RESET_PARSER D)" "advance x (pos st Map.empty D) = pos st Map.empty D" for st M tgt D x
    by (simp_all add: pos_def fields_of_def RESET_PARSER_def advance_def)
  have "digested m (exec (CHR 0x0A # s) (pos CLastCR Map.empty C)) =
      digested (absorb (OnMessageComplete (fields_of C)) m) (exec s (pos PStart Map.empty (RESET_PARSER C)))"
    using c by (simp add: calm_def parse_round_def cs is_LF_def END_REQUEST_def digested_def split: prod.splits)
  then show ?thesis using reads_exec [OF reads_trans [OF a reads_trans [OF b d]], of "CHR 0x0A # s"] by (simp add: CRLF_def)
qed

lemma exec_chunked:
  assumes "request_ok r" and "\<not> plain r" and "list_all chunk_ok cs" and "fresh C" and "between m"
  shows "digested m (exec (request_text r @ chunked_text cs @ s) (pos PStart Map.empty C)) =
    digested (m\<lparr>dg_messages := dg_messages m @ [(request_message r)\<lparr>msg_chunk := concat cs\<rparr>]\<rparr>) (exec s (pos PStart Map.empty C))"
proof -
  let ?C = "head_core r C" and ?m = "(head_digest r m)\<lparr>dg_chunk := concat cs\<rparr>"
  note f = head_core_facts [OF assms(4), of r]
  have ch: "chunking ?C" using f assms(2) by (simp add: chunking_def plain_def)
  have "dg_chunk (head_digest r m) = []" using assms(5) by (simp add: head_digest_def add_uri_def add_text_def between_def)
  then have r: "reads (concat (map chunk_text cs)) (head_digest r m) (pos CStart Map.empty ?C) ?m (pos CStart Map.empty (counted cs ?C))"
    using reads_chunks [OF assms(3) ch, of "head_digest r m"] by simp
  have "absorb (OnMessageComplete (request_fields r)) ?m = m\<lparr>dg_messages := dg_messages m @ [(request_message r)\<lparr>msg_chunk := concat cs\<rparr>]\<rparr>"
    using assms(5) by (cases m) (auto simp: between_def head_digest_def add_uri_def add_text_def request_message_def fun_eq_iff)
  then show ?thesis
    using exec_request [OF assms(1,4,5), of "chunked_text cs @ s"] assms(2) reads_exec [OF r, of "''0'' @ CRLF @ CRLF @ s"]
      exec_last_chunk [of "counted cs ?C" ?m s] ch f(2,3) by (simp add: chunked_text_def)
qed

section \<open>Requests one behind the other\<close>

text \<open>A parser between two messages; a message is a request with the chunks of its body, which are written if the header says so.\<close>

definition ready :: "http_parser \<Rightarrow> bool" where
  "ready p \<longleftrightarrow> fresh p \<and> hp_cs p \<in> {PMain, PStart, PAfter} \<and> hp_size p = (\<lambda>_. 0)"

type_synonym sent = "request_line \<times> string list"

definition message_text :: "sent \<Rightarrow> string" where
  "message_text x = request_text (fst x) @ (if plain (fst x) then [] else chunked_text (snd x))"

definition message_of :: "sent \<Rightarrow> message" where
  "message_of x = (if plain (fst x) then request_message (fst x) else (request_message (fst x))\<lparr>msg_chunk := concat (snd x)\<rparr>)"

definition sent_ok :: "sent \<Rightarrow> bool" where
  "sent_ok x \<longleftrightarrow> request_ok (fst x) \<and> list_all chunk_ok (snd x) \<and> (plain (fst x) \<longrightarrow> pf_content_length (request_fields (fst x)) = 0)"

lemma exec_sent:
  assumes "sent_ok x" and "fresh C" and "between m"
  shows "digested m (exec (message_text x @ s) (pos PStart Map.empty C)) =
    digested (m\<lparr>dg_messages := dg_messages m @ [message_of x]\<rparr>) (exec s (pos PStart Map.empty C))"
proof (cases "plain (fst x)")
  case True
  then show ?thesis using exec_request [of "fst x" C m s] assms by (simp add: sent_ok_def message_text_def message_of_def)
next
  case False
  then show ?thesis using exec_chunked [of "fst x" "snd x" C m s] assms by (simp add: sent_ok_def message_text_def message_of_def)
qed

lemma exec_all_sent:
  assumes "list_all sent_ok xs" and "fresh C" and "between m"
  shows "digested m (exec (concat (map message_text xs) @ s) (pos PStart Map.empty C)) =
    digested (m\<lparr>dg_messages := dg_messages m @ map message_of xs\<rparr>) (exec s (pos PStart Map.empty C))"
  using assms
proof (induction xs arbitrary: m)
  case (Cons x xs)
  let ?m = "m\<lparr>dg_messages := dg_messages m @ [message_of x]\<rparr>"
  have "between ?m" using Cons.prems(3) by (simp add: between_def)
  then show ?case using Cons exec_sent [of x C m "concat (map message_text xs) @ s"] by simp
qed simp

text \<open>All states between two messages read alike.\<close>

lemma start_alike:
  assumes "fresh C" and "st \<in> {PMain, PStart, PAfter}"
  shows "exec (c # s) (pos st Map.empty C) = exec (c # s) (pos PStart Map.empty C)"
proof -
  have cs: "(pos st N D)\<lparr>hp_cs := tgt\<rparr> = pos tgt N D" "hp_cs (pos st N D) = st" "hp_type (pos st N D) = hp_type D" for st N tgt D
    by (simp_all add: pos_def)
  have "hp_type C = HTTP_REQUEST" using assms(1) by (simp add: fresh_def calm_def)
  moreover have "exec (c # s) (pos PMain Map.empty C) = exec (c # s) (pos PStart Map.empty C)"
    by (subst exec.simps) (simp add: parse_round_def cs calculation)
  moreover have "parse_round c s (pos PAfter Map.empty C) = parse_round c s (pos PStart Map.empty C)"
    by (simp add: parse_round_def cs split: prod.splits)
  ultimately show ?thesis using assms(2) by auto
qed

lemma ready_pos: "ready p \<Longrightarrow> p = pos (hp_cs p) Map.empty p"
  using fresh_fields(7) [of p] by (cases p) (simp add: ready_def pos_def)

lemma pos_ready: "fresh C \<Longrightarrow> st \<in> {PMain, PStart, PAfter} \<Longrightarrow> ready (pos st Map.empty C)"
proof -
  assume C: "fresh C" and st: "st \<in> {PMain, PStart, PAfter}"
  have "RESET_PARSER (pos st Map.empty C) = pos st Map.empty (RESET_PARSER C)" by (simp add: pos_def RESET_PARSER_def)
  then have "fresh (pos st Map.empty C)" using C unfolding fresh_def by (simp add: calm_def) (simp add: pos_def)
  then show ?thesis using st by (simp add: ready_def) (simp add: pos_def)
qed

lemma ready_ok: "ready p \<Longrightarrow> parser_ok p \<and> \<not> parser_has_error p \<and> \<not> hp_eating p \<and> resume p = p \<and> flush_fields all_fields p = ([], p, True)"
proof -
  assume r: "ready p"
  then have m: "hp_mark p = Map.empty" using fresh_fields(7) by (simp add: ready_def)
  then have "resume p = p" by (cases p) (simp add: resume_def rebase_marks_def)
  then show ?thesis using r m by (auto simp: parser_ok_def marks_ok_def ready_def fresh_def calm_def parser_has_error_def all_fields_def CALLBACK_def)
qed

lemma execute_ready:
  assumes "ready p" and "digested m (exec s p) = (rest, m', p', oc)" and "ready p'" and "oc \<noteq> Aborted"
  shows "\<exists>es. execute p s = (length s - length rest, es, p') \<and> fold absorb es m = m'"
proof -
  obtain es where x: "exec s p = (rest, es, p', oc)" "m' = fold absorb es m" using assms(2) by (auto simp: digested_def split: prod.splits)
  have "rebase_marks [] p = p" using ready_ok [OF assms(1)] by (simp add: resume_def)
  then show ?thesis using x ready_ok [OF assms(1)] ready_ok [OF assms(3)] assms(4) by (simp add: execute_def eat_chunk_def)
qed

lemma execute_all_sent:
  assumes "ready p" and "list_all sent_ok xs" and "between m"
  shows "\<exists>es p'. execute p (concat (map message_text xs)) = (length (concat (map message_text xs)), es, p') \<and> ready p' \<and>
    fold absorb es m = m\<lparr>dg_messages := dg_messages m @ map message_of xs\<rparr>"
proof (cases "concat (map message_text xs)")
  case Nil
  have "map message_of xs = []" using Nil by (cases xs) (auto simp: message_text_def request_text_def)
  then show ?thesis using execute_ready [OF assms(1), of m "[]" "[]" m p Ran] assms(1) Nil by (auto simp: digested_def)
next
  case (Cons c s)
  have f: "fresh p" "hp_cs p \<in> {PMain, PStart, PAfter}" using assms(1) by (simp_all add: ready_def)
  have "digested m (exec (c # s) p) = ([], m\<lparr>dg_messages := dg_messages m @ map message_of xs\<rparr>, pos PStart Map.empty p, Ran)"
    using exec_all_sent [OF assms(2) f(1) assms(3), of "[]"] start_alike [OF f, of c s] ready_pos [OF assms(1)] Cons by (simp add: digested_def)
  from execute_ready [OF assms(1) this pos_ready [OF f(1)]] show ?thesis using pos_ready [OF f(1), of PStart] Cons by auto
qed

text \<open>In front of a body that is not chunked the parser stops.\<close>

lemma execute_with_body:
  assumes "ready p" and "list_all sent_ok xs" and "request_ok r" and "plain r" and "pf_content_length (request_fields r) > 0" and "between m"
    and "s = concat (map message_text xs) @ request_text r"
  shows "\<exists>es p'. execute p (s @ body) = (length s, es, p') \<and> ready p' \<and>
    fold absorb es m = m\<lparr>dg_messages := dg_messages m @ map message_of xs @ [request_message r]\<rparr>"
proof -
  have f: "fresh p" "hp_cs p \<in> {PMain, PStart, PAfter}" using assms(1) by (simp_all add: ready_def)
  let ?m = "m\<lparr>dg_messages := dg_messages m @ map message_of xs\<rparr>"
  obtain c t where s: "s @ body = c # t" using assms(7) by (cases "s @ body") (auto simp: request_text_def)
  have "between ?m" using assms(6) by (simp add: between_def)
  from exec_request [OF assms(3) f(1) this, of body] assms(4,5)
  have "digested ?m (exec (request_text r @ body) (pos PStart Map.empty p)) =
      (body, m\<lparr>dg_messages := dg_messages m @ map message_of xs @ [request_message r]\<rparr>, pos PAfter Map.empty p, Broke)" by simp
  then have "digested m (exec (s @ body) p) = (body, m\<lparr>dg_messages := dg_messages m @ map message_of xs @ [request_message r]\<rparr>, pos PAfter Map.empty p, Broke)"
    using exec_all_sent [OF assms(2) f(1) assms(6), of "request_text r @ body"] start_alike [OF f, of c t] ready_pos [OF assms(1)] s assms(7) by simp
  from execute_ready [OF assms(1) this pos_ready [OF f(1)]] show ?thesis using pos_ready [OF f(1), of PAfter] by auto
qed

end
