(* ===== verification/Fcgi_Content.thy ===== *)
theory Fcgi_Content
  imports Fcgi_Completion Http_Request_Text
begin

text \<open>
  The parser of a FastCGI reply's header lines, \<^verbatim>\<open>src/modules/mod_fcgi/fcgi_content_parser.rl\<close>: the automaton its grammar denotes, with the actions on its transitions,
  and the function \<open>parse\<close> around it.  The characters of names are those of \<open>Http_Parser\<close>, whose grammar has the same definitions.  A mark is the text between it and
  the current position; \<open>None\<close> is the end of the process in \<open>std::string::insert\<close>, which \<open>push_value\<close> calls with a null pointer when a value is empty.

  \<open>lines_parse\<close> is the abstract parser, which appends every character at once and has no marks; the real one refines it.
\<close>

section \<open>The automaton\<close>

datatype cstate = HStart bool | HName | HSep | HValue | HCR | HEndCR | HDone | HError

datatype content_action = MarkName | DoneName | MarkValue | DoneValue | EndHeader | DoneHeaders

text \<open>The flag tells whether a header line has just ended.\<close>

fun content_transition :: "cstate \<Rightarrow> char \<Rightarrow> content_action list \<times> cstate" where
  "content_transition (HStart after) c =
    (let acts = (if after then [EndHeader] else [])
     in if token c then (acts @ [MarkName], HName)
        else if is_CR c then (acts, HEndCR)
        else if is_LF c then (acts @ [DoneHeaders], HDone) else ([], HError))"
| "content_transition HName c = (if token c then ([], HName) else if c = CHR '':'' then ([DoneName], HSep) else ([], HError))"
| "content_transition HSep c =
    (if c = CHR '' '' then ([], HSep) else if is_CR c then ([DoneValue], HCR)
     else if is_LF c then ([DoneValue], HStart True) else ([MarkValue], HValue))"
| "content_transition HValue c =
    (if is_CR c then ([DoneValue], HCR) else if is_LF c then ([DoneValue], HStart True) else ([], HValue))"
| "content_transition HCR c = (if is_LF c then ([], HStart True) else ([], HError))"
| "content_transition HEndCR c = (if is_LF c then ([DoneHeaders], HDone) else ([], HError))"
| "content_transition HDone c = ([], HError)"
| "content_transition HError c = ([], HError)"

record content_machine =
  cm_cs :: cstate
  cm_name :: "string option"
  cm_value :: "string option"

definition init_parser :: content_machine where
  "init_parser = \<lparr>cm_cs = HStart False, cm_name = None, cm_value = None\<rparr>"

fun content_act :: "content_action \<Rightarrow> content_machine \<Rightarrow> (content_event list \<times> content_machine) option" where
  "content_act MarkName m = Some ([], m\<lparr>cm_name := Some []\<rparr>)"
| "content_act DoneName m = (case cm_name m of None \<Rightarrow> None | Some s \<Rightarrow> Some ([PushName s], m\<lparr>cm_name := None\<rparr>))"
| "content_act MarkValue m = Some ([], m\<lparr>cm_value := Some []\<rparr>)"
| "content_act DoneValue m = (case cm_value m of None \<Rightarrow> None | Some s \<Rightarrow> Some ([PushValue s], m\<lparr>cm_value := None\<rparr>))"
| "content_act EndHeader m = Some ([PushHeader], m)"
| "content_act DoneHeaders m = Some ([DoneParse], m)"

fun content_acts :: "content_action list \<Rightarrow> content_machine \<Rightarrow> (content_event list \<times> content_machine) option" where
  "content_acts [] m = Some ([], m)"
| "content_acts (a # acts) m =
    (case content_act a m of
       None \<Rightarrow> None
     | Some (es, m1) \<Rightarrow> map_option (\<lambda>(es', m2). (es @ es', m2)) (content_acts acts m1))"

definition content_advance :: "char \<Rightarrow> content_machine \<Rightarrow> content_machine" where
  "content_advance c m = m\<lparr>cm_name := map_option (\<lambda>s. s @ [c]) (cm_name m), cm_value := map_option (\<lambda>s. s @ [c]) (cm_value m)\<rparr>"

text \<open>The loop: what is left of the input, the callbacks, and the machine.\<close>

fun content_exec :: "string \<Rightarrow> content_machine \<Rightarrow> (string \<times> content_event list \<times> content_machine) option" where
  "content_exec [] m = Some ([], [], m)"
| "content_exec (c # s) m =
    (let (acts, tgt) = content_transition (cm_cs m) c
     in if tgt = HError then Some (c # s, [], m\<lparr>cm_cs := HError\<rparr>)
        else case content_acts acts (m\<lparr>cm_cs := tgt\<rparr>) of
               None \<Rightarrow> None
             | Some (es, m1) \<Rightarrow> map_option (\<lambda>(r, es', m2). (r, es @ es', m2)) (content_exec s (content_advance c m1)))"

text \<open>\<open>parse\<close>: marks that are set point to the start of the buffer, and the text behind them is passed on at the end.\<close>

definition content_rebase :: "content_machine \<Rightarrow> content_machine" where
  "content_rebase m = m\<lparr>cm_name := map_option (\<lambda>_. []) (cm_name m), cm_value := map_option (\<lambda>_. []) (cm_value m)\<rparr>"

definition content_flush :: "content_machine \<Rightarrow> content_event list" where
  "content_flush m = (case cm_name m of None \<Rightarrow> [] | Some s \<Rightarrow> [PushName s]) @ (case cm_value m of None \<Rightarrow> [] | Some s \<Rightarrow> [PushValue s])"

definition content_execute :: "content_machine \<Rightarrow> string \<Rightarrow> (nat \<times> content_event list \<times> content_machine) option" where
  "content_execute m s =
    map_option (\<lambda>(r, es, m1). (length s - length r, es @ content_flush m1, m1)) (content_exec s (content_rebase m))"

definition fcgi_lib :: "content_machine content_lib" where
  "fcgi_lib = \<lparr>cl_start = init_parser, cl_exec = (\<lambda>m bs. content_execute m (text_of_bytes bs)), cl_error = (\<lambda>m. cm_cs m = HError)\<rparr>"

section \<open>The abstract parser\<close>

definition lines_effect :: "content_action list \<Rightarrow> 'p content_parser \<Rightarrow> 'p content_parser" where
  "lines_effect acts p = fold (\<lambda>a. case a of EndHeader \<Rightarrow> push_header | DoneHeaders \<Rightarrow> done_parse | _ \<Rightarrow> id) acts p"

text \<open>One character behind \<open>acts\<close> in the state \<open>tgt\<close>.\<close>

definition lines_add :: "char \<Rightarrow> content_action list \<Rightarrow> cstate \<Rightarrow> cstate content_parser \<Rightarrow> cstate content_parser" where
  "lines_add c acts tgt p =
    (let p1 = lines_effect acts p;
         p2 = (if tgt = HName then push_name [c] p1 else if tgt = HValue then push_value [c] p1 else p1)
     in p2\<lparr>cp_state := tgt\<rparr>)"

fun lines_parse :: "string \<Rightarrow> cstate content_parser \<Rightarrow> (nat \<times> cstate content_parser) option" where
  "lines_parse [] p = Some (0, p)"
| "lines_parse (c # s) p =
    (let (acts, tgt) = content_transition (cp_state p) c
     in if tgt = HError then Some (0, p\<lparr>cp_state := HError\<rparr>)
        else if DoneValue \<in> set acts \<and> cp_state p = HSep then None
        else map_option (\<lambda>(k, p'). (Suc k, p')) (lines_parse s (lines_add c acts tgt p)))"

section \<open>Refinement\<close>

text \<open>What parser and machine stand for: the text behind a mark already belongs to the header line.\<close>

definition mark_of :: "string option \<Rightarrow> string" where
  "mark_of x = (case x of None \<Rightarrow> [] | Some s \<Rightarrow> s)"

definition seen :: "content_machine \<Rightarrow> 'p content_parser \<Rightarrow> cstate content_parser" where
  "seen m p = \<lparr>cp_state = cm_cs m, cp_done = cp_done p, cp_streaming = cp_streaming p, cp_status_text = cp_status_text p,
     cp_header_line = (fst (cp_header_line p) @ mark_of (cm_name m), snd (cp_header_line p) @ mark_of (cm_value m)), cp_headers = cp_headers p\<rparr>"

definition abstract :: "content_machine content_parser \<Rightarrow> cstate content_parser" where
  "abstract p = seen (content_rebase (cp_state p)) p"

definition machine_ok :: "content_machine \<Rightarrow> bool" where
  "machine_ok m \<longleftrightarrow> cm_cs m = HError \<or> (cm_name m \<noteq> None) = (cm_cs m = HName) \<and> (cm_value m \<noteq> None) = (cm_cs m = HValue)"

lemma content_acts_step:
  assumes "machine_ok m" and "content_transition (cm_cs m) c = (acts, tgt)" and "tgt \<noteq> HError"
  shows "case content_acts acts (m\<lparr>cm_cs := tgt\<rparr>) of
      None \<Rightarrow> DoneValue \<in> set acts \<and> cm_cs m = HSep
    | Some (es, m1) \<Rightarrow> \<not> (DoneValue \<in> set acts \<and> cm_cs m = HSep) \<and> machine_ok (content_advance c m1) \<and>
        seen (content_advance c m1) (fold run_event es p) = lines_add c acts tgt (seen m p)"
proof (cases "cm_cs m")
  case (HStart after)
  then have "cm_name m = None" "cm_value m = None" using assms(1) by (auto simp: machine_ok_def)
  then show ?thesis using assms(2,3) HStart
    by (cases after)
      (auto simp: machine_ok_def content_advance_def seen_def mark_of_def lines_add_def lines_effect_def push_name_def push_header_def done_parse_def Let_def
        split: if_splits prod.splits)
next
  case HName
  then obtain s where "cm_name m = Some s" "cm_value m = None" using assms(1) by (auto simp: machine_ok_def)
  then show ?thesis using assms(2,3) HName
    by (auto simp: machine_ok_def content_advance_def seen_def mark_of_def lines_add_def lines_effect_def push_name_def Let_def split: if_splits)
next
  case HSep
  then have "cm_name m = None" "cm_value m = None" using assms(1) by (auto simp: machine_ok_def)
  then show ?thesis using assms(2,3) HSep
    by (auto simp: machine_ok_def content_advance_def seen_def mark_of_def lines_add_def lines_effect_def push_value_def Let_def split: if_splits)
next
  case HValue
  then obtain s where "cm_value m = Some s" "cm_name m = None" using assms(1) by (auto simp: machine_ok_def)
  then show ?thesis using assms(2,3) HValue
    by (auto simp: machine_ok_def content_advance_def seen_def mark_of_def lines_add_def lines_effect_def push_value_def Let_def split: if_splits)
qed (use assms in \<open>auto simp: machine_ok_def content_advance_def seen_def mark_of_def lines_add_def lines_effect_def done_parse_def Let_def split: if_splits\<close>)

lemma content_exec_refines:
  assumes "machine_ok m"
  shows "map_option (\<lambda>(r, es, m1). (length s - length r, seen m1 (fold run_event es p))) (content_exec s m) = lines_parse s (seen m p)
    \<and> (\<forall>r es m1. content_exec s m = Some (r, es, m1) \<longrightarrow> machine_ok m1 \<and> length r \<le> length s)"
  using assms
proof (induction s arbitrary: m p)
  case (Cons c s)
  obtain acts tgt where t: "content_transition (cm_cs m) c = (acts, tgt)" by (rule prod.exhaust)
  have st: "cp_state (seen m p) = cm_cs m" by (simp add: seen_def)
  show ?case
  proof (cases "tgt = HError")
    case True
    then show ?thesis using t st by (simp add: machine_ok_def) (simp add: seen_def)
  next
    case False
    note step = content_acts_step [OF Cons.prems t False, of p]
    show ?thesis
    proof (cases "content_acts acts (m\<lparr>cm_cs := tgt\<rparr>)")
      case None
      then show ?thesis using step t st False by simp
    next
      case (Some x)
      obtain es m1 where x: "x = (es, m1)" by (rule prod.exhaust)
      have s1: "\<not> (DoneValue \<in> set acts \<and> cm_cs m = HSep)" "machine_ok (content_advance c m1)"
          "seen (content_advance c m1) (fold run_event es p) = lines_add c acts tgt (seen m p)" using step Some x by simp_all
      note IH = Cons.IH [OF s1(2), of "fold run_event es p"]
      obtain ex where ex: "content_exec s (content_advance c m1) = ex" by blast
      have a: "lines_parse s (lines_add c acts tgt (seen m p)) = map_option (\<lambda>(r, es', m2). (length s - length r, seen m2 (fold run_event es' (fold run_event es p)))) ex"
        using IH s1(3) ex by simp
      have b: "machine_ok m2 \<and> length r \<le> length s" if "ex = Some (r, es', m2)" for r es' m2 using IH ex that by blast
      have "content_exec (c # s) m = map_option (\<lambda>(r, es', m2). (r, es @ es', m2)) ex" using t False Some x ex by simp
      moreover have "lines_parse (c # s) (seen m p) = map_option (\<lambda>(k, p'). (Suc k, p')) (lines_parse s (lines_add c acts tgt (seen m p)))"
        using t st False s1(1) by auto
      ultimately show ?thesis using a b by (cases ex) (auto simp: Suc_diff_le)
    qed
  qed
qed simp

lemma flush_seen: "abstract ((fold run_event (content_flush m) p)\<lparr>cp_state := m\<rparr>) = seen m p"
  by (auto simp: content_flush_def abstract_def content_rebase_def seen_def mark_of_def push_name_def push_value_def split: option.splits)

lemma content_parse_refines:
  assumes "machine_ok (cp_state p)"
  shows "map_option (\<lambda>(k, p'). (k, abstract p')) (content_parse fcgi_lib bs p) = lines_parse (text_of_bytes bs) (abstract p)"
    "content_parse fcgi_lib bs p = Some (k, p') \<Longrightarrow> machine_ok (cp_state p') \<and> k \<le> length bs"
proof -
  let ?m = "content_rebase (cp_state p)" and ?s = "text_of_bytes bs"
  have ok: "machine_ok ?m" using assms by (auto simp: machine_ok_def content_rebase_def)
  note ref = content_exec_refines [OF ok, of ?s p]
  have parse: "content_parse fcgi_lib bs p = map_option (\<lambda>(r, es, m1). (length ?s - length r, (fold run_event (es @ content_flush m1) p)\<lparr>cp_state := m1\<rparr>)) (content_exec ?s ?m)"
    by (cases "content_exec ?s ?m") (auto simp: content_parse_def fcgi_lib_def content_execute_def)
  show "map_option (\<lambda>(k, p'). (k, abstract p')) (content_parse fcgi_lib bs p) = lines_parse ?s (abstract p)"
    unfolding parse abstract_def [of p] using ref [THEN conjunct1, symmetric] flush_seen
    by (cases "content_exec ?s ?m") auto
  show "machine_ok (cp_state p') \<and> k \<le> length bs" if "content_parse fcgi_lib bs p = Some (k, p')"
    using that ref [THEN conjunct2] unfolding parse by auto
qed

section \<open>Pieces\<close>

lemma lines_append:
  assumes "lines_parse a p = Some (k, p1)"
  shows "lines_parse (a @ b) p = (if k = length a then map_option (\<lambda>(j, q). (k + j, q)) (lines_parse b p1) else Some (k, p1)) \<and>
    k \<le> length a \<and> (k < length a \<longrightarrow> cp_state p1 = HError) \<and> (k = length a \<and> cp_state p \<noteq> HError \<longrightarrow> cp_state p1 \<noteq> HError)"
  using assms
proof (induction a arbitrary: p k)
  case Nil
  then show ?case by (cases "lines_parse b p1") auto
next
  case (Cons c a)
  obtain acts tgt where t: "content_transition (cp_state p) c = (acts, tgt)" by (rule prod.exhaust)
  show ?case
  proof (cases "tgt = HError")
    case True
    then show ?thesis using Cons.prems t by auto
  next
    case False
    then have nv: "\<not> (DoneValue \<in> set acts \<and> cp_state p = HSep)" using Cons.prems t by (auto split: if_splits)
    let ?p = "lines_add c acts tgt p"
    obtain j where j: "lines_parse a ?p = Some (j, p1)" "k = Suc j" using Cons.prems t False nv by (auto split: if_splits)
    have st: "cp_state ?p \<noteq> HError" using False by (simp add: lines_add_def Let_def)
    have "lines_parse ((c # a) @ b) p = map_option (\<lambda>(k, p'). (Suc k, p')) (lines_parse (a @ b) ?p)" using t False nv by auto
    then show ?thesis using Cons.IH [OF j(1)] j(2) st by (cases "lines_parse b p1") auto
  qed
qed

lemma lines_prefix: "lines_parse (a @ b) p \<noteq> None \<Longrightarrow> lines_parse a p \<noteq> None"
proof (induction a arbitrary: p)
  case (Cons c a)
  obtain acts tgt where t: "content_transition (cp_state p) c = (acts, tgt)" by (rule prod.exhaust)
  let ?crash = "DoneValue \<in> set acts \<and> cp_state p = HSep" and ?p = "lines_add c acts tgt p"
  show ?case
  proof (cases "tgt = HError")
    case True
    then show ?thesis using t by simp
  next
    case False
    have go: "lines_parse (c # s) p = (if ?crash then None else map_option (\<lambda>(k, p'). (Suc k, p')) (lines_parse s ?p))" for s
      using t False by auto
    have "lines_parse (a @ b) ?p \<noteq> None \<and> \<not> ?crash" using Cons.prems unfolding append_Cons go by (auto split: if_splits)
    then show ?thesis using Cons.IH [of ?p] unfolding go by auto
  qed
qed simp

text \<open>When the header lines end, the automaton does not go on.\<close>

lemma lines_done:
  assumes "lines_parse a p = Some (k, p1)" and "cp_done p \<Longrightarrow> cp_state p \<in> {HDone, HError}"
  shows "cp_done p1 \<Longrightarrow> cp_state p1 \<in> {HDone, HError}"
  using assms
proof (induction a arbitrary: p k)
  case (Cons c a)
  obtain acts tgt where t: "content_transition (cp_state p) c = (acts, tgt)" by (rule prod.exhaust)
  show ?case
  proof (cases "tgt = HError")
    case True
    then show ?thesis using Cons.prems t by auto
  next
    case False
    have "cp_done (lines_add c acts tgt p) \<Longrightarrow> cp_state (lines_add c acts tgt p) \<in> {HDone, HError}"
      using Cons.prems(3) t False
      by (cases "cp_state p")
        (auto simp: lines_add_def lines_effect_def push_name_def push_value_def push_header_def done_parse_def Let_def split: if_splits prod.splits)
    then show ?thesis using Cons.IH [of "lines_add c acts tgt p"] Cons.prems(1,2) t False by (auto split: if_splits)
  qed
qed simp

lemma lines_stop: "cp_state p \<in> {HDone, HError} \<Longrightarrow> \<exists>st. lines_parse s p = Some (0, p\<lparr>cp_state := st\<rparr>)"
  by (cases s) (auto intro: exI [of _ "cp_state p"])

lemma pieces_parsed:
  assumes "machine_ok (cp_state p)" and "cm_cs (cp_state p) \<noteq> HError" and "\<not> cp_done p"
    and "lines_parse (text_of_bytes (concat xs)) (abstract p) = Some (k, q)" and "cp_done q"
  shows "\<exists>p' st. parse_pieces fcgi_lib xs p = Some (False, p', drop k (concat xs)) \<and> abstract p' = q\<lparr>cp_state := st\<rparr>"
  using assms
proof (induction xs arbitrary: p k)
  case Nil
  then show ?case by (auto simp: text_of_bytes_def abstract_def seen_def)
next
  case (Cons x xs)
  let ?a = "text_of_bytes x" and ?b = "text_of_bytes (concat xs)"
  have cat: "text_of_bytes (concat (x # xs)) = ?a @ ?b" by (simp add: text_of_bytes_def)
  have st: "cp_state (abstract p) = cm_cs (cp_state p)" "cp_done (abstract p) = cp_done p" for p by (simp_all add: abstract_def seen_def content_rebase_def)
  have "lines_parse (?a @ ?b) (abstract p) \<noteq> None" using Cons.prems(4) unfolding cat by simp
  from lines_prefix [OF this] obtain k1 q1 where l1: "lines_parse ?a (abstract p) = Some (k1, q1)" by auto
  then obtain p1 where p1: "content_parse fcgi_lib x p = Some (k1, p1)" "abstract p1 = q1" using content_parse_refines(1) [OF Cons.prems(1), of x] by auto
  note ok1 = content_parse_refines(2) [OF Cons.prems(1) p1(1)]
  note ap = lines_append [OF l1, of ?b]
  have len: "length ?a = length x" by simp
  have err: "content_has_error fcgi_lib p1 \<longleftrightarrow> \<not> cp_done p1 \<and> cp_state q1 = HError" using st p1(2) by (auto simp: content_has_error_def fcgi_lib_def)
  show ?case
  proof (cases "cp_done p1")
    case True
    have dn: "cp_state q1 \<in> {HDone, HError}" using lines_done [OF l1] st Cons.prems(3) True p1(2) by auto
    obtain st' where s: "lines_parse ?b q1 = Some (0, q1\<lparr>cp_state := st'\<rparr>)" using lines_stop [OF dn] by blast
    have kq: "k = k1" "\<exists>st. q = q1\<lparr>cp_state := st\<rparr>"
      using Cons.prems(4) ap s unfolding cat by (auto split: if_splits intro: exI [of _ "cp_state q1"])
    have "parse_pieces fcgi_lib (x # xs) p = Some (False, p1, drop k1 x @ concat xs)"
      using Cons.prems(3) p1(1) True parse_pieces_done [OF True, of fcgi_lib xs] by (simp add: content_has_error_def)
    then show ?thesis using kq p1(2) ok1 by (auto intro: exI [of _ "cp_state q1"])
  next
    case False
    have full: "k1 = length ?a"
    proof (rule ccontr)
      assume n: "k1 \<noteq> length ?a"
      then have "q = q1" using Cons.prems(4) ap unfolding cat by auto
      then show False using Cons.prems(5) False st(2) [of p1] p1(2) by simp
    qed
    have s1: "cm_cs (cp_state p1) \<noteq> HError" using ap full st(1) Cons.prems(2) p1(2) by metis
    obtain j where j: "lines_parse ?b (abstract p1) = Some (j, q)" "k = k1 + j"
      using Cons.prems(4) ap full p1(2) unfolding cat by auto
    from Cons.IH [OF _ s1 False j(1) Cons.prems(5)] ok1 obtain p' st where
      r: "parse_pieces fcgi_lib xs p1 = Some (False, p', drop j (concat xs))" "abstract p' = q\<lparr>cp_state := st\<rparr>" by auto
    have "\<not> content_has_error fcgi_lib p1" using err s1 st(1) p1(2) by metis
    then show ?thesis using r j(2) full len p1(1) Cons.prems(3) by auto
  qed
qed

section \<open>Header lines written by an application\<close>

definition reply_header_ok :: "header \<Rightarrow> bool" where
  "reply_header_ok h \<longleftrightarrow> fst h \<noteq> [] \<and> list_all token (fst h) \<and> snd h \<noteq> [] \<and> hd (snd h) \<noteq> CHR '' '' \<and> list_all (\<lambda>c. \<not> is_CR c \<and> \<not> is_LF c) (snd h)"

definition reply_head :: "header list \<Rightarrow> string" where
  "reply_head hs = concat (map header_text hs) @ CRLF"

text \<open>What the lines mean: \<open>Status\<close> lines set the status, a length or chunks make the reply a stream, the others are kept.\<close>

definition add_header :: "header \<Rightarrow> 'p content_parser \<Rightarrow> 'p content_parser" where
  "add_header h p = push_header (p\<lparr>cp_header_line := h\<rparr>)"

definition plain_headers :: "header list \<Rightarrow> header list" where
  "plain_headers hs = filter (\<lambda>h. fst h \<noteq> ''Status'') hs"

definition status_of :: "header list \<Rightarrow> string" where
  "status_of hs = fold (\<lambda>h s. if fst h = ''Status'' then snd h else s) hs []"

definition streams :: "header list \<Rightarrow> bool" where
  "streams hs \<longleftrightarrow> (\<exists>h \<in> set hs. fst h = ''Transfer-encoding'' \<and> snd h = ''chunked'' \<or> fst h = ''Content-length'')"

lemma add_headers:
  "cp_headers (fold add_header hs p) = cp_headers p @ plain_headers hs"
  "cp_status_text (fold add_header hs p) = fold (\<lambda>h s. if fst h = ''Status'' then snd h else s) hs (cp_status_text p)"
  "cp_streaming (fold add_header hs p) = (cp_streaming p \<or> streams hs)" "cp_done (fold add_header hs p) = cp_done p"
proof -
  have one: "cp_headers (add_header h p) = cp_headers p @ plain_headers [h]" "cp_status_text (add_header h p) = (if fst h = ''Status'' then snd h else cp_status_text p)"
    "cp_streaming (add_header h p) = (cp_streaming p \<or> streams [h])" "cp_done (add_header h p) = cp_done p" for h :: header and p :: "'a content_parser"
    by (cases h; auto simp: add_header_def push_header_def plain_headers_def streams_def Let_def)+
  show "cp_headers (fold add_header hs p) = cp_headers p @ plain_headers hs"
    by (induction hs arbitrary: p) (simp_all add: one, simp_all add: plain_headers_def)
  show "cp_status_text (fold add_header hs p) = fold (\<lambda>h s. if fst h = ''Status'' then snd h else s) hs (cp_status_text p)"
    by (induction hs arbitrary: p) (simp_all add: one)
  show "cp_streaming (fold add_header hs p) = (cp_streaming p \<or> streams hs)"
    by (induction hs arbitrary: p) (simp_all add: one, auto simp: streams_def)
  show "cp_done (fold add_header hs p) = cp_done p" by (induction hs arbitrary: p) (simp_all add: one)
qed

text \<open>A text that is read to its end.\<close>

definition lines :: "string \<Rightarrow> cstate content_parser \<Rightarrow> cstate content_parser \<Rightarrow> bool" where
  "lines s p p' \<longleftrightarrow> lines_parse s p = Some (length s, p')"

lemma lines_trans: "lines a p p1 \<Longrightarrow> lines b p1 p2 \<Longrightarrow> lines (a @ b) p p2"
  using lines_append [of a p "length a" p1 b] by (simp add: lines_def)

lemma lines_char:
  assumes "content_transition (cp_state p) c = (acts, tgt)" and "tgt \<noteq> HError" and "\<not> (DoneValue \<in> set acts \<and> cp_state p = HSep)"
  shows "lines [c] p (lines_add c acts tgt p)"
  using assms by (auto simp: lines_def)

lemma lines_Cons: "lines [c] p p1 \<Longrightarrow> lines s p1 p2 \<Longrightarrow> lines (c # s) p p2"
  using lines_trans [of "[c]"] by simp

lemma lines_name:
  assumes "list_all token s" and "cp_state p = HName"
  shows "lines s p (push_name s p)"
  using assms
proof (induction s arbitrary: p)
  case Nil
  then show ?case by (simp add: lines_def push_name_def)
next
  case (Cons c s)
  have "lines [c] p (lines_add c [] HName p)" using Cons.prems by (intro lines_char) simp_all
  moreover have "lines_add c [] HName p = push_name [c] p" using Cons.prems(2) by (cases p) (simp add: lines_add_def lines_effect_def push_name_def)
  moreover have "lines s (push_name [c] p) (push_name s (push_name [c] p))" using Cons by (intro Cons.IH) (simp_all add: push_name_def)
  moreover have "push_name s (push_name [c] p) = push_name (c # s) p" by (simp add: push_name_def)
  ultimately show ?case using lines_Cons by metis
qed

lemma lines_value:
  assumes "list_all (\<lambda>c. \<not> is_CR c \<and> \<not> is_LF c) s" and "cp_state p = HValue"
  shows "lines s p (push_value s p)"
  using assms
proof (induction s arbitrary: p)
  case Nil
  then show ?case by (simp add: lines_def push_value_def)
next
  case (Cons c s)
  have "lines [c] p (lines_add c [] HValue p)" using Cons.prems by (intro lines_char) simp_all
  moreover have "lines_add c [] HValue p = push_value [c] p" using Cons.prems(2) by (cases p) (simp add: lines_add_def lines_effect_def push_value_def)
  moreover have "lines s (push_value [c] p) (push_value s (push_value [c] p))" using Cons by (intro Cons.IH) (simp_all add: push_value_def)
  moreover have "push_value s (push_value [c] p) = push_value (c # s) p" by (simp add: push_value_def)
  ultimately show ?case using lines_Cons by metis
qed

definition line_base :: "bool \<Rightarrow> cstate content_parser \<Rightarrow> cstate content_parser" where
  "line_base after p = (if after then push_header p else p)"

lemma lines_add_state: "acts = [] \<or> acts = [DoneName] \<or> acts = [DoneValue] \<Longrightarrow> tgt \<noteq> HName \<Longrightarrow> tgt \<noteq> HValue \<Longrightarrow> lines_add c acts tgt p = p\<lparr>cp_state := tgt\<rparr>"
  by (auto simp: lines_add_def lines_effect_def)

lemma lines_header:
  assumes "reply_header_ok h" and "cp_state p = HStart after" and "cp_header_line (line_base after p) = ([], [])"
  shows "lines (header_text h) p ((line_base after p)\<lparr>cp_header_line := h, cp_state := HStart True\<rparr>)"
proof -
  obtain c n d v where h: "fst h = c # n" "snd h = d # v" using assms(1) by (cases "fst h"; cases "snd h") (auto simp: reply_header_ok_def)
  have ok: "token c" "list_all token n" "d \<noteq> CHR '' ''" "\<not> is_CR d" "\<not> is_LF d" "list_all (\<lambda>c. \<not> is_CR c \<and> \<not> is_LF c) v"
    using assms(1) h by (auto simp: reply_header_ok_def)
  let ?b = "line_base after p"
  let ?p = "\<lambda>n v st. ?b\<lparr>cp_header_line := (n, v), cp_state := st\<rparr>"
  have push: "push_name s (?p n v st) = ?p (n @ s) v st" "push_value s (?p n v st) = ?p n (v @ s) st" for s n v st by (simp_all add: push_name_def push_value_def)
  have "lines [c] p (lines_add c ((if after then [EndHeader] else []) @ [MarkName]) HName p)" using assms(2) ok(1) by (intro lines_char) simp_all
  moreover have "lines_add c ((if after then [EndHeader] else []) @ [MarkName]) HName p = ?p [c] [] HName"
    using assms(3) by (cases after) (simp_all add: lines_add_def lines_effect_def line_base_def push_name_def)
  ultimately have a: "lines [c] p (?p [c] [] HName)" by simp
  have b: "lines n (?p [c] [] HName) (?p (c # n) [] HName)" using lines_name [OF ok(2), of "?p [c] [] HName"] by (simp add: push)
  have "\<not> token CHR '':''" by code_simp
  then have e: "lines '':'' (?p (c # n) [] HName) (?p (c # n) [] HSep)" using lines_char [of "?p (c # n) [] HName" "CHR '':''" "[DoneName]" HSep] by (simp add: lines_add_state)
  have f: "lines '' '' (?p (c # n) [] HSep) (?p (c # n) [] HSep)" using lines_char [of "?p (c # n) [] HSep" "CHR '' ''" "[]" HSep] by (simp add: lines_add_state)
  have "lines_add d [MarkValue] HValue (?p (c # n) [] HSep) = ?p (c # n) [d] HValue" by (simp add: lines_add_def lines_effect_def push_value_def)
  then have g: "lines [d] (?p (c # n) [] HSep) (?p (c # n) [d] HValue)" using lines_char [of "?p (c # n) [] HSep" d "[MarkValue]" HValue] ok(3-5) by simp
  have i: "lines v (?p (c # n) [d] HValue) (?p (c # n) (d # v) HValue)" using lines_value [OF ok(6), of "?p (c # n) [d] HValue"] by (simp add: push)
  have j: "lines [CHR 0x0D] (?p (c # n) (d # v) HValue) (?p (c # n) (d # v) HCR)"
    using lines_char [of "?p (c # n) (d # v) HValue" "CHR 0x0D" "[DoneValue]" HCR] by (simp add: is_CR_def lines_add_state)
  have k: "lines [CHR 0x0A] (?p (c # n) (d # v) HCR) (?p (c # n) (d # v) (HStart True))"
    using lines_char [of "?p (c # n) (d # v) HCR" "CHR 0x0A" "[]" "HStart True"] by (simp add: is_LF_def lines_add_state)
  have "h = (c # n, d # v)" using h by (cases h) simp
  then show ?thesis
    using lines_trans [OF a lines_trans [OF b lines_trans [OF e lines_trans [OF f lines_trans [OF g lines_trans [OF i lines_trans [OF j k]]]]]]]
    by (simp add: header_text_def CRLF_def)
qed

lemma lines_headers:
  assumes "list_all reply_header_ok hs" and "cp_state p = HStart after" and "cp_header_line (line_base after p) = ([], [])"
  shows "\<exists>p'. lines (concat (map header_text hs)) p p' \<and> (\<exists>after'. cp_state p' = HStart after' \<and>
    (line_base after' p')\<lparr>cp_state := HDone\<rparr> = (fold add_header hs (line_base after p))\<lparr>cp_state := HDone\<rparr>)"
  using assms
proof (induction hs arbitrary: p after)
  case Nil
  then show ?case by (intro exI [of _ p]) (auto simp: lines_def)
next
  case (Cons h hs)
  let ?b = "line_base after p"
  let ?q = "?b\<lparr>cp_header_line := h, cp_state := HStart True\<rparr>"
  have q: "lines (header_text h) p ?q" using Cons.prems by (intro lines_header) simp_all
  have eq: "line_base True ?q = (add_header h ?b)\<lparr>cp_state := HStart True\<rparr>"
    by (cases h) (auto simp: line_base_def add_header_def push_header_def Let_def)
  have hl: "cp_header_line (line_base True ?q) = ([], [])" by (cases h) (auto simp: line_base_def push_header_def Let_def)
  obtain p' after' where r: "lines (concat (map header_text hs)) ?q p'" "cp_state p' = HStart after'"
      "(line_base after' p')\<lparr>cp_state := HDone\<rparr> = (fold add_header hs (line_base True ?q))\<lparr>cp_state := HDone\<rparr>"
    using Cons.IH [of ?q True] Cons.prems(1) hl by auto
  have st: "(fold add_header hs (x\<lparr>cp_state := s\<rparr>))\<lparr>cp_state := HDone\<rparr> = (fold add_header hs x)\<lparr>cp_state := HDone\<rparr>" for x :: "cstate content_parser" and s
  proof (induction hs arbitrary: x)
    case (Cons g gs)
    have "add_header g (x\<lparr>cp_state := s\<rparr>) = (add_header g x)\<lparr>cp_state := s\<rparr>" by (cases g) (auto simp: add_header_def push_header_def Let_def)
    then show ?case using Cons.IH by simp
  qed simp
  show ?case using lines_trans [OF q r(1)] r(2,3) unfolding eq st by auto
qed

lemma reply_head_parsed:
  assumes "list_all reply_header_ok hs"
  shows "\<exists>q. lines_parse (reply_head hs @ s) (abstract (content_init fcgi_lib)) = Some (length (reply_head hs), q) \<and> cp_done q \<and>
    cp_headers q = plain_headers hs \<and> cp_status_text q = status_of hs \<and> cp_streaming q = streams hs"
proof -
  let ?p = "abstract (content_init fcgi_lib)"
  have i: "cp_state ?p = HStart False" "cp_header_line ?p = ([], [])" "cp_headers ?p = []" "cp_status_text ?p = []" "\<not> cp_streaming ?p"
    by (simp_all add: abstract_def seen_def content_init_def fcgi_lib_def init_parser_def content_rebase_def mark_of_def)
  obtain p' after where p': "lines (concat (map header_text hs)) ?p p'" "cp_state p' = HStart after"
      "(line_base after p')\<lparr>cp_state := HDone\<rparr> = (fold add_header hs ?p)\<lparr>cp_state := HDone\<rparr>"
    using lines_headers [OF assms, of ?p False] i by (auto simp: line_base_def)
  let ?acts = "if after then [EndHeader] else []"
  have "\<not> token CHR 0x0D" by code_simp
  then have a: "lines [CHR 0x0D] p' ((line_base after p')\<lparr>cp_state := HEndCR\<rparr>)"
    using lines_char [of p' "CHR 0x0D" ?acts HEndCR] p'(2) by (simp add: is_CR_def lines_add_def lines_effect_def line_base_def split: if_splits)
  let ?q = "(done_parse (line_base after p'))\<lparr>cp_state := HDone\<rparr>"
  have b: "lines [CHR 0x0A] ((line_base after p')\<lparr>cp_state := HEndCR\<rparr>) ?q"
    using lines_char [of "(line_base after p')\<lparr>cp_state := HEndCR\<rparr>" "CHR 0x0A" "[DoneHeaders]" HDone]
    by (simp add: is_LF_def lines_add_def lines_effect_def done_parse_def)
  have full: "lines_parse (reply_head hs) ?p = Some (length (reply_head hs), ?q)"
    using lines_trans [OF p'(1) lines_trans [OF a b]] by (simp add: lines_def reply_head_def CRLF_def)
  obtain st where stop: "lines_parse s ?q = Some (0, ?q\<lparr>cp_state := st\<rparr>)" using lines_stop [of ?q s] by auto
  have f: "cp_headers (line_base after p') = plain_headers hs" "cp_status_text (line_base after p') = status_of hs" "cp_streaming (line_base after p') = streams hs"
    using arg_cong [OF p'(3), of cp_headers] arg_cong [OF p'(3), of cp_status_text] arg_cong [OF p'(3), of cp_streaming] i
    by (simp_all add: add_headers status_of_def)
  show ?thesis using lines_append [OF full, of s] stop f by (auto simp: done_parse_def)
qed

section \<open>Properties\<close>

text \<open>C39: the parser of reply headers, with its marks that are moved from buffer to buffer, implements the parser that appends every character at once: a call on any piece of input
  consumes as much, ends in the same state with the same header line, headers, status and flags, and fails on the same inputs.\<close>

theorem content_parser_refines_lines:
  assumes "machine_ok (cp_state p)"
  shows "map_option (\<lambda>(k, p'). (k, abstract p')) (content_parse fcgi_lib bs p) = lines_parse (text_of_bytes bs) (abstract p) \<and>
    (\<forall>k p'. content_parse fcgi_lib bs p = Some (k, p') \<longrightarrow> machine_ok (cp_state p') \<and> k \<le> length bs)"
  using content_parse_refines [OF assms] by blast

text \<open>C38: the head of a FastCGI reply is parsed.  When the first output record of a reply holds header lines with a value each, the blank line and the start of the
  body, spread over the pages of the buffer in any way, then the parser is done, has the header lines in order without the \<open>Status\<close> lines, the status they give,
  and knows whether the reply is a stream; exactly the bytes of the body are appended to the output, and what follows the record stays.\<close>

theorem fcgi_reply_head_parsed:
  assumes "heap_ok h" and "buf_ok h (task_buffer cont)" and "buf_ok h (output_buffer cont)" and "in_int_range (task_buffer cont)"
    and "cow_ref (output_buffer cont) \<noteq> cow_ref (task_buffer cont)"
    and "contents h (task_buffer cont) = frame r dat @ rest" and "length dat = unat (rec_content_length r)"
    and "rec_type r = kFcgiStdout \<or> rec_type r = kFcgiStderr" and "cont_parser cont = content_init fcgi_lib"
    and "list_all reply_header_ok hs" and "text_of_bytes dat = reply_head hs @ body"
  shows "\<exists>cont' h'. fcgi_run_parser fcgi_lib (cont, h) = Some (True, cont', h') \<and> contents h' (task_buffer cont') = rest \<and>
    contents h' (output_buffer cont') = contents h (output_buffer cont) @ drop (length (reply_head hs)) dat \<and> cp_done (cont_parser cont') \<and>
    cp_headers (cont_parser cont') = plain_headers hs \<and> cp_status_text (cont_parser cont') = status_of hs \<and> cp_streaming (cont_parser cont') = streams hs"
proof -
  define Q :: "content_machine content_parser \<Rightarrow> bool" where
    "Q = (\<lambda>p. cp_done p \<and> cp_headers p = plain_headers hs \<and> cp_status_text p = status_of hs \<and> cp_streaming p = streams hs)"
  let ?i = "content_init fcgi_lib" and ?k = "length (reply_head hs)"
  have i: "machine_ok (cp_state ?i)" "cm_cs (cp_state ?i) \<noteq> HError" "\<not> cp_done ?i"
    by (simp_all add: content_init_def fcgi_lib_def init_parser_def machine_ok_def)
  obtain q where q: "lines_parse (reply_head hs @ body) (abstract ?i) = Some (?k, q)" "cp_done q" "cp_headers q = plain_headers hs"
      "cp_status_text q = status_of hs" "cp_streaming q = streams hs"
    using reply_head_parsed [OF assms(10), of body] by blast
  have "\<exists>p'. parse_pieces fcgi_lib xs (cont_parser cont) = Some (False, p', drop ?k dat) \<and> Q p'" if cat: "concat xs = dat" for xs
  proof -
    have "lines_parse (text_of_bytes (concat xs)) (abstract ?i) = Some (?k, q)" using q(1) assms(11) cat by simp
    from pieces_parsed [OF i this q(2)] obtain p' st where
      p': "parse_pieces fcgi_lib xs ?i = Some (False, p', drop ?k dat)" "abstract p' = q\<lparr>cp_state := st\<rparr>" unfolding cat by blast
    have "Q p'" using arg_cong [OF p'(2), of cp_done] arg_cong [OF p'(2), of cp_headers] arg_cong [OF p'(2), of cp_status_text] arg_cong [OF p'(2), of cp_streaming] q(2-)
      by (simp add: Q_def abstract_def seen_def)
    then show ?thesis using p'(1) assms(9) by auto
  qed
  from output_record_parsed [OF assms(1-8) this] show ?thesis unfolding Q_def by blast
qed

theorem content_parser_refines_lines_witness:
  "\<exists>k p'. content_parse fcgi_lib (bytes_of_string ''A:'') (content_init fcgi_lib) = Some (k, p') \<and> k = 2 \<and> cp_header_line p' = (''A'', [])"
proof -
  let ?i = "content_init fcgi_lib"
  have "machine_ok (cp_state ?i)" by (simp add: content_init_def fcgi_lib_def init_parser_def machine_ok_def)
  note r = content_parser_refines_lines [OF this, of "bytes_of_string ''A:''", THEN conjunct1]
  have "token CHR ''A''" "\<not> token CHR '':''" "text_of_bytes (bytes_of_string ''A:'') = ''A:''" by code_simp+
  then have "lines_parse (text_of_bytes (bytes_of_string ''A:'')) (abstract ?i) = Some (2, (abstract ?i)\<lparr>cp_header_line := (''A'', []), cp_state := HSep\<rparr>)"
    by (simp add: abstract_def seen_def content_init_def fcgi_lib_def init_parser_def content_rebase_def mark_of_def lines_add_def lines_effect_def push_name_def)
  then obtain k p' where p': "content_parse fcgi_lib (bytes_of_string ''A:'') ?i = Some (k, p')" "k = 2"
      "abstract p' = (abstract ?i)\<lparr>cp_header_line := (''A'', []), cp_state := HSep\<rparr>" using r by auto
  have "mark_of (map_option (\<lambda>_. []) x) = []" for x :: "string option" by (cases x) (simp_all add: mark_of_def)
  then have "cp_header_line p' = (''A'', [])" using arg_cong [OF p'(3), of cp_header_line]
    by (cases "cp_header_line p'") (simp add: abstract_def seen_def content_rebase_def)
  then show ?thesis using p' by blast
qed

theorem fcgi_reply_head_parsed_witness:
  "\<exists>cont' h' hs. hs = [(''Status'', ''404 No''), (''Content-length'', ''2'')] \<and>
    fcgi_run_parser fcgi_lib (reply_sample fcgi_lib (bytes_of_string (reply_head hs @ ''hi''))) = Some (True, cont', h') \<and>
    cp_status_text (cont_parser cont') = ''404 No'' \<and> cp_headers (cont_parser cont') = [(''Content-length'', ''2'')] \<and> cp_streaming (cont_parser cont')"
proof -
  define hs where "hs = [(''Status'', ''404 No''), (''Content-length'', ''2'')]"
  define dat where "dat = bytes_of_string (reply_head hs @ ''hi'')"
  obtain cont h where s: "reply_sample fcgi_lib dat = (cont, h)" by (rule prod.exhaust)
  have len: "length dat < 65536" by (simp add: dat_def hs_def bytes_of_string_def reply_head_def header_text_def CRLF_def)
  note ok = reply_sample_ok [OF s len] and l = output_record_fields(1) [OF len]
  have c: "contents h (task_buffer cont) = frame (output_record dat) dat @ []" using ok(7) by simp
  have hs: "list_all reply_header_ok hs" unfolding hs_def by code_simp
  have t: "text_of_bytes dat = reply_head hs @ ''hi''" by (simp add: dat_def text_of_bytes_of_string)
  have v: "status_of hs = ''404 No''" "plain_headers hs = [(''Content-length'', ''2'')]" "streams hs" unfolding hs_def by code_simp+
  have ty: "rec_type (output_record dat) = kFcgiStdout \<or> rec_type (output_record dat) = kFcgiStderr" using output_record_fields(2) by simp
  from fcgi_reply_head_parsed [OF ok(1-5) c l ty ok(6) hs t] s v show ?thesis unfolding dat_def hs_def by auto
qed

text \<open>A header line without a value ends the process.\<close>

lemma empty_value_crashes: "content_parse fcgi_lib (bytes_of_string (''X:'' @ CRLF)) (content_init fcgi_lib) = None"
proof -
  let ?i = "content_init fcgi_lib" and ?bs = "bytes_of_string (''X:'' @ CRLF)"
  have ok: "machine_ok (cp_state ?i)" by (simp add: content_init_def fcgi_lib_def init_parser_def machine_ok_def)
  have "token CHR ''X''" "\<not> token CHR '':''" by code_simp+
  then have "lines_parse (text_of_bytes ?bs) (abstract ?i) = None"
    by (simp add: text_of_bytes_of_string CRLF_def is_CR_def abstract_def seen_def content_init_def fcgi_lib_def init_parser_def content_rebase_def
        mark_of_def lines_add_def lines_effect_def push_name_def)
  then show ?thesis using content_parse_refines(1) [OF ok, of ?bs] by simp
qed

end
