(* ===== verification/Server.thy ===== *)
theory Server
  imports Http_Stages Poll_Loops
begin

text \<open>
  Start-up and the accept loop: the registry of stages in \<^verbatim>\<open>src/core/pipeline.cc\<close>, the stages' constructors and \<open>initialize\<close> methods
  (\<^verbatim>\<open>src/core/stages.cc\<close>, \<^verbatim>\<open>src/http/http_stages.cc\<close>), and the server of \<^verbatim>\<open>src/core/server.cc\<close> and \<^verbatim>\<open>src/http/server.cc\<close>.  A stage is a number, its
  object is in the list \<open>pl_stages\<close>.  The results of \<open>getaddrinfo\<close>, \<open>socket\<close>, \<open>bind\<close>, \<open>listen\<close> and \<open>accept\<close> are parameters.  Threads
  are only counted here.
\<close>

section \<open>The registry of stages\<close>

datatype stage_kind = PollInStage | BlockOutStage | PollOutStage | HttpParserStage | HttpHandlerStage | FcgiCompletionStage

text \<open>\<open>stage_link\<close> is the stage found by \<open>initialize\<close>; \<open>stage_sched\<close> tells whether the stage has a scheduler, and whether this one suppresses locks.\<close>

record stage_obj =
  stage_kind :: stage_kind
  stage_sched :: "bool option"
  thread_pool_size :: nat
  stage_link :: "nat option"

record pipeline =
  pl_stages :: "stage_obj list"
  pl_map :: "(string \<times> nat) list"
  pl_poll_in :: "nat option"
  pl_write_back :: "nat option"
  pl_http_factory :: bool

definition Pipeline :: pipeline where
  "Pipeline = \<lparr>pl_stages = [], pl_map = [], pl_poll_in = None, pl_write_back = None, pl_http_factory = False\<rparr>"

text \<open>\<open>std::string\<close> comparison and insertion into \<open>std::map\<close>, which keeps an entry that exists.\<close>

fun string_less :: "string \<Rightarrow> string \<Rightarrow> bool" where
  "string_less s [] = False"
| "string_less [] (d # t) = True"
| "string_less (c # s) (d # t) = (if char_code c < char_code d then True else if char_code d < char_code c then False else string_less s t)"

fun insert_sorted :: "string \<Rightarrow> nat \<Rightarrow> (string \<times> nat) list \<Rightarrow> (string \<times> nat) list" where
  "insert_sorted name i [] = [(name, i)]"
| "insert_sorted name i ((n, j) # m) = (if string_less name n then (name, i) # (n, j) # m else (n, j) # insert_sorted name i m)"

definition stage_insert :: "string \<Rightarrow> nat \<Rightarrow> (string \<times> nat) list \<Rightarrow> (string \<times> nat) list" where
  "stage_insert name i m = (if map_of m name = None then insert_sorted name i m else m)"

definition add_stage :: "string \<Rightarrow> nat \<Rightarrow> pipeline \<Rightarrow> pipeline" where
  "add_stage name i pl =
    (let pl1 = (if name = ''poll_in'' then pl\<lparr>pl_poll_in := Some i\<rparr>
                else if name = ''write_back'' then pl\<lparr>pl_write_back := Some i\<rparr> else pl)
     in pl1\<lparr>pl_map := stage_insert name i (pl_map pl1)\<rparr>)"

definition find_stage :: "string \<Rightarrow> pipeline \<Rightarrow> nat option" where
  "find_stage name pl = map_of (pl_map pl) name"

definition set_connection_factory :: "bool \<Rightarrow> pipeline \<Rightarrow> pipeline" where
  "set_connection_factory http pl = pl\<lparr>pl_http_factory := http\<rparr>"

text \<open>The constructors: each passes its name to the constructor of \<open>Stage\<close>, which registers it, and then sets its scheduler.\<close>

fun stage_name :: "stage_kind \<Rightarrow> string" where
  "stage_name PollInStage = ''poll_in''"
| "stage_name BlockOutStage = ''write_back''"
| "stage_name PollOutStage = ''write_back''"
| "stage_name HttpParserStage = ''parser''"
| "stage_name HttpHandlerStage = ''http_handler''"
| "stage_name FcgiCompletionStage = ''fcgi_completion''"

fun kind_sched :: "stage_kind \<Rightarrow> bool option" where
  "kind_sched PollInStage = None"
| "kind_sched BlockOutStage = Some True"
| "kind_sched PollOutStage = None"
| "kind_sched HttpParserStage = Some False"
| "kind_sched HttpHandlerStage = Some False"
| "kind_sched FcgiCompletionStage = None"

definition new_stage :: "stage_kind \<Rightarrow> pipeline \<Rightarrow> pipeline" where
  "new_stage kind pl =
    (let i = length (pl_stages pl);
         pl1 = add_stage (stage_name kind) i (pl\<lparr>pl_stages := pl_stages pl @
                 [\<lparr>stage_kind = kind, stage_sched = kind_sched kind, thread_pool_size = 1, stage_link = None\<rparr>]\<rparr>)
     in if kind = HttpParserStage then set_connection_factory True pl1 else pl1)"

text \<open>\<open>initialize\<close> of one stage; an exception is its message.\<close>

definition link_stage :: "nat \<Rightarrow> nat option \<Rightarrow> pipeline \<Rightarrow> pipeline" where
  "link_stage i l pl = pl\<lparr>pl_stages := (pl_stages pl)[i := (pl_stages pl ! i)\<lparr>stage_link := l\<rparr>]\<rparr>"

definition stage_initialize :: "nat \<Rightarrow> pipeline \<Rightarrow> string + pipeline" where
  "stage_initialize i pl =
    (case stage_kind (pl_stages pl ! i) of
       PollInStage \<Rightarrow> (case find_stage ''parser'' pl of
           None \<Rightarrow> Inl ''cannot find parser stage''
         | Some j \<Rightarrow> Inr (link_stage i (Some j) pl))
     | HttpParserStage \<Rightarrow> Inr (link_stage i (find_stage ''http_handler'' pl) pl)
     | FcgiCompletionStage \<Rightarrow> Inr (link_stage i (find_stage ''write_back'' pl) pl)
     | _ \<Rightarrow> Inr pl)"

fun initialize_loop :: "(string \<times> nat) list \<Rightarrow> pipeline \<Rightarrow> string + pipeline" where
  "initialize_loop [] pl = Inr pl"
| "initialize_loop ((name, i) # m) pl = (case stage_initialize i pl of Inl e \<Rightarrow> Inl e | Inr pl1 \<Rightarrow> initialize_loop m pl1)"

definition initialize_stages :: "pipeline \<Rightarrow> string + pipeline" where
  "initialize_stages pl = initialize_loop (pl_map pl) pl"

text \<open>\<open>start_stages\<close>: the stage of every thread created, in order.\<close>

definition start_stages :: "pipeline \<Rightarrow> nat list" where
  "start_stages pl = concat (map (\<lambda>(name, i). replicate (thread_pool_size (pl_stages pl ! i)) i) (pl_map pl))"

section \<open>The server\<close>

definition Server_stages :: "write_back_mode \<Rightarrow> pipeline \<Rightarrow> pipeline" where
  "Server_stages mode pl =
    (let pl1 = new_stage PollInStage pl
     in case mode of kWriteBackModeBlock \<Rightarrow> new_stage BlockOutStage pl1 | kWriteBackModePoll \<Rightarrow> new_stage PollOutStage pl1)"

definition WebServer_stages :: "write_back_mode \<Rightarrow> pipeline \<Rightarrow> pipeline" where
  "WebServer_stages mode pl = new_stage HttpHandlerStage (new_stage HttpParserStage (Server_stages mode pl))"

text \<open>\<open>bind\<close>: for every address the result of \<open>socket\<close>, whether \<open>bind\<close> succeeds on it, and the address's length.  The result is
  the descriptor with that length, if one was bound, and the sockets closed on the way.\<close>

fun bind_loop :: "(int \<times> bool \<times> nat) list \<Rightarrow> (int \<times> nat) option \<times> int list" where
  "bind_loop [] = (None, [])"
| "bind_loop ((s, bound, len) # as) =
    (if s < 0 then bind_loop as
     else if \<not> bound then (let (r, cl) = bind_loop as in (r, s # cl))
     else (Some (s, len), []))"

datatype start_error = BindFailed | SyscallFailed | InvalidArgument string

text \<open>\<open>Server::bind\<close>: \<open>None\<close> is a failed lookup of the address.\<close>

definition server_bind :: "(int \<times> bool \<times> nat) list option \<Rightarrow> start_error + int" where
  "server_bind candidates =
    (case candidates of
       None \<Rightarrow> Inl SyscallFailed
     | Some as \<Rightarrow> (case fst (bind_loop as) of None \<Rightarrow> Inl BindFailed | Some (fd, len) \<Rightarrow> Inr fd))"

definition server_listen :: "(int \<Rightarrow> bool) \<Rightarrow> int \<Rightarrow> start_error + int" where
  "server_listen listens fd = (if \<not> listens fd then Inl SyscallFailed else Inr fd)"

text \<open>The body of \<open>main\<close> behind the configuration and up to the accept loop.\<close>

definition start_server :: "(int \<times> bool \<times> nat) list option \<Rightarrow> (int \<Rightarrow> bool) \<Rightarrow> pipeline \<Rightarrow> start_error + int \<times> nat list \<times> pipeline" where
  "start_server candidates listens pl =
    (case server_bind candidates of
       Inl e \<Rightarrow> Inl e
     | Inr fd \<Rightarrow>
        (case server_listen listens fd of
           Inl e \<Rightarrow> Inl e
         | Inr fd \<Rightarrow>
            (case initialize_stages pl of
               Inl e \<Rightarrow> Inl (InvalidArgument e)
             | Inr pl1 \<Rightarrow> Inr (fd, start_stages pl1, pl1))))"

text \<open>The destructors, as the sequence of what they free and close; descriptor 0 is not closed.\<close>

datatype destroy_call = DeleteStage stage_kind | ShutdownSocket int | CloseSocket int

definition Server_destroy :: "write_back_mode \<Rightarrow> int \<Rightarrow> destroy_call list" where
  "Server_destroy mode fd =
    [DeleteStage PollInStage, DeleteStage (case mode of kWriteBackModeBlock \<Rightarrow> BlockOutStage | kWriteBackModePoll \<Rightarrow> PollOutStage)] @
    (if fd > 0 then [ShutdownSocket fd, CloseSocket fd] else [])"

definition WebServer_destroy :: "write_back_mode \<Rightarrow> int \<Rightarrow> destroy_call list" where
  "WebServer_destroy mode fd = [DeleteStage HttpParserStage, DeleteStage HttpHandlerStage] @ Server_destroy mode fd"

text \<open>Every stage the constructor makes is deleted once.\<close>

lemma destroy_all_stages:
  "{k. DeleteStage k \<in> set (WebServer_destroy mode fd)} = set (map stage_kind (pl_stages (WebServer_stages mode Pipeline))) \<and>
    distinct (WebServer_destroy mode fd)"
  by (cases mode) (auto simp: WebServer_destroy_def Server_destroy_def WebServer_stages_def Server_stages_def new_stage_def add_stage_def
      set_connection_factory_def Pipeline_def Let_def)

section \<open>Command line\<close>

record options =
  pid_file :: string
  conf_file :: string
  module_path :: string
  global_uid :: int

datatype exit_reason = ShowUsage | TryHelp | NoConfigFile | SetuidFailed

text \<open>The loop of \<open>parse_opt\<close> over the options found by \<open>getopt\<close>, with their arguments.\<close>

fun parse_opt_loop :: "(char \<times> string) list \<Rightarrow> options \<Rightarrow> exit_reason + options" where
  "parse_opt_loop [] o1 = Inr o1"
| "parse_opt_loop ((opt, optarg) # opts) o1 =
    (if opt = CHR ''p'' then parse_opt_loop opts (o1\<lparr>pid_file := optarg\<rparr>)
     else if opt = CHR ''c'' then parse_opt_loop opts (o1\<lparr>conf_file := optarg\<rparr>)
     else if opt = CHR ''m'' then parse_opt_loop opts (o1\<lparr>module_path := optarg\<rparr>)
     else if opt = CHR ''u'' then parse_opt_loop opts (o1\<lparr>global_uid := parse_int optarg\<rparr>)
     else if opt = CHR ''h'' then Inl ShowUsage
     else Inl TryHelp)"

definition parse_opt :: "(char \<times> string) list \<Rightarrow> exit_reason + options" where
  "parse_opt opts =
    (case parse_opt_loop opts \<lparr>pid_file = [], conf_file = [], module_path = [], global_uid = -1\<rparr> of
       Inl e \<Rightarrow> Inl e
     | Inr r \<Rightarrow> if conf_file r = [] then Inl NoConfigFile else Inr r)"

text \<open>\<open>webserver_init\<close> as the sequence of its effects on the process.\<close>

datatype init_effect = SetUid int | WritePid string | LoadStaticConfig string | LoadModules string | InitializeModules

definition webserver_init :: "(int \<Rightarrow> bool) \<Rightarrow> (char \<times> string) list \<Rightarrow> exit_reason + init_effect list" where
  "webserver_init setuid opts =
    (case parse_opt opts of
       Inl e \<Rightarrow> Inl e
     | Inr r \<Rightarrow>
        if 0 \<le> global_uid r \<and> \<not> setuid (global_uid r) then Inl SetuidFailed
        else Inr ((if 0 \<le> global_uid r then [SetUid (global_uid r)] else []) @ (if pid_file r \<noteq> [] then [WritePid (pid_file r)] else []) @
                  [LoadStaticConfig (conf_file r), LoadModules (module_path r), InitializeModules]))"

section \<open>Accepting\<close>

text \<open>One round of \<open>main_loop\<close>: the result of \<open>accept\<close> becomes connection \<open>c\<close>, made by the HTTP connection factory, on a poller of the poll-in stage.\<close>

definition accept_round :: "kernel \<Rightarrow> int \<Rightarrow> bool \<Rightarrow> int \<Rightarrow> int \<Rightarrow> nat \<Rightarrow> world \<Rightarrow> world option" where
  "accept_round k timeout cork now client_fd c w =
    (if client_fd < 0 then Some w
     else map_option snd (in_sched_add k c (upd_conn c (\<lambda>_. create_connection timeout cork now (nat client_fd)) w)))"

section \<open>Lemmas\<close>

text \<open>The server starts without a configuration file never, and the last one named is loaded.\<close>

lemma parse_opt_loop_conf:
  "parse_opt_loop opts o1 = Inr r \<Longrightarrow>
    conf_file r = last (conf_file o1 # map snd (filter (\<lambda>x. fst x = CHR ''c'') opts)) \<and> (\<forall>x \<in> set opts. fst x \<in> set ''pcmu'')"
  by (induction opts o1 rule: parse_opt_loop.induct) (auto split: if_splits)

lemma init_loads_last_config:
  assumes "webserver_init setuid opts = Inr es"
  shows "\<exists>cs. filter (\<lambda>x. fst x = CHR ''c'') opts = cs \<and> cs \<noteq> [] \<and> LoadStaticConfig (snd (last cs)) \<in> set es \<and> snd (last cs) \<noteq> []"
proof -
  obtain r where r: "parse_opt_loop opts \<lparr>pid_file = [], conf_file = [], module_path = [], global_uid = -1\<rparr> = Inr r" "conf_file r \<noteq> []"
      "LoadStaticConfig (conf_file r) \<in> set es"
    using assms by (auto simp: webserver_init_def parse_opt_def split: sum.splits if_splits)
  show ?thesis using parse_opt_loop_conf [OF r(1)] r(2,3) by (auto simp: last_map split: if_splits)
qed

text \<open>\<open>bind\<close> takes the first address that works and closes the sockets of those before it whose binding failed.\<close>

lemma bind_first:
  "bind_loop as = (case dropWhile (\<lambda>(s, b, l). s < 0 \<or> \<not> b) as of
      [] \<Rightarrow> (None, map fst (filter (\<lambda>x. 0 \<le> fst x) as))
    | x # _ \<Rightarrow> (Some (fst x, snd (snd x)), map fst (filter (\<lambda>x. 0 \<le> fst x) (takeWhile (\<lambda>(s, b, l). s < 0 \<or> \<not> b) as))))"
proof (induction as rule: bind_loop.induct)
  case (2 s bound len as)
  then show ?case
    by (cases "dropWhile (\<lambda>(s, b, l). s < 0 \<or> \<not> b) as"; cases "s < 0"; cases bound) (simp_all del: dropWhile_eq_Nil_conv)
qed simp

text \<open>Looking up a stage after registering one: the first stage of a name wins.\<close>

lemma stage_insert_lookup: "map_of (stage_insert name i m) n = (if n = name \<and> map_of m name = None then Some i else map_of m n)"
proof -
  have "map_of m name = None \<Longrightarrow> map_of (insert_sorted name i m) = (map_of m)(name \<mapsto> i)"
    by (induction name i m rule: insert_sorted.induct) (auto split: if_splits)
  then show ?thesis by (simp add: stage_insert_def)
qed

lemma find_add_stage: "find_stage n (add_stage name i pl) = (if n = name \<and> find_stage name pl = None then Some i else find_stage n pl)"
  by (simp add: find_stage_def add_stage_def Let_def stage_insert_lookup)

text \<open>A second write back stage is not found by its name, but it is the one the pipeline's pointer refers to.\<close>

lemma second_write_back_diverges:
  assumes "find_stage ''write_back'' pl = Some i"
  shows "find_stage ''write_back'' (add_stage ''write_back'' j pl) = Some i \<and> pl_write_back (add_stage ''write_back'' j pl) = Some j"
  using assms by (simp add: find_add_stage) (simp add: add_stage_def)

text \<open>The web server's four stages find each other: reading is linked to parsing and parsing to handling, and four threads start.\<close>

lemma webserver_links:
  "\<exists>pl. initialize_stages (WebServer_stages mode Pipeline) = Inr pl \<and>
    find_stage ''poll_in'' pl = Some 0 \<and> pl_poll_in pl = Some 0 \<and> find_stage ''write_back'' pl = Some 1 \<and> pl_write_back pl = Some 1 \<and>
    stage_link (pl_stages pl ! 0) = Some 2 \<and> stage_kind (pl_stages pl ! 2) = HttpParserStage \<and>
    stage_link (pl_stages pl ! 2) = Some 3 \<and> stage_kind (pl_stages pl ! 3) = HttpHandlerStage \<and> pl_http_factory pl \<and>
    length (start_stages pl) = 4"
  by (cases mode) (simp_all add: WebServer_stages_def Server_stages_def new_stage_def add_stage_def set_connection_factory_def Pipeline_def
      initialize_stages_def stage_initialize_def link_stage_def stage_insert_def find_stage_def start_stages_def char_code_def Let_def)

text \<open>Before a thread of the poll-in stage has added its poller, an accepted connection leads to a division by zero.\<close>

lemma accept_before_poller: "in_pollers w = [] \<Longrightarrow> 0 \<le> client_fd \<Longrightarrow> accept_round k timeout cork now client_fd c w = None"
  by (simp add: accept_round_def in_sched_add_def upd_conn_def)

text \<open>An accepted connection is active, unlocked and registered with the next poller.\<close>

lemma accept_registers:
  assumes "0 \<le> client_fd" and "in_pollers w \<noteq> []" and "cur = (in_current w + 1) mod length (in_pollers w)"
    and "fdmap_ok (p_fds (in_pollers w ! cur))" and "nat client_fd < fdmap_capacity (p_fds (in_pollers w ! cur))"
    and "fdmap_get (p_fds (in_pollers w ! cur)) (nat client_fd) = None" and "k_add k (nat client_fd)"
  shows "\<exists>w'. accept_round k timeout cork now client_fd c w = Some w' \<and> in_current w' = cur \<and>
    fdmap_get (p_fds (in_pollers w' ! cur)) (nat client_fd) = Some c \<and> c_fd (conns w' c) = nat client_fd \<and>
    is_active (conns w' c) \<and> \<not> c_locked (conns w' c)"
proof -
  let ?w = "upd_conn c (\<lambda>_. create_connection timeout cork now (nat client_fd)) w"
  let ?p = "in_pollers w ! cur"
  have cn: "c_fd (create_connection timeout cork now (nat client_fd)) = nat client_fd"
      "is_active (create_connection timeout cork now (nat client_fd))" "\<not> c_locked (create_connection timeout cork now (nat client_fd))"
    by (auto simp: create_connection_def Connection_def set_cork_enabled_def set_flag_def is_active_def kFlagActive_def kFlagCorkEnabled_def
        update_last_active_def Let_def)
  obtain m' where m': "fdmap_insert (p_fds ?p) (nat client_fd) c = Some (True, m')" "fdmap_get m' = (fdmap_get (p_fds ?p))(nat client_fd := Some c)"
    using fdm.insert_fresh [OF assms(4,5,6)] by metis
  have cur: "Suc (in_current w) mod length (in_pollers w) = cur" "cur < length (in_pollers w)" using assms(2,3) by simp_all
  then show ?thesis using assms(1,2,7) m' cn
    by (simp add: accept_round_def in_sched_add_def Let_def w_fd_def upd_conn_def add_fd_def add_fd_set_def set_in_poller_def)
qed


section \<open>Interleaving of the stages\<close>

text \<open>The steps of a running server, in any order: accepting a connection, a thread of a poll stage adding its poller, rounds of the poll
  stages, the parser stage or a handler scheduling a reply, tasks of the blocking write back stage, and closing.  A descriptor that is
  accepted fits the tables, and the new connection object is in no queue.  The result \<open>None\<close> is a crash.\<close>

inductive stage_step :: "nat \<Rightarrow> kernel \<Rightarrow> world \<Rightarrow> world option \<Rightarrow> bool" for cap k where
  accept: "nat fd < cap \<Longrightarrow> c \<notin> set (parser_q w) \<Longrightarrow> c \<notin> set (block_q w) \<Longrightarrow> stage_step cap k w (accept_round k timeout cork now fd c w)"
| in_poller: "stage_step cap k w (Some (in_add_poll (Poller_new cap now) w))"
| out_poller: "stage_step cap k w (Some (out_add_poll (Poller_new cap now) w))"
| in_rounds: "i < length (in_pollers w) \<Longrightarrow> stage_step cap k w (rounds (in_round k tmo i) rs w)"
| out_rounds: "i < length (out_pollers w) \<Longrightarrow> stage_step cap k w (rounds (out_round k tmo unlock i) rs w)"
| parsed: "stage_step cap k w (Some (unlock c (w\<lparr>parser_q := queue_remove (w_fd w) c (parser_q w)\<rparr>)))"
| reply_poll: "stage_step cap k w (map_option snd (out_sched_add k now c w))"
| reply_block: "stage_step cap k w (block_sched_add k c w)"
| block_task: "stage_step cap k w (stage_round (block_process_task k rs fin) c w)"
| close: "stage_step cap k w (active_close k c w)"
| poll_again: "stage_step cap k w (enable_poll k c w)"

inductive_cases stage_stepE: "stage_step cap k w r"

inductive stage_reach :: "nat \<Rightarrow> kernel \<Rightarrow> world \<Rightarrow> world option \<Rightarrow> bool" for cap k w0 where
  start: "stage_reach cap k w0 (Some w0)"
| step: "stage_reach cap k w0 (Some w) \<Longrightarrow> stage_step cap k w r \<Longrightarrow> stage_reach cap k w0 r"

lemma accept_ok:
  assumes "stages_ok cap n m w" and "nat fd < cap" and "c \<notin> set (parser_q w)" and "c \<notin> set (block_q w)"
  shows "\<exists>w'. accept_round k timeout cork now fd c w = Some w' \<and> stages_ok cap n m w'"
proof -
  let ?w = "upd_conn c (\<lambda>_. create_connection timeout cork now (nat fd)) w"
  have fd: "c_fd (create_connection timeout cork now (nat fd)) = nat fd"
    by (simp add: create_connection_def set_cork_enabled_def Connection_def update_last_active_def Let_def)
  have "w_fd ?w = (w_fd w)(c := nat fd)" using fd by (auto simp: w_fd_def upd_conn_def)
  then have "stages_ok cap n m ?w" using assms by (auto simp: stages_ok_def upd_conn_def map_fun_upd)
  from well_typedE [OF in_sched_add_ok this] show ?thesis using assms(1) by (metis accept_round_def)
qed

lemma add_poll_ok:
  assumes "stages_ok cap n m w"
  shows "stages_ok cap (Suc n) m (in_add_poll (Poller_new cap now) w)" "stages_ok cap n (Suc m) (out_add_poll (Poller_new cap now) w)"
  using assms Poller_new_ok by (auto simp: stages_ok_def in_add_poll_def out_add_poll_def w_fd_def [abs_def])

lemma block_round_ok: "well_typed (stages_ok cap n m) (stage_round (block_process_task k rs fin) c)"
  using block_ok(2) [of cap n m k rs fin c] by (fastforce simp: well_typed_def stage_round_def stages_ok_lock)

lemma stage_step_ok:
  assumes "stages_ok cap n m w" and "stage_step cap k w r"
  shows "\<exists>w' n' m'. r = Some w' \<and> stages_ok cap n' m' w'"
  using assms(2)
proof cases
  case (accept fd c timeout cork now)
  then show ?thesis using accept_ok [OF assms(1)] by blast
next
  case (in_poller now)
  then show ?thesis using add_poll_ok(1) [OF assms(1)] by blast
next
  case (out_poller now)
  then show ?thesis using add_poll_ok(2) [OF assms(1)] by blast
next
  case (in_rounds i tmo rs)
  have "well_typed (stages_ok cap n m) (rounds (in_round k tmo i) rs)"
    using in_rounds assms(1) by (intro in_rounds_ok) (auto simp: stages_ok_def [of cap n m w])
  then show ?thesis using assms(1) in_rounds unfolding well_typed_def by blast
next
  case (out_rounds i tmo rs)
  have "well_typed (stages_ok cap n m) (rounds (out_round k tmo unlock i) rs)"
    using out_rounds assms(1) by (intro out_rounds_ok) (auto simp: stages_ok_def [of cap n m w] stages_ok_lock)
  then show ?thesis using assms(1) out_rounds unfolding well_typed_def by blast
next
  case (parsed c)
  have "stages_ok cap n m (w\<lparr>parser_q := queue_remove (w_fd w) c (parser_q w)\<rparr>)"
    using assms(1) distinct_queue_remove [of "w_fd w" "parser_q w" c] by (simp add: stages_ok_def w_fd_def [abs_def])
  then show ?thesis using parsed stages_ok_lock(1) by blast
next
  case (reply_poll now c)
  then show ?thesis using out_sched_add_ok [of cap n m k now c] assms(1) unfolding well_typed_def by blast
next
  case (reply_block c)
  then show ?thesis using block_ok(1) [of cap n m k c] assms(1) unfolding well_typed_def by blast
next
  case (block_task rs dn c)
  then show ?thesis using block_round_ok [of cap n m k rs dn c] assms(1) unfolding well_typed_def by blast
next
  case (close c)
  then show ?thesis using active_close_ok [of cap n m k c] assms(1) unfolding well_typed_def by blast
next
  case (poll_again c)
  then show ?thesis using poll_ok(1) [of cap n m k c] assms(1) unfolding well_typed_def by blast
qed



definition start_world :: "nat \<Rightarrow> world" where
  "start_world cap = \<lparr>conns = (\<lambda>_. Connection 0 0), in_pollers = [Poller_new cap 0], in_current = 0, out_pollers = [Poller_new cap 0], out_current = 0,
     parser_q = [], block_q = [], shut_fds = [], closed_socks = [], disposed = []\<rparr>"

lemma start_world_ok: "0 < cap \<Longrightarrow> stages_ok cap 1 1 (start_world cap)"
  by (simp add: stages_ok_def start_world_def Poller_new_ok w_fd_def Connection_def update_last_active_def Let_def)


end
