(* ===== verification/Capi.thy ===== *)
theory Capi
  imports Static_Handler Response
begin

text \<open>
  The C interface for handlers written in C (\<^verbatim>\<open>src/http/capi_impl.cc\<close>) and the loader of modules (\<^verbatim>\<open>src/http/module.c\<close>).  A C string is the text up to
  the first zero character; 64-bit lengths are words.  The dynamic linker and the directory are parameters of the loader.
\<close>

section \<open>C strings\<close>

definition c_str :: "string \<Rightarrow> string" where
  "c_str s = takeWhile (\<lambda>c. c \<noteq> CHR 0x00) s"

definition strndup :: "nat \<Rightarrow> string \<Rightarrow> string" where
  "strndup n s = take n (c_str s)"

section \<open>Handlers\<close>

definition MAX_OPTION_LEN :: nat where "MAX_OPTION_LEN = 128"
definition MAX_HEADER_VALUE_LEN :: nat where "MAX_HEADER_VALUE_LEN = 128"

definition tube_http_handler_get_name :: "'p handler_obj \<Rightarrow> string" where
  "tube_http_handler_get_name h = c_str (h_name h)"

definition tube_http_handler_option :: "'p handler_obj \<Rightarrow> string \<Rightarrow> string" where
  "tube_http_handler_option h name = strndup MAX_OPTION_LEN (handler_option h (c_str name))"

definition tube_http_handler_add_option :: "string \<Rightarrow> string \<Rightarrow> 'p handler_obj \<Rightarrow> 'p handler_obj" where
  "tube_http_handler_add_option name value h = add_option (c_str name) (c_str value) h"

text \<open>A descriptor registers a factory under its module name; its handlers call the functions of the descriptor.\<close>

record ('s, 'io) handler_desc =
  create_handler :: 's
  desc_handle_request :: "request_data \<Rightarrow> 'io \<times> 's \<Rightarrow> 'io \<times> 's"
  desc_module_name :: string
  desc_vender_name :: string

definition tube_http_handler_descriptor_register :: "('s, 'io) handler_desc \<Rightarrow> 'p handler_config \<Rightarrow> 'p handler_config" where
  "tube_http_handler_descriptor_register desc cfg = register_handler_factory (c_str (desc_module_name desc)) cfg"

definition adapter_handle_request :: "('s, 'io) handler_desc \<Rightarrow> request_data \<Rightarrow> 'io \<times> 's \<Rightarrow> (bool \<times> 'io \<times> 's) option" where
  "adapter_handle_request desc req ios = (let (io, st) = desc_handle_request desc req ios in Some (False, io, st))"

section \<open>Requests\<close>

definition tube_http_request_get_method :: "request_data \<Rightarrow> int" where "tube_http_request_get_method r = rq_method r"
definition tube_http_request_get_content_length :: "request_data \<Rightarrow> 64 word" where
  "tube_http_request_get_content_length r = word_of_nat (rq_content_length r)"
definition tube_http_request_get_transfer_encoding :: "request_data \<Rightarrow> int" where
  "tube_http_request_get_transfer_encoding r = rq_transfer_encoding r"
definition tube_http_request_get_version_major :: "request_data \<Rightarrow> int" where "tube_http_request_get_version_major r = rq_version_major r"
definition tube_http_request_get_version_minor :: "request_data \<Rightarrow> int" where "tube_http_request_get_version_minor r = rq_version_minor r"
definition tube_http_request_get_keep_alive :: "request_data \<Rightarrow> int" where
  "tube_http_request_get_keep_alive r = (if rq_keep_alive r then 1 else 0)"
definition tube_http_request_get_path :: "request_data \<Rightarrow> string" where "tube_http_request_get_path r = c_str (rq_path r)"
definition tube_http_request_get_uri :: "request_data \<Rightarrow> string" where "tube_http_request_get_uri r = c_str (rq_uri r)"
definition tube_http_request_get_query_string :: "request_data \<Rightarrow> string" where
  "tube_http_request_get_query_string r = c_str (rq_query_string r)"
definition tube_http_request_get_fragment :: "request_data \<Rightarrow> string" where "tube_http_request_get_fragment r = c_str (rq_fragment r)"
definition tube_http_request_get_method_string :: "request_data \<Rightarrow> string" where
  "tube_http_request_get_method_string r = method_string (rq_method r)"

definition tube_http_request_set_uri :: "string \<Rightarrow> request_data \<Rightarrow> request_data" where
  "tube_http_request_set_uri uri r = r\<lparr>rq_uri := c_str uri\<rparr>"

text \<open>The loop over the headers compares keys exactly; \<open>None\<close> is a null pointer.\<close>

fun find_header_loop :: "header list \<Rightarrow> string \<Rightarrow> string option" where
  "find_header_loop [] key = None"
| "find_header_loop ((k, v) # hs) key = (if k = key then Some (c_str v) else find_header_loop hs key)"

definition tube_http_request_find_header_value :: "request_data \<Rightarrow> string \<Rightarrow> string option" where
  "tube_http_request_find_header_value r key = find_header_loop (rq_headers r) (c_str key)"

definition tube_http_request_has_header :: "request_data \<Rightarrow> string \<Rightarrow> int" where
  "tube_http_request_has_header r key = (if tube_http_request_find_header_value r key \<noteq> None then 1 else 0)"

definition tube_http_request_find_header_values :: "request_data \<Rightarrow> string \<Rightarrow> string list \<times> nat" where
  "tube_http_request_find_header_values r key =
    (let vals = find_header_values (rq_headers r) (c_str key) in (map (strndup MAX_HEADER_VALUE_LEN) vals, length vals))"

definition tube_http_request_read_data :: "(nat \<Rightarrow> byte list option) \<Rightarrow> nat \<Rightarrow> 'p http_conn \<Rightarrow> (int \<times> byte list \<times> 'p http_conn) option" where
  "tube_http_request_read_data sysread n c = http_read_data sysread n c"

section \<open>Responses\<close>

definition tube_http_response_add_header :: "string \<Rightarrow> string \<Rightarrow> http_response \<Rightarrow> http_response" where
  "tube_http_response_add_header key value r = add_header (c_str key) (c_str value) r"

definition tube_http_response_set_has_content_length :: "int \<Rightarrow> http_response \<Rightarrow> http_response" where
  "tube_http_response_set_has_content_length val r = r\<lparr>has_content_length := val \<noteq> 0\<rparr>"

definition tube_http_response_has_content_length :: "http_response \<Rightarrow> int" where
  "tube_http_response_has_content_length r = (if has_content_length r then 1 else 0)"

text \<open>Lengths cross the interface as unsigned numbers and are stored signed.\<close>

definition tube_http_response_set_content_length :: "64 word \<Rightarrow> http_response \<Rightarrow> http_response" where
  "tube_http_response_set_content_length n r = set_content_length (sint n) r"

definition tube_http_response_get_content_length :: "http_response \<Rightarrow> 64 word" where
  "tube_http_response_get_content_length r = word_of_int (content_length r)"

definition tube_http_response_disable_prepare_buffer :: "http_response \<Rightarrow> http_response" where
  "tube_http_response_disable_prepare_buffer r = disable_prepare_buffer r"

definition tube_http_response_write_data :: "string \<Rightarrow> nat \<Rightarrow> http_response \<Rightarrow> int \<times> http_response" where
  "tube_http_response_write_data ptr n r = (int n, write_data (take n ptr) r)"

definition tube_http_response_write_string :: "string \<Rightarrow> http_response \<Rightarrow> int \<times> http_response" where
  "tube_http_response_write_string str r = (int (length (c_str str)), write_data (c_str str) r)"

definition tube_http_response_write_file :: "int \<Rightarrow> int \<Rightarrow> int \<Rightarrow> handler_io \<Rightarrow> handler_io" where
  "tube_http_response_write_file fd off len io = response_write_file fd off len io"

definition tube_http_response_flush_data :: "(nat \<Rightarrow> socket) \<Rightarrow> core_response \<Rightarrow> core_response option" where
  "tube_http_response_flush_data sk r = map_option snd (flush_data sk r)"

definition tube_http_response_close :: "core_response \<Rightarrow> core_response" where
  "tube_http_response_close r = response_close r"

definition tube_http_response_respond :: "int \<Rightarrow> string \<Rightarrow> http_response \<Rightarrow> http_response" where
  "tube_http_response_respond code why r = respond (status_of_code code (c_str why)) r"

section \<open>Modules\<close>

text \<open>A module: its handle (\<open>None\<close> for a module linked into the server), name and hooks, as numbers.\<close>

record tube_module =
  mod_handle :: "nat option"
  mod_name :: string
  mod_vendor :: string
  mod_description :: string
  on_load :: "nat option"
  on_initialize :: "nat option"
  on_finalize :: "nat option"

definition MAX_MODULE_CNT :: nat where "MAX_MODULE_CNT = 256"
definition MAX_ERROR_LENGTH :: nat where "MAX_ERROR_LENGTH = 1024"

text \<open>The loader: the array's registered part, the error message as an address, the live blocks, and the hooks called and libraries closed so far.\<close>

datatype module_effect = CallHook nat | Dlclose nat | PrintName string | PrintError "string option"

record loader =
  modules :: "tube_module list"
  last_error :: "nat option"
  blocks :: "nat \<rightharpoonup> string"
  next_block :: nat
  effects :: "module_effect list"

text \<open>\<open>set_last_error\<close>: freeing a block that is not live is \<open>None\<close>.\<close>

definition set_last_error :: "string option \<Rightarrow> loader \<Rightarrow> loader option" where
  "set_last_error error l =
    (case (case last_error l of None \<Rightarrow> Some (blocks l) | Some a \<Rightarrow> if blocks l a = None then None else Some ((blocks l)(a := None))) of
       None \<Rightarrow> None
     | Some bs \<Rightarrow>
        (case error of
           None \<Rightarrow> Some (l\<lparr>blocks := bs\<rparr>)
         | Some msg \<Rightarrow> Some (l\<lparr>blocks := bs(next_block l \<mapsto> strndup 1024 msg), last_error := Some (next_block l), next_block := Suc (next_block l)\<rparr>)))"

text \<open>\<open>tube_module_last_error\<close> read by its caller: the outer \<open>None\<close> is a dangling pointer, the inner a null pointer.\<close>

definition tube_module_last_error :: "loader \<Rightarrow> string option option" where
  "tube_module_last_error l = (case last_error l of None \<Rightarrow> Some None | Some a \<Rightarrow> map_option Some (blocks l a))"

text \<open>The dynamic linker: opening a file, the symbol in a library, and what \<open>dlerror\<close> returns after a failed \<open>dlopen\<close> and after the \<open>dlclose\<close> that follows a
  failed \<open>dlsym\<close>.\<close>

record linker =
  dl_open :: "string \<rightharpoonup> nat"
  dl_module :: "nat \<rightharpoonup> tube_module"
  dl_open_error :: "string \<Rightarrow> string option"
  dl_close_error :: "nat \<Rightarrow> string option"

definition add_effects :: "module_effect list \<Rightarrow> loader \<Rightarrow> loader" where
  "add_effects es l = l\<lparr>effects := effects l @ es\<rparr>"

definition call_hook :: "nat option \<Rightarrow> module_effect list" where
  "call_hook h = (case h of None \<Rightarrow> [] | Some f \<Rightarrow> [CallHook f])"

definition tube_module_load :: "linker \<Rightarrow> string \<Rightarrow> loader \<Rightarrow> (tube_module option \<times> loader) option" where
  "tube_module_load dl filename l =
    (case dl_open dl filename of
       None \<Rightarrow> map_option (Pair None) (set_last_error (dl_open_error dl filename) l)
     | Some handle \<Rightarrow>
        (case dl_module dl handle of
           None \<Rightarrow> map_option (Pair None) (set_last_error (dl_close_error dl handle) (add_effects [Dlclose handle] l))
         | Some m \<Rightarrow> let m1 = m\<lparr>mod_handle := Some handle\<rparr> in Some (Some m1, add_effects (call_hook (on_load m1)) l)))"

text \<open>Registration: the array has \<open>MAX_MODULE_CNT\<close> entries and its end is not checked; \<open>None\<close> is the write behind it.\<close>

definition tube_module_register_module :: "tube_module \<Rightarrow> loader \<Rightarrow> loader option" where
  "tube_module_register_module m l = (if length (modules l) < MAX_MODULE_CNT then Some (l\<lparr>modules := modules l @ [m]\<rparr>) else None)"

definition tube_module_initialize_all :: "loader \<Rightarrow> loader" where
  "tube_module_initialize_all l = add_effects (concat (map (\<lambda>m. PrintName (mod_name m) # call_hook (on_initialize m)) (modules l))) l"

text \<open>\<open>dlclose\<close> of the null handle of a linked module is undefined: \<open>None\<close>.\<close>

fun finalize_loop :: "tube_module list \<Rightarrow> loader \<Rightarrow> loader option" where
  "finalize_loop [] l = Some l"
| "finalize_loop (m # ms) l =
    (case mod_handle m of None \<Rightarrow> None | Some h \<Rightarrow> finalize_loop ms (add_effects (call_hook (on_finalize m) @ [Dlclose h]) l))"

definition tube_module_finalize_all :: "loader \<Rightarrow> loader option" where
  "tube_module_finalize_all l = finalize_loop (modules l) l"

text \<open>Whether a file is a library; \<open>None\<close> when the name is shorter than its extension and the comparison begins before it.\<close>

definition is_file_shared_object :: "string option \<Rightarrow> bool option" where
  "is_file_shared_object filename =
    (case filename of
       None \<Rightarrow> Some False
     | Some f \<Rightarrow> if f = [] \<or> f ! 0 = CHR ''.'' then Some False
                 else if length f < 3 then None
                 else Some (drop (length f - 3) f = ''.so''))"

definition load_entry_path :: "nat \<Rightarrow> string \<Rightarrow> string \<Rightarrow> string" where
  "load_entry_path max_path_length dirname fname = take (max_path_length - 1) (dirname @ ''/'' @ fname)"

fun load_dir_loop :: "linker \<Rightarrow> nat \<Rightarrow> string \<Rightarrow> string list \<Rightarrow> loader \<Rightarrow> loader option" where
  "load_dir_loop dl n dirname [] l = Some l"
| "load_dir_loop dl n dirname (fname # ents) l =
    (case is_file_shared_object (Some fname) of
       None \<Rightarrow> None
     | Some False \<Rightarrow> load_dir_loop dl n dirname ents l
     | Some True \<Rightarrow>
        (case tube_module_load dl (load_entry_path n dirname fname) l of
           None \<Rightarrow> None
         | Some (Some m, l1) \<Rightarrow> Option.bind (tube_module_register_module m l1) (load_dir_loop dl n dirname ents)
         | Some (None, l1) \<Rightarrow>
            (case tube_module_last_error l1 of
               None \<Rightarrow> None
             | Some e \<Rightarrow> load_dir_loop dl n dirname ents (add_effects [PrintError e] l1))))"

text \<open>\<open>pathconf\<close> gives the length, or a negative number; the entries are \<open>None\<close> when the directory cannot be opened.\<close>

definition tube_module_load_dir :: "linker \<Rightarrow> int \<Rightarrow> string list option \<Rightarrow> string \<Rightarrow> loader \<Rightarrow> (int \<times> loader) option" where
  "tube_module_load_dir dl max_path_length ents dirname l =
    (if max_path_length < 0 then Some (0, l)
     else case ents of
            None \<Rightarrow> Some (0, l)
          | Some es \<Rightarrow> map_option (Pair 1) (load_dir_loop dl (nat max_path_length) dirname es l))"


section \<open>The C interface forwards\<close>

lemma c_str_id: "CHR 0x00 \<notin> set s \<Longrightarrow> c_str s = s"
  by (auto simp: c_str_def takeWhile_eq_all_conv)

lemma strndup_id: "CHR 0x00 \<notin> set s \<Longrightarrow> length s \<le> n \<Longrightarrow> strndup n s = s"
  by (simp add: strndup_def c_str_id)

text \<open>With texts that contain no zero character the C calls are the calls of the classes.\<close>

lemma capi_transparent:
  assumes "CHR 0x00 \<notin> set key" and "CHR 0x00 \<notin> set v"
  shows "tube_http_handler_add_option key v h = add_option key v h"
    "length (handler_option h key) \<le> MAX_OPTION_LEN \<Longrightarrow> CHR 0x00 \<notin> set (handler_option h key) \<Longrightarrow> tube_http_handler_option h key = handler_option h key"
    "tube_http_response_add_header key v r = add_header key v r"
    "tube_http_response_write_string v r = (int (length v), write_data v r)"
    "tube_http_response_respond code v r = respond (status_of_code code v) r"
    "tube_http_request_has_header q key = (if has_header (rq_headers q) key then 1 else 0)"
proof -
  have "find_header_loop hs k \<noteq> None \<longleftrightarrow> has_header hs k" for hs k by (induction hs k rule: find_header_loop.induct) auto
  then show "tube_http_request_has_header q key = (if has_header (rq_headers q) key then 1 else 0)"
    using assms by (simp add: tube_http_request_has_header_def tube_http_request_find_header_value_def c_str_id)
qed (simp_all add: assms c_str_id tube_http_handler_add_option_def tube_http_handler_option_def strndup_id tube_http_response_add_header_def
    tube_http_response_write_string_def tube_http_response_respond_def)

text \<open>A value longer than the limit is cut without notice.\<close>

lemma long_values_cut: "MAX_OPTION_LEN < length v \<Longrightarrow> CHR 0x00 \<notin> set v \<Longrightarrow> CHR 0x00 \<notin> set key \<Longrightarrow>
    tube_http_handler_option (add_option key v h) key = take MAX_OPTION_LEN v"
  by (simp add: tube_http_handler_option_def strndup_def c_str_id handler_option_def add_option_def)

text \<open>The C function for a single header distinguishes upper and lower case, the method of the class does not.\<close>

lemma capi_header_case:
  assumes "rq_headers r = [(''Host'', ''x'')]"
  shows "tube_http_request_find_header_value r ''host'' = None \<and> find_header_value (rq_headers r) ''host'' = ''x''"
  using assms by (simp add: tube_http_request_find_header_value_def c_str_def ignore_compare_def char_val_def char_code_def)

lemma content_length_roundtrip: "tube_http_response_get_content_length (tube_http_response_set_content_length n r) = n"
  by (simp add: tube_http_response_get_content_length_def tube_http_response_set_content_length_def set_content_length_def)

section \<open>Loading modules\<close>

definition loader_ok :: "loader \<Rightarrow> bool" where
  "loader_ok l \<longleftrightarrow> (case last_error l of None \<Rightarrow> blocks l = Map.empty | Some a \<Rightarrow> a < next_block l \<and> (\<exists>s. blocks l = [a \<mapsto> s]))"

text \<open>An error with a message keeps one live block, which holds it.\<close>

lemma set_last_error_ok:
  assumes "loader_ok l"
  shows "\<exists>l'. set_last_error (Some msg) l = Some l' \<and> loader_ok l' \<and> tube_module_last_error l' = Some (Some (strndup 1024 msg)) \<and>
    modules l' = modules l \<and> effects l' = effects l"
proof (cases "last_error l")
  case None
  then show ?thesis using assms by (auto simp: loader_ok_def set_last_error_def tube_module_last_error_def)
next
  case (Some a)
  then obtain s where "blocks l = [a \<mapsto> s]" "a < next_block l" using assms by (auto simp: loader_ok_def)
  then show ?thesis using Some by (auto simp: loader_ok_def set_last_error_def tube_module_last_error_def)
qed

text \<open>The modules of a directory: the entries that are libraries, can be opened and export a module.\<close>

definition entry_module :: "linker \<Rightarrow> nat \<Rightarrow> string \<Rightarrow> string \<Rightarrow> tube_module option" where
  "entry_module dl n dirname fname =
    (if is_file_shared_object (Some fname) = Some True
     then Option.bind (dl_open dl (load_entry_path n dirname fname)) (\<lambda>h. map_option (\<lambda>m. m\<lparr>mod_handle := Some h\<rparr>) (dl_module dl h))
     else None)"

lemma load_entry:
  assumes "loader_ok l" and "\<And>f. dl_open_error dl f \<noteq> None" and "\<And>h. dl_module dl h = None \<Longrightarrow> dl_close_error dl h \<noteq> None"
    and "is_file_shared_object (Some fname) = Some True"
  shows "\<exists>l'. tube_module_load dl (load_entry_path n dirname fname) l = Some (entry_module dl n dirname fname, l') \<and> loader_ok l' \<and>
    modules l' = modules l \<and> (entry_module dl n dirname fname = None \<longrightarrow> tube_module_last_error l' \<noteq> None)"
proof -
  let ?f = "load_entry_path n dirname fname"
  have eff: "loader_ok (add_effects es l)" "modules (add_effects es l) = modules l" for es using assms(1) by (auto simp: loader_ok_def add_effects_def split: option.splits)
  obtain m1 where m1: "dl_open_error dl ?f = Some m1" using assms(2) by blast
  show ?thesis
  proof (cases "dl_open dl ?f")
    case None
    then show ?thesis using set_last_error_ok [OF assms(1), of m1] m1 assms(4) by (auto simp: tube_module_load_def entry_module_def)
  next
    case (Some h)
    show ?thesis
    proof (cases "dl_module dl h")
      case None
      obtain m2 where "dl_close_error dl h = Some m2" using assms(3) [OF None] by blast
      then show ?thesis using Some None set_last_error_ok [OF eff(1), of m2 "[Dlclose h]"] assms(4) eff
        by (auto simp: tube_module_load_def entry_module_def)
    next
      case (Some m)
      then show ?thesis using \<open>dl_open dl ?f = Some h\<close> assms(4) eff by (auto simp: tube_module_load_def entry_module_def Let_def)
    qed
  qed
qed

lemma load_dir_loop_registers:
  assumes "\<And>f. dl_open_error dl f \<noteq> None" and "\<And>h. dl_module dl h = None \<Longrightarrow> dl_close_error dl h \<noteq> None"
  shows "loader_ok l \<Longrightarrow> \<forall>f \<in> set ents. f = [] \<or> f ! 0 = CHR ''.'' \<or> 3 \<le> length f \<Longrightarrow>
    length (modules l) + length (List.map_filter (entry_module dl n dirname) ents) \<le> MAX_MODULE_CNT \<Longrightarrow>
    \<exists>l'. load_dir_loop dl n dirname ents l = Some l' \<and> loader_ok l' \<and> modules l' = modules l @ List.map_filter (entry_module dl n dirname) ents"
proof (induction ents arbitrary: l)
  case (Cons f ents)
  have nn: "is_file_shared_object (Some f) \<noteq> None" using Cons.prems(2) by (auto simp: is_file_shared_object_def)
  show ?case
  proof (cases "is_file_shared_object (Some f) = Some True")
    case False
    then have "is_file_shared_object (Some f) = Some False" "entry_module dl n dirname f = None" using nn by (auto simp: entry_module_def)
    then show ?thesis using Cons.IH [OF Cons.prems(1)] Cons.prems(2,3) by (simp add: map_filter_simps)
  next
    case True
    from load_entry [OF Cons.prems(1) assms True, of n dirname] obtain l1 where
      l1: "tube_module_load dl (load_entry_path n dirname f) l = Some (entry_module dl n dirname f, l1)" "loader_ok l1" "modules l1 = modules l"
        "entry_module dl n dirname f = None \<longrightarrow> tube_module_last_error l1 \<noteq> None" by auto
    show ?thesis
    proof (cases "entry_module dl n dirname f")
      case None
      then obtain e where e: "tube_module_last_error l1 = Some e" using l1(4) by blast
      have "loader_ok (add_effects [PrintError e] l1)" "modules (add_effects [PrintError e] l1) = modules l"
        using l1(2,3) by (auto simp: loader_ok_def add_effects_def split: option.splits)
      from Cons.IH [OF this(1)] show ?thesis using Cons.prems(2,3) True None l1(1) e \<open>modules (add_effects _ _) = _\<close> by (simp add: map_filter_simps)
    next
      case (Some m)
      let ?l2 = "l1\<lparr>modules := modules l1 @ [m]\<rparr>"
      have ok: "loader_ok ?l2" using l1(2) by (auto simp: loader_ok_def split: option.splits)
      have r: "tube_module_register_module m l1 = Some ?l2"
        using Cons.prems(3) Some l1(3) by (simp add: tube_module_register_module_def map_filter_simps)
      have "\<exists>l'. load_dir_loop dl n dirname ents ?l2 = Some l' \<and> loader_ok l' \<and> modules l' = modules ?l2 @ List.map_filter (entry_module dl n dirname) ents"
        using Cons.prems(2,3) Some l1(3) by (intro Cons.IH [OF ok]) (auto simp: map_filter_simps)
      then show ?thesis using True Some l1 r by (simp add: map_filter_simps)
    qed
  qed
qed (simp add: map_filter_simps)


text \<open>A library that exports no module: \<open>dlclose\<close> clears the linker's error before it is asked for.  The loader then keeps a pointer to the message it has
  freed, which the caller prints, and which the next error frees again.\<close>

lemma missing_symbol_dangles:
  assumes "dl_open dl f = Some h" and "dl_module dl h = None" and "dl_close_error dl h = None" and "last_error l = Some a" and "blocks l a \<noteq> None"
  shows "\<exists>l'. tube_module_load dl f l = Some (None, l') \<and> tube_module_last_error l' = None \<and> set_last_error e l' = None"
  using assms by (simp add: tube_module_load_def set_last_error_def add_effects_def tube_module_last_error_def)

text \<open>The name of a file shorter than its extension is read from before its beginning; the array of modules is written behind its end; a
  module linked into the server has no handle to close.\<close>

lemma loader_bounds:
  "is_file_shared_object (Some ''ab'') = None"
  "length (modules l) = MAX_MODULE_CNT \<Longrightarrow> tube_module_register_module m l = None"
  "mod_handle m = None \<Longrightarrow> modules l = m # ms \<Longrightarrow> tube_module_finalize_all l = None"
  by (simp_all add: is_file_shared_object_def tube_module_register_module_def tube_module_finalize_all_def)

text \<open>Initialisation and finalisation visit the modules in the order of registration.\<close>

lemma finalize_in_order:
  assumes "\<forall>m \<in> set (modules l). mod_handle m \<noteq> None"
  shows "tube_module_finalize_all l = Some (add_effects (concat (map (\<lambda>m. call_hook (on_finalize m) @ [Dlclose (the (mod_handle m))]) (modules l))) l)"
proof -
  have "\<forall>m \<in> set ms. mod_handle m \<noteq> None \<Longrightarrow>
      finalize_loop ms l = Some (add_effects (concat (map (\<lambda>m. call_hook (on_finalize m) @ [Dlclose (the (mod_handle m))]) ms)) l)" for ms l
    by (induction ms l rule: finalize_loop.induct) (auto simp: add_effects_def)
  then show ?thesis using assms by (simp add: tube_module_finalize_all_def)
qed

section \<open>Properties\<close>

text \<open>Loading a directory registers exactly the modules it holds.  When the dynamic linker explains its failures, no visible file has a name
  shorter than three characters and the array is large enough, the loader goes through the whole directory, registers the
  modules of the libraries that can be opened and export one, in the order of the directory, behind those registered before, with their handles, and
  reports the others; its error message is always valid memory.\<close>

lemma load_dir_registers:
  assumes "loader_ok l" and "0 \<le> n" and "\<And>f. dl_open_error dl f \<noteq> None" and "\<And>h. dl_module dl h = None \<Longrightarrow> dl_close_error dl h \<noteq> None"
    and "\<forall>f \<in> set ents. f = [] \<or> f ! 0 = CHR ''.'' \<or> 3 \<le> length f"
    and "length (modules l) + length (List.map_filter (entry_module dl (nat n) dirname) ents) \<le> MAX_MODULE_CNT"
  shows "\<exists>l'. tube_module_load_dir dl n (Some ents) dirname l = Some (1, l') \<and> loader_ok l' \<and>
    modules l' = modules l @ List.map_filter (entry_module dl (nat n) dirname) ents"
  using load_dir_loop_registers [OF assms(3,4,1,5,6)] assms(2) by (auto simp: tube_module_load_dir_def)

definition sample_linker :: linker where
  "sample_linker = \<lparr>dl_open = [''m/a.so'' \<mapsto> 1, ''m/c.so'' \<mapsto> 2],
     dl_module = (\<lambda>h. Some \<lparr>mod_handle = None, mod_name = ''mod'', mod_vendor = ''v'', mod_description = ''d'', on_load = None, on_initialize = Some h, on_finalize = None\<rparr>),
     dl_open_error = (\<lambda>f. Some (''cannot open '' @ f)), dl_close_error = (\<lambda>_. None)\<rparr>"

end
