(* ===== verification/Module_Init.thy ===== *)
theory Module_Init
  imports Server Capi
begin

text \<open>
  The modules that come with the server and what their hooks do (\<^verbatim>\<open>src/http/static.mod.c\<close>, \<^verbatim>\<open>src/http/static_handler.cc\<close>, \<^verbatim>\<open>src/modules/mod_fcgi\<close>,
  \<^verbatim>\<open>src/modules/mod_python\<close>), and the start of the whole process as \<open>main\<close> in \<^verbatim>\<open>src/http/server.cc\<close> composes it: the modules' hooks run before the
  server's own stages are constructed.
\<close>

section \<open>The modules\<close>

text \<open>The numbers of the hooks.\<close>

definition static_init :: nat where "static_init = 1"
definition fcgi_init :: nat where "fcgi_init = 2"
definition fcgi_finit :: nat where "fcgi_finit = 3"
definition python_init :: nat where "python_init = 4"
definition python_finit :: nat where "python_finit = 5"

lemmas hook_numbers = static_init_def fcgi_init_def fcgi_finit_def python_init_def python_finit_def

definition static_module :: tube_module where
  "static_module = \<lparr>mod_handle = None, mod_name = ''mod_static'', mod_vendor = ''tube server'', mod_description = ''Static Handler in Tube'',
     on_load = None, on_initialize = Some static_init, on_finalize = None\<rparr>"

definition fcgi_module :: tube_module where
  "fcgi_module = \<lparr>mod_handle = None, mod_name = ''mod_fcgi'', mod_vendor = ''tube server'', mod_description = ''Fcgi Handler in Tube'',
     on_load = None, on_initialize = Some fcgi_init, on_finalize = Some fcgi_finit\<rparr>"

definition python_module :: tube_module where
  "python_module = \<lparr>mod_handle = None, mod_name = ''mod_python'', mod_vendor = ''tube server'', mod_description = ''Python Handler in Tube'',
     on_load = None, on_initialize = Some python_init, on_finalize = Some python_finit\<rparr>"

section \<open>The hooks\<close>

text \<open>The parts of the process they change: registered factories and stages, the module's pointer to its stage, and whether the interpreter runs.\<close>

record 'p process =
  pr_handlers :: "'p handler_config"
  pr_pipeline :: pipeline
  pr_fcgi_stage :: "nat option"
  pr_python :: bool

definition register_factory :: "string \<Rightarrow> 'p process \<Rightarrow> 'p process" where
  "register_factory module p = p\<lparr>pr_handlers := register_handler_factory module (pr_handlers p)\<rparr>"

definition tube_http_static_module_init :: "'p process \<Rightarrow> 'p process" where
  "tube_http_static_module_init p = register_factory ''static'' p"

definition tube_http_fcgi_module_init :: "'p process \<Rightarrow> 'p process" where
  "tube_http_fcgi_module_init p =
    register_factory ''fastcgi''
      (p\<lparr>pr_fcgi_stage := Some (length (pl_stages (pr_pipeline p))), pr_pipeline := new_stage FcgiCompletionStage (pr_pipeline p)\<rparr>)"

definition tube_http_fcgi_module_finit :: "'p process \<Rightarrow> 'p process" where
  "tube_http_fcgi_module_finit p = p\<lparr>pr_fcgi_stage := None\<rparr>"

definition tube_http_python_module_init :: "'p process \<Rightarrow> 'p process" where
  "tube_http_python_module_init p = register_factory ''python'' (p\<lparr>pr_python := True\<rparr>)"

definition tube_http_python_module_finit :: "'p process \<Rightarrow> 'p process" where
  "tube_http_python_module_finit p = p\<lparr>pr_python := False\<rparr>"

text \<open>Calling a hook by its number; other numbers are hooks of modules this development does not know, and do nothing here.\<close>

definition run_hook :: "nat \<Rightarrow> 'p process \<Rightarrow> 'p process" where
  "run_hook f p =
    (if f = static_init then tube_http_static_module_init p
     else if f = fcgi_init then tube_http_fcgi_module_init p
     else if f = fcgi_finit then tube_http_fcgi_module_finit p
     else if f = python_init then tube_http_python_module_init p
     else if f = python_finit then tube_http_python_module_finit p
     else p)"

fun run_effect :: "module_effect \<Rightarrow> 'p process \<Rightarrow> 'p process" where
  "run_effect (CallHook f) p = run_hook f p"
| "run_effect e p = p"

text \<open>\<open>main\<close> up to the accept loop, when the options are accepted and the modules are loaded: their hooks run, the server is constructed with the stages of
  the chosen mode, binds, listens, initializes and starts the stages.  \<open>load\<close> is \<open>ServerConfig::load_config\<close>, which may change the pipeline's thread numbers.\<close>

definition init_modules :: "loader \<Rightarrow> 'p process \<Rightarrow> 'p process" where
  "init_modules l p = fold run_effect (effects (tube_module_initialize_all (l\<lparr>effects := []\<rparr>))) p"

definition construct_server :: "write_back_mode \<Rightarrow> 'p process \<Rightarrow> 'p process" where
  "construct_server mode p = p\<lparr>pr_pipeline := WebServer_stages mode (pr_pipeline p)\<rparr>"

definition boot ::
  "write_back_mode \<Rightarrow> ('p process \<Rightarrow> 'p process) \<Rightarrow> (int \<times> bool \<times> nat) list option \<Rightarrow> (int \<Rightarrow> bool) \<Rightarrow> loader \<Rightarrow> 'p process \<Rightarrow>
    start_error + int \<times> nat list \<times> pipeline" where
  "boot mode load candidates listens l p =
    start_server candidates listens (pr_pipeline (load (construct_server mode (init_modules l p))))"

section \<open>Lemmas\<close>

definition hook_factory :: "nat option \<Rightarrow> string option" where
  "hook_factory f = (if f = Some static_init then Some ''static'' else if f = Some fcgi_init then Some ''fastcgi''
     else if f = Some python_init then Some ''python'' else None)"

lemma init_modules_fold:
  "init_modules l p = fold (\<lambda>m. case on_initialize m of None \<Rightarrow> id | Some f \<Rightarrow> run_hook f) (modules l) p"
proof -
  have "fold run_effect (concat (map (\<lambda>m. PrintName (mod_name m) # call_hook (on_initialize m)) ms)) p =
      fold (\<lambda>m. case on_initialize m of None \<Rightarrow> id | Some f \<Rightarrow> run_hook f) ms p" for ms
    by (induction ms arbitrary: p) (auto simp: call_hook_def split: option.splits)
  then show ?thesis by (simp add: init_modules_def tube_module_initialize_all_def add_effects_def)
qed

text \<open>After the start exactly the factories of the loaded modules have been added.\<close>

lemma run_hook_factories: "factories (pr_handlers (run_hook f p)) m \<longleftrightarrow> factories (pr_handlers p) m \<or> hook_factory (Some f) = Some m"
  by (auto simp: run_hook_def hook_factory_def tube_http_static_module_init_def tube_http_fcgi_module_init_def tube_http_fcgi_module_finit_def
      tube_http_python_module_init_def tube_http_python_module_finit_def register_factory_def register_handler_factory_def hook_numbers)

lemma init_modules_factories:
  "factories (pr_handlers (init_modules l p)) m \<longleftrightarrow>
    factories (pr_handlers p) m \<or> (\<exists>x \<in> set (modules l). hook_factory (on_initialize x) = Some m)"
proof -
  have "factories (pr_handlers (fold (\<lambda>m. case on_initialize m of None \<Rightarrow> id | Some f \<Rightarrow> run_hook f) ms p)) m \<longleftrightarrow>
      factories (pr_handlers p) m \<or> (\<exists>x \<in> set ms. hook_factory (on_initialize x) = Some m)" for ms
  proof (induction ms arbitrary: p)
    case (Cons x ms)
    have "hook_factory None = None" by (simp add: hook_factory_def)
    then show ?case by (cases "on_initialize x") (auto simp: Cons.IH run_hook_factories)
  qed simp
  then show ?thesis by (simp add: init_modules_fold)
qed

text \<open>Whenever FastCGI handlers can be created, the completion stage that their constructor looks up is registered.\<close>

definition fcgi_ready :: "'p process \<Rightarrow> bool" where
  "fcgi_ready p \<longleftrightarrow> (factories (pr_handlers p) ''fastcgi'' \<longrightarrow> find_stage ''fcgi_completion'' (pr_pipeline p) \<noteq> None)"

lemma find_new_stage:
  "find_stage n (new_stage kind pl) =
    (if n = stage_name kind \<and> find_stage n pl = None then Some (length (pl_stages pl)) else find_stage n pl)"
proof -
  have "find_stage n (pl\<lparr>pl_stages := ss\<rparr>) = find_stage n pl" for n ss by (simp add: find_stage_def)
  then show ?thesis by (auto simp: new_stage_def Let_def set_connection_factory_def find_add_stage) (auto simp: find_stage_def add_stage_def stage_insert_lookup Let_def)
qed

lemma init_modules_ready: "fcgi_ready p \<Longrightarrow> fcgi_ready (init_modules l p)"
proof -
  have hook: "fcgi_ready (run_hook f p)" if "fcgi_ready p" for f and p :: "'a process"
    using that
    by (auto simp: fcgi_ready_def run_hook_def tube_http_static_module_init_def tube_http_fcgi_module_init_def tube_http_fcgi_module_finit_def
        tube_http_python_module_init_def tube_http_python_module_finit_def register_factory_def register_handler_factory_def find_new_stage)
  have "fcgi_ready p \<Longrightarrow> fcgi_ready (fold (\<lambda>m. case on_initialize m of None \<Rightarrow> id | Some f \<Rightarrow> run_hook f) ms p)" for ms and p :: "'a process"
    by (induction ms arbitrary: p) (auto split: option.splits intro: hook)
  then show "fcgi_ready p \<Longrightarrow> fcgi_ready (init_modules l p)" by (simp add: init_modules_fold)
qed

text \<open>The start of the server with all three modules, when an address can be bound and the configuration leaves the thread numbers alone: the listening socket is
  the first that was bound, the five stages find each other (reading to parsing to handling, the completion stage to the write back stage), and each gets a thread.\<close>

lemma boot_links:
  assumes "modules l = [static_module, fcgi_module\<lparr>mod_handle := Some a\<rparr>, python_module\<lparr>mod_handle := Some b\<rparr>]" and "pr_pipeline p = Pipeline"
    and "\<And>q. pr_pipeline (load q) = pr_pipeline q" and "candidates = Some as" and "fst (bind_loop as) = Some (fd, len)" and "listens fd"
  shows "\<exists>pl. boot mode load candidates listens l p = Inr (fd, [0, 4, 3, 1, 2], pl) \<and>
    map stage_kind (pl_stages pl) =
      [FcgiCompletionStage, PollInStage, case mode of kWriteBackModeBlock \<Rightarrow> BlockOutStage | kWriteBackModePoll \<Rightarrow> PollOutStage, HttpParserStage, HttpHandlerStage] \<and>
    map stage_link (pl_stages pl) = [Some 2, Some 3, None, Some 4, None] \<and> pl_write_back pl = Some 2 \<and> pl_poll_in pl = Some 1"
proof -
  have "pr_pipeline (init_modules l p) = new_stage FcgiCompletionStage Pipeline"
    using assms(2) by (simp add: init_modules_fold assms(1) static_module_def fcgi_module_def python_module_def run_hook_def hook_numbers
        tube_http_static_module_init_def tube_http_fcgi_module_init_def tube_http_python_module_init_def register_factory_def)
  then have "pr_pipeline (load (construct_server mode (init_modules l p))) = WebServer_stages mode (new_stage FcgiCompletionStage Pipeline)"
    using assms(3) by (simp add: construct_server_def)
  then show ?thesis using assms(4-6)
    by (cases mode) (simp_all add: boot_def start_server_def server_bind_def server_listen_def WebServer_stages_def Server_stages_def new_stage_def add_stage_def
        set_connection_factory_def Pipeline_def initialize_stages_def stage_initialize_def link_stage_def stage_insert_def find_stage_def start_stages_def char_code_def Let_def)
qed

end
