(* ===== verification/Poller_Backends.thy ===== *)
theory Poller_Backends
  imports Poller
begin

text \<open>
  The pollers for other systems: \<^verbatim>\<open>src/core/poller_impl/kqueue_poller.cc\<close> and \<^verbatim>\<open>src/core/poller_impl/port_completion_poller.cc\<close>.  The system calls are
  parameters.  With event ports an event removes the descriptor's association, and registrations are queued until the polling thread
  applies them; \<open>port_assoc\<close> is the kernel's table.
\<close>

unbundle bit_operations_syntax

section \<open>kqueue\<close>

text \<open>The constants of \<^verbatim>\<open>sys/event.h\<close>; the filters are small negative numbers, not masks.\<close>

definition EVFILT_READ :: "16 word" where "EVFILT_READ = - 1"
definition EVFILT_WRITE :: "16 word" where "EVFILT_WRITE = - 2"
definition EV_ADD :: "16 word" where "EV_ADD = 1"
definition EV_DELETE :: "16 word" where "EV_DELETE = 2"
definition EV_ENABLE :: "16 word" where "EV_ENABLE = 4"
definition EV_DISABLE :: "16 word" where "EV_DISABLE = 8"
definition EV_ERROR :: "16 word" where "EV_ERROR = 0x4000"
definition EV_EOF :: "16 word" where "EV_EOF = 0x8000"

definition build_kqueue_filter :: "16 word \<Rightarrow> 16 word" where
  "build_kqueue_filter evt =
    (let r0 = 0; r1 = (if evt AND kPollerEventRead \<noteq> 0 then r0 OR EVFILT_READ else r0)
     in if evt AND kPollerEventWrite \<noteq> 0 then r1 OR EVFILT_WRITE else r1)"

definition kqueue_poller_event :: "16 word \<Rightarrow> 16 word \<Rightarrow> 16 word" where
  "kqueue_poller_event flt events =
    (let e0 = 0;
         e1 = (if flt AND EVFILT_READ \<noteq> 0 then e0 OR kPollerEventRead else e0);
         e2 = (if flt AND EVFILT_WRITE \<noteq> 0 then e1 OR kPollerEventWrite else e1);
         e3 = (if events AND EV_EOF \<noteq> 0 then e2 OR kPollerEventHup else e2)
     in if events AND EV_ERROR \<noteq> 0 then e3 OR kPollerEventError else e3)"

text \<open>\<open>kevent\<close> on one change: descriptor, filter, flags and user data; \<open>None\<close> for success, otherwise the error number.\<close>

type_synonym 'c kevent = "nat \<Rightarrow> 16 word \<Rightarrow> 16 word \<Rightarrow> 'c option \<Rightarrow> int option"

definition kqueue_add_fd :: "'c kevent \<Rightarrow> nat \<Rightarrow> 'c \<Rightarrow> 16 word \<Rightarrow> bool" where
  "kqueue_add_fd kevent fd conn evt = (kevent fd (build_kqueue_filter evt) (EV_ADD OR EV_ENABLE) (Some conn) = None)"

definition kqueue_remove_fd :: "'c kevent \<Rightarrow> nat \<Rightarrow> bool" where
  "kqueue_remove_fd kevent fd =
    (case kevent fd (EVFILT_READ OR EVFILT_WRITE) (EV_DELETE OR EV_DISABLE) None of
       Some errno \<Rightarrow> if errno \<noteq> ENOENT then False else True
     | None \<Rightarrow> True)"

text \<open>One round of the loop of \<open>handle_event\<close>.\<close>

definition kqueue_round ::
  "('s \<Rightarrow> 's) option \<Rightarrow> ('c \<Rightarrow> 16 word \<Rightarrow> 's \<Rightarrow> 's) option \<Rightarrow> ('s \<Rightarrow> 's) option \<Rightarrow>
    int + (16 word \<times> 16 word \<times> 'c) list \<Rightarrow> 's \<Rightarrow> 's option" where
  "kqueue_round pre_handler handler post_handler waited s =
    (case waited of
       Inl errno \<Rightarrow> if errno = EINTR then Some s else None
     | Inr evts \<Rightarrow>
        let s1 = (case pre_handler of None \<Rightarrow> s | Some f \<Rightarrow> f s);
            s2 = (case handler of None \<Rightarrow> s1 | Some f \<Rightarrow> fold (\<lambda>(flt, flags, conn). f conn (kqueue_poller_event flt flags)) evts s1)
        in Some (case post_handler of None \<Rightarrow> s2 | Some f \<Rightarrow> f s2))"

section \<open>Event ports\<close>

definition POLLIN :: "32 word" where "POLLIN = 0x0001"
definition POLLOUT :: "32 word" where "POLLOUT = 0x0004"
definition POLLERR :: "32 word" where "POLLERR = 0x0008"
definition POLLHUP :: "32 word" where "POLLHUP = 0x0010"
definition ETIME :: int where "ETIME = 62"

definition build_port_event :: "16 word \<Rightarrow> 32 word" where
  "build_port_event evt =
    (let r0 = 0;
         r1 = (if evt AND kPollerEventRead \<noteq> 0 then r0 OR POLLIN else r0);
         r2 = (if evt AND kPollerEventWrite \<noteq> 0 then r1 OR POLLOUT else r1);
         r3 = (if evt AND kPollerEventError \<noteq> 0 then r2 OR POLLERR else r2)
     in if evt AND kPollerEventHup \<noteq> 0 then r3 OR POLLHUP else r3)"

definition port_poller_event :: "32 word \<Rightarrow> 16 word" where
  "port_poller_event events =
    (let e0 = 0;
         e1 = (if events AND POLLIN \<noteq> 0 then e0 OR kPollerEventRead else e0);
         e2 = (if events AND POLLOUT \<noteq> 0 then e1 OR kPollerEventWrite else e1);
         e3 = (if events AND POLLERR \<noteq> 0 then e2 OR kPollerEventError else e2)
     in if events AND POLLHUP \<noteq> 0 then e3 OR kPollerEventHup else e3)"

datatype 'c pending_ops = PendingAdd 'c | PendingDel nat

text \<open>\<open>port_spec\<close> is \<open>poller_spec.data_int\<close> of the connections.\<close>

record 'c port_poller =
  port_pending :: "'c pending_ops list"
  port_spec :: "'c \<Rightarrow> 32 word"
  port_assoc :: "nat \<rightharpoonup> 'c \<times> 32 word"

definition port_add_fd :: "nat \<Rightarrow> 'c \<Rightarrow> 16 word \<Rightarrow> 'c port_poller \<Rightarrow> bool \<times> 'c port_poller" where
  "port_add_fd fd conn evt p =
    (True, p\<lparr>port_spec := (port_spec p)(conn := build_port_event evt), port_pending := port_pending p @ [PendingAdd conn]\<rparr>)"

definition port_remove_fd :: "nat \<Rightarrow> 'c port_poller \<Rightarrow> bool \<times> 'c port_poller" where
  "port_remove_fd fd p = (True, p\<lparr>port_pending := port_pending p @ [PendingDel fd]\<rparr>)"

text \<open>\<open>port_associate\<close> with the connection's own descriptor \<open>fdof conn\<close> and its stored events.\<close>

definition port_associate :: "('c \<Rightarrow> nat) \<Rightarrow> 'c \<Rightarrow> 'c port_poller \<Rightarrow> 'c port_poller" where
  "port_associate fdof conn p = p\<lparr>port_assoc := (port_assoc p)(fdof conn \<mapsto> (conn, port_spec p conn))\<rparr>"

primrec apply_pending_op :: "('c \<Rightarrow> nat) \<Rightarrow> 'c pending_ops \<Rightarrow> 'c port_poller \<Rightarrow> 'c port_poller" where
  "apply_pending_op fdof (PendingAdd conn) p = port_associate fdof conn p"
| "apply_pending_op fdof (PendingDel fd) p = p\<lparr>port_assoc := (port_assoc p)(fd := None)\<rparr>"

definition apply_pending :: "('c \<Rightarrow> nat) \<Rightarrow> 'c port_poller \<Rightarrow> 'c port_poller" where
  "apply_pending fdof p = (fold (apply_pending_op fdof) (port_pending p) p)\<lparr>port_pending := []\<rparr>"

text \<open>An event: a connection with the events that occurred, or a notification from another source.\<close>

datatype 'c port_event = FdEvent 'c "32 word" | OpsEvent

text \<open>The results of \<open>port_getn\<close> and \<open>port_get\<close>: an error number with the events returned nevertheless, or the events.\<close>

type_synonym 'c port_result = "int option \<times> 'c port_event list"

fun port_handle :: "('c \<Rightarrow> 16 word \<Rightarrow> 'c port_poller \<times> 's \<Rightarrow> 'c port_poller \<times> 's) \<Rightarrow> 'c port_event \<Rightarrow> 'c port_poller \<times> 's \<Rightarrow> 'c port_poller \<times> 's" where
  "port_handle f OpsEvent s = s"
| "port_handle f (FdEvent conn e) s = f conn (port_poller_event e) s"

fun port_reassociate :: "('c \<Rightarrow> nat) \<Rightarrow> 'c port_event \<Rightarrow> 'c port_poller \<Rightarrow> 'c port_poller" where
  "port_reassociate fdof OpsEvent p = p"
| "port_reassociate fdof (FdEvent conn e) p = port_associate fdof conn p"

text \<open>Which events a round works on: \<open>Inr None\<close> is \<open>continue\<close>, \<open>Inl\<close> the exception.\<close>

definition port_events :: "'c port_result \<Rightarrow> 'c port_result \<Rightarrow> int + 'c port_event list option" where
  "port_events getn get =
    (let first = (case fst getn of
          Some errno \<Rightarrow> if errno = EINTR then Inr None
            else if errno = ETIME then (if snd getn = [] then Inr None else Inr (Some (snd getn)))
            else Inl errno
        | None \<Rightarrow> Inr (Some (snd getn)))
     in case first of
          Inr (Some []) \<Rightarrow>
            (case fst get of
               Some errno \<Rightarrow> if errno = EINTR then Inr None else if errno = ETIME then Inr None else Inl errno
             | None \<Rightarrow> Inr (Some (take 1 (snd get))))
        | r \<Rightarrow> r)"

text \<open>One round; the poller is part of the state the handlers work on.\<close>

definition port_round ::
  "('c \<Rightarrow> nat) \<Rightarrow> ('c port_poller \<times> 's \<Rightarrow> 'c port_poller \<times> 's) option \<Rightarrow> ('c \<Rightarrow> 16 word \<Rightarrow> 'c port_poller \<times> 's \<Rightarrow> 'c port_poller \<times> 's) option \<Rightarrow>
    ('c port_poller \<times> 's \<Rightarrow> 'c port_poller \<times> 's) option \<Rightarrow> 'c port_result \<Rightarrow> 'c port_result \<Rightarrow> 'c port_poller \<times> 's \<Rightarrow> ('c port_poller \<times> 's) option" where
  "port_round fdof pre_handler handler post_handler getn get s =
    (case port_events getn get of
       Inl errno \<Rightarrow> None
     | Inr None \<Rightarrow> Some s
     | Inr (Some evts) \<Rightarrow>
        let s1 = (case pre_handler of None \<Rightarrow> s | Some f \<Rightarrow> f s);
            s2 = (case handler of None \<Rightarrow> s1 | Some f \<Rightarrow> fold (port_handle f) evts s1);
            (p3, t) = (case post_handler of None \<Rightarrow> s2 | Some f \<Rightarrow> f s2)
        in Some (apply_pending fdof (fold (port_reassociate fdof) evts p3), t))"

section \<open>A registry of descriptors\<close>

text \<open>The contract the stages rely on: what is registered for a descriptor after additions and removals in some order.\<close>

locale registry =
  fixes fdof :: "'c \<Rightarrow> nat"
    and add :: "'c \<Rightarrow> 16 word \<Rightarrow> 'p \<Rightarrow> 'p"
    and remove :: "nat \<Rightarrow> 'p \<Rightarrow> 'p"
    and registered :: "'p \<Rightarrow> nat \<Rightarrow> ('c \<times> 'e) option"
    and events :: "16 word \<Rightarrow> 'e"
  assumes registered_add: "registered (add c evt p) = (registered p)(fdof c \<mapsto> (c, events evt))"
    and registered_remove: "registered (remove fd p) = (registered p)(fd := None)"
begin

lemma remove_add: "registered p (fdof c) = None \<Longrightarrow> registered (remove (fdof c) (add c evt p)) = registered p"
  by (simp add: registered_add registered_remove fun_upd_idem)

lemma add_commute: "fdof c \<noteq> fdof d \<Longrightarrow> registered (add c e (add d f p)) = registered (add d f (add c e p))"
  by (simp add: registered_add fun_upd_twist)

end

text \<open>What a pending operation does to the table of associations.\<close>

primrec pending_effect :: "('c \<Rightarrow> nat) \<Rightarrow> ('c \<Rightarrow> 32 word) \<Rightarrow> 'c pending_ops \<Rightarrow> (nat \<rightharpoonup> 'c \<times> 32 word) \<Rightarrow> (nat \<rightharpoonup> 'c \<times> 32 word)" where
  "pending_effect fdof spec (PendingAdd c) m = m(fdof c \<mapsto> (c, spec c))"
| "pending_effect fdof spec (PendingDel fd) m = m(fd := None)"

lemma apply_pending_op_effect:
  "apply_pending_op fdof op p = p\<lparr>port_assoc := pending_effect fdof (port_spec p) op (port_assoc p)\<rparr>"
  by (cases op) (simp_all add: port_associate_def)

lemma fold_apply_pending_op:
  "fold (apply_pending_op fdof) ops p = p\<lparr>port_assoc := fold (pending_effect fdof (port_spec p)) ops (port_assoc p)\<rparr>"
  by (induction ops arbitrary: p) (simp_all add: apply_pending_op_effect)

definition port_registered :: "('c \<Rightarrow> nat) \<Rightarrow> 'c port_poller \<Rightarrow> nat \<rightharpoonup> 'c \<times> 32 word" where
  "port_registered fdof p = port_assoc (apply_pending fdof p)"

lemma port_registered_fold: "port_registered fdof p = fold (pending_effect fdof (port_spec p)) (port_pending p) (port_assoc p)"
  by (simp add: port_registered_def apply_pending_def fold_apply_pending_op)

text \<open>Changing the stored events of a connection affects only what is registered for its own descriptor.\<close>

lemma fold_pending_spec:
  "fd \<noteq> fdof c \<Longrightarrow> m fd = m' fd \<Longrightarrow> fold (pending_effect fdof (spec(c := x))) ops m fd = fold (pending_effect fdof spec) ops m' fd"
proof (induction ops arbitrary: m m')
  case (Cons op ops)
  have "pending_effect fdof (spec(c := x)) op m fd = pending_effect fdof spec op m' fd"
    using Cons.prems by (cases op) auto
  from Cons.IH [of "pending_effect fdof (spec(c := x)) op m" "pending_effect fdof spec op m'", OF Cons.prems(1) this] show ?case
    by (simp only: fold_simps)
qed simp

interpretation pp: registry fdof "\<lambda>c evt p. snd (port_add_fd (fdof c) c evt p)" "\<lambda>fd p. snd (port_remove_fd fd p)"
  "port_registered fdof" build_port_event for fdof
proof (unfold_locales, goal_cases)
  case (1 c evt p)
  have "fold (pending_effect fdof ((port_spec p)(c := x))) ops m fd = fold (pending_effect fdof (port_spec p)) ops m fd"
    if "fd \<noteq> fdof c" for x ops m fd
    using that by (rule fold_pending_spec) (rule refl)
  moreover have "((port_spec p)(c := x)) c = x" for x by simp
  ultimately show ?case
    by (intro ext) (simp add: port_registered_fold port_add_fd_def fun_upd_def [of "fold f xs m" for f xs m] del: fun_upd_apply)
next
  case (2 fd p)
  show ?case by (simp add: port_registered_fold port_remove_fd_def)
qed

section \<open>Rounds of the event port\<close>

fun event_conn :: "'c port_event \<Rightarrow> 'c list" where
  "event_conn (FdEvent c e) = [c]"
| "event_conn OpsEvent = []"

lemma fold_reassociate:
  "fold (port_reassociate fdof) evts p = p\<lparr>port_assoc := fold (\<lambda>c. pending_effect fdof (port_spec p) (PendingAdd c)) (concat (map event_conn evts)) (port_assoc p)\<rparr>"
proof (induction evts arbitrary: p)
  case (Cons e evts)
  then show ?case by (cases e) (simp_all add: port_associate_def del: fun_upd_apply)
qed simp

lemma fold_add_lookup:
  "fold (\<lambda>c. pending_effect fdof spec (PendingAdd c)) cs m fd =
    (if fd \<in> fdof ` set cs then Some (last (filter (\<lambda>c. fdof c = fd) cs), spec (last (filter (\<lambda>c. fdof c = fd) cs))) else m fd)"
proof (induction cs arbitrary: m)
  case (Cons c cs)
  have "filter (\<lambda>c. fdof c = fd) cs = [] \<longleftrightarrow> fd \<notin> fdof ` set cs" by (auto simp: filter_empty_conv)
  with Cons show ?case by auto
qed simp

text \<open>A round of the event port keeps the registrations: delivering an event takes a descriptor out of the kernel's table, and the round
  puts every delivered connection back before it applies the operations queued meanwhile.  \<open>R\<close> is the table before the delivery; no
  two connections share a descriptor.\<close>

lemma port_round_keeps_registrations:
  assumes "port_events getn get = Inr (Some evts)" and "inj fdof"
    and before: "port_assoc p = (\<lambda>fd. if fd \<in> fdof ` set (concat (map event_conn evts)) then None else R fd)"
    and delivered: "\<And>c. c \<in> set (concat (map event_conn evts)) \<Longrightarrow> R (fdof c) = Some (c, port_spec p c)"
    and pre: "case pre_handler of None \<Rightarrow> True | Some f \<Rightarrow> \<forall>q t. fst (f (q, t)) = q"
    and handler: "handler = None" and post: "case post_handler of None \<Rightarrow> True | Some f \<Rightarrow> \<forall>q t. fst (f (q, t)) = q"
  shows "\<exists>p' t'. port_round fdof pre_handler handler post_handler getn get (p, t) = Some (p', t') \<and> port_pending p' = [] \<and>
    port_assoc p' = fold (pending_effect fdof (port_spec p)) (port_pending p) R"
proof -
  define s1 where "s1 = (case pre_handler of None \<Rightarrow> (p, t) | Some f \<Rightarrow> f (p, t))"
  have s1: "fst s1 = p" using pre by (auto simp: s1_def split: option.splits)
  define s3 where "s3 = (case post_handler of None \<Rightarrow> s1 | Some f \<Rightarrow> f s1)"
  have s3: "fst s3 = p" using post s1 by (cases s1) (auto simp: s3_def split: option.splits)
  obtain t' where s3': "s3 = (p, t')" using s3 by (cases s3) auto
  let ?cs = "concat (map event_conn evts)"
  have "fold (\<lambda>c. pending_effect fdof (port_spec p) (PendingAdd c)) ?cs (port_assoc p) = R"
  proof
    fix fd
    show "fold (\<lambda>c. pending_effect fdof (port_spec p) (PendingAdd c)) ?cs (port_assoc p) fd = R fd"
    proof (cases "fd \<in> fdof ` set ?cs")
      case True
      then have "filter (\<lambda>c. fdof c = fd) ?cs \<noteq> []" by (auto simp: filter_empty_conv)
      then have "last (filter (\<lambda>c. fdof c = fd) ?cs) \<in> set (filter (\<lambda>c. fdof c = fd) ?cs)" by (rule last_in_set)
      then have l: "last (filter (\<lambda>c. fdof c = fd) ?cs) \<in> set ?cs" "fdof (last (filter (\<lambda>c. fdof c = fd) ?cs)) = fd" by auto
      show ?thesis unfolding fold_add_lookup using True delivered [OF l(1)] l(2) by simp
    next
      case False
      then show ?thesis unfolding fold_add_lookup before by simp
    qed
  qed
  moreover have "port_round fdof pre_handler handler post_handler getn get (p, t) =
      Some (apply_pending fdof (fold (port_reassociate fdof) evts p), t')"
    unfolding port_round_def assms(1) handler by (simp add: Let_def s1_def [symmetric] s3_def [symmetric] s3')
  ultimately show ?thesis by (simp add: fold_reassociate apply_pending_def fold_apply_pending_op)
qed

section \<open>Differences between the back ends\<close>

text \<open>Event ports and epoll use the same masks.\<close>

lemma port_event_roundtrip: "port_poller_event (build_port_event evt) = evt AND 15"
proof -
  have "build_port_event evt = build_epoll_event evt"
    by (simp add: build_port_event_def build_epoll_event_def POLLIN_def POLLOUT_def POLLERR_def POLLHUP_def
        EPOLLIN_def EPOLLOUT_def EPOLLERR_def EPOLLHUP_def)
  moreover have "port_poller_event e = build_poller_event e" for e
    by (simp add: port_poller_event_def build_poller_event_def POLLIN_def POLLOUT_def POLLERR_def POLLHUP_def
        EPOLLIN_def EPOLLOUT_def EPOLLERR_def EPOLLHUP_def)
  ultimately show ?thesis by (simp add: event_mask_roundtrip)
qed

text \<open>The kqueue back end combines filters as if they were masks: interest in writing is lost beside interest in reading, and every
  event is reported as both.\<close>

lemma kqueue_confuses_events:
  "build_kqueue_filter (kPollerEventRead OR kPollerEventWrite) = EVFILT_READ"
  "kqueue_poller_event EVFILT_WRITE 0 = kPollerEventRead OR kPollerEventWrite"
  "kqueue_poller_event EVFILT_READ 0 = kPollerEventRead OR kPollerEventWrite"
  by (simp_all add: build_kqueue_filter_def kqueue_poller_event_def EVFILT_READ_def EVFILT_WRITE_def kPollerEventRead_def kPollerEventWrite_def)

text \<open>The event port registers a connection's own descriptor, whatever descriptor it was asked to add, as the FastCGI stage does for its sockets.\<close>

lemma port_add_ignores_fd: "port_add_fd fd conn evt p = port_add_fd fd' conn evt p"
  by (simp add: port_add_fd_def)

text \<open>When nothing happens before the time limit, the event port's round ends without running the post handler, so that no timer
  expires; the epoll back end runs it.\<close>

lemma port_timeout_skips_post:
  "port_round fdof pre_handler handler post_handler (Some ETIME, []) get s = Some s"
  "handle_event_round None None (Some f) (Inr []) t = Some (f t)"
  by (simp_all add: port_round_def port_events_def ETIME_def EINTR_def handle_event_round_def)

end
