(* ===== verification/Http_Flow.thy ===== *)
theory Http_Flow
  imports Http_Stages
begin

text \<open>
  The way of a request through the stages: the pages of the input buffer are fed to the parser, its callbacks assemble and route the
  request (\<^verbatim>\<open>src/http/connection.cc\<close>), the parser stage hands the connection to the handler stage, and the static handler answers.
\<close>

section \<open>All pages are fed to the parser\<close>

text \<open>The callbacks and the final state when the parser runs over pieces of input, and that it meets no error.\<close>

fun parser_events :: "'p parser_lib \<Rightarrow> 'p \<Rightarrow> string list \<Rightarrow> parser_event list \<times> 'p" where
  "parser_events lib p [] = ([], p)"
| "parser_events lib p (s # ss) =
    (let (k, evs, p1) = http_parser_execute lib p s; (es, p2) = parser_events lib p1 ss in (evs @ es, p2))"

fun error_free :: "'p parser_lib \<Rightarrow> 'p \<Rightarrow> string list \<Rightarrow> bool" where
  "error_free lib p [] = True"
| "error_free lib p (s # ss) =
    (let (k, evs, p1) = http_parser_execute lib p s in \<not> http_parser_has_error lib p1 \<and> error_free lib p1 ss)"

text \<open>The callbacks do not look at the parser.\<close>

lemma handle_events_parser: "handle_events rx cfg es (c\<lparr>hc_parser := p\<rparr>) = map_option (\<lambda>c'. c'\<lparr>hc_parser := p\<rparr>) (handle_events rx cfg es c)"
proof (induction es arbitrary: c)
  case (Cons e es)
  have "handle_event rx cfg e (c\<lparr>hc_parser := p\<rparr>) = map_option (\<lambda>c'. c'\<lparr>hc_parser := p\<rparr>) (handle_event rx cfg e c)"
    by (cases e) (simp_all add: callback_defs append_chunk_def finish_parse_def Let_def split: prod.splits option.splits)
  then show ?case by (cases "handle_event rx cfg e c") (simp_all add: Cons.IH)
qed simp

text \<open>Messages without a body never make the connection wait for one.\<close>

lemma matcher_match_length: "matcher_match rx m r = Some (x, r') \<Longrightarrow> rq_content_length r' = rq_content_length r"
  by (cases m) (auto split: if_splits)

lemma rules_match_length: "rules_match_uri rx rules r = Some (x, r') \<Longrightarrow> rq_content_length r' = rq_content_length r"
proof (induction rules arbitrary: r)
  case (Cons a rules)
  then show ?case
    by (cases "rule_matcher a") (auto split: option.splits prod.splits bool.splits if_splits dest!: matcher_match_length)
qed simp

lemma vhost_match_length: "vhost_match_uri rx cfg host r = Some (x, r') \<Longrightarrow> rq_content_length r' = rq_content_length r"
  by (auto simp: vhost_match_uri_def split: option.splits dest: rules_match_length)

lemma handle_event_no_body:
  assumes "handle_event rx cfg e c = Some c'" and "\<forall>f. e = OnMessageComplete f \<longrightarrow> pf_content_length f = 0" and "\<not> body_pending c"
  shows "\<not> body_pending c'"
proof (cases e)
  case (OnMessageComplete f)
  then have "rq_content_length (last (hc_requests c')) = pf_content_length f"
    using assms(1) by (auto simp: finish_parse_def request_copy_def Let_def split: option.splits prod.splits dest!: vhost_match_length)
  then show ?thesis using assms(2) OnMessageComplete by (simp add: body_pending_def)
qed (use assms in \<open>auto simp: callback_defs body_pending_def append_chunk_def Let_def split: prod.splits\<close>)

lemma handle_events_no_body:
  "handle_events rx cfg es c = Some c' \<Longrightarrow> \<forall>f. OnMessageComplete f \<in> set es \<longrightarrow> pf_content_length f = 0 \<Longrightarrow> \<not> body_pending c \<Longrightarrow> \<not> body_pending c'"
proof (induction es arbitrary: c)
  case (Cons e es)
  then obtain c1 where "handle_event rx cfg e c = Some c1" "handle_events rx cfg es c1 = Some c'" by (cases "handle_event rx cfg e c") auto
  then show ?case using Cons.IH handle_event_no_body Cons.prems by (metis list.set_intros)
qed simp

lemma parse_pages_events:
  assumes "conn_sep c" and "\<not> body_pending c" and "parser_events lib (hc_parser c) (map (seg_text c) ps) = (es, p')"
    and "error_free lib (hc_parser c) (map (seg_text c) ps)" and "\<forall>f. OnMessageComplete f \<in> set es \<longrightarrow> pf_content_length f = 0"
    and "handle_events rx cfg es c = Some c'"
  shows "parse_pages lib rx cfg ps n c = Some (n + fst (run_parser lib (hc_parser c) (map (seg_text c) ps)), c'\<lparr>hc_parser := p'\<rparr>)"
  using assms
proof (induction ps arbitrary: n c es c')
  case Nil
  then show ?case by auto
next
  case (Cons p ps)
  obtain k evs p1 where e: "http_parser_execute lib (hc_parser c) (seg_text c p) = (k, evs, p1)" by (rule prod_cases3)
  obtain es1 where es: "es = evs @ es1" "parser_events lib p1 (map (seg_text c) ps) = (es1, p')"
    using Cons.prems(3) e by (auto split: prod.splits)
  obtain c1 where c1: "handle_events rx cfg evs c = Some c1" "handle_events rx cfg es1 c1 = Some c'"
    using Cons.prems(6) es(1) by (cases "handle_events rx cfg evs c") (auto simp: handle_events_append)
  let ?c1 = "c1\<lparr>hc_parser := p1\<rparr>"
  have h1: "handle_events rx cfg evs (c\<lparr>hc_parser := p1\<rparr>) = Some ?c1" by (simp add: handle_events_parser c1(1))
  have "conn_sep (c\<lparr>hc_parser := p1\<rparr>)" using Cons.prems(1) by (simp add: conn_sep_def)
  note f = handle_events_frame [OF h1 this]
  have seg: "seg_text ?c1 = seg_text c" using f by (intro seg_text_frame) (simp_all add: conn_frame_def)
  have sep1: "conn_sep ?c1" using f by (simp add: conn_frame_def)
  have nb: "\<not> body_pending ?c1"
    using handle_events_no_body [OF h1] Cons.prems(2,5) es(1) by (simp add: body_pending_def)
  have ef: "\<not> http_parser_has_error lib p1" "error_free lib p1 (map (seg_text c) ps)" using Cons.prems(4) e by auto
  have "parse_pages lib rx cfg ps (n + k) ?c1 = Some (n + k + fst (run_parser lib (hc_parser ?c1) (map (seg_text ?c1) ps)), c'\<lparr>hc_parser := p1, hc_parser := p'\<rparr>)"
    using Cons.prems(5) es ef(2) c1(2) by (intro Cons.IH [OF sep1 nb, of es1]) (auto simp: seg handle_events_parser)
  note rest = this [unfolded seg]
  have "take len (drop off (snd p)) = segment (hc_heap c) (hc_in c) p"
    if "get_page_segment (hc_heap c) (hc_in c) (fst p) = (off, len)" for off len
    using that by (simp add: segment_def)
  then show ?case using e h1 nb ef(1) rest by (auto simp: seg_text_def [abs_def] Let_def split: prod.splits)
qed


lemma error_free_final: "error_free lib p ss \<Longrightarrow> \<not> http_parser_has_error lib p \<Longrightarrow> \<not> http_parser_has_error lib (snd (parser_events lib p ss))"
  by (induction ss arbitrary: p) (auto simp: case_prod_unfold Let_def)

lemma parser_task_message:
  assumes "do_parse lib rx cfg c = Some (True, c')" and "hc_requests c' = hc_requests c @ [r]" and "rq_content_length r = 0"
  shows "parser_process_task lib rx cfg ctl c = Some (0, \<lparr>closed_conn = False, to_handler = True, po_controller = stage_increase_load 1 ctl\<rparr>, c')"
  using assms by (simp add: parser_process_task_def Let_def is_ready_def)

section \<open>Answering\<close>

text \<open>The handler stage's task for a connection with nothing to send, and the reply to a plain \<open>GET\<close>.\<close>

definition new_task :: "request_data list \<Rightarrow> 's \<Rightarrow> 's handler_task" where
  "new_task reqs st = \<lparr>ht_requests = reqs, ht_io = \<lparr>resp = HttpResponse '''', sent_items = [], opened = [], closed = []\<rparr>, ht_state = st,
     ht_suspended = False, ht_close_after_finish = False, ht_rescheduled = False, ht_log = []\<rparr>"

definition file_reply :: "(int, unit) platform \<Rightarrow> nat \<Rightarrow> file_stat \<Rightarrow> out_item list" where
  "file_reply pf fd st =
    [OText (status_line kHttpResponseOK @ ''Last-Modified: '' @ build_last_modified (gm_time pf) (st_mtime st) @ kHttpNewLine @
        ''Content-Length: '' @ format_number (st_size st) @ kHttpNewLine @ kHttpNewLine), OFile (int fd) 0 (st_size st)]"


lemma handler_task_get:
  assumes rule: "rq_url_rule r = Some rule" "rule_handlers rule = a # as" and r: "rq_version_minor r \<noteq> 0" "rq_method r = HTTP_GET"
      "find_header_value (rq_headers r) ''If-Modified-Since'' = ''''" "find_header_value (rq_headers r) ''Range'' = ''''"
    and fil: "fs_stat (file_sys pf) (doc_root h @ remove_path_dots (http_url_decode (rq_path r))) = Some st"
      "st_kind st = Regular" "0 \<le> st_size st" "fs_open (file_sys pf) (doc_root h @ remove_path_dots (http_url_decode (rq_path r))) = Some fd"
    and cache: "max_cache_entry (sh_cache h) = 0"
  shows "\<exists>t'. handler_process_task (\<lambda>_. static_chain_handler pf) ctl (new_task [r] h) = Some (kStageKeepLock, map_option (decrease_load 1) ctl, t') \<and>
    ht_requests t' = [] \<and> sent_items (ht_io t') = file_reply pf fd st \<and> closed (ht_io t') = [] \<and> ht_log t' = [(''GET'', rq_complete_uri r, 200)] \<and>
    ht_close_after_finish t' = (\<not> rq_keep_alive r) \<and> \<not> ht_rescheduled t'"
proof -
  define io where "io = \<lparr>resp = HttpResponse '''', sent_items = [], opened = [], closed = []\<rparr>"
  obtain io' where io': "static_handle_request pf h r io = Some (h, io')" "closed io' = []" "is_responded (resp io')"
      "responded_status (resp io') = kHttpResponseOK" "sent_items io' = file_reply pf fd st"
    using static_get_sends_file [OF r(2-4) fil cache, of io] by (auto simp: io_def file_reply_def)
  have chain: "run_chain (\<lambda>_. static_chain_handler pf) (rule_handlers rule) r (io, h) = Some (False, io', h)"
    using rule(2) io' by (simp add: static_chain_handler_def)
  define t where "t = new_task [r] h"
  have t: "ht_requests t = [r]" "ht_io t = io" "ht_state t = h" "ht_log t = []" "\<not> ht_suspended t" "\<not> ht_close_after_finish t"
    by (simp_all add: t_def new_task_def io_def)
  have g: "method_string HTTP_GET = ''GET''" "status_code kHttpResponseOK = 200"
    by (simp_all add: method_string_def http_methods kHttpResponseOK_def status_of_code_def)
  define t1 where "t1 = t\<lparr>ht_rescheduled := False, ht_log := [(''GET'', rq_complete_uri r, 200)], ht_io := upd_resp response_reset io', ht_state := h\<rparr>"
  have trig: "trigger_handler (\<lambda>_. static_chain_handler pf) r (t\<lparr>ht_rescheduled := False\<rparr>) = Some t1"
    using rule(1) r(1,2) chain t io'(4) g by (simp add: trigger_handler_def t1_def log_respond_def Let_def)
  have nd: "\<not> out_done (upd_resp response_reset io')" by (simp add: out_done_def upd_resp_def io'(5) file_reply_def)
  have k: "kMaxContinuesRequestNumber = Suc (Suc (Suc 0))" by (simp add: kMaxContinuesRequestNumber_def)
  show ?thesis
  proof (cases "rq_keep_alive r")
    case True
    then have "serve_loop (\<lambda>_. static_chain_handler pf) kMaxContinuesRequestNumber (t\<lparr>ht_rescheduled := False\<rparr>) = Some (True, t1\<lparr>ht_requests := []\<rparr>)"
      using trig t by (simp add: k t1_def)
    then show ?thesis using True t nd io' by (simp add: t_def [symmetric] handler_process_task_def task_response_code_def t1_def Let_def upd_resp_def)
  next
    case False
    then have "serve_loop (\<lambda>_. static_chain_handler pf) kMaxContinuesRequestNumber (t\<lparr>ht_rescheduled := False\<rparr>) =
        Some (False, t1\<lparr>ht_requests := [], ht_close_after_finish := True\<rparr>)"
      using trig t by (simp add: k t1_def)
    then show ?thesis using False t nd io' by (simp add: t_def [symmetric] handler_process_task_def task_response_code_def t1_def Let_def upd_resp_def)
  qed
qed

end
