(* ===== verification/Http_Wire.thy ===== *)
theory Http_Wire
  imports Http_Flow Http_Request_Text
begin

text \<open>
  From the bytes on the wire to the answer: the HTTP parser reads the pages of the input buffer as one text, however they are cut, reads back the requests
  that are written by \<open>request_text\<close>, and the server answers them.
\<close>

section \<open>Any cut of the input\<close>

lemma view_flush: "view (pending p m) (collapse p) = view m p"
proof -
  have "mark_text (collapse p) f = []" for f by (cases "hp_mark p f") (simp_all add: mark_text_def collapse_def)
  then show ?thesis by (simp add: view_iff) (simp add: pending_def collapse_def)
qed

lemma view_too_long: "view m p = view n q \<Longrightarrow> too_long p f = too_long q f"
  by (auto simp: view_iff too_long_def)

lemma feed_pieces:
  assumes "run (concat ss) m (resume p) = ([], m1, q1, oc)" and "oc \<noteq> Aborted" and "\<forall>f. \<not> too_long q1 f"
    and "parser_ok p" and "\<not> parser_has_error p" and "parser_events http_lib p ss = (es, q)"
  shows "error_free http_lib p ss \<and> view (fold absorb es m) (resume q) = view m1 q1 \<and> parser_ok q \<and> \<not> parser_has_error q \<and>
    run_parser http_lib p ss = (length (concat ss), q)"
  using assms
proof (induction ss arbitrary: m p m1 q1 oc es)
  case Nil
  then show ?case using run_Nil [OF resume_ok [OF Nil.prems(4)], of m] by simp
next
  case (Cons a ss)
  note rp = resume_ok [OF Cons.prems(4)]
  obtain ra ma pa oa where a: "run a m (resume p) = (ra, ma, pa, oa)" by (rule prod_cases4)
  have calm: "hp_eating (resume p) \<Longrightarrow> 0 < hp_chunk_size (resume p)" using rp by (simp add: parser_ok_def)
  note ap = run_append [OF a calm, of "concat ss"]
  have first: "ra = []" "oa \<noteq> Aborted" using ap Cons.prems(1,2) by (auto split: if_splits)
  have pa: "parser_ok pa" by (rule run_ok [OF a rp first(2)])
  obtain oc1 where rest: "run (concat ss) ma pa = ([], m1, q1, oc1)" "oc1 \<noteq> Aborted"
  proof (cases "oa = Ran")
    case True
    then show thesis using that [of oc] ap Cons.prems(1,2) first(1) by simp
  next
    case False
    then have "concat ss = []" "ma = m1" "pa = q1" using ap Cons.prems(1) first(1) by auto
    then show thesis using that [of Ran] run_Nil [OF pa, of ma] by (simp del: concat_eq_Nil_conv)
  qed
  have short: "\<forall>f. \<not> too_long pa f" using run_keeps [OF rest(1) pa rest(2)] Cons.prems(3) by blast
  obtain ea p1 where x: "execute p a = (length a, ea, p1)" "fold absorb ea m = pending pa ma" "resume p1 = collapse pa" "parser_ok p1"
      "hp_error p1 = hp_error pa" "hp_cs p1 = hp_cs pa"
    using execute_run(2) [OF Cons.prems(4) a first(2) short] first(1) by auto
  have v: "view (fold absorb ea m) (resume p1) = view ma pa" using x(2,3) view_flush by simp
  have "\<not> parser_has_error (resume p)" using Cons.prems(5) by (simp add: parser_has_error_def resume_def rebase_marks_def)
  then have ne: "\<not> parser_has_error p1" using run_keeps [OF a rp first(2)] first(1) x(5,6) by (auto simp: parser_has_error_def)
  obtain r2 m2 q2 oc2 where b: "run (concat ss) (fold absorb ea m) (resume p1) = (r2, m2, q2, oc2)" by (rule prod_cases4)
  have eq: "r2 = []" "oc2 = oc1" "view m2 q2 = view m1 q1" using run_view [OF v resume_ok [OF x(4)] b rest(1)] rest(2) by auto
  obtain es1 where es1: "parser_events http_lib p1 ss = (es1, q)" "es = ea @ es1"
    using Cons.prems(6) x(1) by (auto simp: http_lib_def split: prod.splits)
  have "\<forall>f. \<not> too_long q2 f" using view_too_long [OF eq(3)] Cons.prems(3) by simp
  from Cons.IH [OF b [unfolded eq(1)] _ this x(4) ne es1(1)] eq rest(2)
  show ?case using x(1) ne es1(2) by (auto simp: http_lib_def)
qed

text \<open>What a call says of the run behind it.\<close>

lemma execute_complete:
  assumes "parser_ok p" and "execute p s = (length s, es, p1)" and "\<not> parser_has_error p1"
  shows "\<exists>m1 q1 oc. run s m (resume p) = ([], m1, q1, oc) \<and> oc \<noteq> Aborted \<and> (\<forall>f. \<not> too_long q1 f) \<and>
    fold absorb es m = pending q1 m1 \<and> resume p1 = collapse q1"
proof -
  obtain r m1 q1 oc where r: "run s m (resume p) = (r, m1, q1, oc)" by (rule prod_cases4)
  have good: "oc \<noteq> Aborted" "\<forall>f. \<not> too_long q1 f" using execute_run(1) [OF assms(1) r] assms(2,3) by auto
  from execute_run(2) [OF assms(1) r this] have x: "length s - length r = length s" "fold absorb es m = pending q1 m1" "resume p1 = collapse q1"
    using assms(2) by auto
  have "r = []"
  proof (cases s)
    case Nil
    then show ?thesis using run_Nil [OF resume_ok [OF assms(1)], of m] r by simp
  next
    case (Cons c t)
    then show ?thesis using x(1) by (cases r) auto
  qed
  then show ?thesis using r good x(2,3) by blast
qed

lemma mark_text_resume [simp]: "mark_text (resume p) f = []"
  by (cases "hp_mark p f") (simp_all add: mark_text_def resume_def rebase_marks_def)

lemma view_resume: "view m (resume p) = (m, resume p)"
  by (simp add: view_def pending_def collapse_def) (simp add: resume_def rebase_marks_def option.map_comp comp_def)

section \<open>Whole messages in pieces\<close>

lemma cut_invariant:
  assumes "parser_ok p" and "\<not> parser_has_error p" and "execute p (concat ss) = (length (concat ss), es, p1)" and "\<not> parser_has_error p1"
    and "parser_events http_lib p ss = (fs, q)"
  shows "error_free http_lib p ss \<and> fold absorb fs m = fold absorb es m \<and> resume q = resume p1 \<and> parser_ok q \<and> \<not> parser_has_error q \<and>
    run_parser http_lib p ss = (length (concat ss), q)"
proof -
  obtain m1 q1 oc where r: "run (concat ss) m (resume p) = ([], m1, q1, oc)" "oc \<noteq> Aborted" "\<forall>f. \<not> too_long q1 f"
      "fold absorb es m = pending q1 m1" "resume p1 = collapse q1"
    using execute_complete [OF assms(1,3,4)] by blast
  from feed_pieces [OF r(1-3) assms(1,2,5)] show ?thesis using r(4,5) by (simp add: view_resume) (simp add: view_def)
qed

lemma unmarked_resume: "resume q = p \<Longrightarrow> hp_mark p = Map.empty \<Longrightarrow> q = p"
proof -
  assume r: "resume q = p" and p: "hp_mark p = Map.empty"
  have "hp_mark q = Map.empty" using p r by (auto simp: resume_def rebase_marks_def fun_eq_iff)
  then show "q = p" using r by (cases q) (simp add: resume_def rebase_marks_def)
qed

lemma sent_in_pieces:
  assumes "ready p" and "list_all sent_ok xs" and "concat ss = concat (map message_text xs)" and "parser_events http_lib p ss = (fs, q)" and "between m"
  shows "error_free http_lib p ss \<and> ready q \<and> fold absorb fs m = m\<lparr>dg_messages := dg_messages m @ map message_of xs\<rparr> \<and>
    run_parser http_lib p ss = (length (concat ss), q)"
proof -
  obtain es p1 where x: "execute p (concat ss) = (length (concat ss), es, p1)" "ready p1"
      "fold absorb es m = m\<lparr>dg_messages := dg_messages m @ map message_of xs\<rparr>"
    using execute_all_sent [OF assms(1,2,5)] assms(3) by auto
  note ok = ready_ok [OF assms(1)] ready_ok [OF x(2)]
  from cut_invariant [OF _ _ x(1) _ assms(4), of m] ok
  have c: "error_free http_lib p ss" "fold absorb fs m = fold absorb es m" "resume q = p1" "run_parser http_lib p ss = (length (concat ss), q)" by auto
  have "hp_mark p1 = Map.empty" using x(2) fresh_fields(7) by (simp add: ready_def)
  from unmarked_resume [OF c(3) this] show ?thesis using c x by simp
qed

section \<open>The connection follows the callbacks\<close>

text \<open>The request a message has to become: its texts, its fields, and the rule and path that routing by its host gives.\<close>

definition request_reports :: "(string \<Rightarrow> string \<Rightarrow> bool) \<Rightarrow> vhost_config \<Rightarrow> message \<Rightarrow> request_data \<Rightarrow> bool" where
  "request_reports rx cfg msg r \<longleftrightarrow>
    (let f = msg_fields msg;
         host = (if pf_version_major f = 1 \<and> pf_version_minor f = 1 then find_host (msg_headers msg) else ''default'');
         rules = (case cfg (parse_host host) of Some rs \<Rightarrow> rs | None \<Rightarrow> the (cfg ''default''))
     in rq_complete_uri r = msg_texts msg FUri \<and> rq_headers r = msg_headers msg \<and> rq_query_string r = msg_texts msg FQueryString \<and>
        rq_fragment r = msg_texts msg FFragment \<and> rq_method r = pf_method f \<and> rq_content_length r = pf_content_length f \<and>
        rq_keep_alive r = http_parser_should_keep_alive f \<and> rq_version_minor r = pf_version_minor f \<and>
        (\<exists>t. rq_path t = msg_texts msg FPath \<and> rq_uri t = msg_texts msg FUri \<and> rq_url_rule r = fst (route rx rules t) \<and>
             rq_path r = rq_path (snd (route rx rules t)) \<and> rq_uri r = rq_uri (snd (route rx rules t))))"

text \<open>A connection holds a digest: what is collected of the current message, and the requests of the complete ones behind those it had before.\<close>

definition holds :: "(string \<Rightarrow> string \<Rightarrow> bool) \<Rightarrow> vhost_config \<Rightarrow> request_data list \<Rightarrow> digest \<Rightarrow> 'p http_conn \<Rightarrow> bool" where
  "holds rx cfg old m c \<longleftrightarrow> hc_key c = dg_text m FHeaderField \<and> hc_value c = dg_text m FHeaderValue \<and> rq_headers (hc_tmp c) = dg_headers m \<and>
     rq_path (hc_tmp c) = dg_text m FPath \<and> rq_uri (hc_tmp c) = dg_text m FUri \<and> rq_query_string (hc_tmp c) = dg_text m FQueryString \<and>
     rq_fragment (hc_tmp c) = dg_text m FFragment \<and> (\<exists>rs. hc_requests c = old @ rs \<and> list_all2 (request_reports rx cfg) (dg_messages m) rs)"

definition path_in_uri :: "message \<Rightarrow> bool" where
  "path_in_uri msg \<longleftrightarrow> length (msg_texts msg FPath) \<le> length (msg_texts msg FUri)"

lemma handle_event_holds:
  assumes "holds rx cfg old m c" and "cfg ''default'' = Some rules0" and "\<forall>msg \<in> set (dg_messages (absorb e m)). path_in_uri msg"
  shows "\<exists>c'. handle_event rx cfg e c = Some c' \<and> holds rx cfg old (absorb e m) c'"
proof (cases e)
  case (OnMessageComplete f)
  let ?msg = "\<lparr>msg_fields = f, msg_texts = dg_text m, msg_headers = dg_headers m, msg_chunk = dg_chunk m\<rparr>"
  have h: "rq_path (hc_tmp c) = dg_text m FPath" "rq_uri (hc_tmp c) = dg_text m FUri" "rq_headers (hc_tmp c) = dg_headers m"
    "rq_query_string (hc_tmp c) = dg_text m FQueryString" "rq_fragment (hc_tmp c) = dg_text m FFragment" using assms(1) by (simp_all add: holds_def)
  obtain rs where rs: "hc_requests c = old @ rs" "list_all2 (request_reports rx cfg) (dg_messages m) rs" using assms(1) by (auto simp: holds_def)
  have "length (rq_path (hc_tmp c)) \<le> length (rq_uri (hc_tmp c))" "\<exists>rules. cfg ''default'' = Some rules"
    using assms(2,3) h OnMessageComplete by (simp_all add: path_in_uri_def)
  from finish_parse_request [of c cfg rx f, OF this] obtain c' r t rules host where
    c': "finish_parse rx cfg f c = Some c'" "hc_requests c' = hc_requests c @ [r]" "fresh_message c'"
    and host: "host = (if pf_version_major f = 1 \<and> pf_version_minor f = 1 then find_host (dg_headers m) else ''default'')"
      "cfg (parse_host host) = Some rules \<or> cfg (parse_host host) = None \<and> cfg ''default'' = Some rules"
    and t: "rq_path t = dg_text m FPath" "rq_uri t = dg_text m FUri" "rq_url_rule r = fst (route rx rules t)"
      "rq_path r = rq_path (snd (route rx rules t))" "rq_uri r = rq_uri (snd (route rx rules t))"
    and r: "rq_complete_uri r = dg_text m FUri" "rq_headers r = dg_headers m" "rq_query_string r = dg_text m FQueryString" "rq_fragment r = dg_text m FFragment"
      "rq_method r = pf_method f" "rq_content_length r = pf_content_length f" "rq_keep_alive r = http_parser_should_keep_alive f" "rq_version_minor r = pf_version_minor f"
    unfolding h by blast
  have rules: "(case cfg (parse_host host) of Some rs \<Rightarrow> rs | None \<Rightarrow> the (cfg ''default'')) = rules" using host(2) by auto
  have "request_reports rx cfg ?msg r" unfolding request_reports_def Let_def using host(1) rules t r by auto
  then have "list_all2 (request_reports rx cfg) (dg_messages (absorb e m)) (rs @ [r])" using rs(2) OnMessageComplete by (simp add: list_all2_appendI)
  moreover have "hc_requests c' = old @ rs @ [r]" using c'(2) rs(1) by simp
  ultimately show ?thesis using c'(1,3) OnMessageComplete by (auto simp: holds_def fresh_message_def)
qed (use assms(1) in \<open>auto simp: holds_def callback_defs add_text_def append_chunk_fields\<close>)

lemma messages_grow: "set (dg_messages m) \<subseteq> set (dg_messages (fold absorb es m))"
proof (induction es arbitrary: m)
  case (Cons e es)
  have "set (dg_messages m) \<subseteq> set (dg_messages (absorb e m))" by (cases e) (auto simp: add_text_def)
  then show ?case using Cons.IH [of "absorb e m"] by simp
qed simp

lemma handle_events_holds:
  assumes "holds rx cfg old m c" and "cfg ''default'' = Some rules0" and "\<forall>msg \<in> set (dg_messages (fold absorb es m)). path_in_uri msg"
  shows "\<exists>c'. handle_events rx cfg es c = Some c' \<and> holds rx cfg old (fold absorb es m) c'"
  using assms(1,3)
proof (induction es arbitrary: m c)
  case (Cons e es)
  have "\<forall>msg \<in> set (dg_messages (absorb e m)). path_in_uri msg" using Cons.prems(2) messages_grow [of "absorb e m" es] by auto
  then obtain c1 where "handle_event rx cfg e c = Some c1" "holds rx cfg old (absorb e m) c1" using handle_event_holds [OF Cons.prems(1) assms(2)] by blast
  then show ?case using Cons.IH [of "absorb e m" c1] Cons.prems(2) by simp
qed simp

text \<open>Every complete message is counted, so the lengths in the digest are those in the callbacks.\<close>

lemma complete_in_digest: "OnMessageComplete f \<in> set es \<Longrightarrow> f \<in> msg_fields ` set (dg_messages (fold absorb es m))"
proof (induction es arbitrary: m)
  case (Cons e es)
  show ?case
  proof (cases "e = OnMessageComplete f")
    case True
    then have "f \<in> msg_fields ` set (dg_messages (absorb e m))" by auto
    then show ?thesis using messages_grow [of "absorb e m" es] by auto
  next
    case False
    then show ?thesis using Cons by auto
  qed
qed simp

section \<open>What a connection needs of the parser\<close>

text \<open>The parser interface: it never reports more than it was given, is without error between two messages, and reads what \<open>message_text\<close> writes, in any pieces.\<close>

locale text_parser =
  fixes lib :: "'p parser_lib" and idle :: "'p \<Rightarrow> bool"
  assumes bounded: "parser_bounded lib"
    and sound: "idle p \<Longrightarrow> \<not> http_parser_has_error lib p"
    and reads_back: "\<lbrakk>idle p; list_all sent_ok xs; concat ss = concat (map message_text xs); parser_events lib p ss = (fs, q)\<rbrakk> \<Longrightarrow>
      error_free lib p ss \<and> idle q \<and> fold absorb fs empty_digest = empty_digest\<lparr>dg_messages := map message_of xs\<rparr> \<and>
      run_parser lib p ss = (length (concat ss), q)"
begin

lemma requests_queued:
  assumes inv: "conn_inv c" and c: "\<not> body_pending c" "hc_skip c = 0" "fresh_message c" "idle (hc_parser c)"
    and sent: "text_of_bytes (in_bytes c) = concat (map message_text xs)" "list_all sent_ok xs" "\<forall>x \<in> set xs. pf_content_length (request_fields (fst x)) = 0"
    and cfg: "cfg ''default'' = Some rules0"
  shows "\<exists>c' rs. do_parse lib rx cfg c = Some (True, c') \<and> hc_requests c' = hc_requests c @ rs \<and> list_all2 (request_reports rx cfg) (map message_of xs) rs \<and>
    in_bytes c' = [] \<and> conn_inv c' \<and> hc_skip c' = 0 \<and> fresh_message c' \<and> idle (hc_parser c')"
proof -
  let ?ps = "buf_pages (hc_heap c) (hc_in c)" and ?p = "hc_parser c"
  let ?segs = "map (seg_text c) ?ps"
  have whole: "concat ?segs = concat (map message_text xs)" using seg_texts_contents [of c] inv sent(1) by (simp add: conn_inv_def in_bytes_def)
  obtain fs q where ev: "parser_events lib ?p ?segs = (fs, q)" by (rule prod.exhaust)
  note rb = reads_back [OF c(4) sent(2) whole ev]
  have msgs: "dg_messages (fold absorb fs empty_digest) = map message_of xs" using rb by simp
  have "holds rx cfg (hc_requests c) empty_digest c" using c(3) by (simp add: holds_def fresh_message_def empty_digest_def)
  moreover have "\<forall>msg \<in> set (dg_messages (fold absorb fs empty_digest)). path_in_uri msg"
    unfolding msgs by (auto simp: path_in_uri_def message_of_def request_message_def uri_string_def)
  ultimately obtain c1 where c1: "handle_events rx cfg fs c = Some c1" "holds rx cfg (hc_requests c) (fold absorb fs empty_digest) c1"
    using handle_events_holds [of rx cfg "hc_requests c" empty_digest c rules0 fs, OF _ cfg] by blast
  have len: "pf_content_length f = 0" if "OnMessageComplete f \<in> set fs" for f
    using complete_in_digest [OF that, of empty_digest] sent(3) unfolding msgs by (auto simp: message_of_def request_message_def)
  have "conn_sep c" using inv by (simp add: conn_inv_def)
  from parse_pages_events [OF this c(1) ev _ _ c1(1), of 0] rb len
  have pp: "parse_pages lib rx cfg ?ps 0 c = Some (length (concat ?segs), c1\<lparr>hc_parser := q\<rparr>)" by simp
  let ?c2 = "c1\<lparr>hc_parser := q\<rparr>"
  obtain x b h where pop: "pop (hc_heap ?c2) (hc_in ?c2) (length (concat ?segs)) = (x, b, h)" by (rule prod_cases3)
  note e = parse_pages_pop [OF inv bounded pp pop]
  have "length (concat ?segs) = length (in_bytes c)" using whole sent(1) by (metis text_of_bytes_length)
  then have in0: "in_bytes (?c2\<lparr>hc_in := b, hc_heap := h\<rparr>) = []" "conn_inv (?c2\<lparr>hc_in := b, hc_heap := h\<rparr>)" "hc_skip c1 = 0" using e c(2) by auto
  have dp: "do_parse lib rx cfg c = Some (True, ?c2\<lparr>hc_in := b, hc_heap := h\<rparr>)"
    using c(1,2) pp pop rb sound [of q] by (simp add: do_parse_def)
  have d: "dg_text (fold absorb fs empty_digest) = (\<lambda>_. [])" "dg_headers (fold absorb fs empty_digest) = []" using rb by (simp_all add: empty_digest_def)
  obtain rs where rs: "hc_requests c1 = hc_requests c @ rs" "list_all2 (request_reports rx cfg) (map message_of xs) rs"
    using c1(2) unfolding holds_def msgs by blast
  have "fresh_message c1" using c1(2) d by (simp add: holds_def fresh_message_def)
  then have "fresh_message (?c2\<lparr>hc_in := b, hc_heap := h\<rparr>)" by (simp add: fresh_message_def)
  then show ?thesis using dp in0 rs rb by (intro exI [of _ "?c2\<lparr>hc_in := b, hc_heap := h\<rparr>"] exI [of _ rs]) simp
qed

end

lemma http_lib_bounded: "parser_bounded http_lib"
  by (simp add: parser_bounded_def http_lib_def execute_def split: prod.splits)

lemma ready_reads_back:
  assumes "ready p" and "list_all sent_ok xs" and "concat ss = concat (map message_text xs)" and "parser_events http_lib p ss = (fs, q)"
  shows "error_free http_lib p ss \<and> ready q \<and> fold absorb fs empty_digest = empty_digest\<lparr>dg_messages := map message_of xs\<rparr> \<and>
    run_parser http_lib p ss = (length (concat ss), q)"
proof -
  have "between empty_digest" "dg_messages empty_digest = []" by (simp_all add: between_def empty_digest_def)
  then show ?thesis using sent_in_pieces [OF assms] by simp
qed

interpretation hp: text_parser http_lib ready
proof
  show "\<not> http_parser_has_error http_lib p" if "ready p" for p using ready_ok [OF that] by (simp add: http_lib_def)
qed (fact http_lib_bounded, fact ready_reads_back)

section \<open>Properties\<close>

text \<open>C6: the parser does not depend on how the input is cut.  If a call consumes a text without error, then feeding the same text in any pieces consumes
  it without error, its callbacks spell the same headers, texts and messages, with the same fields, and the parser goes on from the same state.\<close>

theorem parser_cut_invariant:
  assumes "parser_ok p" and "\<not> parser_has_error p" and "execute p (concat ss) = (length (concat ss), es, p1)" and "\<not> parser_has_error p1"
    and "parser_events http_lib p ss = (fs, q)"
  shows "error_free http_lib p ss \<and> run_parser http_lib p ss = (length (concat ss), q) \<and> fold absorb fs m = fold absorb es m \<and>
    resume q = resume p1 \<and> parser_ok q \<and> \<not> parser_has_error q"
  using cut_invariant [OF assms, of m] by blast

text \<open>C5: requests are read back as they were written.  However the text of a sequence of requests is cut into pieces, the parser between two messages
  reads all of it without error, reports exactly these requests in their order, each with its method, version, URI, path, query, header lines, chunks of the
  body and what the header lines say of length, encoding and connection, and is between two messages again.\<close>

theorem requests_read_back:
  assumes "ready p" and "list_all sent_ok xs" and "concat ss = concat (map message_text xs)" and "parser_events http_lib p ss = (fs, q)"
  shows "error_free http_lib p ss \<and> ready q \<and> fold absorb fs empty_digest = empty_digest\<lparr>dg_messages := map message_of xs\<rparr> \<and>
    run_parser http_lib p ss = (length (concat ss), q)"
  by (rule hp.reads_back [OF assms])

text \<open>C7: in front of a body that is announced by its length and not chunked, the parser stops: it consumes the requests before it and the head, reports them,
  and leaves every byte of the body in the input, whatever the body holds.\<close>

theorem body_left_in_input:
  assumes "ready p" and "list_all sent_ok xs" and "request_ok r" and "plain r" and "pf_content_length (request_fields r) > 0"
    and "s = concat (map message_text xs) @ request_text r"
  shows "\<exists>es p'. execute p (s @ body) = (length s, es, p') \<and> ready p' \<and>
    fold absorb es empty_digest = empty_digest\<lparr>dg_messages := map message_of xs @ [request_message r]\<rparr>"
proof -
  have "between empty_digest" "dg_messages empty_digest = []" by (simp_all add: between_def empty_digest_def)
  then show ?thesis using execute_with_body [OF assms(1-5) _ assms(6), of empty_digest body] by simp
qed

text \<open>C8: a URI that is too long is refused.  When the path in a request line is longer than the limit, the call consumes nothing and the parser reports an
  error, whatever follows the path.\<close>

theorem long_uri_refused:
  assumes "ready p" and "w \<in> fst ` set methods" and "path \<noteq> []" and "hd path = CHR ''/''" and "uri_ok path_char (tl path)" and "MAX_FIELD_SIZE < length path"
  shows "fst (execute p (w @ '' '' @ path @ rest)) = 0 \<and> parser_has_error (snd (snd (execute p (w @ '' '' @ path @ rest))))"
proof -
  have f: "fresh p" "hp_cs p \<in> {PMain, PStart, PAfter}" using assms(1) by (simp_all add: ready_def)
  let ?s = "w @ '' '' @ path" and ?C = "p\<lparr>hp_method := the (map_of methods w)\<rparr>"
  let ?q = "pos (PPath 0) [FUri \<mapsto> path, FPath \<mapsto> path] ?C"
  have c: "calm p" "calm ?C" using f by (simp_all add: fresh_def calm_def)
  note line = reads_trans [OF reads_method_space [OF assms(2) c(1)] reads_path [OF assms(3-5) c(2)], of empty_digest]
  obtain r es q1 oc where x: "exec rest ?q = (r, es, q1, oc)" by (rule prod_cases4)
  obtain a t where at: "?s @ rest = a # t" using method_whole [OF assms(2)] by (cases w) auto
  have "digested empty_digest (exec (?s @ rest) p) = digested empty_digest (exec rest ?q)"
    using reads_exec [OF line, of rest] start_alike [OF f, of a t] ready_pos [OF assms(1)] at by simp
  then have run: "run (?s @ rest) empty_digest (resume p) = (r, fold absorb es empty_digest, q1, oc)"
    using ready_ok [OF assms(1)] x by (simp add: run_def eat_chunk_def digested_def split: prod.splits)
  have "marks_ok ?q" "too_long ?q FUri" using assms(6) by (auto simp: marks_ok_def too_long_def mark_text_def pos_def)
  then have "oc = Aborted \<or> too_long q1 FUri" using exec_keeps [OF x, of FUri] by blast
  then show ?thesis using execute_run(1) [OF _ run] ready_ok [OF assms(1)] by auto
qed

text \<open>C4: a connection queues the pipelined requests of its input.  When the input of a connection between two messages holds the text of requests without a
  counted body, spread over the pages of the buffer in any way, then \<open>do_parse\<close> succeeds, queues one request for each in their order, with its URI, header lines,
  query, fields, rule and path, empties the input, and leaves the connection between two messages with its invariant.\<close>

theorem wire_requests_queued:
  assumes "conn_inv c" and "\<not> body_pending c" and "hc_skip c = 0" and "fresh_message c" and "ready (hc_parser c)"
    and "text_of_bytes (in_bytes c) = concat (map message_text xs)" and "list_all sent_ok xs" and "\<forall>x \<in> set xs. pf_content_length (request_fields (fst x)) = 0"
    and "cfg ''default'' = Some rules"
  shows "\<exists>c' rs. do_parse http_lib rx cfg c = Some (True, c') \<and> hc_requests c' = hc_requests c @ rs \<and> list_all2 (request_reports rx cfg) (map message_of xs) rs \<and>
    in_bytes c' = [] \<and> conn_inv c' \<and> hc_skip c' = 0 \<and> fresh_message c' \<and> ready (hc_parser c')"
  using hp.requests_queued [of c xs cfg rules rx] assms by blast

text \<open>C3: from the bytes on the wire to the answer.  When the input of an idle connection whose parser is between two messages holds the text of a \<open>GET\<close>
  request of HTTP/1.1 with neither length nor chunks, spread over the pages of the buffer in any way, and the configuration routes the prefix \<open>pre\<close> to the
  static handler, then the parser stage empties the input and passes the connection on and the handler stage sends the file named by the rest of the path, logs
  the URI as it was written, and closes the connection afterwards exactly when the header lines ask for it.\<close>

theorem wire_get_served:
  assumes "conn_inv c" and "hc_requests c = []" and "hc_skip c = 0" and "fresh_message c" and "ready (hc_parser c)"
    and "text_of_bytes (in_bytes c) = request_text r" and "request_ok r" and "plain r" and "pf_content_length (request_fields r) = 0"
    and "rl_method r = ''GET''" and "rl_minor r = 1" and "rl_path r = pre @ path"
    and "cfg = [''default'' \<mapsto> [\<lparr>rule_handlers = [a], rule_matcher = Some (PrefixMatcher pre)\<rparr>]]"
    and "find_header_value (rl_headers r) ''If-Modified-Since'' = ''''" and "find_header_value (rl_headers r) ''Range'' = ''''"
    and "name = doc_root h @ remove_path_dots (http_url_decode path)" and "max_cache_entry (sh_cache h) = 0"
    and "fs_stat (file_sys pf) name = Some st" and "st_kind st = Regular" and "0 \<le> st_size st" and "fs_open (file_sys pf) name = Some fd"
  shows "\<exists>c' outcome t. parser_process_task http_lib rx cfg ctl c = Some (0, outcome, c') \<and> \<not> closed_conn outcome \<and> to_handler outcome \<and> in_bytes c' = [] \<and>
    handler_process_task (\<lambda>_. static_chain_handler pf) (po_controller outcome) (new_task (hc_requests c') h) =
      Some (kStageKeepLock, map_option (\<lambda>x. decrease_load 1 (increase_load 1 x)) ctl, t) \<and>
    ht_requests t = [] \<and> sent_items (ht_io t) = file_reply pf fd st \<and> ht_log t = [(''GET'', uri_string r, 200)] \<and>
    ht_close_after_finish t = (fold keep_alive_step (rl_headers r) (-1) = 0) \<and> \<not> ht_rescheduled t"
proof -
  let ?rule = "\<lparr>rule_handlers = [a], rule_matcher = Some (PrefixMatcher pre)\<rparr>" and ?f = "request_fields r"
  have "\<not> body_pending c" "cfg ''default'' = Some [?rule]" using assms(2,13) by (simp_all add: body_pending_def)
  moreover have "text_of_bytes (in_bytes c) = concat (map message_text [(r, [])])" "list_all sent_ok [(r, [])]"
    using assms(6-9) by (simp_all add: message_text_def sent_ok_def)
  ultimately obtain c' rs where q: "do_parse http_lib rx cfg c = Some (True, c')" "hc_requests c' = rs" "in_bytes c' = []"
      "list_all2 (request_reports rx cfg) (map message_of [(r, [])]) rs"
    using hp.requests_queued [OF assms(1) _ assms(3-5), of "[(r, [])]" cfg "[?rule]" rx] assms(2,9) by auto
  from q(4) obtain x where x: "rs = [x]" "request_reports rx cfg (request_message r) x" using assms(8) by (auto simp: message_of_def list_all2_Cons1)
  have rules: "(case cfg (parse_host host) of Some rs \<Rightarrow> rs | None \<Rightarrow> the (cfg ''default'')) = [?rule]" for host using assms(13) by (simp split: option.splits)
  have f: "pf_method ?f = HTTP_GET" "pf_version_minor ?f = 1" using assms(10,11) by (simp_all add: request_fields_def methods_def)
  obtain t where t: "rq_path t = pre @ path" "rq_url_rule x = fst (route rx [?rule] t)" "rq_path x = rq_path (snd (route rx [?rule] t))"
    and v: "rq_complete_uri x = uri_string r" "rq_headers x = rl_headers r" "rq_method x = HTTP_GET" "rq_content_length x = 0" "rq_version_minor x = 1"
      "rq_keep_alive x = http_parser_should_keep_alive ?f"
    using x(2) assms(9,12) f unfolding request_reports_def Let_def rules by (auto simp: request_message_def)
  have route: "rq_url_rule x = Some ?rule" "rq_path x = path" using t by (auto simp: route_def applies_def routed_def)
  have keep: "rq_keep_alive x = (fold keep_alive_step (rl_headers r) (-1) \<noteq> 0)"
    using v(6) by (simp add: http_parser_should_keep_alive_def request_fields_def assms(11))
  note p = parser_task_message [OF q(1) _ v(4), of ctl]
  obtain t' where "handler_process_task (\<lambda>_. static_chain_handler pf) (stage_increase_load 1 ctl) (new_task [x] h) =
      Some (kStageKeepLock, map_option (decrease_load 1) (stage_increase_load 1 ctl), t')" "ht_requests t' = []" "sent_items (ht_io t') = file_reply pf fd st"
      "ht_log t' = [(''GET'', uri_string r, 200)]" "ht_close_after_finish t' = (\<not> rq_keep_alive x)" "\<not> ht_rescheduled t'"
    using handler_task_get [OF route(1), of a "[]" pf h st fd "stage_increase_load 1 ctl"] assms(14-21) v route(2) by auto
  then show ?thesis using p q x(1) assms(2) keep by (simp add: stage_increase_load_def option.map_comp comp_def)
qed

definition sample_line :: request_line where
  "sample_line = \<lparr>rl_method = ''GET'', rl_path = ''/img/a'', rl_query = Some ''q=1'', rl_minor = 1, rl_headers = [(''Host'', ''x.org''), (''Connection'', ''Close'')]\<rparr>"

definition wire_conn :: "string \<Rightarrow> http_parser http_conn" where
  "wire_conn s = (let (b, h) = filled_buffer (bytes_of_string s)
     in \<lparr>hc_heap = h\<lparr>next_cow := Suc (next_cow h)\<rparr>, hc_in = b, hc_parser = http_parser_init HTTP_REQUEST, hc_requests = [],
         hc_tmp = sample_request\<lparr>rq_chunk := b\<lparr>cow_ref := next_cow h\<rparr>, rq_headers := [], rq_path := '''', rq_uri := '''', rq_query_string := '''', rq_fragment := ''''\<rparr>,
         hc_key = '''', hc_value = '''', hc_skip = 0\<rparr>)"

lemma wire_conn_facts:
  assumes "length s < 2 ^ 30"
  shows "conn_inv (wire_conn s)" "text_of_bytes (in_bytes (wire_conn s)) = s" "hc_requests (wire_conn s) = []" "hc_skip (wire_conn s) = 0" "fresh_message (wire_conn s)"
    "hc_parser (wire_conn s) = http_parser_init HTTP_REQUEST"
proof -
  let ?bs = "bytes_of_string s"
  obtain b h where fb: "filled_buffer ?bs = (b, h)" by (rule prod.exhaust)
  note ok = filled_buffer_ok [of ?bs]
  have bok: "buf_ok (h\<lparr>next_cow := Suc (next_cow h)\<rparr>) b" "cow_ref b < next_cow h" "heap_ok h"
    using ok fb by (auto simp: buf_ok_def buf_pages_def)
  have "in_int_range b" using filled_buffer_range [of ?bs] fb assms by (simp add: bytes_of_string_def)
  then show "conn_inv (wire_conn s)"
    using bok by (simp add: wire_conn_def fb conn_inv_def conn_sep_def heap_ok_def)
  have "in_bytes (wire_conn s) = ?bs" using ok fb by (auto simp: wire_conn_def in_bytes_def contents_def buf_pages_def)
  then show "text_of_bytes (in_bytes (wire_conn s)) = s" by (simp add: text_of_bytes_of_string)
  show "hc_requests (wire_conn s) = []" "hc_skip (wire_conn s) = 0" "fresh_message (wire_conn s)" "hc_parser (wire_conn s) = http_parser_init HTTP_REQUEST"
    by (simp_all add: wire_conn_def fb fresh_message_def)
qed

lemma init_ready: "ready (http_parser_init HTTP_REQUEST)"
  by (simp add: ready_def fresh_def calm_def http_parser_init_def RESET_PARSER_def)

lemma sample_line_ok: "request_ok sample_line" "plain sample_line" "pf_content_length (request_fields sample_line) = 0"
    "fold keep_alive_step (rl_headers sample_line) (-1) = 0" "uri_string sample_line = ''/img/a?q=1''"
proof -
  show "uri_string sample_line = ''/img/a?q=1''" "plain sample_line" "pf_content_length (request_fields sample_line) = 0"
    "fold keep_alive_step (rl_headers sample_line) (-1) = 0" by code_simp+
  have "uri_ok path_char ''img/a''" "uri_ok uri_rest ''q=1''" "list_all token ''Host''" "list_all token ''Connection''"
    "list_all (\<lambda>c. \<not> is_CR c \<and> \<not> is_LF c) ''x.org''" "list_all (\<lambda>c. \<not> is_CR c \<and> \<not> is_LF c) ''Close''" by code_simp+
  then show "request_ok sample_line"
    by (simp add: request_ok_def sample_line_def header_ok_def uri_string_def MAX_FIELD_SIZE_def methods_def)
qed

theorem wire_get_served_witness:
  "\<exists>c' outcome t head. parser_process_task http_lib (\<lambda>_ _. False) [''default'' \<mapsto> [\<lparr>rule_handlers = [7], rule_matcher = Some (PrefixMatcher ''/img'')\<rparr>]] None
      (wire_conn (request_text sample_line)) = Some (0, outcome, c') \<and>
    handler_process_task (\<lambda>_. static_chain_handler sample_platform) (po_controller outcome) (new_task (hc_requests c') sample_static) = Some (-1, None, t) \<and>
    in_bytes c' = [] \<and> sent_items (ht_io t) = [OText head, OFile 9 0 3] \<and> ht_log t = [(''GET'', ''/img/a?q=1'', 200)] \<and> ht_close_after_finish t"
proof -
  let ?st = "\<lparr>st_kind = Regular, st_mtime = 0, st_size = 3\<rparr>"
  have pf: "fs_stat (file_sys sample_platform) x = Some ?st" "fs_open (file_sys sample_platform) x = Some 9" "max_cache_entry (sh_cache sample_static) = 0" for x
    by (simp_all add: sample_platform_def sample_static_def IOCache_def)
  have "length (request_text sample_line) < 2 ^ 30"
    by (simp add: request_text_def sample_line_def uri_string_def header_text_def CRLF_def)
  note c = wire_conn_facts [OF this]
  have r: "ready (hc_parser (wire_conn (request_text sample_line)))" by (simp add: c(6) init_ready)
  have l: "rl_method sample_line = ''GET''" "rl_minor sample_line = 1" "rl_path sample_line = ''/img'' @ ''/a''"
    "find_header_value (rl_headers sample_line) ''If-Modified-Since'' = ''''" "find_header_value (rl_headers sample_line) ''Range'' = ''''"
    by (simp_all add: sample_line_def ignore_compare_def)
  have "kStageKeepLock = -1" by (simp add: kStageKeepLock_def)
  with wire_get_served [where a = 7 and rx = "\<lambda>_ _. False" and ctl = None,
      OF c(1,3-5) r c(2) sample_line_ok(1-3) l(1-3) refl l(4,5) refl pf(3,1) _ _ pf(2)] sample_line_ok(4,5)
  show ?thesis by (auto simp: file_reply_def)
qed

definition chunked_line :: request_line where
  "chunked_line = \<lparr>rl_method = ''POST'', rl_path = ''/up'', rl_query = None, rl_minor = 0, rl_headers = [(''Transfer-Encoding'', ''chunked'')]\<rparr>"

definition sample_sent :: "sent list" where
  "sample_sent = [(sample_line, []), (chunked_line, [''tu'', ''be''])]"

lemma sample_sent_ok: "list_all sent_ok sample_sent" "map msg_chunk (map message_of sample_sent) = ['''', ''tube'']"
proof -
  have "uri_ok path_char ''up''" "list_all token ''Transfer-Encoding''" "list_all (\<lambda>c. \<not> is_CR c \<and> \<not> is_LF c) ''chunked''" "\<not> plain chunked_line" by code_simp+
  then show "list_all sent_ok sample_sent"
    using sample_line_ok
    by (simp add: sample_sent_def sent_ok_def chunk_ok_def) (simp add: request_ok_def chunked_line_def header_ok_def uri_string_def MAX_FIELD_SIZE_def methods_def)
  show "map msg_chunk (map message_of sample_sent) = ['''', ''tube'']"
    using sample_line_ok(2) \<open>\<not> plain chunked_line\<close> by (simp add: sample_sent_def message_of_def request_message_def)
qed

theorem requests_read_back_witness:
  "\<exists>s fs q. s = concat (map message_text sample_sent) \<and> parser_events http_lib (http_parser_init HTTP_REQUEST) [take 9 s, drop 9 s] = (fs, q) \<and> ready q \<and>
    map msg_chunk (dg_messages (fold absorb fs empty_digest)) = ['''', ''tube'']"
proof -
  let ?s = "concat (map message_text sample_sent)"
  obtain fs q where ev: "parser_events http_lib (http_parser_init HTTP_REQUEST) [take 9 ?s, drop 9 ?s] = (fs, q)" by (rule prod.exhaust)
  from requests_read_back [OF init_ready sample_sent_ok(1) _ ev] sample_sent_ok(2) ev show ?thesis by auto
qed

theorem parser_cut_invariant_witness:
  "\<exists>es p1 fs q. execute (http_parser_init HTTP_REQUEST) (request_text sample_line) = (length (request_text sample_line), es, p1) \<and>
    parser_events http_lib (http_parser_init HTTP_REQUEST) (map (\<lambda>c. [c]) (request_text sample_line)) = (fs, q) \<and>
    fold absorb fs empty_digest = fold absorb es empty_digest \<and> resume q = resume p1"
proof -
  let ?p = "http_parser_init HTTP_REQUEST" and ?s = "request_text sample_line"
  have "list_all sent_ok [(sample_line, [])]" using sample_line_ok by (simp add: sent_ok_def)
  from execute_all_sent [OF init_ready this, of empty_digest] sample_line_ok(2) obtain es p1 where
    x: "execute ?p ?s = (length ?s, es, p1)" "ready p1" by (auto simp: message_text_def between_def empty_digest_def)
  obtain fs q where ev: "parser_events http_lib ?p (map (\<lambda>c. [c]) ?s) = (fs, q)" by (rule prod.exhaust)
  have cat: "concat (map (\<lambda>c. [c]) ?s) = ?s" by (induction ?s) simp_all
  note ok = ready_ok [OF init_ready] ready_ok [OF x(2)]
  have "parser_ok ?p" "\<not> parser_has_error ?p" "\<not> parser_has_error p1" using ok by auto
  from parser_cut_invariant [OF this(1,2) _ this(3) ev, of es empty_digest] x(1) cat ev show ?thesis by auto
qed

definition counted_line :: request_line where
  "counted_line = \<lparr>rl_method = ''PUT'', rl_path = ''/up'', rl_query = None, rl_minor = 1, rl_headers = [(''Content-Length'', ''3'')]\<rparr>"

lemma counted_line_ok: "request_ok counted_line" "plain counted_line" "pf_content_length (request_fields counted_line) = 3"
proof -
  show "plain counted_line" by code_simp
  have k: "kind_of ''Content-Length'' = ContentLengthH" "is_digit CHR ''3''" "char_code CHR ''3'' = 51" by code_simp+
  show "pf_content_length (request_fields counted_line) = 3"
    by (simp add: request_fields_def counted_line_def length_step_def k(1,2) digit_step_def k(3))
  have "uri_ok path_char ''up''" "list_all token ''Content-Length''" "list_all (\<lambda>c. \<not> is_CR c \<and> \<not> is_LF c) ''3''" by code_simp+
  then show "request_ok counted_line"
    by (simp add: request_ok_def counted_line_def header_ok_def uri_string_def MAX_FIELD_SIZE_def methods_def)
qed

theorem body_left_in_input_witness:
  "\<exists>es p'. execute (http_parser_init HTTP_REQUEST) (request_text counted_line @ ''GET'') = (length (request_text counted_line), es, p') \<and> ready p' \<and>
    fold absorb es empty_digest = empty_digest\<lparr>dg_messages := [request_message counted_line]\<rparr>"
  using body_left_in_input [OF init_ready, of "[]" counted_line "request_text counted_line" "''GET''"] counted_line_ok by simp

theorem wire_requests_queued_witness:
  "\<exists>c'. do_parse http_lib (\<lambda>_ _. False) [''default'' \<mapsto> []] (wire_conn (concat (map message_text sample_sent))) = Some (True, c') \<and>
    map rq_complete_uri (hc_requests c') = [''/img/a?q=1'', ''/up''] \<and> in_bytes c' = [] \<and> ready (hc_parser c')"
proof -
  let ?s = "concat (map message_text sample_sent)"
  have "length ?s < 2 ^ 30"
    by (simp add: sample_sent_def message_text_def request_text_def sample_line_def chunked_line_def uri_string_def header_text_def chunked_text_def chunk_text_def
        hex_text.simps CRLF_def)
  note c = wire_conn_facts [OF this]
  have r: "ready (hc_parser (wire_conn ?s))" by (simp add: c(6) init_ready)
  have z: "\<forall>x \<in> set sample_sent. pf_content_length (request_fields (fst x)) = 0"
  proof -
    have "pf_content_length (request_fields chunked_line) = 0" by code_simp
    then show ?thesis using sample_line_ok(3) by (simp add: sample_sent_def)
  qed
  have nb: "\<not> body_pending (wire_conn ?s)" using c(3) by (simp add: body_pending_def)
  obtain c' rs where q: "do_parse http_lib (\<lambda>_ _. False) [''default'' \<mapsto> []] (wire_conn ?s) = Some (True, c')" "hc_requests c' = rs" "in_bytes c' = []"
      "ready (hc_parser c')" "list_all2 (request_reports (\<lambda>_ _. False) [''default'' \<mapsto> []]) (map message_of sample_sent) rs"
    using wire_requests_queued [OF c(1) nb c(4,5) r c(2) sample_sent_ok(1) z, of "[''default'' \<mapsto> []]" "[]" "\<lambda>_ _. False"] c(3) by auto
  have "uri_string chunked_line = ''/up''" by (simp add: uri_string_def chunked_line_def)
  then have "map rq_complete_uri rs = [''/img/a?q=1'', ''/up'']" using q(5) sample_line_ok(5)
    by (auto simp: sample_sent_def list_all2_Cons1 request_reports_def message_of_def request_message_def Let_def)
  then show ?thesis using q by auto
qed

theorem long_uri_refused_witness:
  "fst (execute (http_parser_init HTTP_REQUEST) (''GET'' @ '' '' @ (CHR ''/'' # replicate MAX_FIELD_SIZE CHR ''a'') @ '' HTTP/1.1'')) = 0 \<and>
    parser_has_error (snd (snd (execute (http_parser_init HTTP_REQUEST) (''GET'' @ '' '' @ (CHR ''/'' # replicate MAX_FIELD_SIZE CHR ''a'') @ '' HTTP/1.1''))))"
proof -
  have "path_char CHR ''a''" by code_simp
  then have ok: "uri_ok path_char (replicate n CHR ''a'')" for n by (induction n) auto
  show ?thesis by (rule long_uri_refused [OF init_ready]) (use ok in \<open>auto simp: methods_def\<close>)
qed

section \<open>Lengths and encodings\<close>

text \<open>The digits of repeated \<open>Content-Length\<close> lines are read as one number, which wraps around.\<close>

lemma lengths_concatenate:
  assumes "\<forall>h \<in> set hs. kind_of (fst h) = ContentLengthH \<and> list_all is_digit (snd h)"
  shows "fold length_step hs n = fold digit_step (concat (map snd hs)) n"
  using assms
proof (induction hs arbitrary: n)
  case (Cons h hs)
  have d: "takeWhile is_digit (snd h) = snd h" using Cons.prems by (simp add: list_all_iff takeWhile_eq_all_conv)
  have "length_step h n = fold digit_step (snd h) n" using Cons.prems unfolding length_step_def d by simp
  then show ?case using Cons by simp
qed simp

lemma lengths_as_one_number: "fold length_step [(''Content-Length'', ''1''), (''Content-Length'', ''2'')] 0 = 12"
proof -
  have k: "kind_of ''Content-Length'' = ContentLengthH" "list_all is_digit ''1''" "list_all is_digit ''2''" "char_code CHR ''1'' = 49" "char_code CHR ''2'' = 50"
    by code_simp+
  then show ?thesis by (subst lengths_concatenate) (simp_all add: digit_step_def)
qed

lemma length_wraps: "fold length_step [(''Content-Length'', ''18446744073709551617'')] 0 = 1"
proof -
  have k: "kind_of ''Content-Length'' = ContentLengthH" "takeWhile is_digit ''18446744073709551617'' = ''18446744073709551617''"
    "map (\<lambda>c. char_code c - 48) ''0123456789'' = [0, 1, 2, 3, 4, 5, 6, 7, 8, 9]" by code_simp+
  then show ?thesis by (simp add: length_step_def k(1,2) digit_step_def)
qed

text \<open>Every encoding but \<open>identity\<close> is taken for chunks, and a length beside the chunks stays with the request, although its body has been read.\<close>

lemma unknown_encoding_chunked: "fold encoding_step [(''Transfer-Encoding'', ''gzip'')] HTTP_IDENTITY = HTTP_CHUNKED"
proof -
  have "kind_of ''Transfer-Encoding'' = TransferEncodingH" by code_simp
  then show ?thesis by (simp add: encoding_step_def)
qed

lemma chunked_keeps_length:
  assumes "ready p" and "request_ok r" and "\<not> plain r" and "list_all chunk_ok cs"
  shows "\<exists>es p'. execute p (request_text r @ chunked_text cs) = (length (request_text r @ chunked_text cs), es, p') \<and>
    map (\<lambda>msg. pf_content_length (msg_fields msg)) (dg_messages (fold absorb es empty_digest)) = [pf_content_length (request_fields r)]"
proof -
  have "list_all sent_ok [(r, cs)]" "between empty_digest" using assms by (simp_all add: sent_ok_def between_def empty_digest_def)
  from execute_all_sent [OF assms(1) this] assms(3) show ?thesis
    by (auto simp: message_text_def message_of_def request_message_def empty_digest_def)
qed

end
