(* ===== verification/Python_Handler.thy ===== *)
theory Python_Handler
  imports Static_Handler
begin

text \<open>
  The handler that runs Python code: \<^verbatim>\<open>src/modules/mod_python/python_handler.cc\<close>.  The interpreter is a parameter: which modules, attributes and objects it
  finds and what calls of Python code do.  Objects are numbers with reference counts; \<open>gil\<close> counts how often this thread holds the interpreter's lock.  Every
  call of the interpreter needs the lock: without it the result is \<open>None\<close>.
\<close>

section \<open>The interpreter\<close>

record 'io interp =
  py_import :: "string \<rightharpoonup> nat"
  py_dict :: "nat \<rightharpoonup> nat"
  py_item :: "nat \<Rightarrow> string \<rightharpoonup> nat"
  py_callable :: "nat \<Rightarrow> bool"
  py_construct :: "nat \<rightharpoonup> nat"
  py_attr :: "nat \<Rightarrow> string \<rightharpoonup> nat"
  py_call :: "nat \<Rightarrow> request_data \<Rightarrow> 'io \<Rightarrow> nat option \<times> 'io"

record py_state =
  gil :: nat
  refs :: "nat \<Rightarrow> int"
  next_obj :: nat
  scripts :: "string list"

definition PyGILState_Ensure :: "py_state \<Rightarrow> py_state" where
  "PyGILState_Ensure s = s\<lparr>gil := Suc (gil s)\<rparr>"

definition PyGILState_Release :: "py_state \<Rightarrow> py_state" where
  "PyGILState_Release s = s\<lparr>gil := gil s - 1\<rparr>"

definition with_gil :: "(py_state \<Rightarrow> 'a) \<Rightarrow> py_state \<Rightarrow> 'a option" where
  "with_gil f s = (if 0 < gil s then Some (f s) else None)"

definition incref :: "nat \<Rightarrow> py_state \<Rightarrow> py_state" where
  "incref x s = s\<lparr>refs := (refs s)(x := refs s x + 1)\<rparr>"

definition decref :: "nat \<Rightarrow> py_state \<Rightarrow> py_state" where
  "decref x s = s\<lparr>refs := (refs s)(x := refs s x - 1)\<rparr>"

text \<open>A call that returns a new reference, or a null pointer.\<close>

definition new_ref :: "nat option \<Rightarrow> py_state \<Rightarrow> py_state" where
  "new_ref r s = (case r of None \<Rightarrow> s | Some x \<Rightarrow> incref x s)"

text \<open>A fresh object with one reference.\<close>

definition fresh_obj :: "py_state \<Rightarrow> nat \<times> py_state" where
  "fresh_obj s = (next_obj s, incref (next_obj s) (s\<lparr>next_obj := Suc (next_obj s)\<rparr>))"

section \<open>The handler\<close>

record py_handler =
  pymodule_name :: string
  pycons_name :: string
  py_obj :: "nat option"

text \<open>\<open>load_python_handler\<close>: \<open>goto error\<close> drops the module.\<close>

definition load_python_handler :: "'io interp \<Rightarrow> string \<Rightarrow> string \<Rightarrow> py_state \<Rightarrow> (nat option \<times> py_state) option" where
  "load_python_handler py modname cons s0 =
    with_gil (\<lambda>s.
      (case py_import py modname of
         None \<Rightarrow> (None, s)
       | Some m \<Rightarrow>
          let s1 = incref m s; error = (None, decref m s1)
          in case py_dict py m of
               None \<Rightarrow> error
             | Some d \<Rightarrow>
                (case py_item py d cons of
                   None \<Rightarrow> error
                 | Some f \<Rightarrow>
                    if \<not> py_callable py f then error
                    else (case py_construct py f of
                            None \<Rightarrow> error
                          | Some h \<Rightarrow> (Some h, incref h s1))))) s0"

definition PythonHttpHandler :: "'p handler_obj \<Rightarrow> 'p handler_obj" where
  "PythonHttpHandler h = add_option ''module_path'' '''' (add_option ''class_name'' '''' (add_option ''module_name'' '''' h))"

definition python_load_param :: "'io interp \<Rightarrow> 'p handler_obj \<Rightarrow> py_state \<Rightarrow> (py_handler \<times> py_state) option" where
  "python_load_param py h s0 =
    (let modname = handler_option h ''module_name''; cons = handler_option h ''class_name''; module_path = handler_option h ''module_path'';
         s1 = PyGILState_Ensure s0;
         s2 = (if module_path \<noteq> '''' then s1\<lparr>scripts := scripts s1 @ [''import sys'', ''sys.path.append(r'' @ [CHR 0x27] @ module_path @ [CHR 0x27] @ '')'']\<rparr> else s1)
     in map_option (\<lambda>(r, s3). (\<lparr>pymodule_name = modname, pycons_name = cons, py_obj = r\<rparr>, PyGILState_Release s3)) (load_python_handler py modname cons s2))"

text \<open>\<open>handle_request\<close>.  The request and the response are passed as numbers; the tuple of arguments holds them, and is freed with its last reference.\<close>

definition free_args :: "nat \<Rightarrow> nat \<Rightarrow> nat \<Rightarrow> py_state \<Rightarrow> py_state" where
  "free_args args pyreq pyres s = decref pyres (decref pyreq (decref args s))"

definition python_handle_request ::
  "handler_io interp \<Rightarrow> py_handler \<Rightarrow> request_data \<Rightarrow> handler_io \<Rightarrow> py_state \<Rightarrow> (handler_io \<times> py_state) option" where
  "python_handle_request py h req io s0 =
    (let s1 = PyGILState_Ensure s0;
         (pyreq, s2) = fresh_obj s1;
         (pyres, s3) = fresh_obj s2;
         error = (\<lambda>io s. (upd_resp (respond_with_message kHttpResponseInternalServerError) io, PyGILState_Release s))
     in with_gil (\<lambda>s.
          (case py_obj h of
             None \<Rightarrow> error io s
           | Some obj \<Rightarrow>
              let m = py_attr py obj ''__handle_request''; s4 = new_ref m s
              in case m of
                   None \<Rightarrow> error io s4
                 | Some f \<Rightarrow>
                    if \<not> py_callable py f then error io s4
                    else let (args, s5) = fresh_obj s4;
                             s6 = incref pyres (incref pyreq s5);
                             (ret, io1) = py_call py f req io;
                             s7 = new_ref ret s6
                         in case ret of
                              None \<Rightarrow> error io1 (free_args args pyreq pyres s7)
                            | Some r \<Rightarrow> (io1, PyGILState_Release (free_args args pyreq pyres (decref r s7))))) s3)"

section \<open>Properties of the handler\<close>

lemmas py_ops = PyGILState_Ensure_def PyGILState_Release_def with_gil_def incref_def decref_def new_ref_def fresh_obj_def free_args_def

text \<open>The interpreter's lock is held during every call of the interpreter and given back as often as it was taken.\<close>

lemma python_gil_balanced:
  "\<exists>p s'. python_load_param py h s = Some (p, s') \<and> gil s' = gil s"
  "\<exists>io' s'. python_handle_request py ph req io s = Some (io', s') \<and> gil s' = gil s"
proof -
  show "\<exists>p s'. python_load_param py h s = Some (p, s') \<and> gil s' = gil s"
    by (auto simp: python_load_param_def load_python_handler_def py_ops Let_def split: option.splits)
  show "\<exists>io' s'. python_handle_request py ph req io s = Some (io', s') \<and> gil s' = gil s"
    by (auto simp: python_handle_request_def py_ops Let_def split: option.splits prod.splits)
qed

text \<open>Loading leaves no reference to a module that has no usable constructor.\<close>

lemma failed_load_keeps_refs: "python_load_param py h s = Some (p, s') \<Longrightarrow> py_obj p = None \<Longrightarrow> refs s' = refs s"
  by (auto simp: python_load_param_def load_python_handler_def py_ops Let_def fun_eq_iff split: option.splits if_splits)


text \<open>Every request leaks references: to the numbers made for the request and the response, and to the bound method.\<close>

lemma python_request_leaks:
  assumes "py_obj ph = Some obj" and "py_attr py obj ''__handle_request'' = Some f" and "py_callable py f"
    and "python_handle_request py ph req io s = Some (io', s')"
  shows "refs s' x = refs s x + (if x = f then 1 else 0) + (if x = next_obj s \<or> x = Suc (next_obj s) then 1 else 0)"
  using assms by (auto simp: python_handle_request_def py_ops Let_def split: option.splits prod.splits)

text \<open>A handler that raises an exception after it has answered makes the server send a second answer behind the first.\<close>

lemma exception_after_reply:
  assumes "py_obj ph = Some obj" and "py_attr py obj ''__handle_request'' = Some f" and "py_callable py f" and "py_call py f req io = (None, io1)"
  shows "\<exists>s' more. python_handle_request py ph req io s = Some (upd_resp (respond_with_message kHttpResponseInternalServerError) io1, s') \<and>
    out (respond_with_message kHttpResponseInternalServerError (resp io1)) = out (resp io1) @ status_line kHttpResponseInternalServerError @ more"
proof -
  have "out (add_header ''Content-Type'' v (write_data w (response_reset r))) = out r" for v w r
    by (simp add: add_header_def write_data_def response_reset_def ignore_compare_def Let_def)
  then have "\<exists>more. out (respond_with_message kHttpResponseInternalServerError (resp io1)) = out (resp io1) @ status_line kHttpResponseInternalServerError @ more"
    by (simp add: respond_with_message_def Let_def respond_out)
  then show ?thesis using assms by (auto simp: python_handle_request_def py_ops Let_def)
qed

end
