(* ===== verification/Stage_Threads.thy ===== *)
theory Stage_Threads
  imports Scheduler Controller Utils
begin

text \<open>
  The threads of a scheduler stage: \<open>auto_wait\<close> and the waiting loops of \<open>pick_task\<close> in \<^verbatim>\<open>src/core/pipeline.cc\<close>, and \<open>sched_add\<close>, \<open>sched_remove\<close>, \<open>main_loop\<close> and
  \<open>reschedule_all\<close> of \<^verbatim>\<open>src/core/stages.cc\<close>.  While a thread waits, other threads change the scheduler: a wake-up brings the scheduler and the locks as
  the thread finds them.
\<close>

section \<open>Waiting\<close>

definition kMaxThreadIdle :: int where "kMaxThreadIdle = 500"

text \<open>\<open>timed\<close> is \<open>Condition::timed_wait\<close> as a function of the time limit, \<open>waited\<close> the success of the plain wait; \<open>None\<close> is their exception.\<close>

definition auto_wait :: "nat \<Rightarrow> (int \<Rightarrow> bool option) \<Rightarrow> unit option \<Rightarrow> controller option \<Rightarrow> (bool \<times> controller option) option" where
  "auto_wait thread timed waited ctl =
    (case ctl of
       None \<Rightarrow> map_option (\<lambda>_. (True, ctl)) waited
     | Some c \<Rightarrow>
        if is_auto_created thread c
        then (case timed kMaxThreadIdle of
                None \<Rightarrow> None
              | Some signalled \<Rightarrow> if \<not> signalled then Some (False, Some (exit_auto_thread thread c)) else Some (True, ctl))
        else map_option (\<lambda>_. (True, ctl)) waited)"

text \<open>What the thread finds when it wakes up.\<close>

record wakeup =
  wk_timed :: "int \<Rightarrow> bool option"
  wk_waited :: "unit option"
  wk_try_lock :: "nat \<Rightarrow> bool"
  wk_sched :: qsched
  wk_controller :: "controller option"

datatype pick_outcome = Picked nat qsched | Exited "controller option" | StillWaiting | PickFailed

text \<open>The loops of \<open>pick_task\<close>: an attempt, and a wait behind each attempt that finds nothing.\<close>

fun pick_waiting :: "bool \<Rightarrow> (nat \<Rightarrow> nat) \<Rightarrow> nat \<Rightarrow> (nat \<Rightarrow> bool) \<Rightarrow> qsched \<Rightarrow> controller option \<Rightarrow> wakeup list \<Rightarrow> pick_outcome" where
  "pick_waiting suppress fdof thread try_lock q ctl ws =
    (case pick_task suppress fdof try_lock q of
       None \<Rightarrow> PickFailed
     | Some (Some c, q1) \<Rightarrow> Picked c q1
     | Some (None, q1) \<Rightarrow>
        (case ws of
           [] \<Rightarrow> StillWaiting
         | w # ws' \<Rightarrow>
            (case auto_wait thread (wk_timed w) (wk_waited w) ctl of
               None \<Rightarrow> PickFailed
             | Some (False, ctl1) \<Rightarrow> Exited ctl1
             | Some (True, _) \<Rightarrow> pick_waiting suppress fdof thread (wk_try_lock w) (wk_sched w) (wk_controller w) ws')))"

declare pick_waiting.simps [simp del]

section \<open>Stages with a scheduler\<close>

text \<open>A stage without scheduler ignores the calls.\<close>

definition stage_sched_add :: "(nat \<Rightarrow> nat) \<Rightarrow> nat \<Rightarrow> nat \<Rightarrow> qsched option \<Rightarrow> (bool \<times> qsched option) option" where
  "stage_sched_add fdof addr conn sched =
    (case sched of None \<Rightarrow> Some (True, None) | Some q \<Rightarrow> map_option (\<lambda>(_, q1). (True, Some q1)) (add_task fdof addr conn q))"

definition stage_sched_remove :: "(nat \<Rightarrow> nat) \<Rightarrow> nat \<Rightarrow> qsched option \<Rightarrow> qsched option option" where
  "stage_sched_remove fdof conn sched = (case sched of None \<Rightarrow> Some None | Some q \<Rightarrow> map_option Some (remove_task fdof conn q))"

text \<open>\<open>reschedule\<close>: which stages' threads are woken; a stage is given by whether it has a scheduler, and whether this one suppresses locks.\<close>

definition sched_reschedule :: "bool option \<Rightarrow> bool" where
  "sched_reschedule sched = (case sched of None \<Rightarrow> False | Some suppress \<Rightarrow> \<not> suppress)"

definition reschedule_all :: "bool option list \<Rightarrow> bool list" where
  "reschedule_all stages = map sched_reschedule stages"

text \<open>\<open>main_loop\<close> over the outcomes of its picks: the connections processed, which of them are unlocked afterwards, and whether the thread has ended.\<close>

fun stage_main_loop :: "('s \<Rightarrow> nat \<Rightarrow> int \<times> 's) \<Rightarrow> pick_outcome list \<Rightarrow> 's \<Rightarrow> (nat \<times> bool) list \<times> bool \<times> 's" where
  "stage_main_loop process [] s = ([], False, s)"
| "stage_main_loop process (Picked c q # ps) s =
    (let (r, s1) = process s c; (done_list, ended, s2) = stage_main_loop process ps s1 in ((c, 0 \<le> r) # done_list, ended, s2))"
| "stage_main_loop process (Exited ctl # ps) s = ([], True, s)"
| "stage_main_loop process (StillWaiting # ps) s = ([], False, s)"
| "stage_main_loop process (PickFailed # ps) s = ([], True, s)"

section \<open>What a thread gets\<close>

lemma pick_task_finds:
  assumes "sched_inv fdof q"
  shows "\<exists>q'. pick_task suppress fdof lk q = Some (find (\<lambda>c. suppress \<or> lk c) (sched_queue q), q')"
proof -
  have ok: "sched_ok fdof q (addrs (q_list q))" using assms by (simp add: sched_inv_def)
  show ?thesis using pick_nolock_refines [OF ok] pick_lock_refines [OF ok, of lk] by (cases suppress) (auto simp: pick_task_def sched_queue_def)
qed

text \<open>A thread that gets a connection gets the first one in the queue that it can lock, at its last attempt; before, it found none.\<close>

lemma pick_waiting_first:
  assumes "pick_waiting suppress fdof thread lk q ctl ws = Picked c q'" and "sched_inv fdof q" and "\<forall>w \<in> set ws. sched_inv fdof (wk_sched w)"
  shows "\<exists>k lk' q0. k \<le> length ws \<and> (lk', q0) = ((lk, q) # map (\<lambda>w. (wk_try_lock w, wk_sched w)) ws) ! k \<and>
    find (\<lambda>c. suppress \<or> lk' c) (sched_queue q0) = Some c \<and>
    (\<forall>i < k. \<forall>d \<in> set (sched_queue (snd (((lk, q) # map (\<lambda>w. (wk_try_lock w, wk_sched w)) ws) ! i))).
       \<not> suppress \<and> \<not> fst (((lk, q) # map (\<lambda>w. (wk_try_lock w, wk_sched w)) ws) ! i) d)"
  using assms
proof (induction ws arbitrary: lk q ctl)
  case Nil
  obtain q1 where "pick_task suppress fdof lk q = Some (find (\<lambda>c. suppress \<or> lk c) (sched_queue q), q1)" using pick_task_finds [OF Nil.prems(2)] by blast
  then have "find (\<lambda>c. suppress \<or> lk c) (sched_queue q) = Some c"
    using Nil.prems(1) by (subst (asm) pick_waiting.simps) (auto split: option.splits)
  then show ?case by auto
next
  case (Cons w ws)
  obtain q1 where q1: "pick_task suppress fdof lk q = Some (find (\<lambda>c. suppress \<or> lk c) (sched_queue q), q1)" using pick_task_finds [OF Cons.prems(2)] by blast
  show ?case
  proof (cases "find (\<lambda>c. suppress \<or> lk c) (sched_queue q)")
    case (Some d)
    then have "d = c" using Cons.prems(1) q1 by (subst (asm) pick_waiting.simps) simp
    then show ?thesis using Some by (intro exI [of _ 0] exI [of _ lk] exI [of _ q]) simp
  next
    case None
    then have nf: "\<forall>d \<in> set (sched_queue q). \<not> suppress \<and> \<not> lk d" by (auto simp: find_None_iff)
    have "pick_waiting suppress fdof thread (wk_try_lock w) (wk_sched w) (wk_controller w) ws = Picked c q'"
      using Cons.prems(1) q1 None by (subst (asm) pick_waiting.simps) (auto split: option.splits bool.splits)
    from Cons.IH [OF this] Cons.prems(3) obtain k lk' q0 where
      k: "k \<le> length ws" "(lk', q0) = ((wk_try_lock w, wk_sched w) # map (\<lambda>w. (wk_try_lock w, wk_sched w)) ws) ! k"
        "find (\<lambda>c. suppress \<or> lk' c) (sched_queue q0) = Some c"
        "\<forall>i < k. \<forall>d \<in> set (sched_queue (snd (((wk_try_lock w, wk_sched w) # map (\<lambda>w. (wk_try_lock w, wk_sched w)) ws) ! i))).
           \<not> suppress \<and> \<not> fst (((wk_try_lock w, wk_sched w) # map (\<lambda>w. (wk_try_lock w, wk_sched w)) ws) ! i) d"
      by auto
    have "\<forall>d \<in> set (sched_queue (snd (((lk, q) # map (\<lambda>w. (wk_try_lock w, wk_sched w)) (w # ws)) ! i))).
         \<not> suppress \<and> \<not> fst (((lk, q) # map (\<lambda>w. (wk_try_lock w, wk_sched w)) (w # ws)) ! i) d" if "i < Suc k" for i
      using that nf k(4) by (cases i) auto
    then show ?thesis using k(1-3) by (intro exI [of _ "Suc k"] exI [of _ lk'] exI [of _ q0]) simp
  qed
qed

text \<open>Only a thread the controller has created ends, when its wait times out, and the controller forgets it.\<close>

lemma pick_waiting_exit:
  assumes "pick_waiting suppress fdof thread lk q ctl ws = Exited ctl'"
  shows "\<exists>c. ctl' = Some (exit_auto_thread thread c) \<and> is_auto_created thread c \<and> \<not> is_auto_created thread (exit_auto_thread thread c)"
  using assms
proof (induction ws arbitrary: lk q ctl)
  case Nil
  then show ?case by (subst (asm) pick_waiting.simps) (auto split: option.splits)
next
  case (Cons w ws)
  from Cons.prems consider "auto_wait thread (wk_timed w) (wk_waited w) ctl = Some (False, ctl')"
    | "pick_waiting suppress fdof thread (wk_try_lock w) (wk_sched w) (wk_controller w) ws = Exited ctl'"
    by (subst (asm) pick_waiting.simps) (auto split: option.splits bool.splits)
  then show ?case
  proof cases
    case 1
    then show ?thesis by (auto simp: auto_wait_def exit_auto_thread_def is_auto_created_def split: option.splits if_splits)
  next
    case 2
    then show ?thesis by (rule Cons.IH)
  qed
qed

end
