(* ===== verification/Support.thy ===== *)
theory Support
  imports Utils
begin

text \<open>
  The remaining helpers: conditions (\<^verbatim>\<open>src/utils/lock.cc\<close>), socket flags (\<^verbatim>\<open>src/utils/misc.cc\<close>), internet addresses (\<^verbatim>\<open>src/core/inet_address.{h,cc}\<close>), the
  logger (\<^verbatim>\<open>src/utils/logger.cc\<close>) and exception messages (\<^verbatim>\<open>src/utils/exception.{h,cc}\<close>).  System calls are parameters, an exception is \<open>None\<close>.
\<close>

unbundle bit_operations_syntax

section \<open>Conditions\<close>

definition Condition_notify_one :: "int \<Rightarrow> unit option" where
  "Condition_notify_one pthread_cond_signal = (if pthread_cond_signal \<noteq> 0 then None else Some ())"

definition Condition_notify_all :: "int \<Rightarrow> unit option" where
  "Condition_notify_all pthread_cond_broadcast = (if pthread_cond_broadcast \<noteq> 0 then None else Some ())"

definition Condition_wait :: "int \<Rightarrow> unit option" where
  "Condition_wait pthread_cond_wait = (if pthread_cond_wait \<noteq> 0 then None else Some ())"

section \<open>Sockets and threads\<close>

definition O_NONBLOCK :: "32 word" where "O_NONBLOCK = 0x800"

text \<open>\<open>getfl\<close> is the result of \<open>F_GETFL\<close> (\<open>None\<close> for an error), \<open>setfl\<close> whether \<open>F_SETFL\<close> succeeds; the result is the socket's flags afterwards.\<close>

definition set_socket_blocking :: "32 word option \<Rightarrow> (32 word \<Rightarrow> bool) \<Rightarrow> bool \<Rightarrow> 32 word option" where
  "set_socket_blocking getfl setfl block =
    (case getfl of
       None \<Rightarrow> None
     | Some origflags \<Rightarrow>
        let flags = (if block then origflags AND NOT O_NONBLOCK else origflags OR O_NONBLOCK)
        in if origflags \<noteq> flags \<and> \<not> setfl flags then None else Some flags)"

text \<open>\<open>create_thread\<close>: the thread's number, or \<open>-1\<close>; whether the function object on the heap is left behind.\<close>

definition create_thread :: "int + nat \<Rightarrow> int \<times> bool" where
  "create_thread created = (case created of Inl err \<Rightarrow> (-1, True) | Inr tid \<Rightarrow> (int tid, False))"

text \<open>Setting the mode changes one flag, and does nothing when it is as wanted.\<close>

lemma set_socket_blocking_flags:
  assumes "set_socket_blocking (Some f) setfl block = Some f'"
  shows "bit f' n = (if n = 11 then \<not> block else bit f n)"
proof -
  have b: "bit O_NONBLOCK m = (m = 11)" if "m < 32" for m
  proof -
    have nb: "O_NONBLOCK = push_bit 11 1" by (simp add: O_NONBLOCK_def)
    show ?thesis unfolding nb bit_push_bit_iff bit_1_iff using that by (auto simp: possible_bit_def exp_eq_zero_iff)
  qed
  have "f' = (if block then f AND NOT O_NONBLOCK else f OR O_NONBLOCK)"
    using assms by (auto simp: set_socket_blocking_def Let_def split: if_splits)
  then show ?thesis using b [of n] by (cases "n < 32") (auto simp: bit_simps dest: bit_imp_le_length)
qed

lemma set_socket_blocking_again:
  assumes "set_socket_blocking (Some f) setfl block = Some f'"
  shows "set_socket_blocking (Some f') (\<lambda>_. False) block = Some f'"
proof -
  have "f' = (if block then f AND NOT O_NONBLOCK else f OR O_NONBLOCK)"
    using assms by (auto simp: set_socket_blocking_def Let_def split: if_splits)
  then show ?thesis by (simp add: set_socket_blocking_def and.assoc or.assoc)
qed

section \<open>Internet addresses\<close>

datatype inet_family = AF_INET | AF_INET6 | AF_OTHER

text \<open>The union of the two address structures: family, the two bytes of the port as they stand in memory, and the address.\<close>

record inet_address =
  ia_family :: inet_family
  ia_port :: "8 word \<times> 8 word"
  ia_addr :: "byte list"

definition InternetAddress :: inet_address where
  "InternetAddress = \<lparr>ia_family = AF_OTHER, ia_port = (0, 0), ia_addr = replicate 16 0\<rparr>"

definition max_address_length :: nat where "max_address_length = 28"

definition address_length :: "inet_address \<Rightarrow> nat option" where
  "address_length a = (case ia_family a of AF_INET \<Rightarrow> Some 16 | AF_INET6 \<Rightarrow> Some 28 | AF_OTHER \<Rightarrow> None)"

text \<open>\<open>inet_ntop\<close> writes into a buffer of the given size.\<close>

definition address_string :: "(inet_family \<Rightarrow> byte list \<Rightarrow> nat \<Rightarrow> string option) \<Rightarrow> inet_address \<Rightarrow> string option" where
  "address_string inet_ntop a =
    (case ia_family a of
       AF_INET \<Rightarrow> inet_ntop AF_INET (ia_addr a) 16
     | AF_INET6 \<Rightarrow> inet_ntop AF_INET6 (ia_addr a) 46
     | AF_OTHER \<Rightarrow> None)"

text \<open>\<open>port\<close> reads the two bytes as a number of a little-endian machine; \<open>-1\<close> as an unsigned short for other families.\<close>

definition inet_port :: "inet_address \<Rightarrow> 16 word" where
  "inet_port a =
    (case ia_family a of
       AF_OTHER \<Rightarrow> - 1
     | _ \<Rightarrow> word_of_nat (unat (fst (ia_port a)) + 256 * unat (snd (ia_port a))))"

lemma address_fits: "address_length a = Some n \<Longrightarrow> n \<le> max_address_length"
  by (auto simp: address_length_def max_address_length_def split: inet_family.splits)

text \<open>The port stands in memory in network order and is not converted: port 80 is reported as 20480.\<close>

lemma port_not_converted: "inet_port \<lparr>ia_family = AF_INET, ia_port = (0, 80), ia_addr = ad\<rparr> = 20480"
  by (simp add: inet_port_def)

section \<open>Logger\<close>

definition MAX_LOG_LENGTH :: nat where "MAX_LOG_LENGTH = 1024"
definition LOG_ERROR :: int where "LOG_ERROR = 0"
definition LOG_WARNING :: int where "LOG_WARNING = 1"
definition LOG_INFO :: int where "LOG_INFO = 2"
definition LOG_DEBUG :: int where "LOG_DEBUG = 3"

datatype log_writer = StdLogWriter | FileLogWriter string

record logger =
  current_level :: int
  log_writer :: log_writer
  log_lines :: "string list"

text \<open>\<open>LOG_FILE\<close> names a file; when it cannot be opened the constructor throws.\<close>

definition Logger :: "string option \<Rightarrow> (string \<Rightarrow> bool) \<Rightarrow> logger option" where
  "Logger env can_open =
    (case env of
       None \<Rightarrow> Some \<lparr>current_level = LOG_INFO, log_writer = StdLogWriter, log_lines = []\<rparr>
     | Some f \<Rightarrow> if can_open f then Some \<lparr>current_level = LOG_INFO, log_writer = FileLogWriter f, log_lines = []\<rparr> else None)"

definition set_level :: "int \<Rightarrow> logger \<Rightarrow> logger" where
  "set_level level l = l\<lparr>current_level := level\<rparr>"

definition level_to_string :: "int \<Rightarrow> string" where
  "level_to_string level =
    (if level = LOG_ERROR then ''ERROR'' else if level = LOG_WARNING then ''WARNING'' else if level = LOG_INFO then ''INFO''
     else if level = LOG_DEBUG then ''DEBUG'' else '''')"

text \<open>\<open>snprintf\<close> into a buffer of \<open>MAX_LOG_LENGTH\<close> bytes; \<open>tmstr\<close> is the formatted time.\<close>

definition logger_log :: "string \<Rightarrow> int \<Rightarrow> string \<Rightarrow> logger \<Rightarrow> logger" where
  "logger_log tmstr level str l =
    (if level > current_level l then l
     else l\<lparr>log_lines := log_lines l @ [take (MAX_LOG_LENGTH - 1) (''['' @ level_to_string level @ ''] '' @ tmstr @ '' '' @ str)]\<rparr>)"

text \<open>The macro \<open>LOG\<close> formats the message into a buffer of the same size first.\<close>

definition LOG :: "string \<Rightarrow> int \<Rightarrow> string \<Rightarrow> logger \<Rightarrow> logger" where
  "LOG tmstr level msg l = logger_log tmstr level (take (MAX_LOG_LENGTH - 1) msg) l"

text \<open>A line carries its whole message when prefix and message fit, nothing below the level is written, and no line is longer than the buffer.\<close>

lemma log_line:
  assumes "length (''['' @ level_to_string level @ ''] '' @ tmstr @ '' '' @ msg) < MAX_LOG_LENGTH"
  shows "log_lines (LOG tmstr level msg l) =
    (if level \<le> current_level l then log_lines l @ [''['' @ level_to_string level @ ''] '' @ tmstr @ '' '' @ msg] else log_lines l)"
  using assms by (simp add: LOG_def logger_log_def MAX_LOG_LENGTH_def)

lemma log_bounded: "\<forall>s \<in> set (log_lines l). length s < MAX_LOG_LENGTH \<Longrightarrow> \<forall>s \<in> set (log_lines (LOG tmstr level msg l)). length s < MAX_LOG_LENGTH"
  by (auto simp: LOG_def logger_log_def MAX_LOG_LENGTH_def)

section \<open>Exceptions\<close>

text \<open>\<open>Exception\<close> keeps the symbols of the call stack, one per line; the derived exceptions put their own line before them.\<close>

definition Exception_msg :: "string list \<Rightarrow> string" where
  "Exception_msg symbols = concat (map (\<lambda>s. s @ [CHR 0x0A]) symbols)"

definition BufferFullException_msg :: "(int \<Rightarrow> string) \<Rightarrow> int \<Rightarrow> string list \<Rightarrow> string" where
  "BufferFullException_msg show_int max_size symbols = ''buffer size reached limit '' @ show_int max_size @ [CHR 0x0A] @ Exception_msg symbols"

definition ThreadCreationException_msg :: "string list \<Rightarrow> string" where
  "ThreadCreationException_msg symbols = ''Cannot create thread'' @ [CHR 0x0A] @ Exception_msg symbols"

end
