(* ===== verification/Spec2Isabelle.thy ===== *)
theory Spec2Isabelle
  imports Mempool Fcgi_Handler Fcgi_Loop Fcgi_Content Module_Init Poller_Backends Http_Wire Python_Handler Stage_Threads Support
begin

text \<open>
  \<^bold>\<open>Verification of the Tube web server.\<close>

  Tube is a staged, event-driven HTTP server in C++.  A connection is accepted, read by the poll-in stage into its input
  stream, parsed into requests by the parser stage, answered by the handler stage, and its output stream is sent by the write
  back stage.  Stages hand connections to each other through schedulers; a connection is locked while a stage works on it.
  Handlers form chains chosen by URL rules; the static file handler and the FastCGI handler are part of the program.  A handler that cannot answer at
  once suspends the connection with a continuation, as the FastCGI handler does while the completion stage talks to the application.

  \<^bold>\<open>Theories and sources.\<close>

  \<^item> \<open>Prelude\<close>: machine types, \<open>memcpy\<close>, conversions between \<open>int\<close> and \<open>size_t\<close>, list lemmas.
  \<^item> \<open>Buffer\<close>, \<open>Buffer_World\<close> (\<^verbatim>\<open>core/buffer.{h,cc}\<close>): the paged copy-on-write buffer on an explicit store of shared page lists.  Each method is a
    function on buffer and store; \<open>contents\<close> is the byte string a buffer stands for.  Every operation is described on that string, including page
    boundaries, and \<open>op_spec\<close> says what happens to all other buffers.  \<open>Buffer_World\<close> runs whole programs of buffer operations against independent byte strings.
  \<^item> \<open>Utils\<close> (\<^verbatim>\<open>utils/misc.*\<close>, \<^verbatim>\<open>utils/lock.*\<close>), \<open>Mempool\<close> (\<^verbatim>\<open>utils/mempool.*\<close>), \<open>Linked_List\<close> (\<^verbatim>\<open>utils/list.h\<close>), \<open>Fd_Map\<close> (\<^verbatim>\<open>utils/fdmap.h\<close>): string helpers, locks, the object
    pool, the intrusive list on a node store, the descriptor table.  The table's contract is the locale \<open>fd_map\<close>.
  \<^item> \<open>Stream\<close> (\<^verbatim>\<open>core/stream.*\<close>, \<^verbatim>\<open>core/filesender.*\<close>): output streams of buffers and files; the locale \<open>writeable\<close> is the contract of an item.
  \<^item> \<open>Timer\<close>, \<open>Poller\<close>, \<open>Scheduler\<close>, \<open>Stages\<close> (\<^verbatim>\<open>core/timer.*\<close>, \<^verbatim>\<open>core/poller.*\<close>, \<^verbatim>\<open>core/poller_impl/epoll_poller.cc\<close>, \<^verbatim>\<open>core/pipeline.*\<close>, \<^verbatim>\<open>core/stages.*\<close>): the ordered map of
    callbacks, descriptor registration, the queue shared by the threads of a stage with its condition variable as a step relation (contract: locale \<open>scheduler\<close>), connections,
    polling, writing back and disposal.
  \<^item> \<open>Http_Wrapper\<close>, \<open>Response\<close> (\<^verbatim>\<open>http/http_wrapper.*\<close>, \<^verbatim>\<open>core/wrapper.*\<close>): status codes, header lookup, URL decoding, construction and flushing of responses.
  \<^item> \<open>Configuration\<close>, \<open>Http_Connection\<close>, \<open>Http_Stages\<close>, \<open>Controller\<close> (\<^verbatim>\<open>http/configuration.*\<close>, \<^verbatim>\<open>http/interface.*\<close>, \<^verbatim>\<open>http/connection.*\<close>, \<^verbatim>\<open>http/http_stages.*\<close>, \<^verbatim>\<open>core/controller.*\<close>):
    routing, assembly of requests from parser callbacks, the parser and handler stages, load accounting and automatic threads.
  \<^item> \<open>Io_Cache\<close>, \<open>Static_Handler\<close> (\<^verbatim>\<open>http/io_cache.*\<close>, \<^verbatim>\<open>http/static_handler.*\<close>): the file cache and the static file handler.
  \<^item> \<open>Fcgi_Proto\<close>, \<open>Connection_Pool\<close>, \<open>Fcgi_Completion\<close>, \<open>Fcgi_Loop\<close>, \<open>Fcgi_Handler\<close> (\<^verbatim>\<open>modules/mod_fcgi\<close>): the FastCGI wire format, the pool of
    sockets (contract: locale \<open>socket_pool\<close>), the transfer state machine, its polling loop with the time limits, and the handler that composes them.
  \<^item> \<open>Fcgi_Content\<close> (\<^verbatim>\<open>modules/mod_fcgi/fcgi_content_parser.rl\<close>): the parser of the header lines of a reply, as the automaton of its grammar; \<open>fcgi_lib\<close> is the parser as the completion
    stage uses it, and \<open>lines_parse\<close> the parser without marks that it refines.
  \<^item> \<open>Poll_Loops\<close> (\<^verbatim>\<open>core/stages.cc\<close>): the loops of the poll-in and poll-out stages, from the creation of a poller to the rounds of \<open>epoll_wait\<close>, and the well-formedness \<open>stages_ok\<close> of the
    tables, timers and indices the stages share.
  \<^item> \<open>Server\<close> (\<^verbatim>\<open>core/pipeline.cc\<close>, \<^verbatim>\<open>core/stages.cc\<close>, \<^verbatim>\<open>core/server.*\<close>, \<^verbatim>\<open>http/server.cc\<close>): the registry of stages, construction and initialization of all stages, binding, listening, the command
    line, the accept loop, the destructors, and the whole of the stages as a step relation \<open>stage_step\<close>.
  \<^item> \<open>Poller_Backends\<close> (\<^verbatim>\<open>core/poller_impl/kqueue_poller.cc\<close>, \<^verbatim>\<open>core/poller_impl/port_completion_poller.cc\<close>): the pollers of other systems; the locale \<open>registry\<close> is the contract of queued registration.
  \<^item> \<open>Stage_Threads\<close> (\<^verbatim>\<open>core/pipeline.cc\<close>, \<^verbatim>\<open>core/stages.cc\<close>): the threads of a scheduler stage, their waiting loops and their exit.
  \<^item> \<open>Http_Parser\<close> (\<^verbatim>\<open>http/http_parser.{rl,h}\<close>): the HTTP parser, as the automaton its Ragel grammar denotes (\<open>transition\<close>) with the actions on its transitions, the loop \<open>exec\<close> and the
    functions around it; \<open>http_lib\<close> is the parser as the connections use it.  \<open>Http_Parser_Cuts\<close>: the \<open>digest\<close> is what the callbacks spell; it does not depend on the pieces the input is cut into.
    \<open>Http_Request_Text\<close>: the text of a request, and that the parser reads it back.
  \<^item> \<open>Http_Flow\<close>, \<open>Http_Wire\<close> (\<^verbatim>\<open>http/connection.cc\<close>, \<^verbatim>\<open>http/http_stages.cc\<close>): the way of requests from the pages of the input buffer through parser, callbacks, routing and stages to the answer of the
    static handler.  The locale \<open>text_parser\<close> is what a connection needs of its parser; \<open>http_lib\<close> is its instance.
  \<^item> \<open>Capi\<close> (\<^verbatim>\<open>http/capi_impl.cc\<close>, \<^verbatim>\<open>http/module.c\<close>), \<open>Python_Handler\<close> (\<^verbatim>\<open>modules/mod_python\<close>): the C interface, the module loader and the handler for Python code, with the
    dynamic linker and the interpreter as parameters.
  \<^item> \<open>Module_Init\<close> (\<^verbatim>\<open>http/server.cc\<close>, \<^verbatim>\<open>*.mod.c\<close>, the module hooks): the modules of the repository and the start of the process, in which their hooks run before the server's stages are constructed.
  \<^item> \<open>Support\<close> (\<^verbatim>\<open>utils/lock.cc\<close>, \<^verbatim>\<open>utils/misc.cc\<close>, \<^verbatim>\<open>utils/logger.cc\<close>, \<^verbatim>\<open>utils/exception.*\<close>, \<^verbatim>\<open>core/inet_address.*\<close>): conditions, socket flags, addresses, log lines and exception messages.

  \<^bold>\<open>State and errors.\<close>  A class is a record, its methods are functions that return the new record; memory that is shared is in an explicit store.  Machine
  integers are words where wrap-around matters (flags, lengths of FastCGI records, memory counters), otherwise integers with the conversions written out.
  \<open>None\<close> as result of a method is a failed assertion, an invalid iterator or a read outside an array; error codes and exceptions are values.

  \<^bold>\<open>What is shown.\<close>  Buffers and streams: bytes are neither lost, duplicated nor reordered, by single operations and by whole programs.  Containers, timer, scheduler and cache refine
  sequences, maps, a queue with one entry per descriptor and a least-recently-used list.  Stages keep the locks of connections, dispose of each connection completely, and serve pipelined requests in
  order until none is left; no step of the poll stages, in any order of events, leaves the states on which all of them are defined.  Requests are read back from the wire as they were written, in any pieces and one behind the other, queued with their route, and a \<open>GET\<close> request passes all
  stages and is answered with the file it asks for; bodies stay in the input, and fields that are too long are refused.  Requests are routed by the first matching rule; responses are framed with their length; static
  paths stay below the document root.  FastCGI requests decode to the request's variables, the head of a reply is parsed to its header lines and status over any pages, replies are forwarded unchanged, a connection leaves the completion stage once, also by its time limit, and sockets of the pool are exclusive.  Loading a directory registers exactly the modules that can be loaded.  Round trips cover requests, URL
  encoding, dates and FastCGI records.  A number of theorems and lemmas describe behaviour that contradicts the evident intention of the code; their texts say so.

  \<^bold>\<open>Parameters.\<close>  System calls (\<open>readv\<close>, \<open>writev\<close>, \<open>sendfile\<close>, \<open>epoll_ctl\<close>, \<open>socket\<close>, the file system, the clock), \<open>zlib\<close>, regular expressions and the calendar are arguments of the definitions.  The
  connection and its stages take any parser as an argument, and so does the completion stage for the header lines of a reply; \<open>http_lib\<close> and \<open>fcgi_lib\<close> are the parsers of the program.  Hypotheses about them state documented behaviour, such as that \<open>readv\<close>
  delivers at most what it is given room for and that \<open>socket\<close> returns a descriptor that is not open.

  \<^bold>\<open>Loops.\<close>  Loops are total functions with a measure (appending pages, the parser's loop, the reading loop up to its threshold, FastCGI parsing, where every round removes a record).  Loops that can fail to end are
  \<open>partial_function (option)\<close>: the timer walk, the blocking flush and the compression loop; the theorems prove that the first two end under their conditions.  There is no fuel.  Sizes are bounded by
  \<open>in_int_range\<close> ($2^{31}$) where \<open>Buffer::pop\<close> computes in \<open>int\<close>.

  \<^bold>\<open>Not modelled.\<close>  The tables Ragel generates, which are not in the repository: the automata are written from the grammars; the quit signal, whose handler only ends the process, and the destruction of single stages, which would run
  while other threads still use them; the wrapper classes the Python module exports, which only forward; the creation of threads beyond its result.
\<close>

end
